(* ===== verification/Prelude.thy ===== *)
theory Prelude
  imports "HOL-Library.Word"
begin

text \<open>
  Shared vocabulary of the development: bytes, nullable character pointers,
  the C++ exceptions of the library as error values, the integer limits the
  code tests against, and the generic facts on lists and bytes that the
  component theories rest on.

  \<^item> A byte of a \<open>const char*\<close> buffer is an \<open>8 word\<close>; comparisons, masks and
    shifts of the source are those of the word.
  \<^item> A pointer is \<open>NullPtr\<close> or \<open>Ptr a bs\<close>: an address and the bytes that can
    be read from it. Pointer comparison looks at the address only, pointer
    arithmetic moves the address and drops bytes.
  \<^item> A call that can throw returns \<open>cxx_error + 'a\<close>; \<open>bindE\<close> propagates the
    exception the way the C++ unwinding does.
\<close>

named_theorems u8_bytes \<open>range characterisations of the byte classification macros\<close>
named_theorems view_simps \<open>unfolding rules of string views and pointers\<close>

type_synonym byte = "8 word"

text \<open>The limits \<open>INT_MAX\<close> (also \<open>R_LEN_T_MAX\<close>) and \<open>SIZE_MAX\<close> of the targets the
  package supports, and \<open>NA_INTEGER\<close>, the smallest \<open>int\<close>.\<close>

definition INT_MAX :: int where "INT_MAX = 2147483647"
definition SIZE_MAX :: nat where "SIZE_MAX = 18446744073709551615"
definition NA_INTEGER :: int where "NA_INTEGER = - 2147483648"

subsection \<open>Exceptions\<close>

datatype cxx_error =
    Invalid_argument string
  | Logic_error string
  | Length_error string
  | Out_of_range string
  | Runtime_error string

type_synonym 'a result = "cxx_error + 'a"

definition bindE :: "'e + 'a \<Rightarrow> ('a \<Rightarrow> 'e + 'b) \<Rightarrow> 'e + 'b" where
  "bindE m f = (case m of Inl e \<Rightarrow> Inl e | Inr x \<Rightarrow> f x)"

lemma bindE_simps [simp]:
  "bindE (Inl e) f = Inl e"
  "bindE (Inr x) f = f x"
  by (simp_all add: bindE_def)

lemma bindE_eq_Inr: "bindE m f = Inr y \<longleftrightarrow> (\<exists>x. m = Inr x \<and> f x = Inr y)"
  by (cases m) auto

lemma bindE_eq_Inl: "bindE m f = Inl e \<longleftrightarrow> m = Inl e \<or> (\<exists>x. m = Inr x \<and> f x = Inl e)"
  by (cases m) auto

lemma bindE_assoc: "bindE (bindE m f) g = bindE m (\<lambda>x. bindE (f x) g)"
  by (cases m) auto

subsection \<open>Pointers\<close>

datatype cptr = NullPtr | Ptr nat "byte list"

fun ptr_bytes :: "cptr \<Rightarrow> byte list" where
  "ptr_bytes NullPtr = []"
| "ptr_bytes (Ptr a bs) = bs"

fun ptr_add :: "cptr \<Rightarrow> nat \<Rightarrow> cptr" where
  "ptr_add NullPtr k = NullPtr"
| "ptr_add (Ptr a bs) k = Ptr (a + k) (drop k bs)"

fun ptr_eq :: "cptr \<Rightarrow> cptr \<Rightarrow> bool" where
  "ptr_eq NullPtr NullPtr = True"
| "ptr_eq (Ptr a _) (Ptr b _) = (a = b)"
| "ptr_eq _ _ = False"

lemma ptr_eq_refl [simp]: "ptr_eq p p"
  by (cases p) auto

lemma ptr_add_bytes [view_simps]: "ptr_bytes (ptr_add p k) = drop k (ptr_bytes p)"
  by (cases p) auto

subsection \<open>Bytes\<close>

lemma unat_byte_less [simp]: "unat (b :: byte) < 256"
proof -
  have "(unsigned b :: nat) < 2 ^ LENGTH(8)" by (rule unsigned_less)
  then show ?thesis by simp
qed

lemma byte_all: "(\<forall>c::byte. P c) \<longleftrightarrow> (\<forall>n\<in>set [0..<256]. P (word_of_nat n))"
proof
  assume *: "\<forall>n\<in>set [0..<256]. P (word_of_nat n)"
  show "\<forall>c. P c"
  proof
    fix c :: byte
    have "unat c \<in> set [0..<256]" by simp
    with * have "P (word_of_nat (unat c))" by blast
    then show "P c" by simp
  qed
qed auto

lemma byte_range_all:
  "(\<forall>c::byte. lo \<le> c \<and> c \<le> hi \<longrightarrow> P c) \<longleftrightarrow> (\<forall>n\<in>set [unat lo..<Suc (unat hi)]. P (word_of_nat n))"
proof
  assume *: "\<forall>n\<in>set [unat lo..<Suc (unat hi)]. P (word_of_nat n)"
  show "\<forall>c. lo \<le> c \<and> c \<le> hi \<longrightarrow> P c"
  proof (intro allI impI)
    fix c :: byte
    assume "lo \<le> c \<and> c \<le> hi"
    then have "unat c \<in> set [unat lo..<Suc (unat hi)]"
      by (auto simp: word_le_nat_alt)
    with * have "P (word_of_nat (unat c))" by blast
    then show "P c" by simp
  qed
next
  assume *: "\<forall>c. lo \<le> c \<and> c \<le> hi \<longrightarrow> P c"
  show "\<forall>n\<in>set [unat lo..<Suc (unat hi)]. P (word_of_nat n)"
  proof
    fix n assume n: "n \<in> set [unat lo..<Suc (unat hi)]"
    have "unat hi < 256" by simp
    with n have "unat (word_of_nat n :: byte) = n"
      by (auto simp: unat_of_nat take_bit_nat_eq_self_iff simp del: unat_byte_less)
    with n have "lo \<le> word_of_nat n \<and> word_of_nat n \<le> hi"
      by (auto simp: word_le_nat_alt)
    with * show "P (word_of_nat n)" by blast
  qed
qed

subsection \<open>Lists\<close>

text \<open>The bytes of a half-open byte range of a buffer.\<close>

definition slice :: "'a list \<Rightarrow> nat \<Rightarrow> nat \<Rightarrow> 'a list" where
  "slice xs i j = take (j - i) (drop i xs)"

lemma length_slice [simp]: "j \<le> length xs \<Longrightarrow> length (slice xs i j) = j - i"
  by (simp add: slice_def)

lemma slice_append: "i \<le> j \<Longrightarrow> j \<le> k \<Longrightarrow> slice xs i j @ slice xs j k = slice xs i k"
proof -
  assume "i \<le> j" "j \<le> k"
  then obtain a b where ab: "j = i + a" "k = j + b"
    by (metis le_Suc_ex)
  show ?thesis
    unfolding slice_def ab by (simp add: take_add add.commute)
qed

lemma slice_empty [simp]: "slice xs i i = []"
  by (simp add: slice_def)

lemma slice_all [simp]: "slice xs 0 (length xs) = xs"
  by (simp add: slice_def)

lemma slice_from_0: "slice xs 0 j = take j xs"
  by (simp add: slice_def)

lemma slice_to_end: "slice xs i (length xs) = drop i xs"
  by (simp add: slice_def)

lemma nth_slice: "k < j - i \<Longrightarrow> j \<le> length xs \<Longrightarrow> slice xs i j ! k = xs ! (i + k)"
  by (simp add: slice_def)

lemma slice_take: "j \<le> n \<Longrightarrow> slice (take n xs) i j = slice xs i j"
  by (simp add: slice_def drop_take min_def)

lemma set_slice: "set (slice xs i j) \<subseteq> set xs"
  unfolding slice_def by (meson order_trans set_drop_subset set_take_subset)

text \<open>Searching an interval of indices yields the least hit.\<close>

lemma find_upt_Some:
  "find P [a..<b] = Some i \<longleftrightarrow> a \<le> i \<and> i < b \<and> P i \<and> (\<forall>j. a \<le> j \<and> j < i \<longrightarrow> \<not> P j)"
proof (induction "b - a" arbitrary: a)
  case (Suc d)
  then have upt: "[a..<b] = a # [Suc a..<b]" by (simp add: upt_conv_Cons)
  have le: "a \<le> j \<longleftrightarrow> j = a \<or> Suc a \<le> j" for j by auto
  have "a < b" "d = b - Suc a" using Suc(2) by linarith+
  with Suc(1) [of "Suc a"] show ?case
    unfolding upt le by (cases "P a") auto
qed auto

lemma find_upt_None: "find P [a..<b] = None \<longleftrightarrow> (\<forall>j. a \<le> j \<and> j < b \<longrightarrow> \<not> P j)"
  by (auto simp: find_None_iff)

lemma find_upt_skip:
  "(\<And>j. a \<le> j \<Longrightarrow> j < c \<Longrightarrow> j < b \<Longrightarrow> \<not> P j) \<Longrightarrow> a \<le> c \<Longrightarrow> find P [a..<b] = find P [c..<b]"
proof -
  assume skip: "\<And>j. a \<le> j \<Longrightarrow> j < c \<Longrightarrow> j < b \<Longrightarrow> \<not> P j" and "a \<le> c"
  show ?thesis
  proof (cases "find P [a..<b]")
    case None
    then have "find P [c..<b] = None" using \<open>a \<le> c\<close> by (simp add: find_upt_None)
    with None show ?thesis by simp
  next
    case (Some i)
    then have "find P [c..<b] = Some i"
      using skip [of i] \<open>a \<le> c\<close> unfolding find_upt_Some by (metis not_le order_trans)
    with Some show ?thesis by simp
  qed
qed

subsection \<open>Buffers\<close>

text \<open>\<open>memcpy (dst + off, src, n)\<close> on the contents of the destination buffer.\<close>

definition memcpy_at :: "'a list \<Rightarrow> nat \<Rightarrow> 'a list \<Rightarrow> nat \<Rightarrow> 'a list" where
  "memcpy_at dst off src n = take off dst @ take n src @ drop (off + n) dst"

lemma length_memcpy_at [simp]:
  "off + n \<le> length dst \<Longrightarrow> n \<le> length src \<Longrightarrow> length (memcpy_at dst off src n) = length dst"
  by (simp add: memcpy_at_def)

lemma memcpy_at_0 [simp]: "memcpy_at dst off src 0 = dst"
  by (simp add: memcpy_at_def)

lemma take_memcpy_at:
  "off + n \<le> length dst \<Longrightarrow> n \<le> length src \<Longrightarrow>
   take (off + n) (memcpy_at dst off src n) = take off dst @ take n src"
  by (simp add: memcpy_at_def)

lemma drop_memcpy_at:
  "off + n \<le> length dst \<Longrightarrow> n \<le> length src \<Longrightarrow> off + n \<le> k \<Longrightarrow>
   drop k (memcpy_at dst off src n) = drop k dst"
  by (simp add: memcpy_at_def min_def)

text \<open>A writer that fills a buffer from the left: the buffer after \<open>used\<close> bytes
  holds the text written so far and is untouched behind it.\<close>

definition filled :: "'a list \<Rightarrow> nat \<Rightarrow> 'a list \<Rightarrow> 'a list \<Rightarrow> bool" where
  "filled buf0 used txt buf \<longleftrightarrow>
     length txt = used \<and> used \<le> length buf0 \<and> buf = txt @ drop used buf0"

lemma filled_start [simp]: "filled buf0 0 [] buf0"
  by (simp add: filled_def)

lemma filled_memcpy:
  assumes "filled buf0 used txt buf" "used + n \<le> length buf0" "n \<le> length src"
  shows "filled buf0 (used + n) (txt @ take n src) (memcpy_at buf used src n)"
  using assms by (auto simp: filled_def memcpy_at_def add.commute)

lemma filled_all: "filled buf0 (length buf0) txt buf \<Longrightarrow> buf = txt"
  by (simp add: filled_def)

subsection \<open>Joined lists\<close>

text \<open>Pieces with a separator between neighbours.\<close>

fun join_with :: "byte list \<Rightarrow> byte list list \<Rightarrow> byte list" where
  "join_with P [] = []"
| "join_with P [x] = x"
| "join_with P (x # y # xs) = x @ P @ join_with P (y # xs)"

lemma join_with_Cons: "xs \<noteq> [] \<Longrightarrow> join_with P (x # xs) = x @ P @ join_with P xs"
  by (cases xs) auto

lemma join_with_concat: "join_with P (x # xs) = x @ concat (map (\<lambda>y. P @ y) xs)"
  by (induction xs arbitrary: x) auto

lemma join_with_snoc: "join_with P (xs @ [x]) = (if xs = [] then x else join_with P xs @ P @ x)"
  by (cases xs) (simp_all add: join_with_concat)

lemma join_with_Nil_sep: "join_with [] xs = concat xs"
  by (cases xs) (simp_all add: join_with_concat)

lemma length_join_with:
  "length (join_with P xs) = sum_list (map length xs) + (length xs - 1) * length P"
  by (cases xs) (simp_all add: join_with_concat length_concat o_def sum_list_addf sum_list_triv)

lemma set_join_with: "set (join_with P xs) \<subseteq> set (concat xs) \<union> (if length xs \<le> 1 then {} else set P)"
  by (induction P xs rule: join_with.induct) (auto split: if_splits)

subsection \<open>Two-pass producers\<close>

text \<open>The conversion of a signed length to \<open>size_t\<close>.\<close>

definition size_cast :: "int \<Rightarrow> nat" where
  "size_cast l = nat (l mod 18446744073709551616)"

lemma size_cast_nonneg [simp]: "0 \<le> l \<Longrightarrow> l \<le> INT_MAX \<Longrightarrow> size_cast l = nat l"
  by (simp add: size_cast_def INT_MAX_def)

text \<open>Results are produced in two passes: one computes the size, or that the result exceeds
  an R string, the other fills a buffer of that size. What the callers rely on is that
  the two passes agree.\<close>

locale two_pass =
  fixes valid :: "'i \<Rightarrow> bool"
    and size_of :: "'i \<Rightarrow> nat option"
    and write_to :: "'i \<Rightarrow> byte list \<Rightarrow> byte list"
    and text_of :: "'i \<Rightarrow> byte list"
  assumes size_exact: "valid i \<Longrightarrow>
      size_of i = (if int (length (text_of i)) \<le> INT_MAX then Some (length (text_of i)) else None)"
    and write_exact: "valid i \<Longrightarrow> length out = length (text_of i) \<Longrightarrow> write_to i out = text_of i"
begin

lemma produce:
  "valid i \<Longrightarrow> size_of i = Some n \<Longrightarrow> length out = n \<Longrightarrow> write_to i out = text_of i"
  by (auto simp: size_exact write_exact split: if_splits)

lemma rejects: "valid i \<Longrightarrow> size_of i = None \<longleftrightarrow> INT_MAX < int (length (text_of i))"
  by (auto simp: size_exact)

lemma independent_of_buffer:
  "valid i \<Longrightarrow> size_of i = Some n \<Longrightarrow> length out = n \<Longrightarrow> length out' = n \<Longrightarrow> write_to i out = write_to i out'"
  by (simp add: produce)

end

end
