(* ===== verification/Cp_Walk.thy ===== *)
theory Cp_Walk
  imports Prelude
begin

text \<open>
  The interface between the UTF-8 macros and the kernels that count or index
  code points: a forward step \<open>fwd\<close> on byte offsets of a string of \<open>n\<close> bytes and
  a backward step \<open>bwd\<close>. \<open>cp_pos fwd n k\<close> is the byte offset behind the first
  \<open>k\<close> code points, or \<open>n\<close> when the string has fewer.

  \<^item> \<open>cp_forward\<close> asks that a step moves on and stays inside the string, and
    gives the code point count, the strict order of the boundaries and what the
    loops \<open>while (k > 0 && i < n)\<close> compute;
  \<^item> \<open>cp_walk\<close> adds that \<open>bwd\<close> undoes \<open>fwd\<close> at every boundary, and gives what
    the loops \<open>while (k > 0 && i > 0)\<close> compute.
\<close>

primrec cp_pos :: "(nat \<Rightarrow> nat) \<Rightarrow> nat \<Rightarrow> nat \<Rightarrow> nat" where
  "cp_pos fwd n 0 = 0"
| "cp_pos fwd n (Suc k) =
     (if cp_pos fwd n k < n then fwd (cp_pos fwd n k) else cp_pos fwd n k)"

text \<open>The number of boundaries before byte \<open>t\<close>, that is the code points needed to
  reach it, and the number of code points of the string.\<close>

definition cp_index :: "(nat \<Rightarrow> nat) \<Rightarrow> nat \<Rightarrow> nat \<Rightarrow> nat" where
  "cp_index fwd n t = length (filter (\<lambda>k. cp_pos fwd n k < t) [0..<t])"

definition cp_count :: "(nat \<Rightarrow> nat) \<Rightarrow> nat \<Rightarrow> nat" where
  "cp_count fwd n = cp_index fwd n n"

text \<open>The two loops of the kernels: at most \<open>k\<close> steps, stopping at an end.\<close>

fun fwd_steps :: "(nat \<Rightarrow> nat) \<Rightarrow> nat \<Rightarrow> nat \<Rightarrow> nat \<Rightarrow> nat" where
  "fwd_steps fwd n 0 i = i"
| "fwd_steps fwd n (Suc k) i = (if i < n then fwd_steps fwd n k (fwd i) else i)"

fun back_steps :: "(nat \<Rightarrow> nat) \<Rightarrow> nat \<Rightarrow> nat \<Rightarrow> nat" where
  "back_steps bwd 0 i = i"
| "back_steps bwd (Suc k) i = (if 0 < i then back_steps bwd k (bwd i) else i)"

locale cp_forward =
  fixes fwd :: "nat \<Rightarrow> nat" and n :: nat
  assumes fwd_gt: "i < n \<Longrightarrow> i < fwd i"
    and fwd_le: "i < n \<Longrightarrow> fwd i \<le> n"
begin

lemma cp_pos_le: "cp_pos fwd n k \<le> n"
  by (induction k) (auto simp: fwd_le)

lemma cp_pos_Suc_gt: "cp_pos fwd n k < n \<Longrightarrow> cp_pos fwd n k < cp_pos fwd n (Suc k)"
  by (simp add: fwd_gt)

lemma cp_pos_mono_Suc: "cp_pos fwd n k \<le> cp_pos fwd n (Suc k)"
  by (auto intro: less_imp_le fwd_gt)

lemma cp_pos_mono: "j \<le> k \<Longrightarrow> cp_pos fwd n j \<le> cp_pos fwd n k"
  using cp_pos_mono_Suc by (rule lift_Suc_mono_le)

lemma cp_pos_ge: "min k n \<le> cp_pos fwd n k"
proof (induction k)
  case (Suc k)
  show ?case
  proof (cases "cp_pos fwd n k < n")
    case True
    with Suc cp_pos_Suc_gt [OF True] show ?thesis by linarith
  next
    case False
    then show ?thesis by simp
  qed
qed simp

lemma cp_pos_n: "cp_pos fwd n n = n"
  using cp_pos_ge [of n] cp_pos_le [of n] by simp

lemma cp_pos_stable: "cp_pos fwd n j = n \<Longrightarrow> j \<le> k \<Longrightarrow> cp_pos fwd n k = n"
  using cp_pos_mono [of j k] cp_pos_le [of k] by simp

lemma cp_pos_strict: "j < k \<Longrightarrow> cp_pos fwd n j < n \<Longrightarrow> cp_pos fwd n j < cp_pos fwd n k"
  using cp_pos_mono [of "Suc j" k] cp_pos_Suc_gt [of j] by linarith

lemma cp_index_less_iff:
  assumes "t \<le> n"
  shows "cp_pos fwd n k < t \<longleftrightarrow> k < cp_index fwd n t"
proof -
  define c where "c = (LEAST k. t \<le> cp_pos fwd n k)"
  have reach: "t \<le> cp_pos fwd n t"
    using cp_pos_ge [of t] assms by simp
  have at_c: "t \<le> cp_pos fwd n c" and le: "c \<le> t"
    unfolding c_def by (rule LeastI [of _ t], rule reach, rule Least_le, rule reach)
  have less: "cp_pos fwd n k < t \<longleftrightarrow> k < c" for k
  proof
    assume "cp_pos fwd n k < t"
    then show "k < c"
      using cp_pos_mono [of c k] at_c by (meson leD leI order_trans)
  next
    assume "k < c"
    then show "cp_pos fwd n k < t"
      unfolding c_def using not_less_Least not_le by blast
  qed
  have "[0..<t] = [0..<c] @ [c..<t]"
    using le upt_add_eq_append [of 0 c "t - c"] by simp
  then have "filter (\<lambda>k. k < c) [0..<t] = [0..<c]"
    by (simp add: filter_empty_conv)
  then have "cp_index fwd n t = c"
    unfolding cp_index_def less by simp
  with less show ?thesis by simp
qed

lemma cp_index_le: "cp_index fwd n t \<le> t"
  unfolding cp_index_def by (rule order_trans [OF length_filter_le]) simp

lemma cp_pos_less_iff: "cp_pos fwd n k < n \<longleftrightarrow> k < cp_count fwd n"
  unfolding cp_count_def by (rule cp_index_less_iff) simp

lemma cp_count_le: "cp_count fwd n \<le> n"
  unfolding cp_count_def by (rule cp_index_le)

lemma cp_pos_eq_n_iff: "cp_pos fwd n k = n \<longleftrightarrow> cp_count fwd n \<le> k"
  using cp_pos_less_iff [of k] cp_pos_le [of k] by auto

lemma cp_pos_count: "cp_pos fwd n (cp_count fwd n) = n"
  by (simp add: cp_pos_eq_n_iff)

lemma cp_pos_min: "cp_pos fwd n k = cp_pos fwd n (min k (cp_count fwd n))"
  by (simp add: min_def cp_pos_count) (simp add: cp_pos_eq_n_iff)

lemma cp_pos_less_pos: "j < k \<Longrightarrow> k \<le> cp_count fwd n \<Longrightarrow> cp_pos fwd n j < cp_pos fwd n k"
  by (rule cp_pos_strict) (auto simp: cp_pos_less_iff)

lemma cp_pos_inj:
  assumes "cp_pos fwd n j = cp_pos fwd n k" "j \<le> cp_count fwd n" "k \<le> cp_count fwd n"
  shows "j = k"
  using assms cp_pos_less_pos [of j k] cp_pos_less_pos [of k j] by (cases j k rule: linorder_cases) auto

lemma cp_index_pos: "k \<le> cp_count fwd n \<Longrightarrow> cp_index fwd n (cp_pos fwd n k) = k"
proof -
  assume k: "k \<le> cp_count fwd n"
  have "j < cp_index fwd n (cp_pos fwd n k) \<longleftrightarrow> j < k" for j
    using cp_index_less_iff [OF cp_pos_le, of j k] cp_pos_less_pos [of j k] k
      cp_pos_mono [of k j] by (metis leD leI)
  then show ?thesis by (metis linorder_neqE_nat nat_neq_iff)
qed

lemma cp_index_count: "t \<le> n \<Longrightarrow> cp_index fwd n t \<le> cp_count fwd n"
proof (rule ccontr)
  assume t: "t \<le> n" and "\<not> cp_index fwd n t \<le> cp_count fwd n"
  then have "cp_pos fwd n (cp_count fwd n) < t"
    by (simp add: cp_index_less_iff [OF t])
  with t show False by (simp add: cp_pos_count)
qed

lemma cp_pos_Suc: "k < cp_count fwd n \<Longrightarrow> cp_pos fwd n (Suc k) = fwd (cp_pos fwd n k)"
  by (simp add: cp_pos_less_iff)

lemma cp_pos_pos: "0 < k \<Longrightarrow> 0 < n \<Longrightarrow> 0 < cp_pos fwd n k"
  using cp_pos_strict [of 0 k] by simp

text \<open>Every offset lies at a boundary or inside the code point that starts at
  the last boundary before it.\<close>

lemma cp_pos_locate:
  assumes "p < n"
  obtains k where "k < cp_count fwd n" "cp_pos fwd n k \<le> p" "p < cp_pos fwd n (Suc k)"
proof -
  let ?k = "LEAST k. p < cp_pos fwd n k"
  have ex: "p < cp_pos fwd n ?k"
    by (rule LeastI [of _ n]) (simp add: cp_pos_n assms)
  then obtain j where j: "?k = Suc j"
    by (cases ?k) auto
  have "\<not> p < cp_pos fwd n j"
    by (rule not_less_Least) (simp add: j)
  moreover have "j < cp_count fwd n"
    using calculation assms by (simp flip: cp_pos_less_iff)
  ultimately show thesis using that ex j by (metis not_less)
qed

lemma fwd_steps_pos: "fwd_steps fwd n k (cp_pos fwd n m) = cp_pos fwd n (m + k)"
proof (induction k arbitrary: m)
  case (Suc k)
  show ?case
  proof (cases "cp_pos fwd n m < n")
    case True
    have "fwd_steps fwd n (Suc k) (cp_pos fwd n m) = fwd_steps fwd n k (cp_pos fwd n (Suc m))"
      using True by simp
    also have "\<dots> = cp_pos fwd n (Suc m + k)" by (rule Suc.IH)
    finally show ?thesis by simp
  next
    case False
    then have "cp_pos fwd n m = n" using cp_pos_le [of m] by simp
    then show ?thesis using False cp_pos_stable [of m "m + Suc k"] by simp
  qed
qed simp

lemma fwd_steps_start: "fwd_steps fwd n k 0 = cp_pos fwd n k"
  using fwd_steps_pos [of k 0] by simp

end

locale cp_walk = cp_forward +
  fixes bwd :: "nat \<Rightarrow> nat"
  assumes back_fwd: "cp_pos fwd n k < n \<Longrightarrow> bwd (cp_pos fwd n (Suc k)) = cp_pos fwd n k"
begin

lemma back_pos: "k < cp_count fwd n \<Longrightarrow> bwd (cp_pos fwd n (Suc k)) = cp_pos fwd n k"
  by (simp only: back_fwd cp_pos_less_iff)

lemma back_steps_pos: "m \<le> cp_count fwd n \<Longrightarrow> back_steps bwd k (cp_pos fwd n m) = cp_pos fwd n (m - k)"
proof (induction k arbitrary: m)
  case (Suc k)
  show ?case
  proof (cases m)
    case (Suc m')
    then have "0 < n" using Suc.prems cp_count_le by linarith
    then have "0 < cp_pos fwd n m" using Suc by (intro cp_pos_pos) simp_all
    then have "back_steps bwd (Suc k) (cp_pos fwd n m) = back_steps bwd k (cp_pos fwd n m')"
      using Suc Suc.prems back_pos [of m'] by (simp del: cp_pos.simps)
    also have "\<dots> = cp_pos fwd n (m' - k)" using Suc Suc.prems by (intro Suc.IH) simp
    finally show ?thesis using Suc by simp
  qed simp
qed simp

lemma back_steps_end: "back_steps bwd k n = cp_pos fwd n (cp_count fwd n - k)"
  using back_steps_pos [of "cp_count fwd n" k] by (simp add: cp_pos_count)

end

end
