(* ===== verification/Utf8_Icu.thy ===== *)
theory Utf8_Icu
  imports Cp_Walk
begin

unbundle bit_operations_syntax

text \<open>
  The UTF-8 macros of the bundled ICU (\<^verbatim>\<open>icu78/unicode/utf8.h\<close>,
  \<^verbatim>\<open>icu78/common/utf_impl.cpp\<close>) that every kernel of the package walks strings
  with: \<open>U8_NEXT\<close>, \<open>U8_FWD_1\<close>, \<open>U8_PREV\<close>, \<open>U8_BACK_1\<close> and their helpers.
  A macro that advances the offset \<open>i\<close> returns the new offset; one that also
  assigns a code point returns the pair. Offsets are natural numbers: every
  caller keeps them between \<open>0\<close> and the length.

  The lemmas show that forward and backward iteration agree on every byte
  string, ill-formed ones included, that the reading and the skipping macros
  move alike, and that both directions read the same code points.
\<close>

subsection \<open>Byte classes and the validity tables\<close>

definition U8_IS_SINGLE :: "byte \<Rightarrow> bool" where
  "U8_IS_SINGLE c \<longleftrightarrow> 0 \<le> sint c"

definition U8_IS_LEAD :: "byte \<Rightarrow> bool" where
  "U8_IS_LEAD c \<longleftrightarrow> c - 0xc2 \<le> 0x32"

definition U8_IS_TRAIL :: "byte \<Rightarrow> bool" where
  "U8_IS_TRAIL c \<longleftrightarrow> sint c < - 0x40"

definition U8_LEAD3_T1_BITS :: "byte list" where
  "U8_LEAD3_T1_BITS =
     [0x20, 0x30, 0x30, 0x30, 0x30, 0x30, 0x30, 0x30,
      0x30, 0x30, 0x30, 0x30, 0x30, 0x10, 0x30, 0x30]"

definition U8_IS_VALID_LEAD3_AND_T1 :: "byte \<Rightarrow> byte \<Rightarrow> bool" where
  "U8_IS_VALID_LEAD3_AND_T1 lead t1 \<longleftrightarrow>
     U8_LEAD3_T1_BITS ! unat (lead AND 0xf) AND push_bit (unat (drop_bit 5 t1)) 1 \<noteq> 0"

definition U8_LEAD4_T1_BITS :: "byte list" where
  "U8_LEAD4_T1_BITS =
     [0x00, 0x00, 0x00, 0x00, 0x00, 0x00, 0x00, 0x00,
      0x1e, 0x0f, 0x0f, 0x0f, 0x00, 0x00, 0x00, 0x00]"

definition U8_IS_VALID_LEAD4_AND_T1 :: "byte \<Rightarrow> byte \<Rightarrow> bool" where
  "U8_IS_VALID_LEAD4_AND_T1 lead t1 \<longleftrightarrow>
     U8_LEAD4_T1_BITS ! unat (drop_bit 4 t1) AND push_bit (unat (lead AND 7)) 1 \<noteq> 0"

lemma U8_IS_SINGLE_iff [u8_bytes]: "U8_IS_SINGLE c \<longleftrightarrow> c < 0x80"
proof -
  have "\<forall>c. U8_IS_SINGLE c = (c < 0x80)"
    unfolding byte_all by code_simp
  then show ?thesis by blast
qed

lemma U8_IS_LEAD_iff [u8_bytes]: "U8_IS_LEAD c \<longleftrightarrow> 0xc2 \<le> c \<and> c \<le> 0xf4"
proof -
  have "\<forall>c. U8_IS_LEAD c = (0xc2 \<le> c \<and> c \<le> 0xf4)"
    unfolding byte_all by code_simp
  then show ?thesis by blast
qed

lemma U8_IS_TRAIL_iff [u8_bytes]: "U8_IS_TRAIL c \<longleftrightarrow> 0x80 \<le> c \<and> c < 0xc0"
proof -
  have "\<forall>c. U8_IS_TRAIL c = (0x80 \<le> c \<and> c < 0xc0)"
    unfolding byte_all by code_simp
  then show ?thesis by blast
qed

text \<open>The two bit tables encode rows E0 to F4 of the Unicode table of
  well-formed UTF-8 byte sequences. Each table entry is evaluated once for
  every trail byte, each table index once for every lead byte.\<close>

lemma lead3_entries:
  "\<forall>t::byte. (0x20 AND push_bit (unat (drop_bit 5 t)) 1 \<noteq> (0::byte)) = (0xa0 \<le> t \<and> t < 0xc0)"
  "\<forall>t::byte. (0x10 AND push_bit (unat (drop_bit 5 t)) 1 \<noteq> (0::byte)) = (0x80 \<le> t \<and> t < 0xa0)"
  "\<forall>t::byte. (0x30 AND push_bit (unat (drop_bit 5 t)) 1 \<noteq> (0::byte)) = (0x80 \<le> t \<and> t < 0xc0)"
  unfolding byte_all by code_simp+

lemma lead3_index:
  fixes b :: byte
  shows "0xe0 \<le> b \<and> b \<le> 0xef \<longrightarrow> U8_LEAD3_T1_BITS ! unat (b AND 0xf) =
     (if b = 0xe0 then 0x20 else if b = 0xed then 0x10 else 0x30)"
proof -
  have "\<forall>b::byte. 0xe0 \<le> b \<and> b \<le> 0xef \<longrightarrow> U8_LEAD3_T1_BITS ! unat (b AND 0xf) =
     (if b = 0xe0 then 0x20 else if b = 0xed then 0x10 else 0x30)"
    unfolding byte_range_all by code_simp
  then show ?thesis by blast
qed

lemma lead4_index:
  fixes t :: byte
  shows "U8_LEAD4_T1_BITS ! unat (drop_bit 4 t) =
     (if 0x80 \<le> t \<and> t < 0x90 then 0x1e else if 0x90 \<le> t \<and> t < 0xc0 then 0x0f else 0)"
proof -
  have "\<forall>t::byte. U8_LEAD4_T1_BITS ! unat (drop_bit 4 t) =
     (if 0x80 \<le> t \<and> t < 0x90 then 0x1e else if 0x90 \<le> t \<and> t < 0xc0 then 0x0f else 0)"
    unfolding byte_all by code_simp
  then show ?thesis by blast
qed

lemma lead4_entries:
  fixes b :: byte
  shows "0xf0 \<le> b \<and> b \<le> 0xf4 \<longrightarrow>
     (0x1e AND push_bit (unat (b AND 7)) 1 \<noteq> (0::byte)) = (b \<noteq> 0xf0) \<and>
     (0x0f AND push_bit (unat (b AND 7)) 1 \<noteq> (0::byte)) = (b \<noteq> 0xf4)"
proof -
  have "\<forall>b::byte. 0xf0 \<le> b \<and> b \<le> 0xf4 \<longrightarrow>
     (0x1e AND push_bit (unat (b AND 7)) 1 \<noteq> (0::byte)) = (b \<noteq> 0xf0) \<and>
     (0x0f AND push_bit (unat (b AND 7)) 1 \<noteq> (0::byte)) = (b \<noteq> 0xf4)"
    unfolding byte_range_all by code_simp
  then show ?thesis by blast
qed

lemma valid_lead3_iff:
  assumes "0xe0 \<le> b" "b \<le> 0xef"
  shows "U8_IS_VALID_LEAD3_AND_T1 b t \<longleftrightarrow>
    U8_IS_TRAIL t \<and> (b = 0xe0 \<longrightarrow> 0xa0 \<le> t) \<and> (b = 0xed \<longrightarrow> t < 0xa0)"
proof -
  have "U8_IS_VALID_LEAD3_AND_T1 b t \<longleftrightarrow>
    (if b = 0xe0 then 0xa0 \<le> t \<and> t < 0xc0 else if b = 0xed then 0x80 \<le> t \<and> t < 0xa0
     else 0x80 \<le> t \<and> t < 0xc0)"
    unfolding U8_IS_VALID_LEAD3_AND_T1_def lead3_index [rule_format, OF conjI [OF assms]]
    using lead3_entries [rule_format, of t] by (simp only: if_split) auto
  then show ?thesis
    by (auto simp: U8_IS_TRAIL_iff word_le_nat_alt word_less_nat_alt)
qed

lemma valid_lead4_iff:
  assumes "0xf0 \<le> b" "b \<le> 0xf4"
  shows "U8_IS_VALID_LEAD4_AND_T1 b t \<longleftrightarrow>
    U8_IS_TRAIL t \<and> (b = 0xf0 \<longrightarrow> 0x90 \<le> t) \<and> (b = 0xf4 \<longrightarrow> t < 0x90)"
proof -
  have "U8_IS_VALID_LEAD4_AND_T1 b t \<longleftrightarrow>
    (if 0x80 \<le> t \<and> t < 0x90 then b \<noteq> 0xf0 else if 0x90 \<le> t \<and> t < 0xc0 then b \<noteq> 0xf4 else False)"
    unfolding U8_IS_VALID_LEAD4_AND_T1_def lead4_index
    using lead4_entries [rule_format, OF conjI [OF assms]] by (simp only: if_split) auto
  then show ?thesis
    by (auto simp: U8_IS_TRAIL_iff word_le_nat_alt word_less_nat_alt)
qed

subsection \<open>Skipping one code point forward and backward\<close>

definition U8_FWD_1 :: "byte list \<Rightarrow> nat \<Rightarrow> nat \<Rightarrow> nat" where
  "U8_FWD_1 s i len =
     (let b = s ! i; i = i + 1 in
      if U8_IS_LEAD b \<and> i \<noteq> len then
        let t1 = s ! i in
        if 0xe0 \<le> b \<and> b < 0xf0 then
          (if U8_IS_VALID_LEAD3_AND_T1 b t1 then
             let i = i + 1 in
             if i \<noteq> len \<and> U8_IS_TRAIL (s ! i) then i + 1 else i
           else i)
        else if b < 0xe0 then
          (if U8_IS_TRAIL t1 then i + 1 else i)
        else
          (if U8_IS_VALID_LEAD4_AND_T1 b t1 then
             let i = i + 1 in
             if i \<noteq> len \<and> U8_IS_TRAIL (s ! i) then
               let i = i + 1 in
               if i \<noteq> len \<and> U8_IS_TRAIL (s ! i) then i + 1 else i
             else i
           else i)
      else i)"

definition utf8_back1SafeBody :: "byte list \<Rightarrow> nat \<Rightarrow> nat \<Rightarrow> nat" where
  "utf8_back1SafeBody s start i =
     (let orig_i = i; c = s ! i in
      if U8_IS_TRAIL c \<and> i > start then
        let i = i - 1; b1 = s ! i in
        if U8_IS_LEAD b1 then
          (if b1 < 0xe0 \<or>
              (if b1 < 0xf0 then U8_IS_VALID_LEAD3_AND_T1 b1 c
               else U8_IS_VALID_LEAD4_AND_T1 b1 c)
           then i else orig_i)
        else if U8_IS_TRAIL b1 \<and> i > start then
          let i = i - 1; b2 = s ! i in
          if 0xe0 \<le> b2 \<and> b2 \<le> 0xf4 then
            (if (if b2 < 0xf0 then U8_IS_VALID_LEAD3_AND_T1 b2 b1
                 else U8_IS_VALID_LEAD4_AND_T1 b2 b1)
             then i else orig_i)
          else if U8_IS_TRAIL b2 \<and> i > start then
            let i = i - 1; b3 = s ! i in
            if 0xf0 \<le> b3 \<and> b3 \<le> 0xf4 \<and> U8_IS_VALID_LEAD4_AND_T1 b3 b2
            then i else orig_i
          else orig_i
        else orig_i
      else orig_i)"

definition U8_BACK_1 :: "byte list \<Rightarrow> nat \<Rightarrow> nat \<Rightarrow> nat" where
  "U8_BACK_1 s start i =
     (let i = i - 1 in
      if U8_IS_TRAIL (s ! i) then utf8_back1SafeBody s start i else i)"

definition U8_SET_CP_START :: "byte list \<Rightarrow> nat \<Rightarrow> nat \<Rightarrow> nat" where
  "U8_SET_CP_START s start i =
     (if U8_IS_TRAIL (s ! i) then utf8_back1SafeBody s start i else i)"

subsection \<open>Reading one code point\<close>

definition U_SENTINEL :: int where "U_SENTINEL = - 1"

text \<open>The last trail byte of the \<open>U8_NEXT\<close> expansion: \<open>c\<close> holds the bits read so
  far and \<open>i\<close> is the offset of that byte, already known not to be the length.\<close>

definition u8_last_trail :: "byte list \<Rightarrow> nat \<Rightarrow> int \<Rightarrow> nat \<times> int" where
  "u8_last_trail s i c =
     (let t = s ! i - 0x80 in
      if t \<le> 0x3f then (i + 1, push_bit 6 c OR uint t) else (i, U_SENTINEL))"

definition U8_NEXT :: "byte list \<Rightarrow> nat \<Rightarrow> nat \<Rightarrow> nat \<times> int" where
  "U8_NEXT s i len =
     (let b = s ! i; i = i + 1 in
      if U8_IS_SINGLE b then (i, uint b)
      else if i \<noteq> len then
        if 0xe0 \<le> b then
          if b < 0xf0 then
            if U8_LEAD3_T1_BITS ! unat (b AND 0xf) AND push_bit (unat (drop_bit 5 (s ! i))) 1 \<noteq> 0 then
              let c = push_bit 6 (uint (b AND 0xf)) OR uint (s ! i AND 0x3f); i = i + 1 in
              if i \<noteq> len then u8_last_trail s i c else (i, U_SENTINEL)
            else (i, U_SENTINEL)
          else if b - 0xf0 \<le> 4 then
            if U8_LEAD4_T1_BITS ! unat (drop_bit 4 (s ! i)) AND push_bit (unat (b - 0xf0)) 1 \<noteq> 0 then
              let c = push_bit 6 (uint (b - 0xf0)) OR uint (s ! i AND 0x3f); i = i + 1 in
              if i \<noteq> len then
                let t = s ! i - 0x80 in
                if t \<le> 0x3f then
                  let c = push_bit 6 c OR uint t; i = i + 1 in
                  if i \<noteq> len then u8_last_trail s i c else (i, U_SENTINEL)
                else (i, U_SENTINEL)
              else (i, U_SENTINEL)
            else (i, U_SENTINEL)
          else (i, U_SENTINEL)
        else if 0xc2 \<le> b then u8_last_trail s i (uint (b AND 0x1f))
        else (i, U_SENTINEL)
      else (i, U_SENTINEL))"

definition U_IS_UNICODE_NONCHAR :: "int \<Rightarrow> bool" where
  "U_IS_UNICODE_NONCHAR c \<longleftrightarrow>
     c \<ge> 0xfdd0 \<and> (c \<le> 0xfdef \<or> c AND 0xfffe = 0xfffe) \<and> c \<le> 0x10ffff"

definition utf8_errorValue :: "int list" where
  "utf8_errorValue = [0x15, 0x9f, 0xffff, 0x10ffff, 0, 0]"

definition errorValue :: "nat \<Rightarrow> int \<Rightarrow> int" where
  "errorValue count strict =
     (if 0 \<le> strict then utf8_errorValue ! count
      else if strict = - 3 then 0xfffd
      else U_SENTINEL)"

text \<open>\<open>i\<close> is the offset of the byte \<open>c\<close>; the result is the new offset and the code
  point.\<close>

definition utf8_prevCharSafeBody :: "byte list \<Rightarrow> nat \<Rightarrow> nat \<Rightarrow> byte \<Rightarrow> int \<Rightarrow> nat \<times> int" where
  "utf8_prevCharSafeBody s start pi c strict =
     (let i = pi in
      if U8_IS_TRAIL c \<and> i > start then
        let i = i - 1; b1 = s ! i in
        if U8_IS_LEAD b1 then
          if b1 < 0xe0 then (i, push_bit 6 (uint (b1 - 0xc0)) OR uint (c AND 0x3f))
          else if (if b1 < 0xf0 then U8_IS_VALID_LEAD3_AND_T1 b1 c
                   else U8_IS_VALID_LEAD4_AND_T1 b1 c)
          then (i, errorValue 1 strict)
          else (pi, errorValue 0 strict)
        else if U8_IS_TRAIL b1 \<and> i > start then
          let c = uint (c AND 0x3f); i = i - 1; b2 = s ! i in
          if 0xe0 \<le> b2 \<and> b2 \<le> 0xf4 then
            if b2 < 0xf0 then
              let b2 = b2 AND 0xf in
              if strict \<noteq> - 2 then
                if U8_IS_VALID_LEAD3_AND_T1 b2 b1 then
                  let c = push_bit 12 (uint b2) OR push_bit 6 (uint (b1 AND 0x3f)) OR c in
                  if strict \<le> 0 \<or> \<not> U_IS_UNICODE_NONCHAR c then (i, c)
                  else (i, errorValue 2 strict)
                else (pi, errorValue 0 strict)
              else
                let b1 = b1 - 0x80 in
                if b2 > 0 \<or> b1 \<ge> 0x20 then
                  (i, push_bit 12 (uint b2) OR push_bit 6 (uint b1) OR c)
                else (pi, errorValue 0 strict)
            else if U8_IS_VALID_LEAD4_AND_T1 b2 b1 then (i, errorValue 2 strict)
            else (pi, errorValue 0 strict)
          else if U8_IS_TRAIL b2 \<and> i > start then
            let i = i - 1; b3 = s ! i in
            if 0xf0 \<le> b3 \<and> b3 \<le> 0xf4 then
              let b3 = b3 AND 7 in
              if U8_IS_VALID_LEAD4_AND_T1 b3 b2 then
                let c = push_bit 18 (uint b3) OR push_bit 12 (uint (b2 AND 0x3f)) OR
                        push_bit 6 (uint (b1 AND 0x3f)) OR c in
                if strict \<le> 0 \<or> \<not> U_IS_UNICODE_NONCHAR c then (i, c)
                else (i, errorValue 3 strict)
              else (pi, errorValue 0 strict)
            else (pi, errorValue 0 strict)
          else (pi, errorValue 0 strict)
        else (pi, errorValue 0 strict)
      else (pi, errorValue 0 strict))"

definition U8_PREV :: "byte list \<Rightarrow> nat \<Rightarrow> nat \<Rightarrow> nat \<times> int" where
  "U8_PREV s start i =
     (let i = i - 1; c = s ! i in
      if U8_IS_SINGLE c then (i, uint c)
      else utf8_prevCharSafeBody s start i c (- 1))"

definition U8_GET :: "byte list \<Rightarrow> nat \<Rightarrow> nat \<Rightarrow> nat \<Rightarrow> int" where
  "U8_GET s start i len = snd (U8_NEXT s (U8_SET_CP_START s start i) len)"

subsection \<open>Forward and backward iteration agree\<close>

text \<open>The validity of the first trail byte after any lead byte.\<close>

definition t1_ok :: "byte \<Rightarrow> byte \<Rightarrow> bool" where
  "t1_ok b t = (if b < 0xe0 then U8_IS_TRAIL t
                else if b < 0xf0 then U8_IS_VALID_LEAD3_AND_T1 b t
                else U8_IS_VALID_LEAD4_AND_T1 b t)"

lemma lead_not_trail: "U8_IS_LEAD b \<Longrightarrow> \<not> U8_IS_TRAIL b"
  by (auto simp: u8_bytes word_le_nat_alt word_less_nat_alt)

lemma t1_ok_trail: "U8_IS_LEAD b \<Longrightarrow> t1_ok b t \<Longrightarrow> U8_IS_TRAIL t"
  using valid_lead3_iff [of b t] valid_lead4_iff [of b t]
  by (auto simp: t1_ok_def U8_IS_LEAD_iff word_le_nat_alt word_less_nat_alt split: if_splits)

lemma U8_FWD_1_eq:
  "U8_FWD_1 s i n =
     (if U8_IS_LEAD (s ! i) \<and> i + 1 \<noteq> n \<and> t1_ok (s ! i) (s ! (i + 1)) then
        if s ! i < 0xe0 \<or> i + 2 = n \<or> \<not> U8_IS_TRAIL (s ! (i + 2)) then i + 2
        else if s ! i < 0xf0 \<or> i + 3 = n \<or> \<not> U8_IS_TRAIL (s ! (i + 3)) then i + 3
        else i + 4
      else i + 1)"
  by (auto simp: U8_FWD_1_def t1_ok_def Let_def word_le_nat_alt word_less_nat_alt numeral_eq_Suc)

lemma U8_FWD_1_gt: "i < U8_FWD_1 s i n"
  by (simp add: U8_FWD_1_eq)

lemma U8_FWD_1_le: "i < n \<Longrightarrow> U8_FWD_1 s i n \<le> n"
  by (auto simp: U8_FWD_1_eq)

lemma U8_FWD_1_trail: "i < j \<Longrightarrow> j < U8_FWD_1 s i n \<Longrightarrow> U8_IS_TRAIL (s ! j)"
proof -
  assume "i < j" "j < U8_FWD_1 s i n"
  then consider "j = i + 1" | "j = i + 2" | "j = i + 3"
    by (fastforce simp: U8_FWD_1_eq split: if_splits)
  then show ?thesis
    using \<open>j < U8_FWD_1 s i n\<close> t1_ok_trail [of "s ! i" "s ! (i+1)"]
    by cases (auto simp: U8_FWD_1_eq split: if_splits)
qed

interpretation u8f: cp_forward "\<lambda>i. U8_FWD_1 s i n" n for s n
  by unfold_locales (simp_all add: U8_FWD_1_gt U8_FWD_1_le)

lemma lead_range: "0xe0 \<le> b \<and> b \<le> 0xf4 \<longleftrightarrow> U8_IS_LEAD b \<and> 0xe0 \<le> b"
  "0xf0 \<le> b \<and> b \<le> 0xf4 \<and> P \<longleftrightarrow> U8_IS_LEAD b \<and> 0xf0 \<le> b \<and> P"
  by (auto simp: U8_IS_LEAD_iff word_le_nat_alt word_less_nat_alt)

lemma t1_ok_high:
  "0xe0 \<le> b \<Longrightarrow> (if b < 0xf0 then U8_IS_VALID_LEAD3_AND_T1 b t else U8_IS_VALID_LEAD4_AND_T1 b t) = t1_ok b t"
  "0xf0 \<le> b \<Longrightarrow> U8_IS_VALID_LEAD4_AND_T1 b t = t1_ok b t"
  by (auto simp: t1_ok_def word_le_nat_alt word_less_nat_alt)

lemma t1_ok_any:
  "U8_IS_TRAIL t \<Longrightarrow> (b < 0xe0 \<or> (if b < 0xf0 then U8_IS_VALID_LEAD3_AND_T1 b t else U8_IS_VALID_LEAD4_AND_T1 b t)) = t1_ok b t"
  by (auto simp: t1_ok_def)

lemma utf8_back1SafeBody_eq:
  "utf8_back1SafeBody s 0 i =
     (if U8_IS_TRAIL (s ! i) \<and> 0 < i then
        if U8_IS_LEAD (s ! (i - 1)) then
          if t1_ok (s ! (i - 1)) (s ! i) then i - 1 else i
        else if U8_IS_TRAIL (s ! (i - 1)) \<and> 1 < i then
          if U8_IS_LEAD (s ! (i - 2)) \<and> 0xe0 \<le> s ! (i - 2) then
            if t1_ok (s ! (i - 2)) (s ! (i - 1)) then i - 2 else i
          else if U8_IS_TRAIL (s ! (i - 2)) \<and> 2 < i then
            if U8_IS_LEAD (s ! (i - 3)) \<and> 0xf0 \<le> s ! (i - 3) \<and> t1_ok (s ! (i - 3)) (s ! (i - 2))
            then i - 3 else i
          else i
        else i
      else i)"
  by (auto simp: utf8_back1SafeBody_def Let_def lead_range t1_ok_high t1_ok_any numeral_eq_Suc)

text \<open>A byte that is not a trail byte starts a code point, whatever precedes it.\<close>

lemma nontrail_boundary:
  assumes "p < n" "\<not> U8_IS_TRAIL (s ! p)"
  shows "\<exists>k. k < cp_count (\<lambda>i. U8_FWD_1 s i n) n \<and> cp_pos (\<lambda>i. U8_FWD_1 s i n) n k = p"
proof -
  let ?f = "\<lambda>i. U8_FWD_1 s i n"
  obtain k where k: "k < cp_count ?f n" "cp_pos ?f n k \<le> p" "p < cp_pos ?f n (Suc k)"
    using u8f.cp_pos_locate [OF assms(1)] by blast
  then have "p < U8_FWD_1 s (cp_pos ?f n k) n"
    by (simp add: u8f.cp_pos_Suc del: cp_pos.simps)
  with assms(2) k(2) have "cp_pos ?f n k = p"
    using U8_FWD_1_trail by (metis le_neq_implies_less)
  with k(1) show ?thesis by blast
qed

text \<open>No boundary lies inside the code point that a non-trail byte starts.\<close>

lemma boundary_not_inside:
  assumes "p < n" "\<not> U8_IS_TRAIL (s ! p)" "p < cp_pos (\<lambda>i. U8_FWD_1 s i n) n k"
  shows "U8_FWD_1 s p n \<le> cp_pos (\<lambda>i. U8_FWD_1 s i n) n k"
proof -
  let ?f = "\<lambda>i. U8_FWD_1 s i n"
  obtain m where m: "m < cp_count ?f n" "cp_pos ?f n m = p"
    using nontrail_boundary [OF assms(1,2)] by blast
  with assms(3) have "m < k"
    using u8f.cp_pos_mono [where j = k and k = m and s = s and n = n] by (metis not_less)
  then have "cp_pos ?f n (Suc m) \<le> cp_pos ?f n k"
    by (intro u8f.cp_pos_mono) simp
  with m show ?thesis by (simp add: u8f.cp_pos_Suc del: cp_pos.simps)
qed

text \<open>A trail byte at a boundary belongs to no sequence, so stepping back over it
  moves by one byte only.\<close>

lemma stray_trail_back:
  assumes "cp_pos (\<lambda>i. U8_FWD_1 s i n) n k = i" "i < n" "U8_IS_TRAIL (s ! i)"
  shows "utf8_back1SafeBody s 0 i = i"
proof -
  have inside: "p < n \<Longrightarrow> U8_IS_LEAD (s ! p) \<Longrightarrow> p < i \<Longrightarrow> U8_FWD_1 s p n \<le> i" for p
    using boundary_not_inside [of p n s k] assms(1) lead_not_trail by blast
  have 1: "\<not> t1_ok (s ! (i - 1)) (s ! i)" if "0 < i" "U8_IS_LEAD (s ! (i - 1))"
  proof
    assume "t1_ok (s ! (i - 1)) (s ! i)"
    with that assms(2) have "i < U8_FWD_1 s (i - 1) n"
      by (simp add: U8_FWD_1_eq)
    moreover have "i - 1 < n" using assms(2) by simp
    ultimately show False using inside [of "i - 1"] that by simp
  qed
  have 2: "\<not> t1_ok (s ! (i - 2)) (s ! (i - 1))"
    if "1 < i" "U8_IS_LEAD (s ! (i - 2))" "0xe0 \<le> s ! (i - 2)" 
  proof -
    have "\<not> s ! (i - 2) < 0xe0" using that(3) by simp
    moreover have "i - 2 + 1 = i - 1" "i - 2 + 2 = i" using that(1) by auto
    ultimately show ?thesis
      using inside [of "i - 2"] that assms(2,3) by (auto simp: U8_FWD_1_eq split: if_splits)
  qed
  have 3: "\<not> t1_ok (s ! (i - 3)) (s ! (i - 2))"
    if "2 < i" "U8_IS_LEAD (s ! (i - 3))" "0xf0 \<le> s ! (i - 3)" "U8_IS_TRAIL (s ! (i - 1))"
  proof -
    have "\<not> s ! (i - 3) < 0xf0" using that(3) by simp
    moreover have "\<not> s ! (i - 3) < 0xe0" using that(3) by (auto simp: word_le_nat_alt word_less_nat_alt)
    moreover have "i - 3 + 1 = i - 2" "i - 3 + 2 = i - 1" "i - 3 + 3 = i" using that(1) by auto
    ultimately show ?thesis
      using inside [of "i - 3"] that assms(2,3) by (auto simp: U8_FWD_1_eq split: if_splits)
  qed
  show ?thesis
    using 1 2 3 unfolding utf8_back1SafeBody_eq by auto
qed

lemma U8_BACK_1_FWD:
  assumes "cp_pos (\<lambda>i. U8_FWD_1 s i n) n k = i" "i < n"
  shows "U8_BACK_1 s 0 (U8_FWD_1 s i n) = i"
proof -
  let ?j = "U8_FWD_1 s i n"
  have "?j = i + 1 \<or> ?j = i + 2 \<or> ?j = i + 3 \<or> ?j = i + 4"
    by (simp add: U8_FWD_1_eq)
  then consider (one) "?j = i + 1" | (two) "?j = i + 2" | (three) "?j = i + 3" | (four) "?j = i + 4"
    by blast
  then show ?thesis
  proof cases
    case one
    then show ?thesis
      using stray_trail_back [OF assms] by (auto simp: U8_BACK_1_def Let_def)
  next
    case two
    then have "U8_IS_LEAD (s ! i)" "t1_ok (s ! i) (s ! (i + 1))"
      by (auto simp: U8_FWD_1_eq split: if_splits)
    then show ?thesis
      using two t1_ok_trail [of "s ! i" "s ! (i + 1)"]
      by (auto simp: U8_BACK_1_def utf8_back1SafeBody_eq)
  next
    case three
    then have "U8_IS_LEAD (s ! i)" "t1_ok (s ! i) (s ! (i + 1))" "0xe0 \<le> s ! i" "U8_IS_TRAIL (s ! (i + 2))"
      by (auto simp: U8_FWD_1_eq not_less split: if_splits)
    then show ?thesis
      using three t1_ok_trail [of "s ! i" "s ! (i + 1)"] lead_not_trail [of "s ! (i + 1)"]
      by (auto simp: U8_BACK_1_def utf8_back1SafeBody_eq)
  next
    case four
    then have "U8_IS_LEAD (s ! i)" "t1_ok (s ! i) (s ! (i + 1))" "0xf0 \<le> s ! i"
       "U8_IS_TRAIL (s ! (i + 2))" "U8_IS_TRAIL (s ! (i + 3))"
      by (auto simp: U8_FWD_1_eq not_less split: if_splits)
    then show ?thesis
      using four t1_ok_trail [of "s ! i" "s ! (i + 1)"] lead_not_trail [of "s ! (i + 1)"]
        lead_not_trail [of "s ! (i + 2)"]
      by (auto simp: U8_BACK_1_def utf8_back1SafeBody_eq Let_def eval_nat_numeral)
  qed
qed

interpretation u8: cp_walk "\<lambda>i. U8_FWD_1 s i n" n "U8_BACK_1 s 0" for s n
  by unfold_locales (simp add: U8_BACK_1_FWD [OF refl])


subsection \<open>The reading macros move like the skipping macros\<close>

lemma trail_minus: "t - 0x80 \<le> 0x3f \<longleftrightarrow> U8_IS_TRAIL t" for t :: byte
proof -
  have "\<forall>t::byte. (t - 0x80 \<le> 0x3f) = (0x80 \<le> t \<and> t < 0xc0)"
    unfolding byte_all by code_simp
  then show ?thesis unfolding U8_IS_TRAIL_iff by blast
qed

lemma lead4_minus:
  fixes b :: byte
  assumes "0xf0 \<le> b"
  shows "b - 0xf0 \<le> 4 \<longleftrightarrow> b \<le> 0xf4" and "b \<le> 0xf4 \<Longrightarrow> b - 0xf0 = b AND 7"
proof -
  have "\<forall>b::byte. 0xf0 \<le> b \<and> b \<le> 0xff \<longrightarrow>
      (b - 0xf0 \<le> 4) = (b \<le> 0xf4) \<and> (b \<le> 0xf4 \<longrightarrow> b - 0xf0 = b AND 7)"
    unfolding byte_range_all by code_simp
  moreover have "b \<le> 0xff" by (simp add: word_le_nat_alt less_Suc_eq_le [symmetric])
  ultimately show "b - 0xf0 \<le> 4 \<longleftrightarrow> b \<le> 0xf4" and "b \<le> 0xf4 \<Longrightarrow> b - 0xf0 = b AND 7"
    using assms by blast+
qed

lemma u8_last_trail_eq:
  "u8_last_trail s i c =
     (if U8_IS_TRAIL (s ! i) then (i + 1, push_bit 6 c OR uint (s ! i - 0x80)) else (i, U_SENTINEL))"
  by (simp add: u8_last_trail_def trail_minus)

text \<open>\<open>U8_NEXT\<close> by the class of the first byte.\<close>

lemma U8_NEXT_single: "U8_IS_SINGLE (s ! i) \<Longrightarrow> U8_NEXT s i n = (i + 1, uint (s ! i))"
  by (simp add: U8_NEXT_def)

lemma U8_NEXT_illegal:
  assumes "\<not> U8_IS_SINGLE (s ! i)" "\<not> U8_IS_LEAD (s ! i) \<or> i + 1 = n"
  shows "U8_NEXT s i n = (i + 1, U_SENTINEL)"
proof (cases "i + 1 = n")
  case True
  with assms(1) show ?thesis by (simp add: U8_NEXT_def Let_def)
next
  case False
  with assms have "\<not> U8_IS_LEAD (s ! i)" by blast
  then consider "s ! i < 0xc2" | "0xf4 < s ! i"
    by (auto simp: U8_IS_LEAD_iff not_le)
  then show ?thesis
  proof cases
    case 1
    then have "\<not> 0xe0 \<le> s ! i" "\<not> 0xc2 \<le> s ! i"
      by (auto simp: word_le_nat_alt word_less_nat_alt)
    with assms(1) show ?thesis by (simp add: U8_NEXT_def Let_def)
  next
    case 2
    then have "0xe0 \<le> s ! i" "\<not> s ! i < 0xf0" "0xf0 \<le> s ! i" "\<not> s ! i \<le> 0xf4"
      by (auto simp: word_le_nat_alt word_less_nat_alt)
    then show ?thesis
      using assms(1) lead4_minus(1) [of "s ! i"] by (simp add: U8_NEXT_def Let_def)
  qed
qed

lemma U8_NEXT_2:
  assumes "U8_IS_LEAD (s ! i)" "s ! i < 0xe0" "i + 1 \<noteq> n"
  shows "U8_NEXT s i n = u8_last_trail s (i + 1) (uint (s ! i AND 0x1f))"
proof -
  have "\<not> U8_IS_SINGLE (s ! i)" "\<not> 0xe0 \<le> s ! i" "0xc2 \<le> s ! i"
    using assms by (auto simp: u8_bytes word_le_nat_alt word_less_nat_alt)
  with assms(3) show ?thesis by (simp add: U8_NEXT_def Let_def)
qed

lemma U8_NEXT_3:
  assumes "U8_IS_LEAD (s ! i)" "0xe0 \<le> s ! i" "s ! i < 0xf0" "i + 1 \<noteq> n"
  shows "U8_NEXT s i n =
    (if t1_ok (s ! i) (s ! (i + 1)) then
       if i + 2 \<noteq> n then
         u8_last_trail s (i + 2) (push_bit 6 (uint (s ! i AND 0xf)) OR uint (s ! (i + 1) AND 0x3f))
       else (i + 2, U_SENTINEL)
     else (i + 1, U_SENTINEL))"
proof -
  have "\<not> U8_IS_SINGLE (s ! i)" "\<not> s ! i < 0xe0"
    using assms by (auto simp: u8_bytes word_le_nat_alt word_less_nat_alt)
  with assms show ?thesis
    by (simp add: U8_NEXT_def Let_def t1_ok_def U8_IS_VALID_LEAD3_AND_T1_def del: push_bit_of_1)
qed

lemma U8_NEXT_4:
  assumes "U8_IS_LEAD (s ! i)" "0xf0 \<le> s ! i" "i + 1 \<noteq> n"
  shows "U8_NEXT s i n =
    (if t1_ok (s ! i) (s ! (i + 1)) then
       if i + 2 \<noteq> n then
         if U8_IS_TRAIL (s ! (i + 2)) then
           if i + 3 \<noteq> n then
             u8_last_trail s (i + 3)
               (push_bit 6 (push_bit 6 (uint (s ! i - 0xf0)) OR uint (s ! (i + 1) AND 0x3f))
                 OR uint (s ! (i + 2) - 0x80))
           else (i + 3, U_SENTINEL)
         else (i + 2, U_SENTINEL)
       else (i + 2, U_SENTINEL)
     else (i + 1, U_SENTINEL))"
proof -
  have "\<not> U8_IS_SINGLE (s ! i)" "\<not> s ! i < 0xf0" "\<not> s ! i < 0xe0" "0xe0 \<le> s ! i"
    using assms by (auto simp: u8_bytes word_le_nat_alt word_less_nat_alt)
  moreover have "s ! i \<le> 0xf4" using assms by (simp add: U8_IS_LEAD_iff)
  ultimately show ?thesis
    using assms lead4_minus [OF assms(2)]
    by (simp add: U8_NEXT_def Let_def t1_ok_def U8_IS_VALID_LEAD4_AND_T1_def trail_minus
        eval_nat_numeral del: push_bit_of_1)
qed

lemma U8_NEXT_fst: "fst (U8_NEXT s i n) = U8_FWD_1 s i n"
proof -
  consider "U8_IS_SINGLE (s ! i)"
    | "\<not> U8_IS_SINGLE (s ! i)" "\<not> U8_IS_LEAD (s ! i) \<or> i + 1 = n"
    | "U8_IS_LEAD (s ! i)" "i + 1 \<noteq> n" "s ! i < 0xe0"
    | "U8_IS_LEAD (s ! i)" "i + 1 \<noteq> n" "0xe0 \<le> s ! i" "s ! i < 0xf0"
    | "U8_IS_LEAD (s ! i)" "i + 1 \<noteq> n" "0xf0 \<le> s ! i"
    by (meson not_less)
  then show ?thesis
  proof cases
    case 1
    then have "\<not> U8_IS_LEAD (s ! i)" by (auto simp: u8_bytes word_le_nat_alt word_less_nat_alt)
    with 1 show ?thesis by (simp add: U8_NEXT_single U8_FWD_1_eq)
  next
    case 2
    then show ?thesis by (auto simp: U8_NEXT_illegal U8_FWD_1_eq)
  next
    case 3
    then show ?thesis by (simp add: U8_NEXT_2 U8_FWD_1_eq u8_last_trail_eq t1_ok_def)
  next
    case 4
    then show ?thesis by (simp add: U8_NEXT_3 U8_FWD_1_eq u8_last_trail_eq not_less [symmetric])
  next
    case 5
    then have "\<not> s ! i < 0xe0" by (auto simp: word_le_nat_alt word_less_nat_alt)
    with 5 show ?thesis by (simp add: U8_NEXT_4 U8_FWD_1_eq u8_last_trail_eq not_less [symmetric])
  qed
qed

lemma valid_masked:
  "U8_IS_VALID_LEAD3_AND_T1 (b AND 0xf) t = U8_IS_VALID_LEAD3_AND_T1 b t"
  "U8_IS_VALID_LEAD4_AND_T1 (b AND 7) t = U8_IS_VALID_LEAD4_AND_T1 b t"
  by (simp_all add: U8_IS_VALID_LEAD3_AND_T1_def U8_IS_VALID_LEAD4_AND_T1_def and.assoc)

lemma single_not_trail: "U8_IS_SINGLE b \<Longrightarrow> \<not> U8_IS_TRAIL b"
  by (auto simp: u8_bytes word_le_nat_alt word_less_nat_alt)

lemma utf8_prevCharSafeBody_fst:
  "fst (utf8_prevCharSafeBody s start i (s ! i) (- 1)) = utf8_back1SafeBody s start i"
  by (simp add: utf8_prevCharSafeBody_def utf8_back1SafeBody_def Let_def valid_masked)

lemma U8_PREV_fst: "fst (U8_PREV s start i) = U8_BACK_1 s start i"
proof -
  have "utf8_back1SafeBody s start (i - 1) = i - 1" if "\<not> U8_IS_TRAIL (s ! (i - 1))"
    using that by (simp add: utf8_back1SafeBody_def)
  then show ?thesis
    using single_not_trail [of "s ! (i - 1)"] utf8_prevCharSafeBody_fst [of s start "i - 1"]
    by (auto simp: U8_PREV_def U8_BACK_1_def Let_def)
qed

subsection \<open>Both directions read the same code point\<close>

lemma trail_mask: "U8_IS_TRAIL t \<Longrightarrow> t - 0x80 = t AND 0x3f"
proof -
  have "\<forall>t::byte. 0x80 \<le> t \<and> t \<le> 0xbf \<longrightarrow> t - 0x80 = t AND 0x3f"
    unfolding byte_range_all by code_simp
  moreover assume "U8_IS_TRAIL t"
  ultimately show ?thesis by (auto simp: U8_IS_TRAIL_iff word_le_nat_alt word_less_nat_alt)
qed

lemma lead2_mask: "U8_IS_LEAD b \<Longrightarrow> b < 0xe0 \<Longrightarrow> b - 0xc0 = b AND 0x1f"
proof -
  have "\<forall>b::byte. 0xc2 \<le> b \<and> b \<le> 0xdf \<longrightarrow> b - 0xc0 = b AND 0x1f"
    unfolding byte_range_all by code_simp
  moreover assume "U8_IS_LEAD b" "b < 0xe0"
  ultimately show ?thesis by (auto simp: U8_IS_LEAD_iff word_le_nat_alt word_less_nat_alt)
qed

lemma prev_stays:
  assumes "fst (utf8_prevCharSafeBody s 0 i c (- 1)) = i"
  shows "snd (utf8_prevCharSafeBody s 0 i c (- 1)) = U_SENTINEL"
  using assms
  by (auto simp: utf8_prevCharSafeBody_def Let_def errorValue_def split: if_splits)

text \<open>What \<open>U8_PREV\<close> reads behind a complete or truncated sequence.\<close>

lemma prev_body_simps:
  assumes "U8_IS_LEAD (s ! i)" "t1_ok (s ! i) (s ! (i + 1))"
  shows prev_2: "s ! i < 0xe0 \<Longrightarrow> snd (U8_PREV s 0 (i + 2)) =
           push_bit 6 (uint (s ! i AND 0x1f)) OR uint (s ! (i + 1) AND 0x3f)"
    and prev_2_cut: "0xe0 \<le> s ! i \<Longrightarrow> snd (U8_PREV s 0 (i + 2)) = U_SENTINEL"
    and prev_3: "0xe0 \<le> s ! i \<Longrightarrow> s ! i < 0xf0 \<Longrightarrow> U8_IS_TRAIL (s ! (i + 2)) \<Longrightarrow>
         snd (U8_PREV s 0 (i + 3)) = push_bit 12 (uint (s ! i AND 0xf)) OR
           push_bit 6 (uint (s ! (i + 1) AND 0x3f)) OR uint (s ! (i + 2) AND 0x3f)"
    and prev_3_cut: "0xf0 \<le> s ! i \<Longrightarrow> U8_IS_TRAIL (s ! (i + 2)) \<Longrightarrow>
         snd (U8_PREV s 0 (i + 3)) = U_SENTINEL"
    and prev_4: "0xf0 \<le> s ! i \<Longrightarrow> U8_IS_TRAIL (s ! (i + 2)) \<Longrightarrow> U8_IS_TRAIL (s ! (i + 3)) \<Longrightarrow>
         snd (U8_PREV s 0 (i + 4)) = push_bit 18 (uint (s ! i AND 7)) OR
           push_bit 12 (uint (s ! (i + 1) AND 0x3f)) OR
           push_bit 6 (uint (s ! (i + 2) AND 0x3f)) OR uint (s ! (i + 3) AND 0x3f)"
proof -
  have t: "U8_IS_TRAIL (s ! (i + 1))" using t1_ok_trail assms by blast
  have ns: "U8_IS_TRAIL b \<Longrightarrow> \<not> U8_IS_SINGLE b \<and> \<not> U8_IS_LEAD b" for b
    using single_not_trail lead_not_trail by blast
  have nh: "U8_IS_TRAIL b \<Longrightarrow> \<not> 0xe0 \<le> b" for b
    by (auto simp: u8_bytes word_le_nat_alt word_less_nat_alt)
  have hi: "s ! i \<le> 0xf4" using assms(1) by (simp add: U8_IS_LEAD_iff)
  have m2: "s ! i < 0xe0 \<Longrightarrow> s ! i - 0xc0 = s ! i AND 0x1f"
    using lead2_mask assms(1) by blast
  note defs = U8_PREV_def utf8_prevCharSafeBody_def Let_def errorValue_def valid_masked
    eval_nat_numeral
  { assume "s ! i < 0xe0"
    then show "snd (U8_PREV s 0 (i + 2)) =
           push_bit 6 (uint (s ! i AND 0x1f)) OR uint (s ! (i + 1) AND 0x3f)"
      using ns [OF t] t assms m2 by (simp add: defs) }
  { assume "0xe0 \<le> s ! i"
    then show "snd (U8_PREV s 0 (i + 2)) = U_SENTINEL"
      using ns [OF t] t assms t1_ok_high(1) [of "s ! i"] by (simp add: defs not_less [symmetric]) }
  { assume "0xe0 \<le> s ! i" "s ! i < 0xf0" "U8_IS_TRAIL (s ! (i + 2))"
    then show "snd (U8_PREV s 0 (i + 3)) = push_bit 12 (uint (s ! i AND 0xf)) OR
           push_bit 6 (uint (s ! (i + 1) AND 0x3f)) OR uint (s ! (i + 2) AND 0x3f)"
      using ns [OF t] ns [of "s ! (i + 2)"] t assms t1_ok_high(1) [of "s ! i"] hi
      by (simp add: defs) }
  { assume "0xf0 \<le> s ! i" "U8_IS_TRAIL (s ! (i + 2))"
    moreover then have "0xe0 \<le> s ! i" "\<not> s ! i < 0xf0" by (auto simp: word_le_nat_alt word_less_nat_alt)
    ultimately show "snd (U8_PREV s 0 (i + 3)) = U_SENTINEL"
      using ns [OF t] ns [of "s ! (i + 2)"] t assms t1_ok_high(2) [of "s ! i"] hi
      by (simp add: defs) }
  { assume "0xf0 \<le> s ! i" "U8_IS_TRAIL (s ! (i + 2))" "U8_IS_TRAIL (s ! (i + 3))"
    then show "snd (U8_PREV s 0 (i + 4)) = push_bit 18 (uint (s ! i AND 7)) OR
           push_bit 12 (uint (s ! (i + 1) AND 0x3f)) OR
           push_bit 6 (uint (s ! (i + 2) AND 0x3f)) OR uint (s ! (i + 3) AND 0x3f)"
      using ns [OF t] ns [of "s ! (i + 2)"] ns [of "s ! (i + 3)"] nh [OF t] t assms
        t1_ok_high(2) [of "s ! i"] hi
      by (simp add: defs) }
qed

lemma U8_PREV_NEXT:
  assumes "cp_pos (\<lambda>i. U8_FWD_1 s i n) n k = i" "i < n"
  shows "U8_PREV s 0 (U8_FWD_1 s i n) = (i, snd (U8_NEXT s i n))"
proof -
  let ?j = "U8_FWD_1 s i n"
  have fst: "fst (U8_PREV s 0 ?j) = i"
    by (simp add: U8_PREV_fst U8_BACK_1_FWD [OF assms])
  consider (single) "U8_IS_SINGLE (s ! i)"
    | (bad) "\<not> U8_IS_SINGLE (s ! i)" "\<not> (U8_IS_LEAD (s ! i) \<and> i + 1 \<noteq> n \<and> t1_ok (s ! i) (s ! (i + 1)))"
    | (two) "U8_IS_LEAD (s ! i)" "i + 1 \<noteq> n" "t1_ok (s ! i) (s ! (i + 1))" "s ! i < 0xe0"
    | (three) "U8_IS_LEAD (s ! i)" "i + 1 \<noteq> n" "t1_ok (s ! i) (s ! (i + 1))" "0xe0 \<le> s ! i" "s ! i < 0xf0"
    | (four) "U8_IS_LEAD (s ! i)" "i + 1 \<noteq> n" "t1_ok (s ! i) (s ! (i + 1))" "0xf0 \<le> s ! i"
    by (meson not_less)
  then have "snd (U8_PREV s 0 ?j) = snd (U8_NEXT s i n)"
  proof cases
    case single
    then have "\<not> U8_IS_LEAD (s ! i)" by (auto simp: u8_bytes word_le_nat_alt word_less_nat_alt)
    with single show ?thesis by (simp add: U8_PREV_def U8_NEXT_single U8_FWD_1_eq)
  next
    case bad
    then have j: "?j = i + 1" by (simp add: U8_FWD_1_eq)
    have "snd (U8_PREV s 0 ?j) = U_SENTINEL"
      using fst j bad prev_stays [of s i "s ! i"] by (simp add: U8_PREV_def)
    moreover have "snd (U8_NEXT s i n) = U_SENTINEL"
    proof (cases "U8_IS_LEAD (s ! i) \<and> i + 1 \<noteq> n")
      case True
      with bad have "\<not> t1_ok (s ! i) (s ! (i + 1))" by blast
      with True show ?thesis
        by (cases "s ! i < 0xe0"; cases "s ! i < 0xf0")
          (auto simp: U8_NEXT_2 U8_NEXT_3 U8_NEXT_4 u8_last_trail_eq t1_ok_def not_less)
    qed (use bad in \<open>auto simp: U8_NEXT_illegal\<close>)
    ultimately show ?thesis by simp
  next
    case two
    then have "?j = i + 2" by (simp add: U8_FWD_1_eq)
    with two t1_ok_trail [of "s ! i" "s ! (i + 1)"] prev_2 [of s i] show ?thesis
      by (simp add: U8_NEXT_2 u8_last_trail_eq trail_mask)
  next
    case three
    show ?thesis
    proof (cases "i + 2 \<noteq> n \<and> U8_IS_TRAIL (s ! (i + 2))")
      case True
      with three have "?j = i + 3" by (simp add: U8_FWD_1_eq not_less [symmetric])
      with True three show ?thesis
        by (simp add: U8_NEXT_3 u8_last_trail_eq prev_3 trail_mask push_bit_or or.assoc)
    next
      case False
      with three have "?j = i + 2" by (simp add: U8_FWD_1_eq not_less [symmetric])
      with False three prev_2_cut [of s i] show ?thesis
        by (auto simp: U8_NEXT_3 u8_last_trail_eq)
    qed
  next
    case four
    then have e0: "0xe0 \<le> s ! i" by (auto simp: word_le_nat_alt word_less_nat_alt)
    have m: "s ! i - 0xf0 = s ! i AND 7"
      using four lead4_minus(2) [of "s ! i"] by (simp add: U8_IS_LEAD_iff)
    consider "i + 2 = n \<or> \<not> U8_IS_TRAIL (s ! (i + 2))"
      | "i + 2 \<noteq> n" "U8_IS_TRAIL (s ! (i + 2))" "i + 3 = n \<or> \<not> U8_IS_TRAIL (s ! (i + 3))"
      | "i + 2 \<noteq> n" "U8_IS_TRAIL (s ! (i + 2))" "i + 3 \<noteq> n" "U8_IS_TRAIL (s ! (i + 3))"
      by blast
    then show ?thesis
    proof cases
      case 1
      with four have "?j = i + 2" by (simp add: U8_FWD_1_eq)
      with 1 four e0 prev_2_cut [of s i] show ?thesis by (auto simp: U8_NEXT_4)
    next
      case 2
      with four e0 have "?j = i + 3" by (simp add: U8_FWD_1_eq not_less [symmetric])
      with 2 four prev_3_cut [of s i] show ?thesis by (auto simp: U8_NEXT_4 u8_last_trail_eq)
    next
      case 3
      with four e0 have "?j = i + 4" by (simp add: U8_FWD_1_eq not_less [symmetric])
      with 3 four m show ?thesis
        by (simp add: U8_NEXT_4 prev_4 u8_last_trail_eq trail_mask push_bit_or or.assoc)
    qed
  qed
  with fst show ?thesis by (metis prod.collapse)
qed

lemma U8_FWD_1_take: "i < n \<Longrightarrow> U8_FWD_1 (take n s) i n = U8_FWD_1 s i n"
  by (auto simp: U8_FWD_1_eq)
lemma U8_NEXT_take: "i < n \<Longrightarrow> U8_NEXT (take n s) i n = U8_NEXT s i n"
  by (simp add: U8_NEXT_def u8_last_trail_def Let_def)

subsection \<open>Properties\<close>

text \<open>C7. Backward iteration undoes forward iteration on every byte string, ill-formed
  ones included: from the boundary behind code point \<open>k\<close>, \<open>U8_BACK_1\<close> returns to the
  boundary before it.\<close>

theorem u8_back_undoes_forward:
  assumes "cp_pos (\<lambda>i. U8_FWD_1 s i n) n k < n"
  shows "U8_BACK_1 s 0 (cp_pos (\<lambda>i. U8_FWD_1 s i n) n (Suc k)) = cp_pos (\<lambda>i. U8_FWD_1 s i n) n k"
  by (rule u8.back_fwd [OF assms])

text \<open>An ill-formed string: a stray trail byte, a truncated three-byte sequence, a letter.\<close>

theorem u8_back_undoes_forward_witness:
  "cp_pos (\<lambda>i. U8_FWD_1 [0x80, 0xe2, 0x82, 0x41] i 4) 4 1 < 4 \<and>
   U8_BACK_1 [0x80, 0xe2, 0x82, 0x41] 0 (cp_pos (\<lambda>i. U8_FWD_1 [0x80, 0xe2, 0x82, 0x41] i 4) 4 (Suc 1)) = 1"
proof -
  have pos: "cp_pos (\<lambda>i. U8_FWD_1 [0x80, 0xe2, 0x82, 0x41] i 4) 4 1 = 1" by code_simp
  then have "cp_pos (\<lambda>i. U8_FWD_1 [0x80, 0xe2, 0x82, 0x41] i 4) 4 1 < 4" by simp
  with u8_back_undoes_forward [OF this] pos show ?thesis by simp
qed

text \<open>Reading backwards with \<open>U8_PREV\<close> yields the code point that \<open>U8_NEXT\<close> read
  forwards, and returns to where it was read.\<close>

lemma u8_prev_reads_next:
  assumes "cp_pos (\<lambda>i. U8_FWD_1 s i n) n k = i" "i < n"
  shows "U8_PREV s 0 (fst (U8_NEXT s i n)) = (i, snd (U8_NEXT s i n))"
  unfolding U8_NEXT_fst by (rule U8_PREV_NEXT [OF assms])

text \<open>\<open>U8_NEXT\<close> advances by one to four bytes, never past the end, stops where
  \<open>U8_FWD_1\<close> stops, and does not depend on the bytes behind the end.\<close>

lemma u8_next_bounds:
  assumes "i < n" "n \<le> length s"
  shows "i < fst (U8_NEXT s i n) \<and> fst (U8_NEXT s i n) \<le> min n (i + 4) \<and>
    fst (U8_NEXT s i n) = U8_FWD_1 s i n \<and> U8_NEXT (take n s @ t) i n = U8_NEXT s i n"
proof -
  have "fst (U8_NEXT s i n) \<le> i + 4" by (simp add: U8_NEXT_fst U8_FWD_1_eq)
  moreover have "U8_NEXT (take n s @ t) i n = U8_NEXT s i n"
    using U8_NEXT_take [OF assms(1), of "take n s @ t"] U8_NEXT_take [OF assms(1), of s] assms(2) by simp
  ultimately show ?thesis
    using assms U8_FWD_1_gt [of i s n] U8_FWD_1_le [OF assms(1), of s] by (auto simp: U8_NEXT_fst)
qed

end
