(* ===== verification/Storage.thy ===== *)
theory Storage
  imports Prelude
begin

text \<open>
  The bump allocator \<open>SliceArena\<close> (\<^verbatim>\<open>src/shared/slice_arena.h\<close>) that owns the
  bytes of converted strings. Heap allocation is a parameter: \<open>heap k\<close> is the
  address \<open>operator new\<close> returned for the \<open>k\<close>-th slice. Sizes are natural numbers;
  the invariant keeps \<open>current_used_\<close> below \<open>current_capacity_\<close>, so the \<open>size_t\<close>
  difference the code forms does not wrap.
\<close>

subsection \<open>SliceArena\<close>

record slice_arena =
  arena_slices :: "(nat \<times> nat) list"
  arena_current :: "nat option"
  arena_capacity :: nat
  arena_used :: nat

definition SliceArena :: slice_arena where
  "SliceArena = \<lparr>arena_slices = [], arena_current = None, arena_capacity = 0, arena_used = 0\<rparr>"

definition initial_slice_bytes :: nat where "initial_slice_bytes = 64"
definition maximum_regular_slice_bytes :: nat where "maximum_regular_slice_bytes = 256 * 2 ^ 10"

definition start_slice :: "(nat \<Rightarrow> nat) \<Rightarrow> slice_arena \<Rightarrow> nat \<Rightarrow> slice_arena" where
  "start_slice heap a required =
     (let regular =
        (if arena_capacity a = 0 then initial_slice_bytes
         else if arena_capacity a \<ge> maximum_regular_slice_bytes div 2
         then maximum_regular_slice_bytes
         else arena_capacity a * 2);
        capacity = max required regular;
        data = heap (length (arena_slices a))
      in a\<lparr>arena_slices := arena_slices a @ [(data, capacity)], arena_current := Some data,
            arena_capacity := capacity, arena_used := 0\<rparr>)"

definition allocate :: "(nat \<Rightarrow> nat) \<Rightarrow> slice_arena \<Rightarrow> nat \<Rightarrow> slice_arena \<times> nat" where
  "allocate heap a bytes =
     (let a = (if arena_current a = None \<or> bytes > arena_capacity a - arena_used a
               then start_slice heap a bytes else a);
          output = the (arena_current a) + arena_used a
      in (a\<lparr>arena_used := arena_used a + bytes\<rparr>, output))"

definition arena_valid :: "slice_arena \<Rightarrow> bool" where
  "arena_valid a \<longleftrightarrow> arena_used a \<le> arena_capacity a \<and>
     ((arena_current a = None) = (arena_capacity a = 0))"

text \<open>The invariant behind \<open>valid()\<close>: the current slice is the last one, and a
  regular slice is never larger than the maximum.\<close>

definition arena_inv :: "(nat \<Rightarrow> nat) \<Rightarrow> slice_arena \<Rightarrow> bool" where
  "arena_inv heap a \<longleftrightarrow> arena_valid a \<and>
     (case arena_current a of
        None \<Rightarrow> arena_slices a = []
      | Some d \<Rightarrow> arena_slices a \<noteq> [] \<and> last (arena_slices a) = (d, arena_capacity a)) \<and>
     map fst (arena_slices a) = map heap [0..<length (arena_slices a)]"

lemma arena_inv_init: "arena_inv heap SliceArena"
  by (simp add: arena_inv_def arena_valid_def SliceArena_def)

lemma start_slice_inv: "arena_inv heap a \<Longrightarrow> arena_inv heap (start_slice heap a required)"
  by (auto simp: arena_inv_def arena_valid_def start_slice_def Let_def initial_slice_bytes_def
      maximum_regular_slice_bytes_def max_def split: option.splits)

lemma start_slice_fits:
  "required \<le> arena_capacity (start_slice heap a required)"
  "arena_used (start_slice heap a required) = 0"
  by (simp_all add: start_slice_def Let_def)

lemma allocate_inv: "arena_inv heap a \<Longrightarrow> arena_inv heap (fst (allocate heap a bytes))"
proof -
  assume inv: "arena_inv heap a"
  let ?b = "if arena_current a = None \<or> bytes > arena_capacity a - arena_used a
            then start_slice heap a bytes else a"
  have "arena_inv heap ?b" using inv start_slice_inv by simp
  moreover have "arena_used ?b + bytes \<le> arena_capacity ?b"
    using start_slice_fits [where heap = heap and a = a and required = bytes] inv
    by (auto simp: arena_inv_def arena_valid_def)
  ultimately show ?thesis
    by (auto simp: allocate_def Let_def arena_inv_def arena_valid_def split: option.splits)
qed

text \<open>The region an allocation returns lies in the current slice, directly below
  the new \<open>arena_used\<close>.\<close>

lemma allocate_region:
  assumes "arena_inv heap a" and "allocate heap a bytes = (a', p)"
  shows "\<exists>d. last (arena_slices a') = (d, arena_capacity a') \<and> arena_current a' = Some d \<and>
    p + bytes = d + arena_used a' \<and> d \<le> p \<and> arena_used a' \<le> arena_capacity a'"
proof -
  have "arena_inv heap a'" using allocate_inv [OF assms(1), of bytes] assms(2) by simp
  moreover have "arena_current a' \<noteq> None"
    using assms by (auto simp: allocate_def Let_def start_slice_def)
  moreover have "p + bytes = the (arena_current a') + arena_used a' \<and> the (arena_current a') \<le> p"
    using assms(2) by (auto simp: allocate_def Let_def)
  ultimately show ?thesis by (auto simp: arena_inv_def arena_valid_def)
qed

text \<open>A run of allocations, with the address and size of each.\<close>

fun allocate_all :: "(nat \<Rightarrow> nat) \<Rightarrow> slice_arena \<Rightarrow> nat list \<Rightarrow> slice_arena \<times> (nat \<times> nat) list" where
  "allocate_all heap a [] = (a, [])"
| "allocate_all heap a (n # ns) =
     (let (a1, p) = allocate heap a n; (a2, rs) = allocate_all heap a1 ns
      in (a2, (p, n) # rs))"

text \<open>Where a region lies: slice number, offset, address and size.\<close>

definition in_slice :: "(nat \<Rightarrow> nat) \<Rightarrow> slice_arena \<Rightarrow> nat \<Rightarrow> nat \<Rightarrow> nat \<times> nat \<Rightarrow> bool" where
  "in_slice heap a k off r \<longleftrightarrow> k < length (arena_slices a) \<and> fst r = heap k + off \<and>
     off + snd r \<le> snd (arena_slices a ! k)"

definition beyond :: "slice_arena \<Rightarrow> nat \<Rightarrow> nat \<Rightarrow> bool" where
  "beyond a k off \<longleftrightarrow> length (arena_slices a) \<le> k \<or> (Suc k = length (arena_slices a) \<and> arena_used a \<le> off)"

lemma allocate_slices: "\<exists>new. arena_slices (fst (allocate heap a n)) = arena_slices a @ new"
  by (simp add: allocate_def Let_def start_slice_def)

lemma allocate_all_slices: "\<exists>new. arena_slices (fst (allocate_all heap a ns)) = arena_slices a @ new"
proof (induction ns arbitrary: a)
  case (Cons n ns)
  obtain new1 where "arena_slices (fst (allocate heap a n)) = arena_slices a @ new1"
    using allocate_slices by blast
  with Cons.IH [of "fst (allocate heap a n)"] show ?case
    by (auto simp: case_prod_beta Let_def)
qed simp

lemma in_slice_extend:
  assumes "in_slice heap a k off r" "arena_slices a' = arena_slices a @ new"
  shows "in_slice heap a' k off r"
  using assms by (auto simp: in_slice_def nth_append)

lemma allocate_place:
  assumes "arena_inv heap a"
  shows "\<exists>k off. in_slice heap (fst (allocate heap a n)) k off (snd (allocate heap a n), n) \<and>
    beyond a k off \<and> Suc k = length (arena_slices (fst (allocate heap a n))) \<and>
    off + n = arena_used (fst (allocate heap a n))"
proof (cases "arena_current a = None \<or> n > arena_capacity a - arena_used a")
  case True
  let ?k = "length (arena_slices a)"
  have "in_slice heap (fst (allocate heap a n)) ?k 0 (snd (allocate heap a n), n)"
    using True start_slice_fits(1) [of n heap a]
    by (simp add: in_slice_def allocate_def Let_def start_slice_def)
  with True show ?thesis
    by (intro exI [of _ ?k] exI [of _ 0]) (simp add: beyond_def allocate_def Let_def start_slice_def)
next
  case False
  then obtain d where d: "arena_current a = Some d" by auto
  with assms have ne: "arena_slices a \<noteq> []" and last: "last (arena_slices a) = (d, arena_capacity a)"
    and used: "arena_used a \<le> arena_capacity a"
    and heap: "map fst (arena_slices a) = map heap [0..<length (arena_slices a)]"
    by (auto simp: arena_inv_def arena_valid_def)
  let ?k = "length (arena_slices a) - 1"
  have at: "arena_slices a ! ?k = (d, arena_capacity a)" and lt: "?k < length (arena_slices a)"
    using ne last by (simp_all add: last_conv_nth)
  have "heap ?k = d"
    using arg_cong [OF heap, of "\<lambda>xs. xs ! ?k"] at lt by simp
  moreover have "allocate heap a n = (a\<lparr>arena_used := arena_used a + n\<rparr>, d + arena_used a)"
    using False d by (simp add: allocate_def Let_def)
  ultimately show ?thesis
    using False d at lt used
    by (intro exI [of _ ?k] exI [of _ "arena_used a"]) (auto simp: in_slice_def beyond_def)
qed

lemma allocate_all_place:
  assumes "arena_inv heap a" "r \<in> set (snd (allocate_all heap a ns))"
  shows "\<exists>k off. in_slice heap (fst (allocate_all heap a ns)) k off r \<and> beyond a k off"
  using assms
proof (induction ns arbitrary: a)
  case (Cons n ns)
  let ?a1 = "fst (allocate heap a n)"
  obtain new where new: "arena_slices (fst (allocate_all heap ?a1 ns)) = arena_slices ?a1 @ new"
    using allocate_all_slices by blast
  obtain k off where head: "in_slice heap ?a1 k off (snd (allocate heap a n), n)" "beyond a k off"
      "Suc k = length (arena_slices ?a1)" "off + n = arena_used ?a1"
    using allocate_place [OF Cons.prems(1)] by blast
  have fin: "fst (allocate_all heap a (n # ns)) = fst (allocate_all heap ?a1 ns)"
    by (simp add: case_prod_beta Let_def)
  consider "r = (snd (allocate heap a n), n)" | "r \<in> set (snd (allocate_all heap ?a1 ns))"
    using Cons.prems(2) by (auto simp: case_prod_beta Let_def)
  then show ?case
  proof cases
    case 1
    then show ?thesis using head in_slice_extend [OF head(1) new] fin by auto
  next
    case 2
    with Cons.IH [OF allocate_inv [OF Cons.prems(1)]] obtain k' off'
      where "in_slice heap (fst (allocate_all heap ?a1 ns)) k' off' r" "beyond ?a1 k' off'"
      by blast
    moreover have "beyond a k' off'"
      using \<open>beyond ?a1 k' off'\<close> head(2,3,4) by (auto simp: beyond_def)
    ultimately show ?thesis using fin by auto
  qed
qed simp

definition regions_apart :: "nat \<times> nat \<Rightarrow> nat \<times> nat \<Rightarrow> bool" where
  "regions_apart r1 r2 \<longleftrightarrow> fst r1 + snd r1 \<le> fst r2 \<or> fst r2 + snd r2 \<le> fst r1"

text \<open>What the code relies on of the heap: live slices do not overlap.\<close>

definition heap_disjoint :: "slice_arena \<Rightarrow> bool" where
  "heap_disjoint a \<longleftrightarrow> (\<forall>i < length (arena_slices a). \<forall>j < i.
     regions_apart (arena_slices a ! j) (arena_slices a ! i))"

lemma allocate_all_inv: "arena_inv heap a \<Longrightarrow> arena_inv heap (fst (allocate_all heap a ns))"
proof (induction ns arbitrary: a)
  case (Cons n ns)
  with Cons.IH [OF allocate_inv [OF Cons.prems, of n]] show ?case
    by (simp add: case_prod_beta Let_def)
qed simp

lemma slice_base: "arena_inv heap a \<Longrightarrow> k < length (arena_slices a) \<Longrightarrow> fst (arena_slices a ! k) = heap k"
proof -
  assume "arena_inv heap a" "k < length (arena_slices a)"
  then have "map fst (arena_slices a) ! k = map heap [0..<length (arena_slices a)] ! k"
    by (simp add: arena_inv_def)
  then show ?thesis using \<open>k < _\<close> by simp
qed

lemma in_slice_apart:
  assumes inv: "arena_inv heap a" and apart: "heap_disjoint a"
    and r1: "in_slice heap a k off r1" and r2: "in_slice heap a k' off' r2"
    and order: "k < k' \<or> (k = k' \<and> off + snd r1 \<le> off')"
  shows "regions_apart r1 r2"
  using order
proof
  assume "k < k'"
  with apart r2 have "regions_apart (arena_slices a ! k) (arena_slices a ! k')"
    by (simp add: heap_disjoint_def in_slice_def)
  with r1 r2 slice_base [OF inv, of k] slice_base [OF inv, of k'] show ?thesis
    by (auto simp: in_slice_def regions_apart_def)
next
  assume "k = k' \<and> off + snd r1 \<le> off'"
  with r1 r2 show ?thesis by (auto simp: in_slice_def regions_apart_def)
qed

lemma allocate_all_apart:
  assumes "arena_inv heap a" "heap_disjoint (fst (allocate_all heap a ns))"
    "j < i" "i < length ns"
  shows "regions_apart (snd (allocate_all heap a ns) ! j) (snd (allocate_all heap a ns) ! i)"
  using assms
proof (induction ns arbitrary: a i j)
  case (Cons n ns)
  let ?a1 = "fst (allocate heap a n)" and ?fin = "fst (allocate_all heap (fst (allocate heap a n)) ns)"
  have len: "length (snd (allocate_all heap b ms)) = length ms" for b ms
    by (induction ms arbitrary: b) (auto simp: case_prod_beta Let_def)
  have inv1: "arena_inv heap ?a1" by (rule allocate_inv [OF Cons.prems(1)])
  have fin: "fst (allocate_all heap a (n # ns)) = ?fin"
    "snd (allocate_all heap a (n # ns)) = (snd (allocate heap a n), n) # snd (allocate_all heap ?a1 ns)"
    by (simp_all add: case_prod_beta Let_def)
  show ?case
  proof (cases j)
    case 0
    obtain i' where i': "i = Suc i'" using Cons.prems(3) by (cases i) auto
    then have "snd (allocate_all heap ?a1 ns) ! i' \<in> set (snd (allocate_all heap ?a1 ns))"
      using Cons.prems(4) len by (intro nth_mem) simp
    then obtain k' off' where later: "in_slice heap ?fin k' off' (snd (allocate_all heap ?a1 ns) ! i')"
        "beyond ?a1 k' off'"
      using allocate_all_place [OF inv1] by blast
    obtain k off where head: "in_slice heap ?a1 k off (snd (allocate heap a n), n)"
        "Suc k = length (arena_slices ?a1)" "off + n = arena_used ?a1"
      using allocate_place [OF Cons.prems(1)] by blast
    obtain new where "arena_slices ?fin = arena_slices ?a1 @ new"
      using allocate_all_slices by blast
    then have "in_slice heap ?fin k off (snd (allocate heap a n), n)"
      using head(1) in_slice_extend by blast
    moreover have "k < k' \<or> (k = k' \<and> off + n \<le> off')"
      using later(2) head(2,3) by (auto simp: beyond_def)
    ultimately show ?thesis
      using in_slice_apart [OF allocate_all_inv [OF inv1], of ns] Cons.prems(2) later(1) 0 i' fin
      by simp
  next
    case (Suc j')
    then obtain i' where "i = Suc i'" using Cons.prems(3) by (cases i) auto
    with Suc Cons.IH [OF inv1, of j' i'] Cons.prems fin show ?thesis by simp
  qed
qed simp

subsection \<open>Properties\<close>

text \<open>C38. Regions handed out by one arena never overlap, however many allocations of
  whatever sizes, as long as the slices from the heap do not overlap; and the arena's
  own consistency test \<open>valid()\<close> holds after them.\<close>

theorem arena_allocations_apart:
  assumes "heap_disjoint (fst (allocate_all heap SliceArena ns))"
  shows "arena_valid (fst (allocate_all heap SliceArena ns)) \<and>
    (\<forall>i<length ns. \<forall>j<i. regions_apart (snd (allocate_all heap SliceArena ns) ! j) (snd (allocate_all heap SliceArena ns) ! i))"
  using allocate_all_inv [OF arena_inv_init, of heap ns] allocate_all_apart [OF arena_inv_init assms]
  by (simp add: arena_inv_def)

lemmas arena_runs = allocate_def start_slice_def SliceArena_def initial_slice_bytes_def
  maximum_regular_slice_bytes_def Let_def

text \<open>Two requests that fit the first slice and one that needs a slice of its own.\<close>

theorem arena_allocations_apart_witness:
  "heap_disjoint (fst (allocate_all (\<lambda>k. 1000 * (k + 1)) SliceArena [10, 20, 100])) \<and>
   snd (allocate_all (\<lambda>k. 1000 * (k + 1)) SliceArena [10, 20, 100]) = [(1000, 10), (1010, 20), (2000, 100)] \<and>
   arena_valid (fst (allocate_all (\<lambda>k. 1000 * (k + 1)) SliceArena [10, 20, 100]))"
proof -
  have slices: "arena_slices (fst (allocate_all (\<lambda>k. 1000 * (k + 1)) SliceArena [10, 20, 100])) = [(1000, 64), (2000, 128)]"
    by (simp add: arena_runs)
  have dis: "heap_disjoint (fst (allocate_all (\<lambda>k. 1000 * (k + 1)) SliceArena [10, 20, 100]))"
    unfolding heap_disjoint_def slices by (auto simp: less_Suc_eq regions_apart_def)
  moreover have "snd (allocate_all (\<lambda>k. 1000 * (k + 1)) SliceArena [10, 20, 100]) = [(1000, 10), (1010, 20), (2000, 100)]"
    by (simp add: arena_runs)
  ultimately show ?thesis using arena_allocations_apart [OF dis] by blast
qed

end
