(* ===== verification/Utf8_View.thy ===== *)
theory Utf8_View
  imports Utf8_Icu Storage
begin

unbundle bit_operations_syntax

text \<open>
  String views and their normalization to UTF-8 (\<^verbatim>\<open>src/shared/string_view.h\<close>,
  \<^verbatim>\<open>byte_view.h\<close>, \<^verbatim>\<open>ascii.h\<close>, \<^verbatim>\<open>utf8.h\<close>, \<^verbatim>\<open>utf8.cpp\<close>): the encoding marks, the three
  entry points of normalization with their fast and slow paths, the cached
  byte-to-code-point cursor and the two code-point-to-byte conversions.

  \<open>NativeToUtf8\<close> drives R's \<open>Riconv\<close> and is a parameter: what it answers about the
  native encoding and the bytes its two conversions return.
\<close>

subsection \<open>Views\<close>

datatype string_encoding =
  Enc_native | Enc_utf8 | Enc_latin1 | Enc_bytes | Enc_ascii | Enc_ascii_or_utf8 | Enc_missing | Enc_unknown

record string_view =
  sv_ptr :: cptr
  sv_len :: int
  sv_enc :: string_encoding

record byte_view =
  bv_ptr :: cptr
  bv_len :: int

definition missing_string_length :: int where "missing_string_length = - 1"

definition StringView :: "cptr \<Rightarrow> int \<Rightarrow> string_encoding \<Rightarrow> string_view" where
  "StringView p l e = \<lparr>sv_ptr = p, sv_len = l, sv_enc = e\<rparr>"

definition is_na :: "string_view \<Rightarrow> bool" where
  "is_na v \<longleftrightarrow> sv_enc v = Enc_missing"

definition missing_view :: string_view where
  "missing_view = StringView NullPtr missing_string_length Enc_missing"

text \<open>The bytes a view denotes, and a view whose bytes can all be read.\<close>

definition sv_bytes :: "string_view \<Rightarrow> byte list" where
  "sv_bytes v = take (nat (sv_len v)) (ptr_bytes (sv_ptr v))"

definition sv_ok :: "string_view \<Rightarrow> bool" where
  "sv_ok v \<longleftrightarrow> \<not> is_na v \<and> sv_ptr v \<noteq> NullPtr \<and> 0 \<le> sv_len v \<and> sv_len v \<le> INT_MAX \<and>
     nat (sv_len v) \<le> length (ptr_bytes (sv_ptr v))"

lemma StringView_simps [simp, view_simps]:
  "sv_ptr (StringView p l e) = p" "sv_len (StringView p l e) = l" "sv_enc (StringView p l e) = e"
  "is_na (StringView p l e) \<longleftrightarrow> e = Enc_missing"
  by (simp_all add: StringView_def is_na_def)

lemma length_sv_bytes [simp]: "sv_ok v \<Longrightarrow> length (sv_bytes v) = nat (sv_len v)"
  by (simp add: sv_ok_def sv_bytes_def)

text \<open>A view of a concrete byte string, as the callers build them.\<close>

definition view_of :: "nat \<Rightarrow> string_encoding \<Rightarrow> byte list \<Rightarrow> string_view" where
  "view_of a e bs = StringView (Ptr a bs) (int (length bs)) e"

lemma view_of_ok [simp]:
  "e \<noteq> Enc_missing \<Longrightarrow> int (length bs) \<le> INT_MAX \<Longrightarrow> sv_ok (view_of a e bs)"
  "sv_bytes (view_of a e bs) = bs" "sv_enc (view_of a e bs) = e" "is_na (view_of a e bs) \<longleftrightarrow> e = Enc_missing"
  "sv_len (view_of a e bs) = int (length bs)"
  by (auto simp: view_of_def sv_ok_def sv_bytes_def)

subsection \<open>ASCII test\<close>

text \<open>The portable loop of \<open>is_ascii\<close>: it ORs all bytes and tests one bit at the end.\<close>

definition is_ascii :: "byte list \<Rightarrow> nat \<Rightarrow> bool" where
  "is_ascii data len = (fold (\<lambda>b acc. acc OR b) (take len data) 0 AND 0x80 = 0)"

lemma high_bit_or: "((a::byte) OR b) AND 0x80 = 0 \<longleftrightarrow> a AND 0x80 = 0 \<and> b AND 0x80 = 0"
  by (simp add: bit.conj_disj_distrib2 or_eq_0_iff)

lemma high_bit_less: "(b::byte) AND 0x80 = 0 \<longleftrightarrow> b < 0x80"
proof -
  have "\<forall>b::byte. (b AND 0x80 = 0) = (b < 0x80)"
    unfolding byte_all by code_simp
  then show ?thesis by blast
qed

lemma is_ascii_fold:
  "fold (\<lambda>b acc. acc OR b) bs a AND 0x80 = (0::byte) \<longleftrightarrow> a < 0x80 \<and> (\<forall>b\<in>set bs. b < 0x80)"
  by (induction bs arbitrary: a) (auto simp: high_bit_less high_bit_or simp flip: high_bit_less)

lemma is_ascii_iff: "is_ascii data len \<longleftrightarrow> (\<forall>b\<in>set (take len data). b < 0x80)"
  by (simp add: is_ascii_def is_ascii_fold)

subsection \<open>Normalization to UTF-8\<close>

record native_to_utf8 =
  conv_native_is_utf8 :: bool
  conv_native :: "byte list \<Rightarrow> byte_view result"
  conv_latin1 :: "byte list \<Rightarrow> byte_view result"

text \<open>The static \<open>const char empty\<close> that stands for the data of an empty result.\<close>

definition utf8_empty :: cptr where "utf8_empty = Ptr 0 [0]"

definition has_bom :: "cptr \<Rightarrow> int \<Rightarrow> bool" where
  "has_bom data len \<longleftrightarrow> 3 \<le> len \<and> ptr_bytes data ! 0 = 0xef \<and>
     ptr_bytes data ! 1 = 0xbb \<and> ptr_bytes data ! 2 = 0xbf"

definition invalid_bytes :: cxx_error where
  "invalid_bytes = Runtime_error ''encoding conversion returned invalid bytes''"

definition check_converted :: "byte_view \<Rightarrow> byte_view result" where
  "check_converted c =
     (if bv_len c < 0 \<or> (bv_ptr c = NullPtr \<and> 0 < bv_len c) then Inl invalid_bytes else Inr c)"

text \<open>The common end of both slow paths: an empty result points to \<open>utf8_empty\<close>.\<close>

definition view_finish :: "cptr \<Rightarrow> int \<Rightarrow> string_encoding \<Rightarrow> string_view" where
  "view_finish data len enc = StringView (if len = 0 then utf8_empty else data) len enc"

definition normalize_utf8_transient_slow :: "string_view \<Rightarrow> native_to_utf8 \<Rightarrow> string_view result" where
  "normalize_utf8_transient_slow source converter =
     (let finish = (\<lambda>data len enc. Inr (view_finish data len enc));
          data = sv_ptr source; len = sv_len source
      in
      if is_na source then Inr source
      else if data = NullPtr \<or> len < 0 then Inl (Runtime_error ''invalid string view'')
      else if sv_enc source = Enc_bytes then
        Inl (Runtime_error ''bytes encoding is not supported by this function'')
      else case sv_enc source of
        Enc_ascii \<Rightarrow> Inr source
      | Enc_utf8 \<Rightarrow>
          if has_bom data len then finish (ptr_add data 3) (len - 3) Enc_utf8
          else finish data len Enc_utf8
      | Enc_ascii_or_utf8 \<Rightarrow>
          if has_bom data len then finish (ptr_add data 3) (len - 3) Enc_utf8
          else finish data len Enc_ascii_or_utf8
      | Enc_latin1 \<Rightarrow>
          bindE (conv_latin1 converter (sv_bytes source)) (\<lambda>converted.
          bindE (check_converted converted) (\<lambda>converted.
          finish (bv_ptr converted) (bv_len converted) Enc_utf8))
      | Enc_native \<Rightarrow>
          if conv_native_is_utf8 converter then
            if has_bom data len then finish (ptr_add data 3) (len - 3) Enc_utf8
            else finish data len Enc_utf8
          else
            bindE (conv_native converter (sv_bytes source)) (\<lambda>converted.
            bindE (check_converted converted) (\<lambda>converted.
            finish (bv_ptr converted) (bv_len converted) Enc_utf8))
      | Enc_missing \<Rightarrow> Inl (Runtime_error ''non-missing string view has NA encoding'')
      | Enc_bytes \<Rightarrow> finish data len Enc_utf8
      | Enc_unknown \<Rightarrow> Inl (Runtime_error ''unknown string encoding''))"

text \<open>The part of \<open>normalize_utf8_slow\<close> behind its switch: drop the BOM, copy converted
  bytes into the arena, replace the pointer of an empty result.\<close>

definition normalize_finish ::
  "(nat \<Rightarrow> nat) \<Rightarrow> slice_arena \<Rightarrow> bool \<Rightarrow> bool \<Rightarrow> cptr \<Rightarrow> int \<Rightarrow> string_encoding
    \<Rightarrow> (string_view \<times> slice_arena) result" where
  "normalize_finish heap storage strip_bom converted data len enc =
     (let (data, len) = (if strip_bom then (ptr_add data 3, len - 3) else (data, len));
          (data, storage) =
            (if converted \<and> 0 < len then
               let (storage, stable) = allocate heap storage (nat len)
               in (Ptr stable (take (nat len) (ptr_bytes data)), storage)
             else (data, storage))
      in Inr (view_finish data len enc, storage))"

definition normalize_utf8_slow ::
  "string_view \<Rightarrow> native_to_utf8 \<Rightarrow> (nat \<Rightarrow> nat) \<Rightarrow> slice_arena \<Rightarrow> bool
    \<Rightarrow> (string_view \<times> slice_arena) result" where
  "normalize_utf8_slow source converter heap storage strip_bom_policy =
     (let data = sv_ptr source; len = sv_len source;
          finish = normalize_finish heap storage
      in
      if is_na source then Inr (missing_view, storage)
      else if data = NullPtr \<or> len < 0 then Inl (Runtime_error ''invalid string view'')
      else if sv_enc source = Enc_bytes then
        Inl (Runtime_error ''bytes encoding is not supported by this function'')
      else case sv_enc source of
        Enc_ascii \<Rightarrow> finish False False data len Enc_ascii
      | Enc_utf8 \<Rightarrow> finish (strip_bom_policy \<and> has_bom data len) False data len Enc_utf8
      | Enc_ascii_or_utf8 \<Rightarrow>
          let strip_bom = strip_bom_policy \<and> has_bom data len
          in finish strip_bom False data len (if strip_bom then Enc_utf8 else Enc_ascii_or_utf8)
      | Enc_latin1 \<Rightarrow>
          bindE (conv_latin1 converter (sv_bytes source)) (\<lambda>view.
          bindE (check_converted view) (\<lambda>view.
          finish False True (if bv_ptr view = NullPtr then utf8_empty else bv_ptr view) (bv_len view) Enc_utf8))
      | Enc_native \<Rightarrow>
          if conv_native_is_utf8 converter then
            finish (strip_bom_policy \<and> has_bom data len) False data len Enc_utf8
          else
            bindE (conv_native converter (sv_bytes source)) (\<lambda>view.
            bindE (check_converted view) (\<lambda>view.
            finish False True (if bv_ptr view = NullPtr then utf8_empty else bv_ptr view) (bv_len view) Enc_utf8))
      | Enc_missing \<Rightarrow> Inl (Runtime_error ''non-missing string view has NA encoding'')
      | Enc_bytes \<Rightarrow> finish False False data len Enc_utf8
      | Enc_unknown \<Rightarrow> Inl (Runtime_error ''unknown string encoding''))"

definition normalize_utf8_transient :: "string_view \<Rightarrow> native_to_utf8 \<Rightarrow> string_view result" where
  "normalize_utf8_transient source converter =
     (if is_na source then Inr source
      else if sv_ptr source \<noteq> NullPtr \<and> 0 \<le> sv_len source \<and> sv_enc source = Enc_ascii then Inr source
      else if sv_ptr source \<noteq> NullPtr \<and> 0 \<le> sv_len source \<and>
          (sv_enc source = Enc_utf8 \<or> sv_enc source = Enc_ascii_or_utf8) then
        if \<not> has_bom (sv_ptr source) (sv_len source) then Inr source
        else Inr (StringView (ptr_add (sv_ptr source) 3) (sv_len source - 3) Enc_utf8)
      else normalize_utf8_transient_slow source converter)"

definition normalize_utf8 ::
  "string_view \<Rightarrow> native_to_utf8 \<Rightarrow> (nat \<Rightarrow> nat) \<Rightarrow> slice_arena \<Rightarrow> (string_view \<times> slice_arena) result" where
  "normalize_utf8 source converter heap storage =
     (if is_na source then Inr (source, storage)
      else if sv_ptr source \<noteq> NullPtr \<and> 0 \<le> sv_len source \<and> sv_enc source = Enc_ascii
      then Inr (source, storage)
      else if sv_ptr source \<noteq> NullPtr \<and> 0 \<le> sv_len source \<and>
          (sv_enc source = Enc_utf8 \<or> sv_enc source = Enc_ascii_or_utf8) \<and>
          \<not> has_bom (sv_ptr source) (sv_len source)
      then Inr (source, storage)
      else normalize_utf8_slow source converter heap storage True)"

definition normalize_utf8_preserve_bom ::
  "string_view \<Rightarrow> native_to_utf8 \<Rightarrow> (nat \<Rightarrow> nat) \<Rightarrow> slice_arena \<Rightarrow> (string_view \<times> slice_arena) result" where
  "normalize_utf8_preserve_bom source converter heap storage =
     (if is_na source then Inr (source, storage)
      else if sv_ptr source \<noteq> NullPtr \<and> 0 \<le> sv_len source \<and>
          (sv_enc source = Enc_ascii \<or> sv_enc source = Enc_utf8 \<or> sv_enc source = Enc_ascii_or_utf8)
      then Inr (source, storage)
      else normalize_utf8_slow source converter heap storage False)"

subsection \<open>What normalization promises\<close>

text \<open>The contract of normalization on byte strings: the encoding mark and bytes of
  the result, or the error. \<open>strip\<close> says whether a leading BOM is dropped.\<close>

definition starts_with_bom :: "byte list \<Rightarrow> bool" where
  "starts_with_bom bs \<longleftrightarrow> take 3 bs = [0xef, 0xbb, 0xbf]"

definition drop_bom :: "byte list \<Rightarrow> byte list" where
  "drop_bom bs = (if starts_with_bom bs then drop 3 bs else bs)"

definition norm_spec ::
  "bool \<Rightarrow> native_to_utf8 \<Rightarrow> string_encoding \<Rightarrow> byte list \<Rightarrow> (string_encoding \<times> byte list) result" where
  "norm_spec strip converter enc bs =
     (let strip_to = (\<lambda>e. Inr (if strip \<and> starts_with_bom bs then Enc_utf8 else e,
                               if strip then drop_bom bs else bs));
          convert = (\<lambda>r. bindE r (\<lambda>c. bindE (check_converted c) (\<lambda>c.
                       Inr (Enc_utf8, take (nat (bv_len c)) (ptr_bytes (bv_ptr c))))))
      in case enc of
        Enc_ascii \<Rightarrow> Inr (Enc_ascii, bs)
      | Enc_utf8 \<Rightarrow> strip_to Enc_utf8
      | Enc_ascii_or_utf8 \<Rightarrow> strip_to Enc_ascii_or_utf8
      | Enc_native \<Rightarrow> if conv_native_is_utf8 converter then strip_to Enc_utf8
                      else convert (conv_native converter bs)
      | Enc_latin1 \<Rightarrow> convert (conv_latin1 converter bs)
      | Enc_bytes \<Rightarrow> Inl (Runtime_error ''bytes encoding is not supported by this function'')
      | Enc_missing \<Rightarrow> Inl (Runtime_error ''non-missing string view has NA encoding'')
      | Enc_unknown \<Rightarrow> Inl (Runtime_error ''unknown string encoding''))"

definition view_text :: "string_view \<Rightarrow> string_encoding \<times> byte list" where
  "view_text v = (sv_enc v, sv_bytes v)"

lemma take3_bom:
  "nat len \<le> length bs \<Longrightarrow> 3 \<le> len \<Longrightarrow>
   take 3 (take (nat len) bs) = [0xef, 0xbb, 0xbf] \<longleftrightarrow> bs ! 0 = 0xef \<and> bs ! 1 = 0xbb \<and> bs ! 2 = (0xbf::byte)"
proof -
  assume "nat len \<le> length bs" "3 \<le> len"
  then have "3 \<le> length bs" "take 3 (take (nat len) bs) = take 3 bs" by (auto simp: min_def)
  then show ?thesis
    by (cases bs; cases "tl bs"; cases "tl (tl bs)") (auto simp: eval_nat_numeral)
qed

lemma has_bom_iff:
  assumes "sv_ok v"
  shows "has_bom (sv_ptr v) (sv_len v) \<longleftrightarrow> starts_with_bom (sv_bytes v)"
proof (cases "3 \<le> sv_len v")
  case True
  have "nat (sv_len v) \<le> length (ptr_bytes (sv_ptr v))" using assms by (simp add: sv_ok_def)
  from take3_bom [OF this True] True show ?thesis
    unfolding starts_with_bom_def has_bom_def sv_bytes_def by simp
next
  case False
  have "length (sv_bytes v) < 3" using False assms by (simp add: sv_ok_def)
  then have "length (take 3 (sv_bytes v)) \<noteq> 3" by simp
  then have "take 3 (sv_bytes v) \<noteq> [0xef, 0xbb, 0xbf]" by force
  with False show ?thesis by (simp add: has_bom_def starts_with_bom_def)
qed

lemma view_text_finish: "view_text (view_finish data len enc) = (enc, take (nat len) (ptr_bytes data))"
  by (simp add: view_finish_def view_text_def sv_bytes_def)

lemma nat_minus_3: "nat (l - 3) = nat l - 3"
  by linarith

lemma sv_bytes_skip:
  "take (nat (sv_len v - 3)) (ptr_bytes (ptr_add (sv_ptr v) 3)) = drop 3 (sv_bytes v)"
  by (simp add: sv_bytes_def ptr_add_bytes drop_take nat_minus_3)

lemma not_na_enc: "sv_ok v \<Longrightarrow> sv_enc v \<noteq> Enc_missing \<and> sv_ptr v \<noteq> NullPtr \<and> \<not> sv_len v < 0 \<and> \<not> is_na v"
  by (simp add: sv_ok_def is_na_def)

lemmas norm_view_simps = view_text_finish sv_bytes_skip drop_bom_def

lemma transient_slow_spec:
  assumes "sv_ok v"
  shows "map_sum id view_text (normalize_utf8_transient_slow v conv) =
    norm_spec True conv (sv_enc v) (sv_bytes v)"
  using not_na_enc [OF assms] has_bom_iff [OF assms]
  by (cases "sv_enc v")
    (auto simp: normalize_utf8_transient_slow_def norm_spec_def norm_view_simps Let_def bindE_def
      view_text_def [of v] sv_bytes_def [symmetric] split: sum.splits)

lemma normalize_finish_text:
  "map_sum id (view_text \<circ> fst) (normalize_finish heap st strip c data len enc) =
   Inr (enc, if strip then take (nat (len - 3)) (ptr_bytes (ptr_add data 3)) else take (nat len) (ptr_bytes data))"
  by (auto simp: normalize_finish_def Let_def view_text_finish case_prod_beta)

lemma slow_spec:
  assumes "sv_ok v"
  shows "map_sum id (view_text \<circ> fst) (normalize_utf8_slow v conv heap st strip) =
    norm_spec strip conv (sv_enc v) (sv_bytes v)"
  using not_na_enc [OF assms] has_bom_iff [OF assms]
  by (cases "sv_enc v")
    (auto simp: normalize_utf8_slow_def norm_spec_def normalize_finish_text norm_view_simps Let_def
      bindE_def check_converted_def sv_bytes_def [symmetric] split: sum.splits)


lemma transient_spec:
  assumes "sv_ok v"
  shows "map_sum id view_text (normalize_utf8_transient v conv) = norm_spec True conv (sv_enc v) (sv_bytes v)"
  using not_na_enc [OF assms] has_bom_iff [OF assms] transient_slow_spec [OF assms]
  by (auto simp: normalize_utf8_transient_def norm_spec_def view_text_def sv_bytes_skip
      sv_bytes_def [of "StringView _ _ _"] drop_bom_def)

lemma normalize_spec:
  assumes "sv_ok v"
  shows "map_sum id (view_text \<circ> fst) (normalize_utf8 v conv heap st) =
    norm_spec True conv (sv_enc v) (sv_bytes v)"
  using not_na_enc [OF assms] has_bom_iff [OF assms] slow_spec [OF assms, of conv heap st True]
  by (cases "sv_enc v") (auto simp: normalize_utf8_def norm_spec_def view_text_def drop_bom_def)

lemma preserve_spec:
  assumes "sv_ok v"
  shows "map_sum id (view_text \<circ> fst) (normalize_utf8_preserve_bom v conv heap st) =
    norm_spec False conv (sv_enc v) (sv_bytes v)"
  using not_na_enc [OF assms] slow_spec [OF assms, of conv heap st False]
  by (cases "sv_enc v") (auto simp: normalize_utf8_preserve_bom_def norm_spec_def view_text_def)

subsection \<open>Code point positions of a byte string\<close>

text \<open>The boundary behind \<open>k\<close> code points, the number of code points and the number of
  boundaries before a byte, for a whole byte string.\<close>

definition u8_pos :: "byte list \<Rightarrow> nat \<Rightarrow> nat" where
  "u8_pos s k = cp_pos (\<lambda>i. U8_FWD_1 s i (length s)) (length s) k"

definition u8_count :: "byte list \<Rightarrow> nat" where
  "u8_count s = cp_count (\<lambda>i. U8_FWD_1 s i (length s)) (length s)"

definition u8_index :: "byte list \<Rightarrow> nat \<Rightarrow> nat" where
  "u8_index s t = cp_index (\<lambda>i. U8_FWD_1 s i (length s)) (length s) t"

lemma u8_pos_take:
  assumes "n \<le> length s"
  shows "cp_pos (\<lambda>i. U8_FWD_1 s i n) n k = u8_pos (take n s) k"
proof -
  have len: "length (take n s) = n" using assms by simp
  show ?thesis
    unfolding u8_pos_def len by (induction k) (simp_all add: U8_FWD_1_take)
qed

lemma u8_index_take:
  assumes "n \<le> length s"
  shows "cp_index (\<lambda>i. U8_FWD_1 s i n) n t = u8_index (take n s) t"
  unfolding u8_index_def cp_index_def u8_pos_take [OF assms] u8_pos_def ..

lemma u8_count_take:
  assumes "n \<le> length s"
  shows "cp_count (\<lambda>i. U8_FWD_1 s i n) n = u8_count (take n s)"
proof -
  have len: "length (take n s) = n" using assms by simp
  show ?thesis
    unfolding cp_count_def u8_count_def u8_index_take [OF assms] unfolding u8_index_def len ..
qed

lemma ascii_fwd: "i < n \<Longrightarrow> s ! i < (0x80::byte) \<Longrightarrow> U8_FWD_1 s i n = Suc i"
  by (auto simp: U8_FWD_1_eq u8_bytes word_le_nat_alt word_less_nat_alt)

lemma ascii_pos:
  assumes "\<forall>b\<in>set s. b < 0x80"
  shows "u8_pos s k = min k (length s)"
proof (induction k)
  case (Suc k)
  have "k < length s \<Longrightarrow> U8_FWD_1 s k (length s) = Suc k"
    using assms by (intro ascii_fwd) auto
  with Suc show ?case by (auto simp: u8_pos_def min_def)
qed (simp add: u8_pos_def)

lemma ascii_index:
  assumes "\<forall>b\<in>set s. b < 0x80" "t \<le> length s"
  shows "u8_index s t = t"
proof -
  have "filter (\<lambda>k. u8_pos s k < t) [0..<t] = [0..<t]"
    using assms by (intro filter_True) (auto simp: ascii_pos)
  then show ?thesis
    unfolding u8_index_def cp_index_def u8_pos_def [symmetric] by simp
qed

lemma ascii_count: "\<forall>b\<in>set s. b < 0x80 \<Longrightarrow> u8_count s = length s"
  using ascii_index [of s "length s"] by (simp add: u8_count_def u8_index_def cp_count_def)

lemma u8_pos_bounds:
  "u8_pos s k \<le> length s" "u8_pos s 0 = 0" "u8_pos s (u8_count s) = length s" "u8_count s \<le> length s"
  "j \<le> k \<Longrightarrow> u8_pos s j \<le> u8_pos s k"
  by (simp_all add: u8_pos_def u8_count_def u8f.cp_pos_le u8f.cp_pos_count u8f.cp_count_le u8f.cp_pos_mono)

lemma u8_index_pos: "k \<le> u8_count s \<Longrightarrow> u8_index s (u8_pos s k) = k"
  by (simp add: u8_pos_def u8_index_def u8_count_def u8f.cp_index_pos)

text \<open>A view that carries the ASCII mark holds ASCII bytes only: what the marks of
  the backends promise.\<close>

definition marked_ascii :: "string_view \<Rightarrow> bool" where
  "marked_ascii v \<longleftrightarrow> (sv_enc v = Enc_ascii \<longrightarrow> (\<forall>b\<in>set (sv_bytes v). b < 0x80))"

subsection \<open>The byte-to-code-point cursor\<close>

record utf8_position_cursor =
  cur_data :: "byte list"
  cur_length :: int
  cur_byte :: nat
  cur_position :: nat
  cur_ascii :: bool

definition Utf8PositionCursor :: "string_view \<Rightarrow> utf8_position_cursor" where
  "Utf8PositionCursor value =
     \<lparr>cur_data = ptr_bytes (sv_ptr value), cur_length = sv_len value, cur_byte = 0, cur_position = 0,
      cur_ascii = (sv_enc value = Enc_ascii)\<rparr>"

text \<open>The loop \<open>while (byte_ < target) { U8_FWD_1(data_, byte_, length_); ++position_; }\<close>.\<close>

function cursor_walk :: "byte list \<Rightarrow> nat \<Rightarrow> nat \<Rightarrow> nat \<Rightarrow> nat \<Rightarrow> nat \<times> nat" where
  "cursor_walk data len target byte position =
     (if byte < target then cursor_walk data len target (U8_FWD_1 data byte len) (position + 1)
      else (byte, position))"
  by pat_completeness auto
termination
  by (relation "measure (\<lambda>(data, len, target, byte, position). target - byte)")
    (auto simp: U8_FWD_1_gt diff_less_mono2)

declare cursor_walk.simps [simp del]

definition at_byte :: "utf8_position_cursor \<Rightarrow> int \<Rightarrow> utf8_position_cursor \<times> int" where
  "at_byte c target =
     (let target = (if cur_length c < target then cur_length c else target);
          target = (if target < 0 then 0 else target)
      in
      if cur_ascii c then (c, target)
      else
        let c = (if target < int (cur_byte c) then c\<lparr>cur_byte := 0, cur_position := 0\<rparr> else c);
            (byte, position) =
              cursor_walk (cur_data c) (nat (cur_length c)) (nat target) (cur_byte c) (cur_position c)
        in (c\<lparr>cur_byte := byte, cur_position := position\<rparr>, int position))"

fun at_bytes :: "utf8_position_cursor \<Rightarrow> int list \<Rightarrow> int list" where
  "at_bytes c [] = []"
| "at_bytes c (t # ts) = (let (c, r) = at_byte c t in r # at_bytes c ts)"

definition one_based_position :: "int \<Rightarrow> int" where
  "one_based_position index = (if index < INT_MAX then index + 1 else INT_MAX)"

lemma cursor_walk_pos:
  assumes "t \<le> n" "k \<le> cp_index (\<lambda>i. U8_FWD_1 s i n) n t"
  shows "cursor_walk s n t (cp_pos (\<lambda>i. U8_FWD_1 s i n) n k) k =
    (let m = cp_index (\<lambda>i. U8_FWD_1 s i n) n t in (cp_pos (\<lambda>i. U8_FWD_1 s i n) n m, m))"
  using assms(2)
proof (induction rule: inc_induct)
  case base
  have "\<not> cp_pos (\<lambda>i. U8_FWD_1 s i n) n (cp_index (\<lambda>i. U8_FWD_1 s i n) n t) < t"
    by (simp add: u8f.cp_index_less_iff [OF assms(1)])
  then show ?case by (subst cursor_walk.simps) (simp add: Let_def)
next
  case (step k)
  have less: "cp_pos (\<lambda>i. U8_FWD_1 s i n) n k < t"
    using step by (simp add: u8f.cp_index_less_iff [OF assms(1)])
  then have "cp_pos (\<lambda>i. U8_FWD_1 s i n) n k < n" using assms(1) by simp
  with less step.IH show ?case by (subst cursor_walk.simps) simp
qed

text \<open>The cursor stands at the boundary of the code point it has counted.\<close>

definition cursor_inv :: "string_view \<Rightarrow> utf8_position_cursor \<Rightarrow> bool" where
  "cursor_inv v c \<longleftrightarrow> cur_data c = ptr_bytes (sv_ptr v) \<and> cur_length c = sv_len v \<and>
     cur_ascii c = (sv_enc v = Enc_ascii) \<and> cur_position c \<le> u8_count (sv_bytes v) \<and>
     cur_byte c = u8_pos (sv_bytes v) (cur_position c)"

lemma cursor_inv_init: "cursor_inv v (Utf8PositionCursor v)"
  by (simp add: cursor_inv_def Utf8PositionCursor_def u8_pos_def)

lemma at_byte_step:
  assumes "sv_ok v" "marked_ascii v" "cursor_inv v c"
  shows "cursor_inv v (fst (at_byte c t))"
    and "snd (at_byte c t) = int (u8_index (sv_bytes v) (nat (min t (sv_len v))))"
proof -
  define n where "n = nat (sv_len v)"
  define s where "s = ptr_bytes (sv_ptr v)"
  define fwd where "fwd = (\<lambda>i. U8_FWD_1 s i n)"
  define target where "target = nat (min t (sv_len v))"
  have n: "n \<le> length s" "take n s = sv_bytes v" "int n = sv_len v" and t: "target \<le> n"
    using assms(1) by (auto simp: n_def s_def sv_ok_def sv_bytes_def target_def)
  note to_u8 = u8_pos_take [OF n(1)] u8_index_take [OF n(1)] u8_count_take [OF n(1)] n(2)
  note inv = assms(3) [unfolded cursor_inv_def]
  define k where "k = (if target < cur_byte c then 0 else cur_position c)"
  have k: "k \<le> cp_index fwd n target"
  proof (cases "target < cur_byte c")
    case False
    have "\<not> cp_index fwd n target < cur_position c"
    proof
      assume "cp_index fwd n target < cur_position c"
      then have "cp_pos fwd n (cp_index fwd n target) < cp_pos fwd n (cur_position c)"
        using inv unfolding fwd_def to_u8 by (intro u8f.cp_pos_less_pos [of _ _ s n, unfolded to_u8]) auto
      moreover have "\<not> cp_pos fwd n (cp_index fwd n target) < target"
        unfolding fwd_def by (simp add: u8f.cp_index_less_iff [OF t])
      ultimately show False
        using False inv unfolding fwd_def to_u8 by linarith
    qed
    then show ?thesis using False by (simp add: k_def)
  qed (simp add: k_def)
  have walk: "cursor_walk s n target (cp_pos fwd n k) k = (cp_pos fwd n (cp_index fwd n target), cp_index fwd n target)"
    using cursor_walk_pos [OF t, of k s] k unfolding fwd_def by (simp add: Let_def)
  have clamp: "nat (if (if sv_len v < t then sv_len v else t) < 0 then 0
      else if sv_len v < t then sv_len v else t) = target"
    "(if (if sv_len v < t then sv_len v else t) < 0 then 0
      else if sv_len v < t then sv_len v else t) = int target"
    using assms(1) by (auto simp: target_def sv_ok_def)
  have idx: "cp_index fwd n target = u8_index (sv_bytes v) target"
    "cp_index fwd n target \<le> u8_count (sv_bytes v)"
    "cp_pos fwd n m = u8_pos (sv_bytes v) m" for m
    using u8f.cp_index_count [OF t, of s] unfolding fwd_def to_u8 by simp_all
  have ascii: "cur_ascii c \<Longrightarrow> u8_index (sv_bytes v) target = target"
    using inv assms(1,2) t by (intro ascii_index) (auto simp: marked_ascii_def n_def)
  define c0 where "c0 = (if target < cur_byte c then c\<lparr>cur_byte := 0, cur_position := 0\<rparr> else c)"
  have c0: "cur_data c0 = s" "cur_length c0 = sv_len v" "cur_byte c0 = cp_pos fwd n k" "cur_position c0 = k"
    using inv by (auto simp: c0_def k_def s_def idx u8_pos_bounds(2))
  have len: "cur_length c = sv_len v" using inv by simp
  have "at_byte c t = (if cur_ascii c then (c, int target)
      else let (byte, position) = cursor_walk (cur_data c0) (nat (cur_length c0)) target (cur_byte c0) (cur_position c0)
           in (c0\<lparr>cur_byte := byte, cur_position := position\<rparr>, int position))"
    unfolding at_byte_def Let_def len clamp c0_def of_nat_less_iff nat_int ..
  also have "\<dots> = (if cur_ascii c then (c, int target)
      else (c\<lparr>cur_byte := u8_pos (sv_bytes v) (u8_index (sv_bytes v) target),
              cur_position := u8_index (sv_bytes v) target\<rparr>, int (u8_index (sv_bytes v) target)))"
    unfolding c0 n_def [symmetric] walk by (simp add: idx c0_def)
  finally have "at_byte c t = \<dots>" .
  then show "cursor_inv v (fst (at_byte c t))"
    and "snd (at_byte c t) = int (u8_index (sv_bytes v) (nat (min t (sv_len v))))"
    using inv idx ascii unfolding cursor_inv_def target_def [symmetric] by auto
qed

lemma at_bytes_spec:
  assumes "sv_ok v" "marked_ascii v" "cursor_inv v c"
  shows "at_bytes c ts = map (\<lambda>t. int (u8_index (sv_bytes v) (nat (min t (sv_len v))))) ts"
  using assms(3)
proof (induction ts arbitrary: c)
  case (Cons t ts)
  obtain c' r where "at_byte c t = (c', r)" by (cases "at_byte c t")
  with at_byte_step [OF assms(1,2) Cons.prems, of t] Cons.IH [of c'] show ?case by simp
qed simp

subsection \<open>Code point distances to byte offsets\<close>

definition utf8_index_forward :: "string_view \<Rightarrow> int \<Rightarrow> int" where
  "utf8_index_forward value code_points =
     (if code_points \<le> 0 \<or> sv_len value \<le> 0 \<or> sv_ptr value = NullPtr then 0
      else if sv_enc value = Enc_ascii then
        (if code_points < sv_len value then code_points else sv_len value)
      else
        let data = ptr_bytes (sv_ptr value); len = nat (sv_len value)
        in int (fwd_steps (\<lambda>i. U8_FWD_1 data i len) len (nat code_points) 0))"

definition utf8_index_backward :: "string_view \<Rightarrow> int \<Rightarrow> int" where
  "utf8_index_backward value code_points =
     (if sv_len value \<le> 0 \<or> sv_ptr value = NullPtr then 0
      else if code_points \<le> 0 then sv_len value
      else if sv_enc value = Enc_ascii then
        (if code_points < sv_len value then sv_len value - code_points else 0)
      else
        let data = ptr_bytes (sv_ptr value)
        in int (back_steps (U8_BACK_1 data 0) (nat code_points) (nat (sv_len value))))"

lemma utf8_index_forward_pos:
  assumes "sv_ok v" "marked_ascii v"
  shows "utf8_index_forward v k = int (u8_pos (sv_bytes v) (nat k))"
proof -
  define n s where "n = nat (sv_len v)" and "s = ptr_bytes (sv_ptr v)"
  have n: "n \<le> length s" "take n s = sv_bytes v" "int n = sv_len v" "length (sv_bytes v) = n"
    using assms(1) by (auto simp: n_def s_def sv_ok_def sv_bytes_def)
  have "fwd_steps (\<lambda>i. U8_FWD_1 s i n) n (nat k) 0 = u8_pos (sv_bytes v) (nat k)"
    using u8f.fwd_steps_start [of s n "nat k"] n by (simp add: u8_pos_take)
  moreover have "sv_enc v = Enc_ascii \<Longrightarrow> u8_pos (sv_bytes v) (nat k) = min (nat k) n"
    using assms(2) n by (simp add: marked_ascii_def ascii_pos)
  moreover have "u8_pos (sv_bytes v) (nat k) \<le> n"
    using u8_pos_bounds(1) [of "sv_bytes v" "nat k"] n by simp
  ultimately show ?thesis
    using assms(1) n u8_pos_bounds(2)
    by (auto simp: utf8_index_forward_def Let_def sv_ok_def min_def simp flip: n_def s_def)
qed

lemma utf8_index_backward_pos:
  assumes "sv_ok v" "marked_ascii v"
  shows "utf8_index_backward v k = int (u8_pos (sv_bytes v) (u8_count (sv_bytes v) - nat k))"
proof -
  define n s where "n = nat (sv_len v)" and "s = ptr_bytes (sv_ptr v)"
  have n: "n \<le> length s" "take n s = sv_bytes v" "int n = sv_len v" "length (sv_bytes v) = n"
    using assms(1) by (auto simp: n_def s_def sv_ok_def sv_bytes_def)
  have "back_steps (U8_BACK_1 s 0) (nat k) n = u8_pos (sv_bytes v) (u8_count (sv_bytes v) - nat k)"
    using u8.back_steps_end [of s "nat k" n] n by (simp add: u8_pos_take u8_count_take)
  moreover have "sv_enc v = Enc_ascii \<Longrightarrow> u8_pos (sv_bytes v) (u8_count (sv_bytes v) - nat k) = n - nat k"
    using assms(2) n by (simp add: marked_ascii_def ascii_pos ascii_count)
  moreover have "u8_pos (sv_bytes v) (u8_count (sv_bytes v)) = n"
    "u8_pos (sv_bytes v) (u8_count (sv_bytes v) - nat k) \<le> n"
    by (simp_all add: u8_pos_bounds flip: n(4))
  ultimately show ?thesis
    using assms(1) n
    by (auto simp: utf8_index_backward_def Let_def sv_ok_def simp flip: n_def s_def)
qed

subsection \<open>Properties\<close>

text \<open>C18. The three entry points of normalization, with their inline fast paths and the
  arena copy, refine one contract on byte strings: same bytes, same mark or same error
  as \<open>norm_spec\<close>; only \<open>normalize_utf8_preserve_bom\<close> keeps a leading BOM.\<close>

theorem normalize_refines:
  assumes "sv_ok v"
  shows "map_sum id view_text (normalize_utf8_transient v conv) = norm_spec True conv (sv_enc v) (sv_bytes v) \<and>
    map_sum id (view_text \<circ> fst) (normalize_utf8 v conv heap st) = norm_spec True conv (sv_enc v) (sv_bytes v) \<and>
    map_sum id (view_text \<circ> fst) (normalize_utf8_preserve_bom v conv heap st) =
      norm_spec False conv (sv_enc v) (sv_bytes v)"
  using transient_spec [OF assms] normalize_spec [OF assms] preserve_spec [OF assms] by blast

text \<open>A Latin-1 string through a converter that maps byte \<open>0xe9\<close>, and a BOM that is dropped.\<close>

definition sample_converter :: native_to_utf8 where
  "sample_converter = \<lparr>conv_native_is_utf8 = True, conv_native = (\<lambda>bs. Inr \<lparr>bv_ptr = Ptr 9 bs, bv_len = int (length bs)\<rparr>),
     conv_latin1 = (\<lambda>bs. let out = concat (map (\<lambda>b. if b = 0xe9 then [0xc3, 0xa9] else [b]) bs)
                         in Inr \<lparr>bv_ptr = Ptr 9 out, bv_len = int (length out)\<rparr>)\<rparr>"

theorem normalize_refines_witness:
  "map_sum id (view_text \<circ> fst) (normalize_utf8 (view_of 5 Enc_latin1 [0x61, 0xe9]) sample_converter (\<lambda>k. 1000 * k) SliceArena) =
     Inr (Enc_utf8, [0x61, 0xc3, 0xa9]) \<and>
   map_sum id view_text (normalize_utf8_transient (view_of 5 Enc_native [0xef, 0xbb, 0xbf, 0x61]) sample_converter) =
     Inr (Enc_utf8, [0x61])"
proof -
  have ok: "sv_ok (view_of 5 Enc_latin1 [0x61, 0xe9])" "sv_ok (view_of 5 Enc_native [0xef, 0xbb, 0xbf, 0x61])"
    by (simp_all add: INT_MAX_def)
  have "norm_spec True sample_converter Enc_latin1 [0x61, 0xe9] = Inr (Enc_utf8, [0x61, 0xc3, 0xa9])"
    by (simp add: norm_spec_def sample_converter_def check_converted_def)
  moreover have "norm_spec True sample_converter Enc_native [0xef, 0xbb, 0xbf, 0x61] = Inr (Enc_utf8, [0x61])"
    by (simp add: norm_spec_def sample_converter_def drop_bom_def starts_with_bom_def)
  ultimately show ?thesis
    using normalize_refines [OF ok(1), of sample_converter "\<lambda>k. 1000 * k" SliceArena]
      normalize_refines [OF ok(2), of sample_converter "\<lambda>k. 1000 * k" SliceArena] by simp
qed

text \<open>C24. The cursor is exact for every sequence of byte targets, ordered or not, inside the
  string or not: it answers with the number of code points that start before the
  clamped target, also on the ASCII fast path.\<close>

theorem position_cursor_exact:
  assumes "sv_ok v" "marked_ascii v"
  shows "at_bytes (Utf8PositionCursor v) ts = map (\<lambda>t. int (u8_index (sv_bytes v) (nat (min t (sv_len v))))) ts"
  by (rule at_bytes_spec [OF assms cursor_inv_init])

text \<open>Targets out of order, negative and past the end, in a string of a letter and the Euro sign.\<close>

theorem position_cursor_exact_witness:
  "at_bytes (Utf8PositionCursor (view_of 5 Enc_utf8 [0x61, 0xe2, 0x82, 0xac])) [4, 1, - 7, 90] = [2, 1, 0, 2]"
proof -
  have "u8_index [0x61, 0xe2, 0x82, 0xac] 4 = 2" "u8_index [0x61, 0xe2, 0x82, 0xac] 1 = 1"
    "u8_index [0x61, 0xe2, 0x82, 0xac] 0 = 0" by code_simp+
  with position_cursor_exact [of "view_of 5 Enc_utf8 [0x61, 0xe2, 0x82, 0xac]" "[4, 1, - 7, 90]"] show ?thesis
    by (simp add: INT_MAX_def marked_ascii_def)
qed

end
