(* ===== verification/Substring.thy ===== *)
theory Substring
  imports Utf8_View
begin

text \<open>
  Substring extraction and replacement (\<^verbatim>\<open>src/shared/substring.h\<close>, \<^verbatim>\<open>substring.cpp\<close>):
  the caching converter from code point positions to byte offsets, the
  normalization of R's one-based and negative positions, the recycled visiting
  order, and the assembler of \<open>sub_all\<close> replacements.

  The four counting loops of the indexer differ in the step macro, the direction
  of the counter and the end of the string at which they stop; \<open>walk_up\<close> and
  \<open>walk_down\<close> are these loops with the macro and the stop test as arguments.
\<close>

subsection \<open>Counting loops\<close>

function walk_up :: "(nat \<Rightarrow> nat) \<Rightarrow> (nat \<Rightarrow> bool) \<Rightarrow> nat \<Rightarrow> nat \<Rightarrow> nat \<Rightarrow> nat \<times> nat" where
  "walk_up step inside position codepoint byte =
     (if codepoint < position \<and> inside byte
      then walk_up step inside position (codepoint + 1) (step byte) else (codepoint, byte))"
  by pat_completeness auto
termination
  by (relation "measure (\<lambda>(step, inside, position, codepoint, byte). position - codepoint)") auto

function walk_down :: "(nat \<Rightarrow> nat) \<Rightarrow> (nat \<Rightarrow> bool) \<Rightarrow> nat \<Rightarrow> nat \<Rightarrow> nat \<Rightarrow> nat \<times> nat" where
  "walk_down step inside position codepoint byte =
     (if position < codepoint \<and> inside byte
      then walk_down step inside position (codepoint - 1) (step byte) else (codepoint, byte))"
  by pat_completeness auto
termination
  by (relation "measure (\<lambda>(step, inside, position, codepoint, byte). codepoint)") auto

declare walk_up.simps [simp del] walk_down.simps [simp del]

context cp_forward
begin

lemma walk_up_fwd:
  "k \<le> p \<Longrightarrow> k \<le> cp_count fwd n \<Longrightarrow>
   walk_up fwd (\<lambda>b. b < n) p k (cp_pos fwd n k) = (min p (cp_count fwd n), cp_pos fwd n p)"
proof (induction "p - k" arbitrary: k)
  case 0
  then show ?case by (subst walk_up.simps) simp
next
  case (Suc d)
  show ?case
  proof (cases "k < cp_count fwd n")
    case True
    then have "cp_pos fwd n k < n" by (simp add: cp_pos_less_iff)
    with True Suc.hyps Suc.prems Suc.hyps(1) [of "Suc k"] show ?thesis
      by (subst walk_up.simps) (simp add: cp_pos_Suc)
  next
    case False
    with Suc.prems have "k = cp_count fwd n" by simp
    with Suc.prems cp_pos_eq_n_iff [of p] show ?thesis
      by (subst walk_up.simps) (simp add: cp_pos_count)
  qed
qed

lemma walk_up_free:
  "k \<le> p \<Longrightarrow> p \<le> cp_count fwd n \<Longrightarrow>
   walk_up fwd (\<lambda>b. True) p k (cp_pos fwd n k) = (p, cp_pos fwd n p)"
proof (induction "p - k" arbitrary: k)
  case 0
  then show ?case by (subst walk_up.simps) simp
next
  case (Suc d)
  then have "cp_pos fwd n k < n" by (simp add: cp_pos_less_iff)
  with Suc.hyps Suc.prems Suc.hyps(1) [of "Suc k"] show ?case
    by (subst walk_up.simps) auto
qed

lemma walk_down_fwd:
  "p \<le> k \<Longrightarrow> k \<le> cp_count fwd n \<Longrightarrow>
   walk_down fwd (\<lambda>b. b < n) p k (cp_pos fwd n (cp_count fwd n - k)) = (p, cp_pos fwd n (cp_count fwd n - p))"
proof (induction "k - p" arbitrary: k)
  case 0
  then show ?case by (subst walk_down.simps) simp
next
  case (Suc d)
  let ?c = "cp_count fwd n"
  from Suc obtain j where j: "k = Suc j" by (cases k) auto
  have less: "cp_pos fwd n (?c - k) < n"
    using Suc j by (simp add: cp_pos_less_iff)
  have "?c - j = Suc (?c - k)" using Suc.prems j by simp
  then have step: "fwd (cp_pos fwd n (?c - k)) = cp_pos fwd n (?c - j)"
    using less by simp
  have "walk_down fwd (\<lambda>b. b < n) p k (cp_pos fwd n (?c - k)) =
      walk_down fwd (\<lambda>b. b < n) p j (cp_pos fwd n (?c - j))"
    using Suc less j step by (subst walk_down.simps) simp
  then show ?case using Suc.hyps(1) [of j] Suc j by simp
qed

end

context cp_walk
begin

lemma walk_down_back:
  "p \<le> k \<Longrightarrow> k \<le> cp_count fwd n \<Longrightarrow>
   walk_down bwd (\<lambda>b. 0 < b) p k (cp_pos fwd n k) = (p, cp_pos fwd n p)"
proof (induction "k - p" arbitrary: k)
  case 0
  then show ?case by (subst walk_down.simps) simp
next
  case (Suc d)
  from Suc obtain j where j: "k = Suc j" by (cases k) auto
  have "0 < n" using Suc.prems j cp_count_le by linarith
  then have "0 < cp_pos fwd n k" using j by (intro cp_pos_pos) simp_all
  then have "walk_down bwd (\<lambda>b. 0 < b) p k (cp_pos fwd n k) =
      walk_down bwd (\<lambda>b. 0 < b) p j (cp_pos fwd n j)"
    using Suc j back_pos [of j] by (subst walk_down.simps) (simp del: cp_pos.simps)
  then show ?case using Suc.hyps(1) [of j] Suc j by simp
qed

lemma walk_up_back:
  "k \<le> p \<Longrightarrow> k \<le> cp_count fwd n \<Longrightarrow>
   walk_up bwd (\<lambda>b. 0 < b) p k (cp_pos fwd n (cp_count fwd n - k)) =
     (min p (cp_count fwd n), cp_pos fwd n (cp_count fwd n - p))"
proof (induction "p - k" arbitrary: k)
  case 0
  then show ?case by (subst walk_up.simps) simp
next
  case (Suc d)
  let ?c = "cp_count fwd n"
  show ?case
  proof (cases "k < ?c")
    case True
    then obtain j where j: "?c - k = Suc j" by (cases "?c - k") auto
    have "0 < n" using True cp_count_le by linarith
    then have "0 < cp_pos fwd n (?c - k)" using j by (intro cp_pos_pos) simp_all
    moreover have "bwd (cp_pos fwd n (?c - k)) = cp_pos fwd n (?c - Suc k)"
    proof -
      have "?c - Suc k = j" "j < ?c" using j by simp_all
      then show ?thesis using j back_pos [of j] by (simp del: cp_pos.simps)
    qed
    ultimately have "walk_up bwd (\<lambda>b. 0 < b) p k (cp_pos fwd n (?c - k)) =
        walk_up bwd (\<lambda>b. 0 < b) p (Suc k) (cp_pos fwd n (?c - Suc k))"
      using Suc True by (subst walk_up.simps) (simp del: cp_pos.simps)
    then show ?thesis using Suc.hyps(1) [of "Suc k"] Suc True by simp
  next
    case False
    with Suc.prems have "k = ?c" by simp
    with Suc.prems show ?thesis by (subst walk_up.simps) simp
  qed
qed

end

subsection \<open>The code point indexer\<close>

record utf8_indexer =
  ix_data :: "byte list"
  ix_length :: int
  ix_ascii :: bool
  last_forward_codepoint :: nat
  last_forward_byte :: nat
  last_backward_codepoint :: nat
  last_backward_byte :: nat

definition Utf8Indexer :: utf8_indexer where
  "Utf8Indexer = \<lparr>ix_data = [], ix_length = 0, ix_ascii = True, last_forward_codepoint = 0,
     last_forward_byte = 0, last_backward_codepoint = 0, last_backward_byte = 0\<rparr>"

definition indexer_reset :: "utf8_indexer \<Rightarrow> byte list \<Rightarrow> int \<Rightarrow> bool \<Rightarrow> utf8_indexer" where
  "indexer_reset ix data len ascii =
     ix\<lparr>ix_data := data, ix_length := len, ix_ascii := ascii, last_forward_codepoint := 0,
       last_forward_byte := 0, last_backward_codepoint := 0, last_backward_byte := nat len\<rparr>"

definition indexer_forward :: "utf8_indexer \<Rightarrow> int \<Rightarrow> utf8_indexer \<times> int" where
  "indexer_forward ix position =
     (if position \<le> 0 then (ix, 0)
      else if ix_ascii ix then (ix, min position (ix_length ix))
      else
        let data = ix_data ix; len = nat (ix_length ix); pos = nat position;
            lastc = last_forward_codepoint ix; lastb = last_forward_byte ix
        in
        if 0 < lastc \<and> pos < lastc \<and> lastc - pos < pos then
          let (codepoint, byte) = walk_down (U8_BACK_1 data 0) (\<lambda>b. 0 < b) pos lastc lastb
          in (ix\<lparr>last_forward_codepoint := pos, last_forward_byte := byte\<rparr>, int byte)
        else
          let (codepoint, byte) = (if 0 < lastc \<and> lastc \<le> pos then (lastc, lastb) else (0, 0));
              (codepoint, byte) = walk_up (\<lambda>i. U8_FWD_1 data i len) (\<lambda>b. b < len) pos codepoint byte
          in (ix\<lparr>last_forward_codepoint := codepoint, last_forward_byte := byte\<rparr>, int byte))"

definition indexer_backward :: "utf8_indexer \<Rightarrow> int \<Rightarrow> utf8_indexer \<times> int" where
  "indexer_backward ix position =
     (if position \<le> 0 then (ix, ix_length ix)
      else if ix_ascii ix then (ix, if position < ix_length ix then ix_length ix - position else 0)
      else
        let data = ix_data ix; len = nat (ix_length ix); pos = nat position;
            lastc = last_backward_codepoint ix; lastb = last_backward_byte ix
        in
        if 0 < lastc \<and> pos < lastc \<and> lastc - pos < pos then
          let (codepoint, byte) = walk_down (\<lambda>i. U8_FWD_1 data i len) (\<lambda>b. b < len) pos lastc lastb
          in (ix\<lparr>last_backward_codepoint := pos, last_backward_byte := byte\<rparr>, int byte)
        else
          let (codepoint, byte) = (if 0 < lastc \<and> lastc \<le> pos then (lastc, lastb) else (0, len));
              (codepoint, byte) = walk_up (U8_BACK_1 data 0) (\<lambda>b. 0 < b) pos codepoint byte
          in (ix\<lparr>last_backward_codepoint := codepoint, last_backward_byte := byte\<rparr>, int byte))"

text \<open>The unbounded counting loop of \<open>codepoint_count\<close> is the cursor's walk to the end.\<close>

definition codepoint_count :: "utf8_indexer \<Rightarrow> int" where
  "codepoint_count ix =
     (if ix_ascii ix then ix_length ix
      else int (snd (cursor_walk (ix_data ix) (nat (ix_length ix)) (nat (ix_length ix)) 0 0)))"

definition nonnegative_index :: "int \<Rightarrow> int" where
  "nonnegative_index value = (if value \<le> 0 then 0 else if INT_MAX \<le> value then INT_MAX else value)"

definition indexer_range :: "utf8_indexer \<Rightarrow> int \<Rightarrow> int \<Rightarrow> utf8_indexer \<times> int \<times> int" where
  "indexer_range ix from to =
     (let (ix, begin_byte) =
            (if 0 \<le> from then indexer_forward ix (nonnegative_index (from - 1))
             else indexer_backward ix (nonnegative_index (- from)));
          (ix, end_byte) =
            (if 0 \<le> to then indexer_forward ix to
             else indexer_backward ix (nonnegative_index (- to - 1)))
      in (ix, begin_byte, end_byte))"

text \<open>What a caller may rely on: the cached pairs are boundaries of the current text,
  counted from the start and from the end.\<close>

definition indexer_inv :: "byte list \<Rightarrow> utf8_indexer \<Rightarrow> bool" where
  "indexer_inv s ix \<longleftrightarrow>
     ix_length ix = int (length s) \<and> int (length s) \<le> INT_MAX \<and>
     length s \<le> length (ix_data ix) \<and> take (length s) (ix_data ix) = s \<and>
     (ix_ascii ix \<longrightarrow> (\<forall>b\<in>set s. b < 0x80)) \<and>
     last_forward_codepoint ix \<le> u8_count s \<and> last_forward_byte ix = u8_pos s (last_forward_codepoint ix) \<and>
     last_backward_codepoint ix \<le> u8_count s \<and>
     last_backward_byte ix = u8_pos s (u8_count s - last_backward_codepoint ix)"

lemma indexer_inv_reset:
  assumes "length s \<le> length data" "take (length s) data = s" "int (length s) \<le> INT_MAX"
    and "ascii \<Longrightarrow> \<forall>b\<in>set s. b < 0x80"
  shows "indexer_inv s (indexer_reset ix data (int (length s)) ascii)"
  using assms by (simp add: indexer_inv_def indexer_reset_def u8_pos_bounds)

text \<open>The four loops on the text of a buffer, from the interpretation of the walk.\<close>

lemma u8_walks:
  assumes "length s \<le> length data" "take (length s) data = s"
  shows "k \<le> p \<Longrightarrow> k \<le> u8_count s \<Longrightarrow>
      walk_up (\<lambda>i. U8_FWD_1 data i (length s)) (\<lambda>b. b < length s) p k (u8_pos s k) =
        (min p (u8_count s), u8_pos s p)"
    and "p \<le> k \<Longrightarrow> k \<le> u8_count s \<Longrightarrow>
      walk_down (U8_BACK_1 data 0) (\<lambda>b. 0 < b) p k (u8_pos s k) = (p, u8_pos s p)"
    and "k \<le> p \<Longrightarrow> k \<le> u8_count s \<Longrightarrow>
      walk_up (U8_BACK_1 data 0) (\<lambda>b. 0 < b) p k (u8_pos s (u8_count s - k)) =
        (min p (u8_count s), u8_pos s (u8_count s - p))"
    and "p \<le> k \<Longrightarrow> k \<le> u8_count s \<Longrightarrow>
      walk_down (\<lambda>i. U8_FWD_1 data i (length s)) (\<lambda>b. b < length s) p k (u8_pos s (u8_count s - k)) =
        (p, u8_pos s (u8_count s - p))"
    and "k \<le> p \<Longrightarrow> p \<le> u8_count s \<Longrightarrow>
      walk_up (\<lambda>i. U8_FWD_1 data i (length s)) (\<lambda>b. True) p k (u8_pos s k) = (p, u8_pos s p)"
  using u8f.walk_up_fwd [of k p data "length s"] u8.walk_down_back [of p k data "length s"]
    u8.walk_up_back [of k p data "length s"] u8f.walk_down_fwd [of p k data "length s"]
    u8f.walk_up_free [of k p data "length s"]
  unfolding u8_pos_take [OF assms(1)] u8_count_take [OF assms(1)] assms(2) by simp_all

lemma u8_walk_count:
  assumes "length s \<le> length data" "take (length s) data = s"
  shows "cursor_walk data (length s) (length s) 0 0 = (length s, u8_count s)"
proof -
  have "u8_index s (length s) = u8_count s" by (simp add: u8_index_def u8_count_def cp_count_def)
  then show ?thesis
    using cursor_walk_pos [of "length s" "length s" 0 data]
    unfolding u8_pos_take [OF assms(1)] u8_index_take [OF assms(1)] assms(2) Let_def
    by (simp add: u8_pos_bounds)
qed

lemma indexer_forward_step:
  assumes "indexer_inv s ix"
  shows "indexer_inv s (fst (indexer_forward ix p)) \<and> snd (indexer_forward ix p) = int (u8_pos s (nat p))"
proof -
  note inv = assms [unfolded indexer_inv_def]
  have buf: "length s \<le> length (ix_data ix)" "take (length s) (ix_data ix) = s" using inv by simp_all
  have base: "u8_pos s 0 = 0" "u8_pos s (nat p) \<le> length s" by (simp_all add: u8_pos_bounds)
  have cut: "u8_pos s (min (nat p) (u8_count s)) = u8_pos s (nat p)"
    unfolding u8_pos_def u8_count_def by (rule u8f.cp_pos_min [symmetric])
  have up: "walk_up (\<lambda>i. U8_FWD_1 (ix_data ix) i (length s)) (\<lambda>b. b < length s) (nat p) 0 0 =
      (min (nat p) (u8_count s), u8_pos s (nat p))"
    using u8_walks(1) [OF buf, of 0 "nat p"] by (simp add: base)
  show ?thesis
    using inv u8_walks(1) [OF buf, of "last_forward_codepoint ix" "nat p"] up
      u8_walks(2) [OF buf, of "nat p" "last_forward_codepoint ix"]
    by (auto simp: indexer_forward_def indexer_inv_def Let_def base cut ascii_pos split: if_splits)
qed

lemma indexer_backward_step:
  assumes "indexer_inv s ix"
  shows "indexer_inv s (fst (indexer_backward ix p)) \<and>
    snd (indexer_backward ix p) = int (u8_pos s (u8_count s - nat p))"
proof -
  note inv = assms [unfolded indexer_inv_def]
  have buf: "length s \<le> length (ix_data ix)" "take (length s) (ix_data ix) = s" using inv by simp_all
  have base: "u8_pos s (u8_count s) = length s" by (simp add: u8_pos_bounds)
  have cut: "u8_count s - min (nat p) (u8_count s) = u8_count s - nat p" by simp
  have up: "walk_up (U8_BACK_1 (ix_data ix) 0) (\<lambda>b. 0 < b) (nat p) 0 (length s) =
      (min (nat p) (u8_count s), u8_pos s (u8_count s - nat p))"
    using u8_walks(3) [OF buf, of 0 "nat p"] by (simp add: base)
  show ?thesis
    using inv u8_walks(3) [OF buf, of "last_backward_codepoint ix" "nat p"] up
      u8_walks(4) [OF buf, of "nat p" "last_backward_codepoint ix"]
    by (auto simp: indexer_backward_def indexer_inv_def Let_def base cut ascii_pos ascii_count split: if_splits)
qed

lemma codepoint_count_eq: "indexer_inv s ix \<Longrightarrow> codepoint_count ix = int (u8_count s)"
  by (auto simp: indexer_inv_def codepoint_count_def ascii_count u8_walk_count)

text \<open>R counts code points from 1, and from the end with negative numbers; the code
  points from position \<open>from\<close> to position \<open>to\<close> are the bytes between these two offsets.\<close>

definition r_index :: "byte list \<Rightarrow> int \<Rightarrow> int" where
  "r_index s p = (if 0 \<le> p then p else int (u8_count s) + p + 1)"

definition range_spec :: "byte list \<Rightarrow> int \<times> int \<Rightarrow> int \<times> int" where
  "range_spec s = (\<lambda>(from, to). (int (u8_pos s (nat (r_index s from - 1))), int (u8_pos s (nat (r_index s to)))))"

fun indexer_ranges :: "utf8_indexer \<Rightarrow> (int \<times> int) list \<Rightarrow> (int \<times> int) list" where
  "indexer_ranges ix [] = []"
| "indexer_ranges ix ((from, to) # qs) =
     (let (ix, r) = indexer_range ix from to in r # indexer_ranges ix qs)"

lemma saturated_index:
  assumes "int (length s) \<le> INT_MAX"
  shows "u8_pos s (nat (nonnegative_index i)) = u8_pos s (nat i)"
    and "u8_count s - nat (nonnegative_index i) = u8_count s - nat i"
proof -
  have c: "u8_count s \<le> length s" by (simp add: u8_pos_bounds)
  show "u8_count s - nat (nonnegative_index i) = u8_count s - nat i"
    using assms c by (auto simp: nonnegative_index_def INT_MAX_def)
  have "u8_pos s k = length s" if "u8_count s \<le> k" for k
    using that unfolding u8_pos_def u8_count_def by (simp add: u8f.cp_pos_eq_n_iff)
  then show "u8_pos s (nat (nonnegative_index i)) = u8_pos s (nat i)"
    using assms c by (auto simp: nonnegative_index_def INT_MAX_def)
qed

lemma indexer_range_step:
  assumes "indexer_inv s ix"
  shows "indexer_inv s (fst (indexer_range ix from to)) \<and> snd (indexer_range ix from to) = range_spec s (from, to)"
proof -
  have len: "int (length s) \<le> INT_MAX" using assms by (simp add: indexer_inv_def)
  note steps = indexer_forward_step [of s] indexer_backward_step [of s]
  have nats: "from < 0 \<Longrightarrow> nat (int (u8_count s) + from) = u8_count s - nat (- from)"
    "to < 0 \<Longrightarrow> nat (int (u8_count s) + to + 1) = u8_count s - nat (- to - 1)"
    by linarith+
  define first where "first = (if 0 \<le> from then indexer_forward ix (nonnegative_index (from - 1))
    else indexer_backward ix (nonnegative_index (- from)))"
  have first: "indexer_inv s (fst first)" "snd first = int (u8_pos s (nat (r_index s from - 1)))"
    using steps [OF assms] by (auto simp: first_def r_index_def saturated_index [OF len] nats)
  define second where "second = (if 0 \<le> to then indexer_forward (fst first) to
    else indexer_backward (fst first) (nonnegative_index (- to - 1)))"
  have second: "indexer_inv s (fst second)" "snd second = int (u8_pos s (nat (r_index s to)))"
    using steps [OF first(1)] by (auto simp: second_def r_index_def saturated_index [OF len] nats)
  have "indexer_range ix from to = (fst second, snd first, snd second)"
    unfolding indexer_range_def first_def [symmetric] by (simp add: case_prod_beta Let_def second_def)
  then show ?thesis using first second by (simp add: range_spec_def)
qed

lemma indexer_ranges_spec: "indexer_inv s ix \<Longrightarrow> indexer_ranges ix qs = map (range_spec s) qs"
proof (induction ix qs rule: indexer_ranges.induct)
  case (2 ix a b qs)
  obtain ix' r where "indexer_range ix a b = (ix', r)" by (cases "indexer_range ix a b")
  with indexer_range_step [OF 2(2), of a b] 2(1) show ?case by simp
qed simp

subsection \<open>Endpoints, recycling and sizes\<close>

definition length_endpoint :: "int \<Rightarrow> int \<Rightarrow> int" where
  "length_endpoint from len =
     (let endpoint = from + len - 1; limit = INT_MAX
      in if from < 0 \<and> 0 \<le> endpoint then - 1
         else if limit \<le> endpoint then INT_MAX
         else if endpoint \<le> - limit then - INT_MAX
         else endpoint)"

definition replacement_all_from :: "int \<Rightarrow> int \<Rightarrow> int" where
  "replacement_all_from from codepoints =
     (let position = from;
          position = (if position < 0 then codepoints + position + 1 else position);
          position = (if position \<le> 0 then 1 else position);
          position = position - 1
      in if codepoints \<le> position then codepoints else position)"

definition replacement_all_to :: "int \<Rightarrow> bool \<Rightarrow> int \<Rightarrow> int \<Rightarrow> int" where
  "replacement_all_to to is_length from codepoints =
     (let position =
            (if is_length then from + (if 0 < to then to else 0)
             else
               let position = to;
                   position = (if position < 0 then codepoints + position + 1 else position)
               in if position < from then from else position)
      in if codepoints \<le> position then codepoints else position)"

definition recycled_order_begin :: "int \<Rightarrow> int \<Rightarrow> int" where
  "recycled_order_begin source_length output_length = (if source_length \<le> 0 then output_length else 0)"

definition recycled_order_next :: "int \<Rightarrow> int \<Rightarrow> int \<Rightarrow> int" where
  "recycled_order_next index source_length output_length =
     (if source_length \<le> 0 then output_length
      else if index = output_length - 1 - output_length mod source_length then output_length
      else if output_length - index \<le> source_length then index mod source_length + 1
      else index + source_length)"

text \<open>The loop its callers run: \<open>for (i = begin; i < output; i = next(i))\<close>, with the
  indices it visits; None is a loop that does not end.\<close>

partial_function (option) recycled_order :: "int \<Rightarrow> int \<Rightarrow> int \<Rightarrow> int list option" where
  "recycled_order source_length output_length i =
     (if i < output_length then
        Option.bind (recycled_order source_length output_length (recycled_order_next i source_length output_length)) (\<lambda>is. Some (i # is))
      else Some [])"

fun recycling_max :: "int list \<Rightarrow> int \<Rightarrow> int option" where
  "recycling_max [] output = Some output"
| "recycling_max (l # ls) output =
     (if l \<le> 0 then None else recycling_max ls (if output < l then l else output))"

definition recycling_length :: "int list \<Rightarrow> int \<times> bool" where
  "recycling_length lengths =
     (case recycling_max lengths 0 of
        None \<Rightarrow> (0, False)
      | Some output \<Rightarrow> (output, list_ex (\<lambda>l. output mod l \<noteq> 0) lengths))"

definition checked_output_size :: "nat \<Rightarrow> nat \<Rightarrow> nat result" where
  "checked_output_size current additional =
     (if SIZE_MAX - current < additional then Inl (Length_error ''character output size overflow'')
      else let output = current + additional
           in if nat INT_MAX < output then Inl (Length_error ''character output is too large'')
              else Inr output)"

lemma recycling_max_eq:
  "recycling_max ls m = (if \<forall>l\<in>set ls. 0 < l then Some (Max (set (m # ls))) else None)"
proof (induction ls arbitrary: m)
  case (Cons l ls)
  have "Max (insert (if m < l then l else m) (set ls)) = Max (insert m (insert l (set ls)))"
    by (cases "set ls = {}") (auto simp: max_def)
  with Cons [of "if m < l then l else m"] show ?case by auto
qed simp

lemma recycling_length_eq:
  "recycling_length ls =
     (if ls \<noteq> [] \<and> (\<forall>l\<in>set ls. 0 < l) then (Max (set ls), \<exists>l\<in>set ls. \<not> l dvd Max (set ls)) else (0, False))"
proof (cases "ls \<noteq> [] \<and> (\<forall>l\<in>set ls. 0 < l)")
  case True
  then have "0 \<le> Max (set ls)" by (metis List.finite_set Max_in less_imp_le set_empty)
  then have "Max (insert 0 (set ls)) = Max (set ls)" using True by (simp add: max_def)
  with True show ?thesis
    by (auto simp: recycling_length_def recycling_max_eq list_ex_iff dvd_eq_mod_eq_0)
qed (auto simp: recycling_length_def recycling_max_eq)

text \<open>The visiting order: the indices with remainder 0, then those with remainder 1, and so on.\<close>

definition residue_class :: "nat \<Rightarrow> nat \<Rightarrow> nat \<Rightarrow> int list" where
  "residue_class n N r = map (\<lambda>q. int (r + q * n)) [0..<Suc ((N - 1 - r) div n)]"

definition recycled_indices :: "nat \<Rightarrow> nat \<Rightarrow> int list" where
  "recycled_indices n N = concat (map (residue_class n N) [0..<n])"

lemma class_bound:
  fixes r n N q :: nat
  assumes "r < n" "n \<le> N"
  shows "q \<le> (N - 1 - r) div n \<longleftrightarrow> r + q * n < N"
proof -
  have "q \<le> (N - 1 - r) div n \<longleftrightarrow> q * n \<le> N - 1 - r"
    using assms by (intro less_eq_div_iff_mult_less_eq) simp
  then show ?thesis using assms by linarith
qed

lemma recycled_next_cases:
  assumes "r < n" "n \<le> N" "q \<le> (N - 1 - r) div n"
  shows "recycled_order_next (int (r + q * n)) (int n) (int N) =
    (if q < (N - 1 - r) div n then int (r + Suc q * n) else if Suc r < n then int (Suc r) else int N)"
proof -
  have in_q: "r + q * n < N" using assms(3) class_bound [OF assms(1,2), of q] by blast
  have lastq: "q < (N - 1 - r) div n \<longleftrightarrow> r + Suc q * n < N"
    using class_bound [OF assms(1,2), of "Suc q"] unfolding Suc_le_eq .
  have m: "int (r + q * n) mod int n = int r" using assms(1) by (simp flip: of_nat_mod)
  have stop: "int (r + q * n) = int N - 1 - int N mod int n \<longleftrightarrow> Suc r = n \<and> \<not> r + Suc q * n < N"
  proof
    assume "int (r + q * n) = int N - 1 - int N mod int n"
    then have "int (r + q * n) + 1 = int N - int N mod int n" by simp
    also have "\<dots> = int (N - N mod n)" by (simp add: of_nat_mod of_nat_diff)
    finally have *: "Suc (r + q * n) = N - N mod n" by linarith
    then have "n dvd Suc (r + q * n)" by (simp add: dvd_minus_mod)
    then have "n dvd Suc r" by (metis add_Suc dvd_add_left_iff dvd_triv_right)
    then have "Suc r = n" using assms(1) by (simp add: dvd_imp_le le_antisym)
    moreover have "N mod n < n" using assms by simp
    ultimately show "Suc r = n \<and> \<not> r + Suc q * n < N" using * mult_Suc [of q n] by linarith
  next
    assume a: "Suc r = n \<and> \<not> r + Suc q * n < N"
    then have "N = Suc q * n + (N - Suc q * n)" "N - Suc q * n < n" using in_q by auto
    then have "N mod n = N - Suc q * n" by (metis mod_less mod_mult_self3)
    with a in_q show "int (r + q * n) = int N - 1 - int N mod int n"
      by (simp flip: of_nat_mod)
  qed
  have wrap: "int N - int (r + q * n) \<le> int n \<longleftrightarrow> \<not> r + Suc q * n < N"
    using mult_Suc [of q n] by linarith
  show ?thesis
    unfolding recycled_order_next_def stop wrap lastq m using assms(1) by auto
qed

text \<open>From index \<open>r + q * n\<close> the loop visits the rest of its class and then the later classes.\<close>

definition recycled_rest :: "nat \<Rightarrow> nat \<Rightarrow> nat \<Rightarrow> nat \<Rightarrow> int list" where
  "recycled_rest n N r q = map (\<lambda>q. int (r + q * n)) [q..<Suc ((N - 1 - r) div n)] @
     concat (map (residue_class n N) [Suc r..<n])"

lemma recycled_rest_step:
  assumes "r < n" "q \<le> (N - 1 - r) div n"
  shows "recycled_rest n N r q = int (r + q * n) #
    (if q < (N - 1 - r) div n then recycled_rest n N r (Suc q)
     else if Suc r < n then recycled_rest n N (Suc r) 0 else [])"
proof -
  have "[q..<Suc ((N - 1 - r) div n)] = q # [Suc q..<Suc ((N - 1 - r) div n)]"
    using assms by (simp add: upt_conv_Cons del: upt_Suc)
  then show ?thesis
    using assms by (auto simp: recycled_rest_def residue_class_def upt_conv_Cons simp del: upt_Suc)
qed

lemma recycled_order_rest:
  assumes "n \<le> N" "r < n" "q \<le> (N - 1 - r) div n"
  shows "recycled_order (int n) (int N) (int (r + q * n)) = Some (recycled_rest n N r q)"
  using assms(2,3)
proof (induction "length (recycled_rest n N r q)" arbitrary: r q rule: less_induct)
  case less
  have "r + q * n < N" using less.prems(2) class_bound [OF less.prems(1) assms(1), of q] by blast
  then have step: "recycled_order (int n) (int N) (int (r + q * n)) =
      Option.bind (recycled_order (int n) (int N) (recycled_order_next (int (r + q * n)) (int n) (int N))) (\<lambda>is. Some (int (r + q * n) # is))"
    by (subst recycled_order.simps) (simp del: of_nat_add of_nat_mult)
  note rest = recycled_rest_step [OF less.prems]
  show ?case
    unfolding step using less.prems less.hyps [of r "Suc q"] less.hyps [of "Suc r" 0] rest
    unfolding recycled_next_cases [OF less.prems(1) assms(1) less.prems(2)]
    by (auto simp: recycled_order.simps [of _ "int N" "int N"])
qed

lemma set_residue_class:
  assumes "r < n" "n \<le> N"
  shows "set (residue_class n N r) = {i. 0 \<le> i \<and> i < int N \<and> i mod int n = int r}"
proof (intro set_eqI iffI)
  fix i assume "i \<in> set (residue_class n N r)"
  then obtain q where "q \<in> set [0..<Suc ((N - 1 - r) div n)]" "i = int (r + q * n)"
    unfolding residue_class_def set_map by blast
  then have "i = int (r + q * n)" "q \<le> (N - 1 - r) div n" using less_Suc_eq_le by auto
  with class_bound [OF assms, of q] assms(1) show "i \<in> {i. 0 \<le> i \<and> i < int N \<and> i mod int n = int r}"
    by (simp flip: of_nat_mod of_nat_mult of_nat_add)
next
  fix i assume i: "i \<in> {i. 0 \<le> i \<and> i < int N \<and> i mod int n = int r}"
  define q where "q = nat i div n"
  have "nat i mod n = r" using i nat_mod_distrib [of i "int n"] by simp
  then have eq: "nat i = r + q * n" unfolding q_def by (metis mod_mult_div_eq mult.commute)
  then have "r + q * n < N" using i by (simp add: nat_less_iff flip: eq)
  then have "q \<le> (N - 1 - r) div n" using class_bound [OF assms, of q] by blast
  then show "i \<in> set (residue_class n N r)"
    using eq i unfolding residue_class_def set_map
    by (intro image_eqI [of _ _ q]) (auto simp: nat_eq_iff)
qed

lemma recycled_indices_perm:
  assumes "0 < n" "n \<le> N"
  shows "set (recycled_indices n N) = {0..<int N}" and "distinct (recycled_indices n N)"
proof -
  note class_set = set_residue_class [OF _ assms(2)]
  have "i mod int n \<in> int ` {0..<n}" for i
    using assms(1) by (intro image_eqI [of _ _ "nat (i mod int n)"]) (auto simp: nat_less_iff)
  then show "set (recycled_indices n N) = {0..<int N}"
    by (force simp: recycled_indices_def class_set)
  have dist: "distinct (residue_class n N r)" for r
    using assms(1) by (simp add: residue_class_def distinct_map inj_on_def del: upt_Suc)
  have ne: "residue_class n N r \<noteq> []" for r by (simp add: residue_class_def)
  have "inj_on (residue_class n N) {0..<n}"
  proof
    fix r r' assume r: "r \<in> {0..<n}" "r' \<in> {0..<n}" and "residue_class n N r = residue_class n N r'"
    then have "set (residue_class n N r) \<inter> set (residue_class n N r') \<noteq> {}" using ne by simp
    then show "r = r'" using r by (auto simp: class_set)
  qed
  then show "distinct (recycled_indices n N)"
    unfolding recycled_indices_def
    by (intro distinct_concat) (auto simp: distinct_map dist class_set)
qed

lemma recycled_order_all:
  assumes "0 < n" "n \<le> N"
  shows "recycled_order (int n) (int N) (recycled_order_begin (int n) (int N)) = Some (recycled_indices n N)"
proof -
  have "recycled_rest n N 0 0 = recycled_indices n N"
    using assms by (simp add: recycled_rest_def recycled_indices_def residue_class_def upt_conv_Cons [of 0 n] del: upt_Suc)
  then show ?thesis
    using recycled_order_rest [OF assms(2,1), of 0] assms by (simp add: recycled_order_begin_def)
qed

subsection \<open>The replacement assembler\<close>

datatype replacement_warning = Warn_none | Warn_replacement_zero | Warn_recycling | Warn_recycling_rule

record replacement_result =
  rr_value :: string_view
  rr_warning :: replacement_warning

text \<open>\<open>static_cast<std::size_t>\<close> of an \<open>int\<close>, and the data of the literal \<open>""\<close>.\<close>

definition size_of_int :: "int \<Rightarrow> nat" where "size_of_int i = nat (i mod (int SIZE_MAX + 1))"

definition empty_literal :: cptr where "empty_literal = Ptr 0 [0]"

definition assembler_append :: "byte list \<Rightarrow> cptr \<Rightarrow> nat \<Rightarrow> byte list result" where
  "assembler_append bytes data len =
     (if len = 0 then Inr bytes
      else if data = NullPtr then Inl (Invalid_argument ''null character input'')
      else bindE (checked_output_size (length bytes) len) (\<lambda>size.
        Inr (memcpy_at (bytes @ replicate (size - length bytes) 0) (length bytes) (ptr_bytes data) len)))"

definition nth_to :: "int list option \<Rightarrow> int list option \<Rightarrow> nat \<Rightarrow> int" where
  "nth_to to lengths i =
     (case to of Some t \<Rightarrow> t ! (i mod length t) | None \<Rightarrow> the lengths ! (i mod length (the lengths)))"

type_synonym assembler_state = "byte list \<times> nat \<times> nat \<times> nat"

text \<open>One round of the replacement loop: bytes so far, replacements made, code points
  and bytes of the source passed.\<close>

definition build_step ::
  "cptr \<Rightarrow> nat \<Rightarrow> int \<Rightarrow> string_view list \<Rightarrow> int list \<Rightarrow> int list option \<Rightarrow> int list option
    \<Rightarrow> nat \<Rightarrow> assembler_state \<Rightarrow> assembler_state result" where
  "build_step source_data source_len source_codepoints replacements from to lengths i st =
     (let (bytes, replaced, last_position, byte_position) = st;
          current_from = from ! (i mod length from);
          current_to = nth_to to lengths i;
          replacement = replacements ! (i mod length replacements);
          step = (\<lambda>b. U8_FWD_1 (ptr_bytes source_data) b source_len)
      in
      if current_from = NA_INTEGER \<or> current_to = NA_INTEGER \<or> is_na replacement \<or>
          (to = None \<and> current_to < 0) then Inr st
      else
        let current_from = replacement_all_from current_from source_codepoints;
            current_to = replacement_all_to current_to (lengths \<noteq> None) current_from source_codepoints
        in
        if current_from < int last_position then
          Inl (Invalid_argument ''index ranges must be sorted and mutually disjoint'')
        else
          let previous_byte = byte_position;
              (last_position, byte_position) =
                walk_up step (\<lambda>b. True) (nat current_from) last_position byte_position
          in
          bindE (assembler_append bytes (ptr_add source_data previous_byte) (byte_position - previous_byte)) (\<lambda>bytes.
          bindE (assembler_append bytes (if sv_len replacement = 0 then empty_literal else sv_ptr replacement)
              (size_of_int (sv_len replacement))) (\<lambda>bytes.
          let (last_position, byte_position) =
                walk_up step (\<lambda>b. True) (nat current_to) last_position byte_position
          in Inr (bytes, replaced + 1, last_position, byte_position))))"

fun build_loop ::
  "(nat \<Rightarrow> assembler_state \<Rightarrow> assembler_state result) \<Rightarrow> nat list \<Rightarrow> assembler_state \<Rightarrow> assembler_state result" where
  "build_loop step [] st = Inr st"
| "build_loop step (i # is) st = bindE (step i st) (build_loop step is)"

text \<open>\<open>ReplacementAssembler::build\<close>; \<open>addr\<close> is where its vector keeps the bytes. The
  pointers \<open>to\<close> and \<open>lengths\<close> are None when null.\<close>

definition build ::
  "nat \<Rightarrow> string_view \<Rightarrow> string_view list \<Rightarrow> int list \<Rightarrow> int list option \<Rightarrow> int list option \<Rightarrow> int \<Rightarrow> bool
    \<Rightarrow> replacement_result result" where
  "build addr source replacements from to lengths vectorize_length omit_na =
     (let rounds = [0..<nat vectorize_length];
          missing = (\<lambda>w. Inr \<lparr>rr_value = missing_view, rr_warning = w\<rparr>)
      in
      if is_na source then missing Warn_none
      else if vectorize_length \<le> 0 then Inr \<lparr>rr_value = source, rr_warning = Warn_none\<rparr>
      else if length replacements = 0 then missing Warn_replacement_zero
      else if \<not> omit_na \<and> list_ex (\<lambda>i. from ! (i mod length from) = NA_INTEGER \<or>
          nth_to to lengths i = NA_INTEGER) rounds then missing Warn_none
      else if \<not> omit_na \<and> list_ex (\<lambda>i. is_na (replacements ! (i mod length replacements))) rounds
      then missing Warn_none
      else
        let source_data = (if sv_len source = 0 then empty_literal else sv_ptr source);
            source_len = nat (sv_len source);
            source_codepoints =
              (if sv_enc source \<noteq> Enc_ascii
               then int (snd (cursor_walk (ptr_bytes source_data) source_len source_len 0 0))
               else sv_len source)
        in
        bindE (build_loop (build_step source_data source_len source_codepoints replacements from to lengths)
            rounds ([], 0, 0, 0)) (\<lambda>(bytes, replaced, last_position, byte_position).
        bindE (assembler_append bytes (ptr_add source_data byte_position) (source_len - byte_position)) (\<lambda>bytes.
        let ascii = list_all (\<lambda>b. \<not> 0x7f < b) bytes
        in Inr \<lparr>rr_value = StringView (if bytes = [] then empty_literal else Ptr addr bytes) (int (length bytes))
                  (if ascii then Enc_ascii else Enc_utf8),
                rr_warning = (if 0 < replaced \<and> nat vectorize_length mod length replacements \<noteq> 0
                              then Warn_recycling else Warn_none)\<rparr>)))"

text \<open>What replacing means: the edits in code points, applied from left to right.\<close>

type_synonym edit = "nat \<times> nat \<times> byte list"

fun sorted_edits :: "nat \<Rightarrow> edit list \<Rightarrow> bool" where
  "sorted_edits p0 [] = True"
| "sorted_edits p0 ((f, t, r) # es) = (p0 \<le> f \<and> sorted_edits t es)"

fun edits_end :: "nat \<Rightarrow> edit list \<Rightarrow> nat" where
  "edits_end p0 [] = p0"
| "edits_end p0 ((f, t, r) # es) = edits_end t es"

fun splice_body :: "byte list \<Rightarrow> nat \<Rightarrow> edit list \<Rightarrow> byte list" where
  "splice_body s p0 [] = []"
| "splice_body s p0 ((f, t, r) # es) = slice s (u8_pos s p0) (u8_pos s f) @ r @ splice_body s t es"

definition splice :: "byte list \<Rightarrow> edit list \<Rightarrow> byte list" where
  "splice s es = splice_body s 0 es @ drop (u8_pos s (edits_end 0 es)) s"

text \<open>The edit of round \<open>i\<close>, if that round is not skipped.\<close>

definition edit_at ::
  "nat \<Rightarrow> string_view list \<Rightarrow> int list \<Rightarrow> int list option \<Rightarrow> int list option \<Rightarrow> nat \<Rightarrow> edit option" where
  "edit_at count replacements from to lengths i =
     (let f = from ! (i mod length from); t = nth_to to lengths i;
          r = replacements ! (i mod length replacements);
          f' = replacement_all_from f (int count)
      in if f = NA_INTEGER \<or> t = NA_INTEGER \<or> is_na r \<or> (to = None \<and> t < 0) then None
         else Some (nat f', nat (replacement_all_to t (lengths \<noteq> None) f' (int count)), sv_bytes r))"

lemma replacement_all_bounds:
  assumes "0 \<le> c"
  shows "0 \<le> replacement_all_from f c" "replacement_all_from f c \<le> c"
    and "replacement_all_to t l f' c \<le> c" "0 \<le> f' \<Longrightarrow> f' \<le> c \<Longrightarrow> f' \<le> replacement_all_to t l f' c"
  using assms by (auto simp: replacement_all_from_def replacement_all_to_def Let_def)

lemma assembler_append_eq:
  assumes "len \<le> length (ptr_bytes data)" "length bytes \<le> nat INT_MAX" "len \<le> nat INT_MAX"
  shows "length bytes + len \<le> nat INT_MAX \<Longrightarrow> assembler_append bytes data len = Inr (bytes @ take len (ptr_bytes data))"
    and "nat INT_MAX < length bytes + len \<Longrightarrow> isl (assembler_append bytes data len)"
proof -
  have size: "\<not> SIZE_MAX - length bytes < len" using assms by (simp add: SIZE_MAX_def INT_MAX_def)
  have null: "len \<noteq> 0 \<Longrightarrow> data \<noteq> NullPtr" using assms(1) by (cases data) auto
  show "assembler_append bytes data len = Inr (bytes @ take len (ptr_bytes data))"
    if "length bytes + len \<le> nat INT_MAX"
    using that size null by (auto simp: assembler_append_def checked_output_size_def Let_def memcpy_at_def)
  show "isl (assembler_append bytes data len)" if "nat INT_MAX < length bytes + len"
    using that size assms(2) by (auto simp: assembler_append_def checked_output_size_def Let_def)
qed

text \<open>The inputs of \<open>build\<close> as its callers prepare them.\<close>

definition build_inputs_ok :: "string_view \<Rightarrow> string_view list \<Rightarrow> bool" where
  "build_inputs_ok source replacements \<longleftrightarrow> sv_ok source \<and> marked_ascii source \<and>
     (\<forall>r\<in>set replacements. is_na r \<or> sv_ok r)"

definition source_data :: "string_view \<Rightarrow> cptr" where
  "source_data source = (if sv_len source = 0 then empty_literal else sv_ptr source)"

lemma source_data_bytes:
  assumes "sv_ok v"
  shows "length (sv_bytes v) \<le> length (ptr_bytes (source_data v))"
    "take (length (sv_bytes v)) (ptr_bytes (source_data v)) = sv_bytes v"
    "take (nat (sv_len v)) (ptr_bytes (source_data v)) = sv_bytes v"
    "nat (sv_len v) \<le> length (ptr_bytes (source_data v))"
  using assms by (auto simp: source_data_def sv_ok_def sv_bytes_def empty_literal_def)

lemma sv_len_max: "sv_ok v \<Longrightarrow> nat (sv_len v) \<le> nat INT_MAX"
  by (simp add: sv_ok_def nat_mono)

lemma size_of_len: "sv_ok v \<Longrightarrow> size_of_int (sv_len v) = nat (sv_len v)"
  by (simp add: size_of_int_def sv_ok_def INT_MAX_def SIZE_MAX_def)

lemma edit_at_bounds:
  assumes "edit_at c replacements fr to lengths i = Some (f, t, r)"
  shows "f \<le> t" "t \<le> c"
proof -
  define fi where "fi = replacement_all_from (fr ! (i mod length fr)) (int c)"
  have ft: "f = nat fi" "t = nat (replacement_all_to (nth_to to lengths i) (lengths \<noteq> None) fi (int c))"
    using assms by (auto simp: edit_at_def Let_def fi_def split: if_splits)
  have fi: "0 \<le> fi" "fi \<le> int c" by (simp_all add: fi_def replacement_all_bounds)
  show "f \<le> t" "t \<le> c"
    unfolding ft by (intro nat_mono replacement_all_bounds fi of_nat_0_le_iff)
      (simp add: nat_le_iff replacement_all_bounds)
qed

lemma build_step_None:
  assumes "edit_at (u8_count s) replacements fr to lengths i = None"
  shows "build_step data n (int (u8_count s)) replacements fr to lengths i st = Inr st"
  using assms by (auto simp: build_step_def edit_at_def Let_def split: if_splits prod.splits)

lemma append_slice:
  assumes "sv_ok v" "a \<le> b" "b \<le> length (sv_bytes v)" "length bytes \<le> nat INT_MAX"
  shows "length bytes + (b - a) \<le> nat INT_MAX \<Longrightarrow>
      assembler_append bytes (ptr_add (source_data v) a) (b - a) = Inr (bytes @ slice (sv_bytes v) a b)"
    and "nat INT_MAX < length bytes + (b - a) \<Longrightarrow> isl (assembler_append bytes (ptr_add (source_data v) a) (b - a))"
proof -
  have "take (b - a) (drop a (ptr_bytes (source_data v))) = slice (sv_bytes v) a b"
    using assms(3) source_data_bytes(2) [OF assms(1)] slice_take [of b "length (sv_bytes v)"]
    by (metis slice_def)
  moreover have "b - a \<le> length (ptr_bytes (ptr_add (source_data v) a))"
    using assms source_data_bytes(1) [OF assms(1)] by (simp add: ptr_add_bytes)
  moreover have "b - a \<le> nat INT_MAX"
    using assms sv_len_max [OF assms(1)] by simp
  ultimately show "length bytes + (b - a) \<le> nat INT_MAX \<Longrightarrow>
      assembler_append bytes (ptr_add (source_data v) a) (b - a) = Inr (bytes @ slice (sv_bytes v) a b)"
    and "nat INT_MAX < length bytes + (b - a) \<Longrightarrow> isl (assembler_append bytes (ptr_add (source_data v) a) (b - a))"
    using assembler_append_eq [of "b - a" "ptr_add (source_data v) a" bytes] assms(4)
    by (simp_all add: ptr_add_bytes)
qed

lemma append_view:
  assumes "sv_ok r" "length bytes \<le> nat INT_MAX"
  shows "length bytes + length (sv_bytes r) \<le> nat INT_MAX \<Longrightarrow>
      assembler_append bytes (source_data r) (size_of_int (sv_len r)) = Inr (bytes @ sv_bytes r)"
    and "nat INT_MAX < length bytes + length (sv_bytes r) \<Longrightarrow>
      isl (assembler_append bytes (source_data r) (size_of_int (sv_len r)))"
proof -
  have "nat (sv_len r) \<le> nat INT_MAX" using assms(1) by (rule sv_len_max)
  then show "length bytes + length (sv_bytes r) \<le> nat INT_MAX \<Longrightarrow>
      assembler_append bytes (source_data r) (size_of_int (sv_len r)) = Inr (bytes @ sv_bytes r)"
    and "nat INT_MAX < length bytes + length (sv_bytes r) \<Longrightarrow>
      isl (assembler_append bytes (source_data r) (size_of_int (sv_len r)))"
    using assembler_append_eq [of "nat (sv_len r)" "source_data r" bytes] assms
    by (simp_all add: source_data_bytes size_of_len)
qed

lemma build_step_Some:
  fixes source :: string_view and k p i :: nat and bytes :: "byte list"
  defines "s \<equiv> sv_bytes source"
  assumes ok: "build_inputs_ok source replacements" "replacements \<noteq> []"
    and st: "p \<le> u8_count s" "length bytes \<le> nat INT_MAX"
    and edit: "edit_at (u8_count s) replacements fr to lengths i = Some (f, t, r)"
  defines "step \<equiv> build_step (source_data source) (nat (sv_len source)) (int (u8_count s)) replacements fr to lengths i (bytes, k, p, u8_pos s p)"
  shows "p \<le> f \<Longrightarrow> length bytes + length (slice s (u8_pos s p) (u8_pos s f) @ r) \<le> nat INT_MAX \<Longrightarrow>
      step = Inr (bytes @ slice s (u8_pos s p) (u8_pos s f) @ r, k + 1, t, u8_pos s t)"
    and "\<not> (p \<le> f \<and> length bytes + length (slice s (u8_pos s p) (u8_pos s f) @ r) \<le> nat INT_MAX) \<Longrightarrow> isl step"
proof -
  have src: "sv_ok source" using ok by (simp add: build_inputs_ok_def)
  have len: "nat (sv_len source) = length s" using src by (simp add: s_def)
  note buf = source_data_bytes(1,2) [OF src, folded s_def]
  define rv where "rv = replacements ! (i mod length replacements)"
  have rv: "sv_ok rv" "r = sv_bytes rv"
    using ok edit by (auto simp: build_inputs_ok_def edit_at_def Let_def rv_def split: if_splits)
  note bounds = edit_at_bounds [OF edit]
  define fi ti where "fi = replacement_all_from (fr ! (i mod length fr)) (int (u8_count s))"
    and "ti = replacement_all_to (nth_to to lengths i) (lengths \<noteq> None) fi (int (u8_count s))"
  have ft: "f = nat fi" "t = nat ti" "0 \<le> fi"
    using edit replacement_all_bounds(1) [of "int (u8_count s)"]
    by (auto simp: edit_at_def Let_def fi_def ti_def split: if_splits)
  have go: "\<not> (fr ! (i mod length fr) = NA_INTEGER \<or> nth_to to lengths i = NA_INTEGER \<or> is_na rv \<or>
      (to = None \<and> nth_to to lengths i < 0))"
    using edit by (auto simp: edit_at_def Let_def rv_def split: if_splits)
  have unf: "step = (if fi < int p then Inl (Invalid_argument ''index ranges must be sorted and mutually disjoint'')
      else bindE (assembler_append bytes (ptr_add (source_data source) (u8_pos s p)) (u8_pos s f - u8_pos s p)) (\<lambda>bytes.
           bindE (assembler_append bytes (source_data rv) (size_of_int (sv_len rv))) (\<lambda>bytes.
           Inr (bytes, k + 1, t, u8_pos s t))))"
  proof (cases "fi < int p")
    case True
    then show ?thesis using go
      by (simp add: step_def build_step_def Let_def flip: rv_def fi_def ti_def)
  next
    case False
    then have "p \<le> f" using ft by linarith
    then have walks: "walk_up (\<lambda>b. U8_FWD_1 (ptr_bytes (source_data source)) b (length s)) (\<lambda>b. True) f p (u8_pos s p) = (f, u8_pos s f)"
      "walk_up (\<lambda>b. U8_FWD_1 (ptr_bytes (source_data source)) b (length s)) (\<lambda>b. True) t f (u8_pos s f) = (t, u8_pos s t)"
      using bounds by (simp_all add: u8_walks(5) [OF buf])
    show ?thesis
      unfolding step_def build_step_def Let_def prod.case rv_def [symmetric] fi_def [symmetric]
        ti_def [symmetric] ft(1,2) [symmetric] len walks if_not_P [OF go] if_not_P [OF False]
        source_data_def [of rv] ..
  qed
  let ?gap = "slice s (u8_pos s p) (u8_pos s f)"
  have cond: "fi < int p \<longleftrightarrow> \<not> p \<le> f" using ft by linarith
  have gap: "length ?gap = u8_pos s f - u8_pos s p" by (simp add: u8_pos_bounds)
  have first: "length bytes + length ?gap \<le> nat INT_MAX \<Longrightarrow>
      assembler_append bytes (ptr_add (source_data source) (u8_pos s p)) (u8_pos s f - u8_pos s p) = Inr (bytes @ ?gap)"
    "nat INT_MAX < length bytes + length ?gap \<Longrightarrow>
      isl (assembler_append bytes (ptr_add (source_data source) (u8_pos s p)) (u8_pos s f - u8_pos s p))" if "p \<le> f"
    using append_slice [OF src u8_pos_bounds(5) [OF that, of s] _ st(2)]
    unfolding s_def [symmetric] gap by (simp_all add: u8_pos_bounds)
  note second = append_view [OF rv(1), of "bytes @ ?gap", folded rv(2)]
  show "p \<le> f \<Longrightarrow> length bytes + length (slice s (u8_pos s p) (u8_pos s f) @ r) \<le> nat INT_MAX \<Longrightarrow>
      step = Inr (bytes @ slice s (u8_pos s p) (u8_pos s f) @ r, k + 1, t, u8_pos s t)"
    and "\<not> (p \<le> f \<and> length bytes + length (slice s (u8_pos s p) (u8_pos s f) @ r) \<le> nat INT_MAX) \<Longrightarrow> isl step"
    using first second unfolding unf cond
    by (cases "length bytes + length ?gap \<le> nat INT_MAX"; auto simp: isl_def bindE_eq_Inl not_le)+
qed

lemma build_loop_edits:
  fixes source :: string_view and k p :: nat and bytes :: "byte list"
    and fr :: "int list" and to lengths :: "int list option"
  defines "s \<equiv> sv_bytes source"
  assumes ok: "build_inputs_ok source replacements" "replacements \<noteq> []"
  defines "step \<equiv> build_step (source_data source) (nat (sv_len source)) (int (u8_count s)) replacements fr to lengths"
    and "edits \<equiv> List.map_filter (edit_at (u8_count s) replacements fr to lengths)"
  assumes "p \<le> u8_count s" "length bytes \<le> nat INT_MAX"
  shows "(if sorted_edits p (edits is) \<and> length bytes + length (splice_body s p (edits is)) \<le> nat INT_MAX
     then build_loop step is (bytes, k, p, u8_pos s p) =
       Inr (bytes @ splice_body s p (edits is), k + length (edits is), edits_end p (edits is), u8_pos s (edits_end p (edits is)))
     else isl (build_loop step is (bytes, k, p, u8_pos s p)))"
  using assms(6,7)
proof (induction "is" arbitrary: bytes k p)
  case Nil
  then show ?case by (simp add: edits_def map_filter_simps)
next
  case (Cons i "is")
  show ?case
  proof (cases "edit_at (u8_count s) replacements fr to lengths i")
    case None
    then have "edits (i # is) = edits is" by (simp add: edits_def map_filter_simps)
    moreover have "step i (bytes, k, p, u8_pos s p) = Inr (bytes, k, p, u8_pos s p)"
      unfolding step_def by (rule build_step_None [OF None])
    ultimately show ?thesis using Cons.IH [OF Cons.prems, of k] by simp
  next
    case (Some e)
    obtain f t r where e: "e = (f, t, r)" by (cases e)
    have edits: "edits (i # is) = (f, t, r) # edits is"
      using Some e by (simp add: edits_def map_filter_simps)
    note step_ok = build_step_Some [OF ok, folded s_def, OF Cons.prems Some [unfolded e], folded step_def, of k]
    have t: "t \<le> u8_count s" by (rule edit_at_bounds(2) [OF Some [unfolded e]])
    let ?new = "bytes @ slice s (u8_pos s p) (u8_pos s f) @ r"
    show ?thesis
    proof (cases "p \<le> f \<and> length ?new \<le> nat INT_MAX")
      case True
      then have "step i (bytes, k, p, u8_pos s p) = Inr (?new, k + 1, t, u8_pos s t)"
        using step_ok(1) by simp
      with True Cons.IH [OF t, of ?new "k + 1"] show ?thesis
        unfolding edits by (auto simp: add.assoc split: if_splits)
    next
      case False
      then have "isl (step i (bytes, k, p, u8_pos s p))" using step_ok(2) by simp
      with False show ?thesis unfolding edits by (auto simp: isl_def)
    qed
  qed
qed

lemma edits_end_le:
  "p \<le> c \<Longrightarrow> (\<And>f t r. (f, t, r) \<in> set es \<Longrightarrow> t \<le> c) \<Longrightarrow> edits_end p es \<le> c"
  by (induction p es rule: edits_end.induct) auto

lemma build_correct:
  assumes ok: "build_inputs_ok source replacements" "replacements \<noteq> []" and vec: "0 < vectorize_length"
    and na: "omit_na \<or> (\<forall>i<nat vectorize_length. fr ! (i mod length fr) \<noteq> NA_INTEGER \<and>
        nth_to to lengths i \<noteq> NA_INTEGER \<and> \<not> is_na (replacements ! (i mod length replacements)))"
  defines "s \<equiv> sv_bytes source"
  defines "es \<equiv> List.map_filter (edit_at (u8_count s) replacements fr to lengths) [0..<nat vectorize_length]"
  shows "(if sorted_edits 0 es \<and> length (splice s es) \<le> nat INT_MAX
     then build addr source replacements fr to lengths vectorize_length omit_na =
       Inr \<lparr>rr_value = StringView (if splice s es = [] then empty_literal else Ptr addr (splice s es))
              (int (length (splice s es))) (if \<forall>b\<in>set (splice s es). b < 0x80 then Enc_ascii else Enc_utf8),
            rr_warning = (if es \<noteq> [] \<and> nat vectorize_length mod length replacements \<noteq> 0
                          then Warn_recycling else Warn_none)\<rparr>
     else isl (build addr source replacements fr to lengths vectorize_length omit_na))"
proof -
  have src: "sv_ok source" "marked_ascii source" using ok by (simp_all add: build_inputs_ok_def)
  have len: "nat (sv_len source) = length s" "0 \<le> sv_len source" using src by (simp_all add: s_def sv_ok_def)
  note buf = source_data_bytes(1,2) [OF src(1), folded s_def]
  have count: "(if sv_enc source \<noteq> Enc_ascii
      then int (snd (cursor_walk (ptr_bytes (source_data source)) (nat (sv_len source)) (nat (sv_len source)) 0 0))
      else sv_len source) = int (u8_count s)"
    using src len u8_walk_count [OF buf] by (auto simp: marked_ascii_def ascii_count s_def)
  have no_na: "\<not> (\<not> omit_na \<and> list_ex (\<lambda>i. fr ! (i mod length fr) = NA_INTEGER \<or>
        nth_to to lengths i = NA_INTEGER) [0..<nat vectorize_length])"
    "\<not> (\<not> omit_na \<and> list_ex (\<lambda>i. is_na (replacements ! (i mod length replacements))) [0..<nat vectorize_length])"
    using na by (auto simp: list_ex_iff)
  have ends: "edits_end 0 es \<le> u8_count s"
    by (rule edits_end_le) (auto simp: es_def map_filter_def edit_at_bounds(2))
  define loop where "loop = build_loop (build_step (source_data source) (nat (sv_len source)) (int (u8_count s))
    replacements fr to lengths) [0..<nat vectorize_length] ([], 0, 0, 0)"
  have loop: "if sorted_edits 0 es \<and> length (splice_body s 0 es) \<le> nat INT_MAX
      then loop = Inr (splice_body s 0 es, length es, edits_end 0 es, u8_pos s (edits_end 0 es)) else isl loop"
    using build_loop_edits [OF ok, folded s_def, of 0 "[]" fr to lengths "[0..<nat vectorize_length]" 0]
    unfolding loop_def [symmetric] es_def [symmetric] u8_pos_bounds(2) by simp
  have unf: "build addr source replacements fr to lengths vectorize_length omit_na =
      bindE loop (\<lambda>(bytes, replaced, last_position, byte_position).
      bindE (assembler_append bytes (ptr_add (source_data source) byte_position) (length s - byte_position)) (\<lambda>bytes.
      Inr \<lparr>rr_value = StringView (if bytes = [] then empty_literal else Ptr addr bytes) (int (length bytes))
             (if list_all (\<lambda>b. \<not> 0x7f < b) bytes then Enc_ascii else Enc_utf8),
           rr_warning = (if 0 < replaced \<and> nat vectorize_length mod length replacements \<noteq> 0
                         then Warn_recycling else Warn_none)\<rparr>))"
    using src(1) vec ok(2)
    unfolding build_def Let_def if_not_P [OF no_na(1)] if_not_P [OF no_na(2)]
    unfolding source_data_def [symmetric] unfolding count
    unfolding loop_def len(1) by (simp add: sv_ok_def)
  define e where "e = u8_pos s (edits_end 0 es)"
  have e: "e \<le> length s" "slice s e (length s) = drop e s" by (simp_all add: e_def u8_pos_bounds slice_to_end)
  have fin: "length bytes \<le> nat INT_MAX \<Longrightarrow> length bytes + (length s - e) \<le> nat INT_MAX \<Longrightarrow>
      assembler_append bytes (ptr_add (source_data source) e) (length s - e) = Inr (bytes @ drop e s)"
    "length bytes \<le> nat INT_MAX \<Longrightarrow> nat INT_MAX < length bytes + (length s - e) \<Longrightarrow>
      isl (assembler_append bytes (ptr_add (source_data source) e) (length s - e))" for bytes
    using append_slice [OF src(1), of e "length s" bytes] e unfolding s_def [symmetric] by simp_all
  have high: "list_all (\<lambda>b. \<not> 0x7f < b) bs \<longleftrightarrow> (\<forall>b\<in>set bs. b < (0x80::byte))" for bs
    by (auto simp: list_all_iff word_less_nat_alt)
  show ?thesis
    using loop fin [of "splice_body s 0 es"]
    unfolding unf e_def [symmetric] splice_def high
    by (auto simp: isl_def not_le bindE_eq_Inl split: if_splits)
qed

subsection \<open>Properties\<close>

text \<open>C21. The caches of the indexer are invisible: whatever ranges were asked before, a
  range query answers with the byte offsets of R's one-based, possibly negative,
  positions.\<close>

theorem indexer_ranges_exact:
  assumes "int (length s) \<le> INT_MAX" "ascii \<Longrightarrow> \<forall>b\<in>set s. b < 0x80"
  shows "indexer_ranges (indexer_reset ix s (int (length s)) ascii) qs = map (range_spec s) qs"
  using assms by (intro indexer_ranges_spec indexer_inv_reset) simp_all

theorem indexer_ranges_exact_witness:
  "indexer_ranges (indexer_reset Utf8Indexer [0x61, 0xe2, 0x82, 0xac, 0x62] 5 False) [(2, 2), (1, - 1), (- 2, 3), (2, 2)] =
     [(1, 4), (0, 5), (1, 5), (1, 4)]"
proof -
  have pos: "u8_pos [0x61, 0xe2, 0x82, 0xac, 0x62] 0 = 0" "u8_pos [0x61, 0xe2, 0x82, 0xac, 0x62] 1 = 1"
    "u8_pos [0x61, 0xe2, 0x82, 0xac, 0x62] 2 = 4" "u8_pos [0x61, 0xe2, 0x82, 0xac, 0x62] 3 = 5"
    "u8_count [0x61, 0xe2, 0x82, 0xac, 0x62] = 3" by code_simp+
  then show ?thesis
    using indexer_ranges_exact [of "[0x61, 0xe2, 0x82, 0xac, 0x62]" False Utf8Indexer "[(2, 2), (1, - 1), (- 2, 3), (2, 2)]"]
    by (simp add: range_spec_def r_index_def INT_MAX_def)
qed

text \<open>The recycled visiting order ends and visits every output index exactly once, all
  indices of one source element together.\<close>

lemma recycled_order_visits_all:
  assumes "0 < n" "n \<le> N"
  shows "recycled_order (int n) (int N) (recycled_order_begin (int n) (int N)) = Some (recycled_indices n N) \<and>
    set (recycled_indices n N) = {0..<int N} \<and> distinct (recycled_indices n N)"
  using recycled_order_all [OF assms] recycled_indices_perm [OF assms] by blast

text \<open>C20. Replacing index ranges: \<open>build\<close> succeeds exactly when the ranges that are not
  skipped are sorted and disjoint and the result fits an \<open>int\<close>; then the text is the
  source with the ranges spliced, the mark says whether it is ASCII, and the warning
  whether the replacements were recycled unevenly.\<close>

theorem replacement_build_correct:
  assumes "build_inputs_ok source replacements" "replacements \<noteq> []" "0 < vectorize_length"
    and "omit_na \<or> (\<forall>i<nat vectorize_length. fr ! (i mod length fr) \<noteq> NA_INTEGER \<and>
        nth_to to lengths i \<noteq> NA_INTEGER \<and> \<not> is_na (replacements ! (i mod length replacements)))"
    and "s = sv_bytes source"
    and "es = List.map_filter (edit_at (u8_count s) replacements fr to lengths) [0..<nat vectorize_length]"
  shows "(if sorted_edits 0 es \<and> length (splice s es) \<le> nat INT_MAX
     then build addr source replacements fr to lengths vectorize_length omit_na =
       Inr \<lparr>rr_value = StringView (if splice s es = [] then empty_literal else Ptr addr (splice s es))
              (int (length (splice s es))) (if \<forall>b\<in>set (splice s es). b < 0x80 then Enc_ascii else Enc_utf8),
            rr_warning = (if es \<noteq> [] \<and> nat vectorize_length mod length replacements \<noteq> 0
                          then Warn_recycling else Warn_none)\<rparr>
     else isl (build addr source replacements fr to lengths vectorize_length omit_na))"
  unfolding assms(5,6) by (rule build_correct [OF assms(1-4)])

text \<open>Replacing the second of three letters by two others.\<close>

theorem replacement_build_correct_witness:
  "build 70 (view_of 5 Enc_ascii [0x61, 0x62, 0x63]) [view_of 9 Enc_ascii [0x78, 0x79]] [2] (Some [2]) None 1 False =
     Inr \<lparr>rr_value = StringView (Ptr 70 [0x61, 0x78, 0x79, 0x63]) 4 Enc_ascii, rr_warning = Warn_none\<rparr>"
proof -
  let ?s = "[0x61, 0x62, 0x63] :: byte list" and ?r = "[view_of 9 Enc_ascii [0x78, 0x79]]"
  have count: "u8_count ?s = 3" "u8_pos ?s 0 = 0" "u8_pos ?s 1 = 1" "u8_pos ?s 2 = 2" by code_simp+
  have es: "[(1, 2, [0x78, 0x79])] = List.map_filter (edit_at (u8_count ?s) ?r [2] (Some [2]) None) [0..<nat 1]"
    by (simp add: count map_filter_simps edit_at_def nth_to_def NA_INTEGER_def
        replacement_all_from_def replacement_all_to_def)
  have splice: "splice ?s [(1, 2, [0x78, 0x79])] = [0x61, 0x78, 0x79, 0x63]"
    using count by (simp add: splice_def slice_def)
  show ?thesis
    using replacement_build_correct [OF _ _ _ _ _ es, of "view_of 5 Enc_ascii ?s" False 70]
    unfolding splice by (simp add: build_inputs_ok_def marked_ascii_def INT_MAX_def nth_to_def NA_INTEGER_def)
qed

end
