(* ===== verification/Kmp.thy ===== *)
theory Kmp
  imports Prelude
begin

text \<open>
  The Knuth-Morris-Pratt machinery of \<^verbatim>\<open>src/shared/byte_search_matcher.h\<close>. The code has
  the table construction four times (bytes or folded code points, from the front or
  from the back) and the fall-back loop four times; they differ only in how the
  pattern is read, which is the argument \<open>at\<close> here.

  Both inner loops follow table entries, so they end only because the entries
  decrease: they are partial functions, and the lemmas show that they return.
  \<open>border_table\<close> is the contract between a finished table and the search.
\<close>

subsection \<open>Table construction and the fall-back loop\<close>

partial_function (option) kmp_fall :: "(nat \<Rightarrow> 'a) \<Rightarrow> int list \<Rightarrow> nat \<Rightarrow> int \<Rightarrow> int option" where
  "kmp_fall at next i k =
     (if 0 < k \<and> at i \<noteq> at (nat (k - 1)) then kmp_fall at next i (next ! nat (k - 1) + 1) else Some k)"

fun kmp_fill :: "(nat \<Rightarrow> 'a) \<Rightarrow> nat list \<Rightarrow> int list \<Rightarrow> int list option" where
  "kmp_fill at [] next = Some next"
| "kmp_fill at (i # is) next =
     (case kmp_fall at next i (next ! i + 1) of
        None \<Rightarrow> None
      | Some k \<Rightarrow> kmp_fill at is (next[i + 1 := k]))"

definition kmp_prepare :: "(nat \<Rightarrow> 'a) \<Rightarrow> nat \<Rightarrow> int list \<Rightarrow> int list option" where
  "kmp_prepare at m next =
     (if next ! 0 > - 100 then Some next else kmp_fill at [0..<m] (next[0 := - 1]))"

partial_function (option) kmp_back :: "(nat \<Rightarrow> 'a) \<Rightarrow> int list \<Rightarrow> 'a \<Rightarrow> int \<Rightarrow> int option" where
  "kmp_back at next c pos =
     (if 0 \<le> pos \<and> at (nat pos) \<noteq> c then kmp_back at next c (next ! nat pos) else Some pos)"

subsection \<open>Borders and matching prefixes\<close>

text \<open>\<open>suf at xs k\<close>: the first \<open>k\<close> symbols of the pattern end the text \<open>xs\<close>.\<close>

definition suf :: "(nat \<Rightarrow> 'a) \<Rightarrow> 'a list \<Rightarrow> nat \<Rightarrow> bool" where
  "suf at xs k \<longleftrightarrow> k \<le> length xs \<and> (\<forall>i<k. xs ! (length xs - k + i) = at i)"

definition border :: "(nat \<Rightarrow> 'a) \<Rightarrow> nat \<Rightarrow> nat \<Rightarrow> bool" where
  "border at j b \<longleftrightarrow> b < j \<and> (\<forall>i<b. at (j - b + i) = at i)"

definition longest :: "(nat \<Rightarrow> bool) \<Rightarrow> nat \<Rightarrow> bool" where
  "longest P b \<longleftrightarrow> P b \<and> (\<forall>k. P k \<longrightarrow> k \<le> b)"

definition table_entry :: "(nat \<Rightarrow> 'a) \<Rightarrow> int list \<Rightarrow> nat \<Rightarrow> bool" where
  "table_entry at next j \<longleftrightarrow>
     (if j = 0 then next ! 0 = - 1 else \<exists>b. next ! j = int b \<and> longest (border at j) b)"

lemma suf_0 [simp]: "suf at xs 0"
  by (simp add: suf_def)

lemma suf_snoc: "suf at (xs @ [c]) (Suc k) \<longleftrightarrow> suf at xs k \<and> at k = c"
proof -
  have "(\<forall>i<Suc k. (xs @ [c]) ! (length xs - k + i) = at i) \<longleftrightarrow>
      (\<forall>i<k. xs ! (length xs - k + i) = at i) \<and> c = at k" if "k \<le> length xs"
    using that by (auto simp: nth_append less_Suc_eq)
  then show ?thesis by (auto simp: suf_def)
qed

lemma suf_border:
  assumes "suf at xs k" "b < k"
  shows "suf at xs b \<longleftrightarrow> border at k b"
proof -
  have "xs ! (length xs - b + i) = at (k - b + i)" if "i < b" for i
  proof -
    have "k - b + i < k" using assms that by linarith
    then have "xs ! (length xs - k + (k - b + i)) = at (k - b + i)"
      using assms(1) unfolding suf_def by blast
    moreover have "length xs - k + (k - b + i) = length xs - b + i"
      using assms by (simp add: suf_def)
    ultimately show ?thesis by simp
  qed
  then show ?thesis using assms by (auto simp: suf_def border_def)
qed

text \<open>The borders of \<open>i + 1\<close> symbols extend the borders of \<open>i\<close> symbols.\<close>

lemma border_suf: "border at j b \<longleftrightarrow> b < j \<and> suf at (map at [0..<j]) b"
  by (auto simp: border_def suf_def)

lemma border_Suc: "border at (Suc j) (Suc b) \<longleftrightarrow> border at j b \<and> at b = at j"
  using suf_snoc [of at "map at [0..<j]" "at j" b] by (auto simp: border_suf)

lemma border_border:
  "border at j k \<Longrightarrow> b < k \<Longrightarrow> border at j b \<longleftrightarrow> border at k b"
  using suf_border [of at "map at [0..<j]" k b] by (auto simp: border_suf)

lemma longest_border_0: "longest (border at 1) 0"
  by (auto simp: longest_def border_def)

lemma kmp_fall_longest:
  assumes table: "\<And>j. j \<le> i \<Longrightarrow> table_entry at next j"
    and "k > 0 \<Longrightarrow> border at i (k - 1)" "\<And>b. border at i b \<Longrightarrow> at b = at i \<Longrightarrow> b < k"
  shows "\<exists>r. kmp_fall at next i (int k) = Some (int r) \<and> longest (border at (Suc i)) r"
  using assms(2,3)
proof (induction k rule: less_induct)
  case (less k)
  show ?case
  proof (cases "k > 0 \<and> at i \<noteq> at (k - 1)")
    case True
    then obtain q where q: "k = Suc q" by (cases k) auto
    have bq: "border at i q" and neq: "at q \<noteq> at i" using True q less.prems(1) by auto
    then have "q < i" by (simp add: border_def)
    have entry: "table_entry at next q" by (rule table) (use \<open>q < i\<close> in simp)
    have unfold: "kmp_fall at next i (int k) = kmp_fall at next i (next ! q + 1)"
      using neq q by (subst kmp_fall.simps) auto
    have smaller: "b < q" if "border at i b" "at b = at i" for b
      using less.prems(2) [OF that] that neq q by (cases "b = q") auto
    show ?thesis
    proof (cases q)
      case 0
      with entry unfold have "kmp_fall at next i (int k) = kmp_fall at next i (int 0)"
        by (simp add: table_entry_def)
      then show ?thesis using less.IH [of 0] smaller q 0 by auto
    next
      case (Suc q')
      with entry obtain b0 where b0: "next ! q = int b0" "longest (border at q) b0"
        by (auto simp: table_entry_def)
      then have lt: "b0 < q" by (simp add: longest_def border_def)
      have "border at i b0" using b0(2) lt border_border [OF bq lt] by (simp add: longest_def)
      moreover have "b < Suc b0" if "border at i b" "at b = at i" for b
        using smaller [OF that] border_border [OF bq, of b] that b0(2) by (auto simp: longest_def less_Suc_eq_le)
      moreover have "kmp_fall at next i (int k) = kmp_fall at next i (int (Suc b0))"
        using unfold b0(1) by (simp add: add.commute)
      ultimately show ?thesis using less.IH [of "Suc b0"] lt q by auto
    qed
  next
    case False
    then have "kmp_fall at next i (int k) = Some (int k)"
      by (subst kmp_fall.simps) (auto simp: nat_diff_distrib')
    moreover have "longest (border at (Suc i)) k"
    proof (cases k)
      case 0
      have "b \<le> 0" if "border at (Suc i) b" for b
        using that less.prems(2) [of "b - 1"] 0 by (cases b) (auto simp: border_Suc)
      moreover have "border at (Suc i) 0" by (simp add: border_def)
      ultimately show ?thesis unfolding 0 longest_def by blast
    next
      case (Suc q)
      have "b \<le> Suc q" if "border at (Suc i) b" for b
        using that less.prems(2) [of "b - 1"] Suc by (cases b) (auto simp: border_Suc)
      moreover have "border at (Suc i) (Suc q)"
        using False Suc less.prems(1) by (simp add: border_Suc)
      ultimately show ?thesis unfolding Suc longest_def by blast
    qed
    ultimately show ?thesis by blast
  qed
qed

lemma kmp_fill_table:
  assumes "m < length next" "i \<le> m" "\<And>j. j \<le> i \<Longrightarrow> table_entry at next j"
  shows "\<exists>tab. kmp_fill at [i..<m] next = Some tab \<and> length tab = length next \<and> (\<forall>j\<le>m. table_entry at tab j)"
  using assms
proof (induction "m - i" arbitrary: i "next")
  case 0
  then show ?case by auto
next
  case (Suc d)
  have "\<exists>k. next ! i + 1 = int k \<and> (k > 0 \<longrightarrow> border at i (k - 1)) \<and> (\<forall>b. border at i b \<longrightarrow> at b = at i \<longrightarrow> b < k)"
  proof (cases i)
    case 0
    then show ?thesis using Suc.prems(3) [of 0] by (auto simp: table_entry_def border_def)
  next
    case (Suc i')
    then obtain b where "next ! i = int b" "longest (border at i) b"
      using Suc.prems(3) [of i] by (auto simp: table_entry_def)
    then show ?thesis by (intro exI [of _ "Suc b"]) (auto simp: longest_def less_Suc_eq_le)
  qed
  then obtain k where k: "next ! i + 1 = int k" "k > 0 \<Longrightarrow> border at i (k - 1)"
      "\<And>b. border at i b \<Longrightarrow> at b = at i \<Longrightarrow> b < k" by blast
  obtain r where r: "kmp_fall at next i (int k) = Some (int r)" "longest (border at (Suc i)) r"
    using kmp_fall_longest [of i at "next" k] Suc.prems(3) k by blast
  let ?next = "next[i + 1 := int r]"
  have "table_entry at ?next j" if "j \<le> Suc i" for j
    using that r(2) Suc.prems(1) Suc.prems(3) [of j] Suc.hyps(2)
    by (cases "j = Suc i") (auto simp: table_entry_def)
  then have "\<exists>tab. kmp_fill at [Suc i..<m] ?next = Some tab \<and> length tab = length ?next \<and> (\<forall>j\<le>m. table_entry at tab j)"
    using Suc.hyps Suc.prems by (intro Suc.hyps(1)) auto
  moreover have "[i..<m] = i # [Suc i..<m]" using Suc.hyps(2) by (simp add: upt_conv_Cons)
  ultimately show ?case using k(1) r(1) by simp
qed

subsection \<open>The contract between table and search\<close>

locale border_table =
  fixes at :: "nat \<Rightarrow> 'a" and m :: nat and tab :: "int list"
  assumes entries: "j \<le> m \<Longrightarrow> table_entry at tab j"
begin

text \<open>The state of a search that has read \<open>xs\<close> without a match.\<close>

definition matched :: "'a list \<Rightarrow> nat \<Rightarrow> bool" where
  "matched xs k \<longleftrightarrow> longest (\<lambda>k. k \<le> m \<and> suf at xs k) k"

lemma matched_Nil: "matched [] 0"
  by (auto simp: matched_def longest_def suf_def)

lemma kmp_back_matched:
  assumes "k < m" "suf at xs k" "\<And>b. b < m \<Longrightarrow> suf at xs b \<Longrightarrow> at b = c \<Longrightarrow> b \<le> k"
  shows "\<exists>pos. kmp_back at tab c (int k) = Some pos \<and> - 1 \<le> pos \<and> matched (xs @ [c]) (nat (pos + 1))"
  using assms
proof (induction k rule: less_induct)
  case (less k)
  have low: "b \<le> r" if "\<And>b. b < m \<Longrightarrow> suf at xs b \<Longrightarrow> at b = c \<Longrightarrow> b < r" "b \<le> m" "suf at (xs @ [c]) b" for b r
    using that by (cases b) (auto simp: suf_snoc Suc_le_eq)
  show ?case
  proof (cases "at k = c")
    case True
    then have "kmp_back at tab c (int k) = Some (int k)" by (subst kmp_back.simps) simp
    moreover have "matched (xs @ [c]) (Suc k)"
      using less.prems True low [of "Suc k"]
      by (auto simp: matched_def longest_def suf_snoc less_Suc_eq_le)
    ultimately show ?thesis by (intro exI [of _ "int k"]) (simp add: nat_add_distrib)
  next
    case False
    then have unfold: "kmp_back at tab c (int k) = kmp_back at tab c (tab ! k)"
      by (subst kmp_back.simps) simp
    have smaller: "b < k" if "b < m" "suf at xs b" "at b = c" for b
      using less.prems(3) [OF that] that(3) False by (cases "b = k") auto
    show ?thesis
    proof (cases k)
      case 0
      then have "kmp_back at tab c (int k) = Some (- 1)"
        using unfold entries [of 0] by (subst (asm) (2) kmp_back.simps) (simp add: table_entry_def)
      moreover have "matched (xs @ [c]) 0"
        using smaller low [of 0] 0 by (auto simp: matched_def longest_def)
      ultimately show ?thesis by auto
    next
      case (Suc k')
      then obtain b0 where b0: "tab ! k = int b0" "longest (border at k) b0"
        using entries [of k] less.prems(1) by (auto simp: table_entry_def)
      then have lt: "b0 < k" by (simp add: longest_def border_def)
      have "suf at xs b0" using b0(2) suf_border [OF less.prems(2) lt] by (simp add: longest_def)
      moreover have "b \<le> b0" if "b < m" "suf at xs b" "at b = c" for b
        using smaller [OF that] suf_border [OF less.prems(2), of b] that(2) b0(2) by (simp add: longest_def)
      ultimately show ?thesis
        using less.IH [OF lt] less.prems(1) lt unfold b0(1) by simp
    qed
  qed
qed

lemma kmp_back_step:
  assumes "matched xs k" "k < m"
  shows "\<exists>pos. kmp_back at tab c (int k) = Some pos \<and> - 1 \<le> pos \<and> matched (xs @ [c]) (nat (pos + 1))"
  using assms by (intro kmp_back_matched) (auto simp: matched_def longest_def)

lemma matched_full: "matched xs k \<Longrightarrow> k = m \<longleftrightarrow> suf at xs m"
  by (auto simp: matched_def longest_def le_antisym)

lemma matched_le: "matched xs k \<Longrightarrow> k \<le> m"
  by (simp add: matched_def longest_def)

end

text \<open>The table of a matcher: allocated with one entry more than the pattern has bytes,
  entry 0 marking it as not yet computed, then filled by the first search. The other
  entries are written before they are read, so that their first value is arbitrary.\<close>

definition kmp_fresh :: "nat \<Rightarrow> int list" where
  "kmp_fresh bytes = - 100 # replicate bytes 0"

definition kmp_table :: "(nat \<Rightarrow> 'a) \<Rightarrow> nat \<Rightarrow> nat \<Rightarrow> int list" where
  "kmp_table at m bytes = the (kmp_prepare at m (kmp_fresh bytes))"

lemma kmp_fresh_prepare:
  assumes "m \<le> bytes"
  shows "kmp_prepare at m (kmp_fresh bytes) = Some (kmp_table at m bytes) \<and>
    length (kmp_table at m bytes) = Suc bytes \<and> (\<forall>j\<le>m. table_entry at (kmp_table at m bytes) j)"
proof -
  have "\<exists>tab. kmp_fill at [0..<m] ((kmp_fresh bytes)[0 := - 1]) = Some tab \<and>
      length tab = length ((kmp_fresh bytes)[0 := - 1]) \<and> (\<forall>j\<le>m. table_entry at tab j)"
    using assms by (intro kmp_fill_table) (auto simp: table_entry_def kmp_fresh_def)
  then show ?thesis by (auto simp: kmp_table_def kmp_prepare_def kmp_fresh_def)
qed

interpretation kt: border_table at m "kmp_table at m (m + extra)" for at m extra
  by unfold_locales (simp add: kmp_fresh_prepare)

lemma kmp_prepare_done: "m \<le> bytes \<Longrightarrow> kmp_prepare at' m' (kmp_table at m bytes) = Some (kmp_table at m bytes)"
  using kmp_fresh_prepare [of m bytes at] by (auto simp: kmp_prepare_def table_entry_def)

subsection \<open>The search loop\<close>

text \<open>One loop serves the four searches: \<open>read\<close> yields the offset behind a symbol and the
  symbol, \<open>inside\<close> is the loop test. The result is the offset behind the match, if
  there is one, and the last value of \<open>pattern_pos_\<close>.\<close>

partial_function (option) kmp_scan ::
  "(nat \<Rightarrow> 'a) \<Rightarrow> int list \<Rightarrow> nat \<Rightarrow> (nat \<Rightarrow> nat \<times> 'a) \<Rightarrow> (nat \<Rightarrow> bool) \<Rightarrow> nat \<Rightarrow> int \<Rightarrow> (nat option \<times> int) option" where
  "kmp_scan at tab m read inside current pos =
     (if inside current then
        Option.bind (kmp_back at tab (snd (read current)) pos) (\<lambda>pos.
          if pos + 1 = int m then Some (Some (fst (read current)), pos + 1)
          else kmp_scan at tab m read inside (fst (read current)) (pos + 1))
      else Some (None, pos))"

context border_table
begin

lemma kmp_scan_found:
  assumes walk: "\<And>k. k < K \<Longrightarrow> inside (off k) \<and> read (off k) = (off (Suc k), smb k)" "\<not> inside (off K)"
    and st: "matched (map smb [0..<j]) q" "q < m" "j \<le> K"
  shows "\<exists>pos. kmp_scan at tab m read inside (off j) (int q) =
    Some (map_option off (find (\<lambda>k. suf at (map smb [0..<k]) m) [Suc j..<Suc K]), pos)"
  using st
proof (induction "K - j" arbitrary: j q)
  case 0
  then show ?case using walk(2) by (subst kmp_scan.simps) (simp del: upt_Suc)
next
  case (Suc d)
  then have j: "j < K" by simp
  obtain pos where pos: "kmp_back at tab (smb j) (int q) = Some pos" "- 1 \<le> pos"
      "matched (map smb [0..<j] @ [smb j]) (nat (pos + 1))"
    using kmp_back_step [OF Suc.prems(1,2), of "smb j"] by blast
  have m': "matched (map smb [0..<Suc j]) (nat (pos + 1))" using pos(3) by simp
  have full: "pos + 1 = int m \<longleftrightarrow> suf at (map smb [0..<Suc j]) m"
  proof -
    have "pos + 1 = int m \<longleftrightarrow> nat (pos + 1) = m" using pos(2) by linarith
    then show ?thesis using matched_full [OF m'] by blast
  qed
  have upt: "[Suc j..<Suc K] = Suc j # [Suc (Suc j)..<Suc K]" using j by (simp add: upt_conv_Cons del: upt_Suc)
  have unf: "kmp_scan at tab m read inside (off j) (int q) =
      (if pos + 1 = int m then Some (Some (off (Suc j)), pos + 1)
       else kmp_scan at tab m read inside (off (Suc j)) (pos + 1))"
    using walk(1) [OF j] pos(1) by (subst kmp_scan.simps) simp
  show ?case
  proof (cases "pos + 1 = int m")
    case True
    then show ?thesis using full unf upt by (simp del: upt_Suc)
  next
    case False
    then have "nat (pos + 1) < m" using matched_le [OF m'] pos(2) by linarith
    then have "\<exists>p. kmp_scan at tab m read inside (off (Suc j)) (int (nat (pos + 1))) =
        Some (map_option off (find (\<lambda>k. suf at (map smb [0..<k]) m) [Suc (Suc j)..<Suc K]), p)"
      using Suc.hyps Suc.prems j m' by (intro Suc.hyps(1)) (simp_all del: upt_Suc)
    then show ?thesis using False full unf upt pos(2) by (simp del: upt_Suc)
  qed
qed

lemma kmp_scan_start:
  assumes "\<And>k. k < K \<Longrightarrow> inside (off k) \<and> read (off k) = (off (Suc k), smb k)" "\<not> inside (off K)" "0 < m"
  shows "\<exists>pos. kmp_scan at tab m read inside (off 0) 0 =
    Some (map_option off (find (\<lambda>k. suf at (map smb [0..<k]) m) [1..<Suc K]), pos)"
  using kmp_scan_found [where K = K and inside = inside and off = off and read = read and smb = smb and j = 0 and q = 0]
    assms matched_Nil by simp

end

end
