(* ===== verification/Byte_Search.thy ===== *)
theory Byte_Search
  imports Utf8_View Kmp
begin

text \<open>
  The fixed-pattern matcher (\<^verbatim>\<open>src/shared/byte_search_matcher.h\<close>): choice of the
  strategy, searching from a position, the first, next and last match, and the
  range of the current match.

  \<open>u_toupper\<close> is ICU's case mapping and stays a parameter. Searches return
  \<open>option\<close> because they run the loops of theory Kmp; the lemmas show that they
  return, and that every strategy finds the first occurrence.
\<close>

subsection \<open>State and construction\<close>

datatype search_strategy = Kmp | Kmp_case_insensitive | Single_byte | Short_pattern

record byte_search_matcher =
  bm_strategy :: search_strategy
  bm_overlap :: bool
  search_pos :: int
  search_end :: int
  bm_search :: cptr
  search_length :: int
  pattern_length :: int
  bm_pattern :: cptr
  kmp_next :: "int list"
  pattern_pos :: int
  folded_pattern :: "int list"

definition not_found :: int where "not_found = - 1"

function fold_codepoints :: "(int \<Rightarrow> int) \<Rightarrow> byte list \<Rightarrow> nat \<Rightarrow> nat \<Rightarrow> int list" where
  "fold_codepoints toupper s n position =
     (if position < n then
        toupper (snd (U8_NEXT s position n)) # fold_codepoints toupper s n (fst (U8_NEXT s position n))
      else [])"
  by pat_completeness auto
termination
  by (relation "measure (\<lambda>(toupper, s, n, position). n - position)")
    (auto simp: U8_NEXT_fst U8_FWD_1_gt diff_less_mono2)

declare fold_codepoints.simps [simp del]

definition choose_strategy :: "int \<Rightarrow> bool \<Rightarrow> search_strategy" where
  "choose_strategy len case_insensitive =
     (if case_insensitive then Kmp_case_insensitive
      else if len = 1 then Single_byte
      else if len < 16 then Short_pattern
      else Kmp)"

definition ByteSearchMatcher ::
  "(int \<Rightarrow> int) \<Rightarrow> cptr \<Rightarrow> int \<Rightarrow> bool \<Rightarrow> bool \<Rightarrow> byte_search_matcher result" where
  "ByteSearchMatcher toupper pattern len overlap case_insensitive =
     (if pattern = NullPtr \<or> len < 0 then Inl (Invalid_argument ''ByteSearchMatcher: invalid pattern'')
      else
        let strategy = choose_strategy len case_insensitive
        in Inr \<lparr>bm_strategy = strategy, bm_overlap = overlap, search_pos = - 1, search_end = - 1,
             bm_search = NullPtr, search_length = 0, pattern_length = len, bm_pattern = pattern,
             kmp_next = (if strategy = Kmp \<or> strategy = Kmp_case_insensitive
                         then kmp_fresh (nat len) else []),
             pattern_pos = - 1,
             folded_pattern = (if strategy = Kmp_case_insensitive
                               then fold_codepoints toupper (ptr_bytes pattern) (nat len) 0 else [])\<rparr>)"

definition matcher_reset :: "byte_search_matcher \<Rightarrow> cptr \<Rightarrow> int \<Rightarrow> byte_search_matcher result" where
  "matcher_reset bm search len =
     (if search = NullPtr \<or> len < 0 then Inl (Invalid_argument ''ByteSearchMatcher: invalid subject'')
      else Inr (bm\<lparr>bm_search := search, search_length := len, search_pos := - 1, search_end := - 1,
                  pattern_pos := - 1\<rparr>))"

subsection \<open>Searching from a position\<close>

text \<open>The two ends every search can have.\<close>

definition no_match :: "byte_search_matcher \<Rightarrow> byte_search_matcher \<times> int" where
  "no_match bm = (bm\<lparr>search_pos := search_length bm, search_end := search_length bm\<rparr>, not_found)"

definition match_at :: "byte_search_matcher \<Rightarrow> nat \<Rightarrow> nat \<Rightarrow> byte_search_matcher \<times> int" where
  "match_at bm start stop = (bm\<lparr>search_pos := int start, search_end := int stop\<rparr>, int start)"

definition find_from_pos_kmp :: "byte_search_matcher \<Rightarrow> nat \<Rightarrow> (byte_search_matcher \<times> int) option" where
  "find_from_pos_kmp bm start =
     (let s = ptr_bytes (bm_search bm); n = nat (search_length bm);
          m = nat (pattern_length bm); P = ptr_bytes (bm_pattern bm)
      in Option.bind (kmp_scan (nth P) (kmp_next bm) m (\<lambda>i. (i + 1, s ! i)) (\<lambda>i. i < n) start 0) (\<lambda>(found, pos).
         let bm = bm\<lparr>pattern_pos := pos\<rparr>
         in case found of
              Some current \<Rightarrow> Some (match_at bm (current - m) current)
            | None \<Rightarrow> Some (no_match bm)))"

definition find_from_pos_kmp_case_insensitive ::
  "(int \<Rightarrow> int) \<Rightarrow> byte_search_matcher \<Rightarrow> nat \<Rightarrow> (byte_search_matcher \<times> int) option" where
  "find_from_pos_kmp_case_insensitive toupper bm start =
     (let s = ptr_bytes (bm_search bm); n = nat (search_length bm);
          F = folded_pattern bm; m = length F
      in Option.bind (kmp_scan (nth F) (kmp_next bm) m
             (\<lambda>i. (fst (U8_NEXT s i n), toupper (snd (U8_NEXT s i n)))) (\<lambda>i. i < n) start 0) (\<lambda>(found, pos).
         let bm = bm\<lparr>pattern_pos := pos\<rparr>
         in case found of
              Some current \<Rightarrow> Some (match_at bm ((U8_BACK_1 s 0 ^^ m) current) current)
            | None \<Rightarrow> Some (no_match bm)))"

text \<open>\<open>memchr (s + start, c, count)\<close>, as an index, and \<open>memcmp (a, b, count) == 0\<close>.\<close>

definition memchr :: "byte list \<Rightarrow> nat \<Rightarrow> byte \<Rightarrow> nat \<Rightarrow> nat option" where
  "memchr s start c count = find (\<lambda>i. s ! i = c) [start..<start + count]"

definition memcmp_eq :: "byte list \<Rightarrow> byte list \<Rightarrow> nat \<Rightarrow> bool" where
  "memcmp_eq a b count \<longleftrightarrow> take count a = take count b"

definition find_from_pos_single_byte :: "byte_search_matcher \<Rightarrow> nat \<Rightarrow> byte_search_matcher \<times> int" where
  "find_from_pos_single_byte bm start =
     (if search_length bm - pattern_length bm < int start then no_match bm
      else case memchr (ptr_bytes (bm_search bm)) start (ptr_bytes (bm_pattern bm) ! 0)
                  (nat (search_length bm - int start)) of
             None \<Rightarrow> no_match bm
           | Some i \<Rightarrow> match_at bm i (i + 1))"

function short_scan :: "byte list \<Rightarrow> nat \<Rightarrow> byte list \<Rightarrow> nat \<Rightarrow> nat \<Rightarrow> nat option" where
  "short_scan P m s last_position current =
     (if current \<le> last_position then
        (case memchr s current (P ! 0) (last_position - current + 1) of
           None \<Rightarrow> None
         | Some candidate \<Rightarrow>
             if memcmp_eq (drop (candidate + 1) s) (drop 1 P) (m - 1) then Some candidate
             else short_scan P m s last_position (candidate + 1))
      else None)"
  by pat_completeness auto
termination
  by (relation "measure (\<lambda>(P, m, s, last_position, current). Suc last_position - current)")
    (auto simp: memchr_def find_upt_Some simp del: upt_Suc)

declare short_scan.simps [simp del]

definition find_from_pos_short :: "byte_search_matcher \<Rightarrow> nat \<Rightarrow> byte_search_matcher \<times> int" where
  "find_from_pos_short bm start =
     (if pattern_length bm \<le> 0 \<or> search_length bm - pattern_length bm < int start then no_match bm
      else case short_scan (ptr_bytes (bm_pattern bm)) (nat (pattern_length bm)) (ptr_bytes (bm_search bm))
                  (nat (search_length bm - pattern_length bm)) start of
             None \<Rightarrow> no_match bm
           | Some i \<Rightarrow> match_at bm i (i + nat (pattern_length bm)))"

definition find_from_pos ::
  "(int \<Rightarrow> int) \<Rightarrow> byte_search_matcher \<Rightarrow> nat \<Rightarrow> (byte_search_matcher \<times> int) option" where
  "find_from_pos toupper bm start =
     (case bm_strategy bm of
        Kmp \<Rightarrow> find_from_pos_kmp bm start
      | Kmp_case_insensitive \<Rightarrow> find_from_pos_kmp_case_insensitive toupper bm start
      | Single_byte \<Rightarrow> Some (find_from_pos_single_byte bm start)
      | Short_pattern \<Rightarrow> Some (find_from_pos_short bm start))"

subsection \<open>First, next and last match\<close>

definition prepare_kmp_forward :: "byte_search_matcher \<Rightarrow> byte_search_matcher option" where
  "prepare_kmp_forward bm =
     map_option (\<lambda>tab. bm\<lparr>kmp_next := tab\<rparr>)
       (kmp_prepare (nth (ptr_bytes (bm_pattern bm))) (nat (pattern_length bm)) (kmp_next bm))"

definition prepare_folded_kmp_forward :: "byte_search_matcher \<Rightarrow> byte_search_matcher option" where
  "prepare_folded_kmp_forward bm =
     map_option (\<lambda>tab. bm\<lparr>kmp_next := tab\<rparr>)
       (kmp_prepare (nth (folded_pattern bm)) (length (folded_pattern bm)) (kmp_next bm))"

definition find_first_kmp :: "byte_search_matcher \<Rightarrow> (byte_search_matcher \<times> int) option" where
  "find_first_kmp bm = Option.bind (prepare_kmp_forward bm) (\<lambda>bm. find_from_pos_kmp bm 0)"

definition find_first_kmp_case_insensitive ::
  "(int \<Rightarrow> int) \<Rightarrow> byte_search_matcher \<Rightarrow> (byte_search_matcher \<times> int) option" where
  "find_first_kmp_case_insensitive toupper bm =
     Option.bind (prepare_folded_kmp_forward bm) (\<lambda>bm. find_from_pos_kmp_case_insensitive toupper bm 0)"

definition find_last_kmp :: "byte_search_matcher \<Rightarrow> (byte_search_matcher \<times> int) option" where
  "find_last_kmp bm =
     (let s = ptr_bytes (bm_search bm); P = ptr_bytes (bm_pattern bm); m = nat (pattern_length bm);
          at = (\<lambda>i. P ! (m - 1 - i))
      in Option.bind (kmp_prepare at m (kmp_next bm)) (\<lambda>tab.
         let bm = bm\<lparr>kmp_next := tab\<rparr>
         in Option.bind (kmp_scan at tab m (\<lambda>i. (i - 1, s ! (i - 1))) (\<lambda>i. 0 < i) (nat (search_length bm)) 0)
           (\<lambda>(found, pos).
            let bm = bm\<lparr>pattern_pos := pos\<rparr>
            in case found of
                 Some current \<Rightarrow> Some (match_at bm current (current + m))
               | None \<Rightarrow> Some (no_match bm))))"

definition find_last_kmp_case_insensitive ::
  "(int \<Rightarrow> int) \<Rightarrow> byte_search_matcher \<Rightarrow> (byte_search_matcher \<times> int) option" where
  "find_last_kmp_case_insensitive toupper bm =
     (let s = ptr_bytes (bm_search bm); n = nat (search_length bm); F = folded_pattern bm; m = length F;
          at = (\<lambda>i. F ! (m - 1 - i))
      in Option.bind (kmp_prepare at m (kmp_next bm)) (\<lambda>tab.
         let bm = bm\<lparr>kmp_next := tab\<rparr>
         in Option.bind (kmp_scan at tab m
               (\<lambda>i. (fst (U8_PREV s 0 i), toupper (snd (U8_PREV s 0 i)))) (\<lambda>i. 0 < i) n 0) (\<lambda>(found, pos).
            let bm = bm\<lparr>pattern_pos := pos\<rparr>
            in case found of
                 Some current \<Rightarrow> Some (match_at bm current (((\<lambda>i. U8_FWD_1 s i n) ^^ m) current))
               | None \<Rightarrow> Some (no_match bm))))"

text \<open>\<open>for (search_pos_ = from; search_pos_ >= 0; --search_pos_)\<close> with a test; the offset
  counts one more than \<open>search_pos_\<close>.\<close>

fun scan_down :: "(nat \<Rightarrow> bool) \<Rightarrow> nat \<Rightarrow> nat option" where
  "scan_down hit 0 = None"
| "scan_down hit (Suc i) = (if hit i then Some i else scan_down hit i)"

definition find_last_single_byte :: "byte_search_matcher \<Rightarrow> byte_search_matcher \<times> int" where
  "find_last_single_byte bm =
     (if search_length bm < pattern_length bm then no_match bm
      else case scan_down (\<lambda>i. ptr_bytes (bm_pattern bm) ! 0 = ptr_bytes (bm_search bm) ! i)
                  (nat (search_length bm)) of
             None \<Rightarrow> no_match bm
           | Some i \<Rightarrow> match_at bm i (i + 1))"

definition find_last_short :: "byte_search_matcher \<Rightarrow> byte_search_matcher \<times> int" where
  "find_last_short bm =
     (if pattern_length bm \<le> 0 then no_match bm
      else case scan_down (\<lambda>i. memcmp_eq (drop i (ptr_bytes (bm_search bm))) (ptr_bytes (bm_pattern bm))
                    (nat (pattern_length bm)))
                  (nat (search_length bm - pattern_length bm + 1)) of
             None \<Rightarrow> no_match bm
           | Some i \<Rightarrow> match_at bm i (i + nat (pattern_length bm)))"

definition find_first :: "(int \<Rightarrow> int) \<Rightarrow> byte_search_matcher \<Rightarrow> (byte_search_matcher \<times> int) option" where
  "find_first toupper bm =
     (case bm_strategy bm of
        Kmp \<Rightarrow> find_first_kmp bm
      | Kmp_case_insensitive \<Rightarrow> find_first_kmp_case_insensitive toupper bm
      | Single_byte \<Rightarrow> Some (find_from_pos_single_byte bm 0)
      | Short_pattern \<Rightarrow> Some (find_from_pos_short bm 0))"

definition find_last :: "(int \<Rightarrow> int) \<Rightarrow> byte_search_matcher \<Rightarrow> (byte_search_matcher \<times> int) option" where
  "find_last toupper bm =
     (case bm_strategy bm of
        Kmp \<Rightarrow> find_last_kmp bm
      | Kmp_case_insensitive \<Rightarrow> find_last_kmp_case_insensitive toupper bm
      | Single_byte \<Rightarrow> Some (find_last_single_byte bm)
      | Short_pattern \<Rightarrow> Some (find_last_short bm))"

definition find_next :: "(int \<Rightarrow> int) \<Rightarrow> byte_search_matcher \<Rightarrow> (byte_search_matcher \<times> int) option" where
  "find_next toupper bm =
     (if search_pos bm < 0 then find_first toupper bm
      else if \<not> bm_overlap bm then find_from_pos toupper bm (nat (search_end bm))
      else find_from_pos toupper bm
        (U8_FWD_1 (ptr_bytes (bm_search bm)) (nat (search_pos bm)) (nat (search_length bm))))"

definition matched_start :: "byte_search_matcher \<Rightarrow> int result" where
  "matched_start bm =
     (if bm_search bm = NullPtr \<or> bm_pattern bm = NullPtr then
        Inl (Logic_error ''ByteSearchMatcher: reset() has not been called'')
      else if search_pos bm < 0 \<or> search_end bm \<le> search_pos bm \<or> search_length bm \<le> search_pos bm \<or>
          search_length bm < search_end bm then
        Inl (Logic_error ''ByteSearchMatcher: no match at the current position'')
      else Inr (search_pos bm))"

definition matched_length :: "byte_search_matcher \<Rightarrow> int result" where
  "matched_length bm = bindE (matched_start bm) (\<lambda>_. Inr (search_end bm - search_pos bm))"

subsection \<open>Occurrences\<close>

text \<open>The reference: pattern \<open>F\<close> occurs in \<open>L\<close> at index \<open>i\<close>; the first index from
  \<open>start\<close> on, and the last.\<close>

definition occ :: "'a list \<Rightarrow> 'a list \<Rightarrow> nat \<Rightarrow> bool" where
  "occ F L i \<longleftrightarrow> take (length F) (drop i L) = F"

definition first_occ :: "'a list \<Rightarrow> 'a list \<Rightarrow> nat \<Rightarrow> nat option" where
  "first_occ F L start = find (occ F L) [start..<length L]"

definition last_occ :: "'a list \<Rightarrow> 'a list \<Rightarrow> nat option" where
  "last_occ F L = scan_down (occ F L) (length L)"

lemma occ_iff:
  assumes "F \<noteq> []"
  shows "occ F L i \<longleftrightarrow> i + length F \<le> length L \<and> (\<forall>j<length F. L ! (i + j) = F ! j)"
proof
  assume o: "occ F L i"
  then have "length (take (length F) (drop i L)) = length F" by (simp add: occ_def)
  then have len: "i + length F \<le> length L" using assms by (cases "i \<le> length L") auto
  have "L ! (i + j) = F ! j" if "j < length F" for j
    using o that len unfolding occ_def by (metis le_add1 nth_drop nth_take order_trans)
  with len show "i + length F \<le> length L \<and> (\<forall>j<length F. L ! (i + j) = F ! j)" by blast
next
  assume "i + length F \<le> length L \<and> (\<forall>j<length F. L ! (i + j) = F ! j)"
  then show "occ F L i" unfolding occ_def by (intro nth_equalityI) auto
qed

lemma occ_bound: "F \<noteq> [] \<Longrightarrow> occ F L i \<Longrightarrow> i + length F \<le> length L \<and> i < length L"
  using occ_iff [of F L i] by (cases F) auto

lemma occ_drop: "occ F (drop a L) i \<longleftrightarrow> occ F L (a + i)"
  by (simp add: occ_def add.commute)

lemma occ_rev:
  assumes "F \<noteq> []" "i + length F \<le> length L"
  shows "occ (rev F) (rev L) i \<longleftrightarrow> occ F L (length L - (i + length F))"
proof -
  define A B C where "A = take (length L - (i + length F)) L"
    and "B = take (length F) (drop (length L - (i + length F)) L)" and "C = drop (length L - i) L"
  have "length L - i = length F + (length L - (i + length F))" using assms(2) by simp
  then have "C = drop (length F) (drop (length L - (i + length F)) L)" unfolding C_def by simp
  then have L: "L = A @ B @ C" unfolding A_def B_def by (simp only: append_take_drop_id)
  have len: "length B = length F" "length C = i" using assms(2) by (simp_all add: B_def C_def)
  have "take (length F) (drop i (rev L)) = rev B" unfolding L using len by simp
  then show ?thesis by (simp add: occ_def B_def)
qed

lemma scan_down_Some:
  "scan_down P n = Some i \<longleftrightarrow> i < n \<and> P i \<and> (\<forall>j. i < j \<and> j < n \<longrightarrow> \<not> P j)"
  by (induction n) (auto simp: less_Suc_eq)

lemma scan_down_None: "scan_down P n = None \<longleftrightarrow> (\<forall>j<n. \<not> P j)"
  by (induction n) (auto simp: less_Suc_eq)

lemma scan_down_cong:
  assumes "\<And>i. i < k \<Longrightarrow> Q i \<longleftrightarrow> R i" "\<And>i. k \<le> i \<Longrightarrow> i < n \<Longrightarrow> \<not> R i" "k \<le> n"
  shows "scan_down Q k = scan_down R n"
proof -
  have "scan_down R (k + d) = scan_down R k" if "k + d \<le> n" for d
    using that assms(2) by (induction d) auto
  from this [of "n - k"] assms(3) have "scan_down R n = scan_down R k" by simp
  moreover have "j \<le> k \<Longrightarrow> scan_down Q j = scan_down R j" for j
    using assms(1) by (induction j) auto
  ultimately show ?thesis by simp
qed

lemma first_occ_drop: "first_occ F L a = map_option (\<lambda>i. a + i) (first_occ F (drop a L) 0)"
proof (cases "first_occ F (drop a L) 0")
  case None
  then have "\<not> occ F L j" if "a \<le> j" "j < length L" for j
    using that unfolding first_occ_def find_upt_None by (metis add.commute diff_less_mono length_drop nat_le_iff_add occ_drop zero_le add_diff_cancel_left')
  then have "first_occ F L a = None" by (simp add: first_occ_def find_upt_None)
  with None show ?thesis by simp
next
  case (Some i)
  then have "occ F L (a + i)" "a + i < length L" "\<And>j. j < i \<Longrightarrow> \<not> occ F L (a + j)"
    by (auto simp: first_occ_def find_upt_Some occ_drop)
  then have "first_occ F L a = Some (a + i)"
    unfolding first_occ_def find_upt_Some by (auto simp: nat_le_iff_add)
  with Some show ?thesis by simp
qed

lemma last_occ_rev:
  assumes "F \<noteq> []"
  shows "last_occ F L = map_option (\<lambda>i. length L - (i + length F)) (first_occ (rev F) (rev L) 0)"
proof (cases "first_occ (rev F) (rev L) 0")
  case None
  have "\<not> occ F L j" if "j < length L" for j
  proof
    assume o: "occ F L j"
    note b = occ_bound [OF assms o]
    have "occ (rev F) (rev L) (length L - (j + length F))"
      using occ_rev [OF assms, of "length L - (j + length F)" L] b o by simp
    moreover have "length L - (j + length F) < length L" using b assms by (cases F) auto
    ultimately show False using None by (auto simp: first_occ_def find_upt_None)
  qed
  then have "last_occ F L = None" by (simp add: last_occ_def scan_down_None)
  with None show ?thesis by simp
next
  case (Some i)
  then have i: "occ (rev F) (rev L) i" "\<And>j. j < i \<Longrightarrow> \<not> occ (rev F) (rev L) j"
    by (auto simp: first_occ_def find_upt_Some)
  have bound: "i + length F \<le> length L" using occ_bound [OF _ i(1)] assms by simp
  have "\<not> occ F L j" if "length L - (i + length F) < j" for j
  proof
    assume o: "occ F L j"
    note b = occ_bound [OF assms o]
    have "occ (rev F) (rev L) (length L - (j + length F))"
      using occ_rev [OF assms, of "length L - (j + length F)" L] b o by simp
    moreover have "length L - (j + length F) < i" using that b bound by linarith
    ultimately show False using i(2) by blast
  qed
  moreover have "occ F L (length L - (i + length F))" using occ_rev [OF assms bound] i(1) by simp
  ultimately have "last_occ F L = Some (length L - (i + length F))"
    using bound assms by (cases F) (auto simp: last_occ_def scan_down_Some)
  with Some show ?thesis by simp
qed

text \<open>The search loop over a walk that reads the symbols \<open>L\<close> finds the first occurrence.\<close>

lemma kmp_scan_first:
  assumes walk: "\<And>k. k < length L \<Longrightarrow> inside (off k) \<and> read (off k) = (off (Suc k), L ! k)"
    "\<not> inside (off (length L))"
    and at: "\<And>i. i < length F \<Longrightarrow> at i = F ! i" and "F \<noteq> []"
  shows "\<exists>pos. kmp_scan at (kmp_table at (length F) (length F + extra)) (length F) read inside (off 0) 0 =
    Some (map_option (\<lambda>i. off (i + length F)) (first_occ F L 0), pos)"
proof -
  let ?m = "length F"
  have m: "0 < ?m" using assms(4) by simp
  have suf: "suf at (map (nth L) [0..<k]) ?m \<longleftrightarrow> ?m \<le> k \<and> occ F L (k - ?m)" if "k \<le> length L" for k
    using that at unfolding occ_iff [OF assms(4)] suf_def by auto
  have "find (\<lambda>k. suf at (map (nth L) [0..<k]) ?m) [1..<Suc (length L)] = map_option (\<lambda>i. i + ?m) (first_occ F L 0)"
  proof (cases "first_occ F L 0")
    case None
    have "\<not> suf at (map (nth L) [0..<k]) ?m" if "k \<le> length L" for k
      using None suf [OF that] occ_bound [OF assms(4), of L "k - ?m"] by (auto simp: first_occ_def find_upt_None)
    with None show ?thesis by (simp add: find_upt_None del: upt_Suc)
  next
    case (Some i)
    then have i: "occ F L i" "\<And>j. j < i \<Longrightarrow> \<not> occ F L j" by (auto simp: first_occ_def find_upt_Some)
    note b = occ_bound [OF assms(4) i(1)]
    have "\<not> suf at (map (nth L) [0..<k]) ?m" if "k < i + ?m" for k
      using that b i(2) [of "k - ?m"] suf [of k] by auto
    moreover have "1 \<le> i + ?m" using m by linarith
    ultimately show ?thesis using Some i(1) b by (simp add: find_upt_Some suf del: upt_Suc)
  qed
  moreover have "\<exists>pos. kmp_scan at (kmp_table at ?m (?m + extra)) ?m read inside (off 0) 0 =
      Some (map_option off (find (\<lambda>k. suf at (map (nth L) [0..<k]) ?m) [1..<Suc (length L)]), pos)"
    using walk m by (rule kt.kmp_scan_start)
  ultimately show ?thesis by (simp add: option.map_comp comp_def del: upt_Suc)
qed

subsection \<open>Every strategy finds the first occurrence\<close>

text \<open>The text and pattern of a matcher whose buffers can be read.\<close>

definition bm_text :: "byte_search_matcher \<Rightarrow> byte list" where
  "bm_text bm = take (nat (search_length bm)) (ptr_bytes (bm_search bm))"

definition bm_pat :: "byte_search_matcher \<Rightarrow> byte list" where
  "bm_pat bm = take (nat (pattern_length bm)) (ptr_bytes (bm_pattern bm))"

definition bm_ready :: "byte_search_matcher \<Rightarrow> bool" where
  "bm_ready bm \<longleftrightarrow> bm_search bm \<noteq> NullPtr \<and> 0 \<le> search_length bm \<and>
     nat (search_length bm) \<le> length (ptr_bytes (bm_search bm)) \<and>
     bm_pattern bm \<noteq> NullPtr \<and> 0 < pattern_length bm \<and>
     nat (pattern_length bm) \<le> length (ptr_bytes (bm_pattern bm))"

text \<open>The case-folded code points of a byte string.\<close>

definition u8_fold :: "(int \<Rightarrow> int) \<Rightarrow> byte list \<Rightarrow> int list" where
  "u8_fold up s = map (\<lambda>k. up (snd (U8_NEXT s (u8_pos s k) (length s)))) [0..<u8_count s]"

lemma length_u8_fold [simp]: "length (u8_fold up s) = u8_count s"
  by (simp add: u8_fold_def)

lemma u8_pos_step:
  assumes "k < u8_count s"
  shows "u8_pos s k < length s" "U8_FWD_1 s (u8_pos s k) (length s) = u8_pos s (Suc k)"
  using assms unfolding u8_pos_def u8_count_def by (simp_all add: u8f.cp_pos_less_iff u8f.cp_pos_Suc)

lemma fold_codepoints_from:
  assumes "n \<le> length s" "k \<le> u8_count (take n s)"
  shows "fold_codepoints up s n (u8_pos (take n s) k) = drop k (u8_fold up (take n s))"
  using assms(2)
proof (induction "u8_count (take n s) - k" arbitrary: k)
  case 0
  then have "u8_pos (take n s) k = n" using u8_pos_bounds(3) [of "take n s"] assms(1) by simp
  with 0 show ?case by (subst fold_codepoints.simps) simp
next
  case (Suc d)
  let ?t = "take n s"
  have len: "length ?t = n" using assms(1) by simp
  have k: "k < u8_count ?t" using Suc.hyps(2) by simp
  note step = u8_pos_step [OF k, unfolded len]
  have read: "U8_NEXT s (u8_pos ?t k) n = U8_NEXT ?t (u8_pos ?t k) n"
    using step(1) by (simp add: U8_NEXT_take)
  have "drop k (u8_fold up ?t) = up (snd (U8_NEXT ?t (u8_pos ?t k) n)) # drop (Suc k) (u8_fold up ?t)"
    using k len by (subst Cons_nth_drop_Suc [symmetric]) (simp_all add: u8_fold_def)
  moreover have "fold_codepoints up s n (u8_pos ?t (Suc k)) = drop (Suc k) (u8_fold up ?t)"
    using Suc.hyps k by (intro Suc.hyps(1)) simp_all
  ultimately show ?case
    using step read by (subst fold_codepoints.simps) (simp add: U8_NEXT_fst)
qed

lemma fold_codepoints_eq: "n \<le> length s \<Longrightarrow> fold_codepoints up s n 0 = u8_fold up (take n s)"
  using fold_codepoints_from [of n s 0] by (simp add: u8_pos_bounds)

text \<open>What a search from a byte offset has to find: for exact search the first
  occurrence of the pattern's bytes, otherwise the first occurrence of its folded code
  points, as a byte range.\<close>

definition spec_from :: "(int \<Rightarrow> int) \<Rightarrow> bool \<Rightarrow> byte list \<Rightarrow> byte list \<Rightarrow> nat \<Rightarrow> (nat \<times> nat) option" where
  "spec_from up ci P s start =
     (if ci then
        map_option (\<lambda>k. (u8_pos s k, u8_pos s (k + u8_count P))) (first_occ (u8_fold up P) (u8_fold up s) (u8_index s start))
      else map_option (\<lambda>i. (i, i + length P)) (first_occ P s start))"

definition spec_last :: "(int \<Rightarrow> int) \<Rightarrow> bool \<Rightarrow> byte list \<Rightarrow> byte list \<Rightarrow> (nat \<times> nat) option" where
  "spec_last up ci P s =
     (if ci then map_option (\<lambda>k. (u8_pos s k, u8_pos s (k + u8_count P))) (last_occ (u8_fold up P) (u8_fold up s))
      else map_option (\<lambda>i. (i, i + length P)) (last_occ P s))"

definition range_result :: "byte_search_matcher \<Rightarrow> (nat \<times> nat) option \<Rightarrow> byte_search_matcher \<times> int" where
  "range_result bm r = (case r of None \<Rightarrow> no_match bm | Some (a, b) \<Rightarrow> match_at bm a b)"

lemma bm_ready_facts:
  assumes "bm_ready bm"
  shows "length (bm_text bm) = nat (search_length bm)" "length (bm_pat bm) = nat (pattern_length bm)"
    "bm_pat bm \<noteq> []" "i < nat (search_length bm) \<Longrightarrow> ptr_bytes (bm_search bm) ! i = bm_text bm ! i"
    "i < nat (pattern_length bm) \<Longrightarrow> ptr_bytes (bm_pattern bm) ! i = bm_pat bm ! i"
  using assms by (auto simp: bm_ready_def bm_text_def bm_pat_def)

lemma find_from_pos_kmp_spec:
  assumes "bm_ready bm" "start \<le> nat (search_length bm)"
    and "kmp_next bm = kmp_table (nth (ptr_bytes (bm_pattern bm))) (nat (pattern_length bm)) (nat (pattern_length bm))"
  shows "\<exists>pos. find_from_pos_kmp bm start =
    Some (range_result (bm\<lparr>pattern_pos := pos\<rparr>) (spec_from up False (bm_pat bm) (bm_text bm) start))"
proof -
  note facts = bm_ready_facts [OF assms(1)]
  let ?S = "ptr_bytes (bm_search bm)" and ?n = "nat (search_length bm)" and ?m = "nat (pattern_length bm)"
  let ?P = "bm_pat bm" and ?s = "bm_text bm"
  have "\<exists>pos. kmp_scan (nth (ptr_bytes (bm_pattern bm))) (kmp_table (nth (ptr_bytes (bm_pattern bm))) (length ?P) (length ?P + 0))
      (length ?P) (\<lambda>i. (i + 1, ?S ! i)) (\<lambda>i. i < ?n) (start + 0) 0 =
      Some (map_option (\<lambda>i. start + (i + length ?P)) (first_occ ?P (drop start ?s) 0), pos)"
    using assms(2) facts by (intro kmp_scan_first) auto
  then obtain pos where scan: "kmp_scan (nth (ptr_bytes (bm_pattern bm))) (kmp_next bm) ?m (\<lambda>i. (i + 1, ?S ! i)) (\<lambda>i. i < ?n) start 0 =
      Some (map_option (\<lambda>i. start + (i + ?m)) (first_occ ?P (drop start ?s) 0), pos)"
    using facts(2) assms(3) by auto
  show ?thesis
    unfolding find_from_pos_kmp_def Let_def scan
    by (intro exI [of _ pos])
      (simp add: spec_from_def first_occ_drop [of _ _ start] facts(2) range_result_def add.assoc
        split: option.split)
qed

context cp_walk
begin

lemma funpow_back: "k + m \<le> cp_count fwd n \<Longrightarrow> (bwd ^^ m) (cp_pos fwd n (k + m)) = cp_pos fwd n k"
  by (induction m) (simp_all add: funpow_swap1 back_pos del: cp_pos.simps funpow.simps(2)
    add: funpow_Suc_right)

lemma funpow_fwd: "k + m \<le> cp_count fwd n \<Longrightarrow> (fwd ^^ m) (cp_pos fwd n k) = cp_pos fwd n (k + m)"
  by (induction m) (simp_all add: cp_pos_less_iff)

end

lemma u8_funpow:
  assumes "n \<le> length data" "take n data = s" "k + m \<le> u8_count s"
  shows "(U8_BACK_1 data 0 ^^ m) (u8_pos s (k + m)) = u8_pos s k"
    and "((\<lambda>i. U8_FWD_1 data i n) ^^ m) (u8_pos s k) = u8_pos s (k + m)"
  using u8.funpow_back [of k m data n] u8.funpow_fwd [of k m data n] assms
  by (simp_all add: u8_pos_take u8_count_take)

text \<open>Reading the code points of the text from its buffer, forwards and backwards.\<close>

lemma u8_read:
  assumes "n \<le> length data" "take n data = s" "k < u8_count s"
  shows "U8_NEXT data (u8_pos s k) n = (u8_pos s (Suc k), snd (U8_NEXT s (u8_pos s k) n))"
    and "U8_PREV data 0 (u8_pos s (Suc k)) = (u8_pos s k, snd (U8_NEXT s (u8_pos s k) n))"
proof -
  have len: "length s = n" using assms(1,2) by auto
  note step = u8_pos_step [OF assms(3), unfolded len]
  have take: "U8_NEXT data (u8_pos s k) n = U8_NEXT s (u8_pos s k) n" "U8_FWD_1 data (u8_pos s k) n = u8_pos s (Suc k)"
    using step assms(2) U8_NEXT_take [of "u8_pos s k" n data] U8_FWD_1_take [of "u8_pos s k" n data] by simp_all
  show "U8_NEXT data (u8_pos s k) n = (u8_pos s (Suc k), snd (U8_NEXT s (u8_pos s k) n))"
    using take step by (metis U8_NEXT_fst prod.collapse)
  show "U8_PREV data 0 (u8_pos s (Suc k)) = (u8_pos s k, snd (U8_NEXT s (u8_pos s k) n))"
    using U8_PREV_NEXT [of data n k, OF refl] step take u8_pos_take [OF assms(1), of k] assms(2) by simp
qed

lemma u8_fold_ne: "s \<noteq> [] \<Longrightarrow> u8_fold up s \<noteq> []"
proof -
  assume "s \<noteq> []"
  then have "u8_pos s 0 < length s" by (simp add: u8_pos_bounds)
  then show ?thesis unfolding u8_pos_def u8f.cp_pos_less_iff by (auto simp: u8_fold_def u8_count_def)
qed

lemma find_from_pos_kmp_ci_spec:
  assumes "bm_ready bm" "start = u8_pos (bm_text bm) k0" "k0 \<le> u8_count (bm_text bm)"
    and "folded_pattern bm = u8_fold up (bm_pat bm)"
    and "kmp_next bm = kmp_table (nth (folded_pattern bm)) (length (folded_pattern bm)) (nat (pattern_length bm))"
  shows "\<exists>pos. find_from_pos_kmp_case_insensitive up bm start =
    Some (range_result (bm\<lparr>pattern_pos := pos\<rparr>) (spec_from up True (bm_pat bm) (bm_text bm) start))"
proof -
  note facts = bm_ready_facts [OF assms(1)]
  let ?S = "ptr_bytes (bm_search bm)" and ?n = "nat (search_length bm)"
  let ?P = "bm_pat bm" and ?s = "bm_text bm" and ?F = "folded_pattern bm"
  let ?read = "\<lambda>i. (fst (U8_NEXT ?S i ?n), up (snd (U8_NEXT ?S i ?n)))"
  have buf: "?n \<le> length ?S" "take ?n ?S = ?s" using assms(1) by (simp_all add: bm_ready_def bm_text_def)
  have count: "length ?F = u8_count ?P" "u8_count ?P \<le> nat (pattern_length bm)"
    using assms(4) facts(2) u8_pos_bounds(4) [of ?P] by simp_all
  then obtain extra where extra: "nat (pattern_length bm) = length ?F + extra" using nat_le_iff_add by auto
  have F: "?F \<noteq> []" using u8_fold_ne [OF facts(3)] assms(4) by simp
  have walk: "u8_pos ?s (k0 + k) < ?n \<and> ?read (u8_pos ?s (k0 + k)) = (u8_pos ?s (k0 + Suc k), drop k0 (u8_fold up ?s) ! k)"
    if "k < length (drop k0 (u8_fold up ?s))" for k
  proof -
    have k: "k0 + k < u8_count ?s" using that by simp
    then show ?thesis
      using u8_read(1) [OF buf k] u8_pos_step(1) [OF k] facts(1) by (simp add: u8_fold_def)
  qed
  have stop: "\<not> u8_pos ?s (k0 + length (drop k0 (u8_fold up ?s))) < ?n"
    using assms(3) facts(1) by (simp add: u8_pos_bounds)
  have "\<exists>pos. kmp_scan (nth ?F) (kmp_table (nth ?F) (length ?F) (length ?F + extra)) (length ?F) ?read (\<lambda>i. i < ?n)
      (u8_pos ?s (k0 + 0)) 0 =
      Some (map_option (\<lambda>i. u8_pos ?s (k0 + (i + length ?F))) (first_occ ?F (drop k0 (u8_fold up ?s)) 0), pos)"
    using walk stop F by (intro kmp_scan_first) auto
  then obtain pos where scan: "kmp_scan (nth ?F) (kmp_next bm) (length ?F) ?read (\<lambda>i. i < ?n) start 0 =
      Some (map_option (\<lambda>i. u8_pos ?s (k0 + (i + length ?F))) (first_occ ?F (drop k0 (u8_fold up ?s)) 0), pos)"
    using assms(2,5) extra by auto
  have index: "u8_index ?s start = k0" using assms(2,3) by (simp add: u8_index_pos)
  have unread: "(U8_BACK_1 ?S 0 ^^ length ?F) (u8_pos ?s (k0 + (i + length ?F))) = u8_pos ?s (k0 + i)"
    if "first_occ ?F (drop k0 (u8_fold up ?s)) 0 = Some i" for i
  proof -
    have "occ ?F (drop k0 (u8_fold up ?s)) i" using that by (simp add: first_occ_def find_upt_Some)
    then have "i + length ?F \<le> length (drop k0 (u8_fold up ?s))" using occ_bound [OF F] by blast
    then have "(k0 + i) + length ?F \<le> u8_count ?s" using assms(3) by simp
    from u8_funpow(1) [OF buf this] show ?thesis by (simp add: add.assoc)
  qed
  show ?thesis
    unfolding find_from_pos_kmp_case_insensitive_def Let_def scan
    using unread count(1)
    by (intro exI [of _ pos])
      (auto simp: spec_from_def first_occ_drop [of _ _ k0] index assms(4) [symmetric] range_result_def add.assoc
        split: option.split)
qed

lemma find_from_pos_single_byte_spec:
  assumes "bm_ready bm" "pattern_length bm = 1"
  shows "find_from_pos_single_byte bm start = range_result bm (spec_from up False (bm_pat bm) (bm_text bm) start)"
proof -
  note facts = bm_ready_facts [OF assms(1)]
  let ?s = "bm_text bm" and ?n = "nat (search_length bm)"
  have occ: "occ (bm_pat bm) ?s i \<longleftrightarrow> i < ?n \<and> ptr_bytes (bm_search bm) ! i = ptr_bytes (bm_pattern bm) ! 0" for i
    using facts assms(2) by (auto simp: occ_iff Suc_le_eq)
  have len: "length (bm_pat bm) = 1" "0 \<le> search_length bm"
    using facts assms by (simp_all add: bm_ready_def)
  show ?thesis
  proof (cases "start < ?n")
    case True
    then have upt: "start + nat (search_length bm - int start) = ?n" "\<not> search_length bm - pattern_length bm < int start"
      using assms(2) by linarith+
    have "memchr (ptr_bytes (bm_search bm)) start (ptr_bytes (bm_pattern bm) ! 0) (nat (search_length bm - int start)) =
        first_occ (bm_pat bm) ?s start"
      unfolding memchr_def first_occ_def upt facts(1) by (rule find_cong) (auto simp: occ)
    then show ?thesis
      using upt(2) len by (simp add: find_from_pos_single_byte_def spec_from_def range_result_def split: option.split)
  next
    case False
    then have "search_length bm - pattern_length bm < int start" using assms(2) len(2) by linarith
    with False show ?thesis
      using len facts(1)
      by (simp add: find_from_pos_single_byte_def spec_from_def range_result_def first_occ_def)
  qed
qed

lemma memcmp_tail:
  assumes "P \<noteq> []" "candidate + length P \<le> length s" "s ! candidate = P ! 0"
    and "length P \<le> length P'" "take (length P) P' = P"
  shows "memcmp_eq (drop (candidate + 1) s) (drop 1 P') (length P - 1) \<longleftrightarrow> occ P s candidate"
proof -
  obtain a Q where P: "P = a # Q" using assms(1) by (cases P) auto
  obtain Q' where P': "P' = a # Q'" using assms(4,5) P by (cases P') auto
  have "drop candidate s = s ! candidate # drop (Suc candidate) s"
    using assms(2) P by (intro Cons_nth_drop_Suc [symmetric]) simp
  with assms(3,5) P P' show ?thesis by (auto simp: memcmp_eq_def occ_def)
qed

lemma short_scan_spec:
  assumes "P \<noteq> []" "length P \<le> n" "n \<le> length s" "length P \<le> length P'" "take (length P) P' = P"
  shows "short_scan P' (length P) s (n - length P) current = first_occ P (take n s) current"
proof (induction "Suc (n - length P) - current" arbitrary: current rule: less_induct)
  case less
  have P0: "P' ! 0 = P ! 0" using assms(1,5) by (metis length_greater_0_conv nth_take)
  have in_take: "occ P (take n s) i \<longleftrightarrow> i + length P \<le> n \<and> occ P s i" for i
    using assms by (auto simp: occ_iff)
  have hit: "i + length P \<le> n \<and> s ! i = P ! 0" if "occ P (take n s) i" for i
    using that in_take occ_iff [OF assms(1), of s i] assms(1) by (cases P) auto
  have none: "first_occ P (take n s) c = None" if "n - length P < c" for c
    using hit that assms(2) by (fastforce simp: first_occ_def find_upt_None)
  show ?case
  proof (cases "current \<le> n - length P")
    case False
    then show ?thesis using none [of current] by (subst short_scan.simps) simp
  next
    case True
    let ?mc = "memchr s current (P' ! 0) (n - length P - current + 1)"
    have mc: "?mc = find (\<lambda>i. s ! i = P ! 0) [current..<Suc (n - length P)]"
    proof -
      have "current + (n - length P - current + 1) = Suc (n - length P)" using True by linarith
      then show ?thesis unfolding memchr_def P0 by (simp only:)
    qed
    show ?thesis
    proof (cases ?mc)
      case None
      then have "first_occ P (take n s) current = None"
        unfolding mc using hit assms(2) by (fastforce simp: first_occ_def find_upt_None simp del: upt_Suc)
      with None True show ?thesis by (subst short_scan.simps) simp
    next
      case (Some c)
      then have c: "current \<le> c" "c + length P \<le> n" "s ! c = P ! 0" "\<And>j. current \<le> j \<Longrightarrow> j < c \<Longrightarrow> s ! j \<noteq> P ! 0"
        using assms(2) unfolding mc by (auto simp: find_upt_Some less_Suc_eq_le simp del: upt_Suc)
      have skip: "\<not> occ P (take n s) j" if "current \<le> j" "j < c" for j using c(4) [OF that] hit by blast
      have cmp: "memcmp_eq (drop (c + 1) s) (drop 1 P') (length P - 1) \<longleftrightarrow> occ P (take n s) c"
        using memcmp_tail [OF assms(1) _ c(3) assms(4,5)] c(2) assms(3) in_take by simp
      show ?thesis
      proof (cases "occ P (take n s) c")
        case True
        then have "first_occ P (take n s) current = Some c"
          using c skip assms(1,3) by (cases P) (auto simp: first_occ_def find_upt_Some)
        with True \<open>current \<le> n - length P\<close> Some cmp show ?thesis by (subst short_scan.simps) simp
      next
        case False
        then have "\<not> occ P (take n s) j" if "current \<le> j" "j < c + 1" for j
          using skip that by (cases "j = c") auto
        then have "first_occ P (take n s) current = first_occ P (take n s) (c + 1)"
          unfolding first_occ_def using c(1) by (intro find_upt_skip) auto
        moreover have "short_scan P' (length P) s (n - length P) (c + 1) = first_occ P (take n s) (c + 1)"
          using c \<open>current \<le> n - length P\<close> by (intro less) simp
        ultimately show ?thesis using False \<open>current \<le> n - length P\<close> Some cmp by (subst short_scan.simps) simp
      qed
    qed
  qed
qed

lemma find_from_pos_short_spec:
  assumes "bm_ready bm"
  shows "find_from_pos_short bm start = range_result bm (spec_from up False (bm_pat bm) (bm_text bm) start)"
proof -
  note facts = bm_ready_facts [OF assms]
  have pos: "0 < pattern_length bm" "0 \<le> search_length bm" using assms by (simp_all add: bm_ready_def)
  show ?thesis
  proof (cases "search_length bm - pattern_length bm < int start")
    case True
    have "first_occ (bm_pat bm) (bm_text bm) start = None"
      using True pos facts occ_bound [OF facts(3), of "bm_text bm"]
      unfolding first_occ_def find_upt_None by fastforce
    with True show ?thesis by (simp add: find_from_pos_short_def spec_from_def range_result_def)
  next
    case False
    have "short_scan (ptr_bytes (bm_pattern bm)) (length (bm_pat bm)) (ptr_bytes (bm_search bm))
        (nat (search_length bm) - length (bm_pat bm)) start = first_occ (bm_pat bm) (bm_text bm) start"
      unfolding bm_text_def using assms facts False pos
      by (intro short_scan_spec) (auto simp: bm_ready_def bm_pat_def min_def)
    moreover have "nat (search_length bm) - length (bm_pat bm) = nat (search_length bm - pattern_length bm)"
      using facts(2) pos by linarith
    ultimately show ?thesis
      using False pos facts(2)
      by (simp add: find_from_pos_short_def spec_from_def range_result_def split: option.split)
  qed
qed

lemma find_last_kmp_spec:
  assumes "bm_ready bm" "kmp_next bm = kmp_fresh (nat (pattern_length bm))"
  shows "\<exists>tab pos. find_last_kmp bm =
    Some (range_result (bm\<lparr>kmp_next := tab, pattern_pos := pos\<rparr>) (spec_last up False (bm_pat bm) (bm_text bm)))"
proof -
  note facts = bm_ready_facts [OF assms(1)]
  let ?S = "ptr_bytes (bm_search bm)" and ?n = "nat (search_length bm)" and ?m = "nat (pattern_length bm)"
  let ?P = "bm_pat bm" and ?s = "bm_text bm"
  define at where "at = (\<lambda>i. ptr_bytes (bm_pattern bm) ! (?m - 1 - i))"
  define tab where "tab = kmp_table at ?m ?m"
  have prep: "kmp_prepare at ?m (kmp_next bm) = Some tab"
    using kmp_fresh_prepare [of ?m ?m at] assms(2) by (simp add: tab_def)
  have "\<exists>pos. kmp_scan at (kmp_table at (length (rev ?P)) (length (rev ?P) + 0)) (length (rev ?P))
      (\<lambda>i. (i - 1, ?S ! (i - 1))) (\<lambda>i. 0 < i) (?n - 0) 0 =
      Some (map_option (\<lambda>i. ?n - (i + length (rev ?P))) (first_occ (rev ?P) (rev ?s) 0), pos)"
    using facts by (intro kmp_scan_first) (auto simp: at_def rev_nth)
  then obtain pos where scan: "kmp_scan at tab ?m (\<lambda>i. (i - 1, ?S ! (i - 1))) (\<lambda>i. 0 < i) ?n 0 =
      Some (map_option (\<lambda>i. ?n - (i + ?m)) (first_occ (rev ?P) (rev ?s) 0), pos)"
    using facts(2) by (auto simp: tab_def)
  show ?thesis
    unfolding find_last_kmp_def Let_def at_def [symmetric] prep
    by (intro exI [of _ tab] exI [of _ pos])
      (simp add: scan [simplified] spec_last_def last_occ_rev [OF facts(3)] facts(1,2) range_result_def
        split: option.split)
qed

lemma find_last_kmp_ci_spec:
  assumes "bm_ready bm" "kmp_next bm = kmp_fresh (nat (pattern_length bm))"
    and "folded_pattern bm = u8_fold up (bm_pat bm)"
  shows "\<exists>tab pos. find_last_kmp_case_insensitive up bm =
    Some (range_result (bm\<lparr>kmp_next := tab, pattern_pos := pos\<rparr>) (spec_last up True (bm_pat bm) (bm_text bm)))"
proof -
  note facts = bm_ready_facts [OF assms(1)]
  let ?S = "ptr_bytes (bm_search bm)" and ?n = "nat (search_length bm)"
  let ?P = "bm_pat bm" and ?s = "bm_text bm" and ?F = "folded_pattern bm"
  let ?read = "\<lambda>i. (fst (U8_PREV ?S 0 i), up (snd (U8_PREV ?S 0 i)))"
  define at where "at = (\<lambda>i. ?F ! (length ?F - 1 - i))"
  have buf: "?n \<le> length ?S" "take ?n ?S = ?s" using assms(1) by (simp_all add: bm_ready_def bm_text_def)
  have count: "length ?F = u8_count ?P" "u8_count ?P \<le> nat (pattern_length bm)"
    using assms(3) facts(2) u8_pos_bounds(4) [of ?P] by simp_all
  then obtain extra where extra: "nat (pattern_length bm) = length ?F + extra" using nat_le_iff_add by auto
  define tab where "tab = kmp_table at (length ?F) (length ?F + extra)"
  have prep: "kmp_prepare at (length ?F) (kmp_next bm) = Some tab"
    using kmp_fresh_prepare [of "length ?F" "nat (pattern_length bm)" at] assms(2) count extra
    by (simp add: tab_def)
  have F: "?F \<noteq> []" using u8_fold_ne [OF facts(3)] assms(3) by simp
  have walk: "0 < u8_pos ?s (u8_count ?s - k) \<and>
      ?read (u8_pos ?s (u8_count ?s - k)) = (u8_pos ?s (u8_count ?s - Suc k), rev (u8_fold up ?s) ! k)"
    if "k < length (rev (u8_fold up ?s))" for k
  proof -
    define j where "j = u8_count ?s - Suc k"
    have j: "j < u8_count ?s" "u8_count ?s - k = Suc j" using that by (simp_all add: j_def)
    have "u8_pos ?s j < u8_pos ?s (Suc j)"
      using u8_pos_step [OF j(1)] U8_FWD_1_gt [of "u8_pos ?s j" ?s "length ?s"] by simp
    then show ?thesis
      using u8_read(2) [OF buf j(1)] j that facts(1) by (simp add: u8_fold_def rev_nth flip: j_def)
  qed
  have stop: "\<not> 0 < u8_pos ?s (u8_count ?s - length (rev (u8_fold up ?s)))"
    by (simp add: u8_pos_bounds)
  have "\<exists>pos. kmp_scan at (kmp_table at (length (rev ?F)) (length (rev ?F) + extra)) (length (rev ?F)) ?read (\<lambda>i. 0 < i)
      (u8_pos ?s (u8_count ?s - 0)) 0 =
      Some (map_option (\<lambda>i. u8_pos ?s (u8_count ?s - (i + length (rev ?F)))) (first_occ (rev ?F) (rev (u8_fold up ?s)) 0), pos)"
    using walk stop F by (intro kmp_scan_first) (auto simp: at_def rev_nth)
  then obtain pos where scan: "kmp_scan at tab (length ?F) ?read (\<lambda>i. 0 < i) ?n 0 =
      Some (map_option (\<lambda>i. u8_pos ?s (u8_count ?s - (i + length ?F))) (first_occ (rev ?F) (rev (u8_fold up ?s)) 0), pos)"
    using facts(1) by (auto simp: tab_def u8_pos_bounds)
  have bound: "u8_count ?s - (i + length ?F) + length ?F \<le> u8_count ?s"
    if "first_occ (rev ?F) (rev (u8_fold up ?s)) 0 = Some i" for i
  proof -
    have "occ (rev ?F) (rev (u8_fold up ?s)) i" using that by (simp add: first_occ_def find_upt_Some)
    then have "i + length ?F \<le> u8_count ?s" using occ_bound [of "rev ?F" "rev (u8_fold up ?s)" i] F by simp
    then show ?thesis by simp
  qed
  note fwd = u8_funpow(2) [OF buf bound]
  have unf: "find_last_kmp_case_insensitive up bm = Some (case first_occ (rev ?F) (rev (u8_fold up ?s)) 0 of
      None \<Rightarrow> no_match (bm\<lparr>kmp_next := tab, pattern_pos := pos\<rparr>)
    | Some i \<Rightarrow> match_at (bm\<lparr>kmp_next := tab, pattern_pos := pos\<rparr>) (u8_pos ?s (u8_count ?s - (i + length ?F)))
        (((\<lambda>i. U8_FWD_1 ?S i ?n) ^^ length ?F) (u8_pos ?s (u8_count ?s - (i + length ?F)))))"
    unfolding find_last_kmp_case_insensitive_def Let_def at_def [symmetric] prep
    by (simp add: scan split: option.split)
  have "last_occ ?F (u8_fold up ?s) = map_option (\<lambda>i. u8_count ?s - (i + length ?F)) (first_occ (rev ?F) (rev (u8_fold up ?s)) 0)"
    using last_occ_rev [OF F, of "u8_fold up ?s"] by simp
  then show ?thesis
    unfolding unf using fwd
    by (intro exI [of _ tab] exI [of _ pos])
      (auto simp: spec_last_def range_result_def count(1) [symmetric] assms(3) [symmetric] split: option.split)
qed

lemma find_last_simple_spec:
  assumes "bm_ready bm"
  shows "find_last_short bm = range_result bm (spec_last up False (bm_pat bm) (bm_text bm))"
    and "pattern_length bm = 1 \<Longrightarrow>
      find_last_single_byte bm = range_result bm (spec_last up False (bm_pat bm) (bm_text bm))"
proof -
  note facts = bm_ready_facts [OF assms]
  have pos: "0 < pattern_length bm" "0 \<le> search_length bm" using assms by (simp_all add: bm_ready_def)
  let ?S = "ptr_bytes (bm_search bm)" and ?P = "ptr_bytes (bm_pattern bm)"
  let ?n = "nat (search_length bm)" and ?m = "nat (pattern_length bm)"
  have occ: "occ (bm_pat bm) (bm_text bm) i \<longleftrightarrow> i + ?m \<le> ?n \<and> take ?m (drop i ?S) = take ?m ?P" for i
  proof (cases "i + ?m \<le> ?n")
    case True
    then have "take ?m (drop i (bm_text bm)) = take ?m (drop i ?S)"
      by (simp add: bm_text_def drop_take)
    with True show ?thesis using facts(2) by (simp add: occ_def bm_pat_def)
  next
    case False
    then show ?thesis using occ_bound [OF facts(3), of "bm_text bm" i] facts(1,2) by auto
  qed
  have short: "scan_down (\<lambda>i. memcmp_eq (drop i ?S) ?P ?m) (nat (search_length bm - pattern_length bm + 1)) =
      last_occ (bm_pat bm) (bm_text bm)"
    unfolding last_occ_def facts(1) using pos by (intro scan_down_cong) (auto simp: occ memcmp_eq_def)
  then show "find_last_short bm = range_result bm (spec_last up False (bm_pat bm) (bm_text bm))"
    using pos facts(2) by (simp add: find_last_short_def spec_last_def range_result_def split: option.split)
  show "find_last_single_byte bm = range_result bm (spec_last up False (bm_pat bm) (bm_text bm))"
    if one: "pattern_length bm = 1"
  proof (cases "search_length bm < pattern_length bm")
    case True
    then have "bm_text bm = []" using facts(1) one by simp
    then show ?thesis using True
      by (simp add: find_last_single_byte_def spec_last_def range_result_def last_occ_def)
  next
    case False
    have "take 1 (drop i ?S) = take 1 ?P \<longleftrightarrow> ?P ! 0 = ?S ! i" if "i < ?n" for i
    proof -
      have "i < length ?S" "0 < length ?P" using that assms pos by (auto simp: bm_ready_def)
      then show ?thesis by (auto simp: take_Suc hd_drop_conv_nth hd_conv_nth)
    qed
    then have "scan_down (\<lambda>i. ?P ! 0 = ?S ! i) ?n = last_occ (bm_pat bm) (bm_text bm)"
      unfolding last_occ_def facts(1) using one by (intro scan_down_cong) (auto simp: occ)
    with False show ?thesis
      using facts(2) one by (simp add: find_last_single_byte_def spec_last_def range_result_def split: option.split)
  qed
qed

subsection \<open>The matcher over a sequence of calls\<close>

text \<open>The table is absent, not yet computed, or the finished forward table.\<close>

definition table_fresh :: "byte_search_matcher \<Rightarrow> bool" where
  "table_fresh bm \<longleftrightarrow>
     (bm_strategy bm = Kmp \<or> bm_strategy bm = Kmp_case_insensitive \<longrightarrow> kmp_next bm = kmp_fresh (nat (pattern_length bm)))"

definition table_ready :: "byte_search_matcher \<Rightarrow> bool" where
  "table_ready bm \<longleftrightarrow>
     (bm_strategy bm = Kmp \<longrightarrow>
        kmp_next bm = kmp_table (nth (ptr_bytes (bm_pattern bm))) (nat (pattern_length bm)) (nat (pattern_length bm))) \<and>
     (bm_strategy bm = Kmp_case_insensitive \<longrightarrow>
        kmp_next bm = kmp_table (nth (folded_pattern bm)) (length (folded_pattern bm)) (nat (pattern_length bm)))"

definition bm_job :: "(int \<Rightarrow> int) \<Rightarrow> bool \<Rightarrow> byte_search_matcher \<Rightarrow> bool" where
  "bm_job up ci bm \<longleftrightarrow> bm_ready bm \<and> bm_strategy bm = choose_strategy (pattern_length bm) ci \<and>
     (ci \<longrightarrow> folded_pattern bm = u8_fold up (bm_pat bm))"

text \<open>The offset from which the next call searches.\<close>

definition next_start :: "bool \<Rightarrow> byte list \<Rightarrow> nat \<times> nat \<Rightarrow> nat" where
  "next_start overlap s = (\<lambda>(a, b). if overlap then U8_FWD_1 s a (length s) else b)"

definition bm_inv :: "(int \<Rightarrow> int) \<Rightarrow> bool \<Rightarrow> byte_search_matcher \<Rightarrow> bool" where
  "bm_inv up ci bm \<longleftrightarrow> bm_job up ci bm \<and> (table_fresh bm \<or> table_ready bm) \<and> (0 \<le> search_pos bm \<longrightarrow> table_ready bm)"

text \<open>A byte offset the search may start from.\<close>

definition start_ok :: "bool \<Rightarrow> byte list \<Rightarrow> nat \<Rightarrow> bool" where
  "start_ok ci s start \<longleftrightarrow> start \<le> length s \<and> (ci \<longrightarrow> u8_pos s (u8_index s start) = start)"

lemma u8_index_le: "t \<le> length s \<Longrightarrow> u8_index s t \<le> u8_count s"
  unfolding u8_index_def u8_count_def by (rule u8f.cp_index_count)

lemma start_ok_pos: "k \<le> u8_count s \<Longrightarrow> start_ok ci s (u8_pos s k)"
  by (simp add: start_ok_def u8_pos_bounds u8_index_pos)

lemma start_ok_0: "start_ok ci s 0"
  using start_ok_pos [of 0 s ci] by (simp add: u8_pos_bounds)

lemma u8_pos_index_ge: "t \<le> length s \<Longrightarrow> t \<le> u8_pos s (u8_index s t)"
  unfolding u8_pos_def u8_index_def using u8f.cp_index_less_iff [of t "length s" s "u8_index s t"]
  by (simp add: u8_index_def not_less flip: u8_pos_def)

lemma u8_count_pos: "P \<noteq> [] \<Longrightarrow> 0 < u8_count P"
  using u8_fold_ne [of P "\<lambda>c. c"] by (cases "u8_count P") (auto simp: u8_fold_def)

lemma u8_pos_less: "j < k \<Longrightarrow> k \<le> u8_count s \<Longrightarrow> u8_pos s j < u8_pos s k"
  unfolding u8_pos_def u8_count_def by (rule u8f.cp_pos_less_pos)

lemma spec_from_range:
  assumes "spec_from up ci P s start = Some (a, b)" "P \<noteq> []" "start_ok ci s start"
  shows "start \<le> a \<and> a < b \<and> b \<le> length s \<and> start_ok ci s b \<and> start_ok ci s (U8_FWD_1 s a (length s))"
proof (cases ci)
  case False
  then have o: "occ P s a" "start \<le> a" "b = a + length P"
    using assms(1) by (auto simp: spec_from_def first_occ_def find_upt_Some)
  then show ?thesis
    using occ_bound [OF assms(2) o(1)] False assms(2) U8_FWD_1_le [of a "length s" s] by (auto simp: start_ok_def)
next
  case True
  then obtain k where k: "occ (u8_fold up P) (u8_fold up s) k" "u8_index s start \<le> k"
      "a = u8_pos s k" "b = u8_pos s (k + u8_count P)"
    using assms(1) by (auto simp: spec_from_def first_occ_def find_upt_Some)
  have bound: "k + u8_count P \<le> u8_count s"
    using occ_bound [OF u8_fold_ne [OF assms(2), of up] k(1)] by simp
  have cp: "0 < u8_count P" using u8_count_pos [OF assms(2)] .
  have "start \<le> u8_pos s (u8_index s start)" using assms(3) by (auto simp: start_ok_def u8_pos_index_ge)
  also have "\<dots> \<le> a" using k by (simp add: u8_pos_bounds)
  finally have "start \<le> a" .
  moreover have "a < b" using bound cp k by (auto intro: u8_pos_less)
  moreover have "U8_FWD_1 s a (length s) = u8_pos s (Suc k)" using u8_pos_step [of k s] bound cp k by simp
  ultimately show ?thesis
    using k bound cp u8_pos_bounds(1) [of s] start_ok_pos [of "Suc k" s ci] start_ok_pos [of "k + u8_count P" s ci]
    by simp
qed

lemma find_from_pos_spec:
  assumes "bm_job up ci bm" "table_ready bm" "start_ok ci (bm_text bm) start"
  shows "\<exists>pos. find_from_pos up bm start =
    Some (range_result (bm\<lparr>pattern_pos := pos\<rparr>) (spec_from up ci (bm_pat bm) (bm_text bm) start))"
proof -
  note job = assms(1) [unfolded bm_job_def]
  have ready: "bm_ready bm" using job by simp
  have start: "start \<le> nat (search_length bm)"
    using assms(3) bm_ready_facts(1) [OF ready] by (simp add: start_ok_def)
  have self: "bm\<lparr>pattern_pos := pattern_pos bm\<rparr> = bm" by simp
  show ?thesis
  proof (cases "bm_strategy bm")
    case Kmp
    with job have "\<not> ci" by (auto simp: choose_strategy_def)
    with Kmp assms(2) find_from_pos_kmp_spec [OF ready start, of up] show ?thesis
      by (simp add: find_from_pos_def table_ready_def)
  next
    case Kmp_case_insensitive
    with job have ci: ci by (auto simp: choose_strategy_def split: if_splits)
    have k0: "start = u8_pos (bm_text bm) (u8_index (bm_text bm) start)" "u8_index (bm_text bm) start \<le> u8_count (bm_text bm)"
      using assms(3) ci by (auto simp: start_ok_def u8_index_le)
    show ?thesis
      using Kmp_case_insensitive ci job assms(2) find_from_pos_kmp_ci_spec [OF ready k0, of up]
      by (simp add: find_from_pos_def table_ready_def)
  next
    case Single_byte
    with job have "\<not> ci" "pattern_length bm = 1" by (auto simp: choose_strategy_def split: if_splits)
    with Single_byte find_from_pos_single_byte_spec [OF ready, of start up] show ?thesis
      by (intro exI [of _ "pattern_pos bm"]) (simp add: find_from_pos_def self)
  next
    case Short_pattern
    with job have "\<not> ci" by (auto simp: choose_strategy_def)
    with Short_pattern find_from_pos_short_spec [OF ready, of start up] show ?thesis
      by (intro exI [of _ "pattern_pos bm"]) (simp add: find_from_pos_def self)
  qed
qed

text \<open>All matches, as a caller that repeats \<open>find_next\<close> sees them.\<close>

function all_matches ::
  "(int \<Rightarrow> int) \<Rightarrow> bool \<Rightarrow> bool \<Rightarrow> byte list \<Rightarrow> byte list \<Rightarrow> nat \<Rightarrow> (nat \<times> nat) list" where
  "all_matches up ci overlap P s start =
     (if P = [] \<or> \<not> start_ok ci s start then []
      else case spec_from up ci P s start of
             None \<Rightarrow> []
           | Some r \<Rightarrow> r # all_matches up ci overlap P s (next_start overlap s r))"
  by pat_completeness auto
termination
proof (relation "measure (\<lambda>(up, ci, overlap, P, s, start). Suc (length s) - start)", goal_cases)
  case (2 up ci overlap P s start r)
  obtain a b where r: "r = (a, b)" by (cases r)
  with 2 spec_from_range [of up ci P s start a b] have "start \<le> a" "a < b" "b \<le> length s" by auto
  with r U8_FWD_1_gt [of a s "length s"] show ?case by (auto simp: next_start_def)
qed simp

declare all_matches.simps [simp del]

text \<open>A matcher that has been reset, or stands on a match.\<close>

definition standing :: "byte_search_matcher \<Rightarrow> nat" where
  "standing bm = (if search_pos bm < 0 then 0
     else next_start (bm_overlap bm) (bm_text bm) (nat (search_pos bm), nat (search_end bm)))"

definition same_job :: "byte_search_matcher \<Rightarrow> byte_search_matcher \<Rightarrow> bool" where
  "same_job bm bm' \<longleftrightarrow> bm_strategy bm' = bm_strategy bm \<and> bm_overlap bm' = bm_overlap bm \<and>
     bm_search bm' = bm_search bm \<and> search_length bm' = search_length bm \<and> pattern_length bm' = pattern_length bm \<and>
     bm_pattern bm' = bm_pattern bm \<and> folded_pattern bm' = folded_pattern bm"

lemma same_job_facts:
  assumes "same_job bm bm'"
  shows "bm_text bm' = bm_text bm" "bm_pat bm' = bm_pat bm" "bm_job up ci bm' \<longleftrightarrow> bm_job up ci bm"
    "bm_ready bm' \<longleftrightarrow> bm_ready bm"
  using assms by (simp_all add: same_job_def bm_text_def bm_pat_def bm_job_def bm_ready_def)

lemma range_result_same: "same_job bm (fst (range_result bm r))" "table_ready (fst (range_result bm r)) \<longleftrightarrow> table_ready bm"
  by (auto simp: range_result_def no_match_def match_at_def same_job_def table_ready_def split: option.splits)

lemma same_job_trans: "same_job a b \<Longrightarrow> same_job b c \<Longrightarrow> same_job a c"
  by (simp add: same_job_def)

lemma kmp_prepare_either:
  assumes "tab = kmp_fresh bytes \<or> tab = kmp_table at m bytes" "m \<le> bytes"
  shows "kmp_prepare at m tab = Some (kmp_table at m bytes)"
  using assms(1) kmp_fresh_prepare [OF assms(2), of at] kmp_prepare_done [OF assms(2)] by auto

lemma find_first_spec:
  assumes "bm_inv up ci bm"
  shows "\<exists>bm'. find_first up bm = Some (range_result bm' (spec_from up ci (bm_pat bm) (bm_text bm) 0)) \<and>
    same_job bm bm' \<and> table_ready bm'"
proof -
  note inv = assms [unfolded bm_inv_def]
  define at :: "nat \<Rightarrow> int" where "at = nth (folded_pattern bm)"
  have pat: "length (folded_pattern bm) \<le> nat (pattern_length bm)" if ci
    using inv that bm_ready_facts(2) [of bm] u8_pos_bounds(4) [of "bm_pat bm"] by (auto simp: bm_job_def)
  define tab where "tab = (case bm_strategy bm of
      Kmp \<Rightarrow> kmp_table (nth (ptr_bytes (bm_pattern bm))) (nat (pattern_length bm)) (nat (pattern_length bm))
    | Kmp_case_insensitive \<Rightarrow> kmp_table (nth (folded_pattern bm)) (length (folded_pattern bm)) (nat (pattern_length bm))
    | _ \<Rightarrow> kmp_next bm)"
  define bm1 where "bm1 = bm\<lparr>kmp_next := tab\<rparr>"
  have same: "same_job bm bm1" by (simp add: bm1_def same_job_def)
  have ready: "table_ready bm1" by (simp add: bm1_def table_ready_def tab_def)
  have job: "bm_job up ci bm1" using inv same_job_facts(3) [OF same] by simp
  have "find_first up bm = find_from_pos up bm1 0"
  proof (cases "bm_strategy bm")
    case Kmp
    then have "kmp_prepare (nth (ptr_bytes (bm_pattern bm))) (nat (pattern_length bm)) (kmp_next bm) = Some tab"
      using inv by (simp add: tab_def table_fresh_def table_ready_def kmp_prepare_either)
    with Kmp show ?thesis
      by (simp add: find_first_def find_first_kmp_def prepare_kmp_forward_def find_from_pos_def bm1_def)
  next
    case Kmp_case_insensitive
    then have ci using inv by (auto simp: bm_job_def choose_strategy_def split: if_splits)
    with Kmp_case_insensitive have "kmp_prepare (nth (folded_pattern bm)) (length (folded_pattern bm)) (kmp_next bm) = Some tab"
      using inv pat by (simp add: tab_def table_fresh_def table_ready_def kmp_prepare_either)
    with Kmp_case_insensitive show ?thesis
      by (simp add: find_first_def find_first_kmp_case_insensitive_def prepare_folded_kmp_forward_def
          find_from_pos_def bm1_def)
  qed (simp_all add: find_first_def find_from_pos_def bm1_def tab_def)
  moreover obtain pos where "find_from_pos up bm1 0 =
      Some (range_result (bm1\<lparr>pattern_pos := pos\<rparr>) (spec_from up ci (bm_pat bm1) (bm_text bm1) 0))"
    using find_from_pos_spec [OF job ready start_ok_0] by blast
  moreover have "same_job bm (bm1\<lparr>pattern_pos := pos\<rparr>)" "table_ready (bm1\<lparr>pattern_pos := pos\<rparr>)"
    using same ready by (simp_all add: same_job_def table_ready_def)
  ultimately show ?thesis using same_job_facts(1,2) [OF same] by auto
qed

lemma find_next_spec:
  assumes "bm_inv up ci bm" "start_ok ci (bm_text bm) (standing bm)"
  shows "\<exists>bm'. find_next up bm = Some (range_result bm' (spec_from up ci (bm_pat bm) (bm_text bm) (standing bm))) \<and>
    same_job bm bm' \<and> table_ready bm'"
proof (cases "search_pos bm < 0")
  case True
  then show ?thesis using find_first_spec [OF assms(1)] by (simp add: find_next_def standing_def)
next
  case False
  have job: "bm_job up ci bm" "table_ready bm" using assms(1) False by (simp_all add: bm_inv_def)
  have len: "length (bm_text bm) = nat (search_length bm)" "bm_text bm = take (nat (search_length bm)) (ptr_bytes (bm_search bm))"
    using job(1) bm_ready_facts(1) by (auto simp: bm_job_def bm_text_def)
  have fwd: "nat (search_pos bm) < nat (search_length bm) \<Longrightarrow>
      U8_FWD_1 (ptr_bytes (bm_search bm)) (nat (search_pos bm)) (nat (search_length bm)) =
      U8_FWD_1 (bm_text bm) (nat (search_pos bm)) (nat (search_length bm))"
    unfolding len(2) by (rule U8_FWD_1_take [symmetric])
  have inside: "nat (search_pos bm) < nat (search_length bm)" if "bm_overlap bm"
  proof -
    have "U8_FWD_1 (bm_text bm) (nat (search_pos bm)) (length (bm_text bm)) \<le> length (bm_text bm)"
      using that assms(2) False by (simp add: standing_def next_start_def start_ok_def)
    then show ?thesis
      unfolding len(1) [symmetric] by (rule order_less_le_trans [OF U8_FWD_1_gt])
  qed
  have "find_next up bm = find_from_pos up bm (standing bm)"
    using False fwd inside len(1) by (auto simp: find_next_def standing_def next_start_def)
  moreover obtain pos where "find_from_pos up bm (standing bm) =
      Some (range_result (bm\<lparr>pattern_pos := pos\<rparr>) (spec_from up ci (bm_pat bm) (bm_text bm) (standing bm)))"
    using find_from_pos_spec [OF job assms(2)] by blast
  moreover have "same_job bm (bm\<lparr>pattern_pos := pos\<rparr>)" "table_ready (bm\<lparr>pattern_pos := pos\<rparr>)"
    using job by (simp_all add: same_job_def table_ready_def)
  ultimately show ?thesis by auto
qed

subsection \<open>Properties\<close>

text \<open>C16. All four strategies (Knuth-Morris-Pratt on bytes and on folded code points, single
  byte, short pattern) return, and find the first occurrence from the given offset, with
  the byte range of the match.\<close>

theorem search_finds_first:
  assumes "bm_job up ci bm" "table_ready bm" "start_ok ci (bm_text bm) start"
  shows "\<exists>pos. find_from_pos up bm start =
    Some (range_result (bm\<lparr>pattern_pos := pos\<rparr>) (spec_from up ci (bm_pat bm) (bm_text bm) start))"
  by (rule find_from_pos_spec [OF assms])

text \<open>A matcher for a two-byte pattern, positioned on \<open>xab\<close>.\<close>

definition sample_matcher :: byte_search_matcher where
  "sample_matcher = \<lparr>bm_strategy = Short_pattern, bm_overlap = False, search_pos = - 1, search_end = - 1,
     bm_search = Ptr 8 [0x78, 0x61, 0x62], search_length = 3, pattern_length = 2, bm_pattern = Ptr 16 [0x61, 0x62],
     kmp_next = [], pattern_pos = - 1, folded_pattern = []\<rparr>"

lemma sample_matcher_job: "bm_job up False sample_matcher" "table_ready sample_matcher" "table_fresh sample_matcher"
  by (simp_all add: sample_matcher_def bm_job_def bm_ready_def table_ready_def table_fresh_def choose_strategy_def)

lemma sample_matcher_range: "spec_from up False (bm_pat sample_matcher) (bm_text sample_matcher) 0 = Some (1, 3)"
  "spec_last up False (bm_pat sample_matcher) (bm_text sample_matcher) = Some (1, 3)"
proof -
  have "first_occ [0x61, 0x62] ([0x78, 0x61, 0x62] :: byte list) 0 = Some 1"
    "last_occ [0x61, 0x62] ([0x78, 0x61, 0x62] :: byte list) = Some 1" by code_simp+
  then show "spec_from up False (bm_pat sample_matcher) (bm_text sample_matcher) 0 = Some (1, 3)"
    "spec_last up False (bm_pat sample_matcher) (bm_text sample_matcher) = Some (1, 3)"
    by (simp_all add: spec_from_def spec_last_def bm_pat_def bm_text_def sample_matcher_def)
qed

theorem search_finds_first_witness: "map_option snd (find_from_pos (\<lambda>c. c) sample_matcher 0) = Some 1"
  using search_finds_first [OF sample_matcher_job(1,2) start_ok_0, of "\<lambda>c. c"]
  by (auto simp: sample_matcher_range range_result_def match_at_def)

text \<open>Searching from the end with a matcher that has not searched forwards yet finds
  the last occurrence, for every strategy.\<close>

lemma search_finds_last:
  assumes "bm_job up ci bm" "table_fresh bm"
  shows "\<exists>tab pos. find_last up bm =
    Some (range_result (bm\<lparr>kmp_next := tab, pattern_pos := pos\<rparr>) (spec_last up ci (bm_pat bm) (bm_text bm)))"
proof -
  note job = assms(1) [unfolded bm_job_def]
  have ready: "bm_ready bm" using job by simp
  have self: "bm\<lparr>kmp_next := kmp_next bm, pattern_pos := pattern_pos bm\<rparr> = bm" by simp
  show ?thesis
  proof (cases "bm_strategy bm")
    case Kmp
    with job have "\<not> ci" by (auto simp: choose_strategy_def)
    with Kmp assms(2) find_last_kmp_spec [OF ready, of up] show ?thesis by (simp add: find_last_def table_fresh_def)
  next
    case Kmp_case_insensitive
    with job have ci by (auto simp: choose_strategy_def split: if_splits)
    with Kmp_case_insensitive job assms(2) find_last_kmp_ci_spec [OF ready, of up] show ?thesis
      by (simp add: find_last_def table_fresh_def)
  next
    case Single_byte
    with job have "\<not> ci" "pattern_length bm = 1" by (auto simp: choose_strategy_def split: if_splits)
    with Single_byte find_last_simple_spec(2) [OF ready, of up] show ?thesis
      by (intro exI [of _ "kmp_next bm"] exI [of _ "pattern_pos bm"]) (simp add: find_last_def self)
  next
    case Short_pattern
    with job have "\<not> ci" by (auto simp: choose_strategy_def)
    with Short_pattern find_last_simple_spec(1) [OF ready, of up] show ?thesis
      by (intro exI [of _ "kmp_next bm"] exI [of _ "pattern_pos bm"]) (simp add: find_last_def self)
  qed
qed

text \<open>C37. The Knuth-Morris-Pratt table construction ends for every pattern and yields, in
  each entry, the longest proper border of that prefix.\<close>

theorem kmp_table_borders:
  assumes "m \<le> bytes"
  shows "kmp_prepare at m (kmp_fresh bytes) = Some (kmp_table at m bytes) \<and>
    kmp_table at m bytes ! 0 = - 1 \<and>
    (\<forall>j. 0 < j \<and> j \<le> m \<longrightarrow> (\<exists>b. kmp_table at m bytes ! j = int b \<and> longest (border at j) b))"
  using kmp_fresh_prepare [OF assms, of at] by (auto simp: table_entry_def)

text \<open>The pattern \<open>aabaaa\<close>.\<close>

theorem kmp_table_borders_witness:
  "kmp_prepare (nth [1, 1, 2, 1, 1, 1 :: nat]) 6 (kmp_fresh 6) = Some (kmp_table (nth [1, 1, 2, 1, 1, 1 :: nat]) 6 6) \<and>
   kmp_table (nth [1, 1, 2, 1, 1, 1 :: nat]) 6 6 ! 0 = - 1"
  using kmp_table_borders [of 6 6 "nth [1, 1, 2, 1, 1, 1 :: nat]"] by blast

end
