(* ===== verification/Fixed_Search.thy ===== *)
theory Fixed_Search
  imports Byte_Search
begin

text \<open>
  Fixed-pattern search for the string functions (\<^verbatim>\<open>src/shared/fixed_search.h\<close>,
  \<^verbatim>\<open>fixed_search.cpp\<close>): comparison at a boundary, the exact-byte fast paths, the
  reusable \<open>FixedMatcher\<close> with counting, finding and splitting, and the plan of an
  extraction.

  A call of the matcher can throw and runs the search loops of theory Byte_Search:
  its type is \<open>'a result option\<close>, None for a loop that does not end.
\<close>

definition bindR :: "'a result option \<Rightarrow> ('a \<Rightarrow> 'b result option) \<Rightarrow> 'b result option" where
  "bindR x f = (case x of None \<Rightarrow> None | Some (Inl e) \<Rightarrow> Some (Inl e) | Some (Inr a) \<Rightarrow> f a)"

lemma bindR_simps [simp]:
  "bindR (Some (Inr a)) f = f a" "bindR (Some (Inl e)) f = Some (Inl e)" "bindR None f = None"
  by (simp_all add: bindR_def)

subsection \<open>Comparison at a boundary\<close>

function starts_with_loop :: "(int \<Rightarrow> int) \<Rightarrow> byte list \<Rightarrow> nat \<Rightarrow> byte list \<Rightarrow> nat \<Rightarrow> nat \<Rightarrow> nat \<Rightarrow> bool" where
  "starts_with_loop up s n P m si pi =
     (if pi < m then
        if n \<le> si then False
        else if up (snd (U8_NEXT s si n)) \<noteq> up (snd (U8_NEXT P pi m)) then False
        else starts_with_loop up s n P m (fst (U8_NEXT s si n)) (fst (U8_NEXT P pi m))
      else True)"
  by pat_completeness auto
termination
  by (relation "measure (\<lambda>(up, s, n, P, m, si, pi). m - pi)") (auto simp: U8_NEXT_fst U8_FWD_1_gt diff_less_mono2)

definition fixed_starts_with :: "(int \<Rightarrow> int) \<Rightarrow> string_view \<Rightarrow> int \<Rightarrow> string_view \<Rightarrow> bool \<Rightarrow> bool" where
  "fixed_starts_with up subject byte_index pattern case_insensitive =
     (if byte_index < 0 \<or> sv_len subject < byte_index \<or> sv_len pattern \<le> 0 \<or>
         sv_ptr subject = NullPtr \<or> sv_ptr pattern = NullPtr then False
      else if \<not> case_insensitive then
        sv_len pattern \<le> sv_len subject - byte_index \<and>
        memcmp_eq (drop (nat byte_index) (ptr_bytes (sv_ptr subject))) (ptr_bytes (sv_ptr pattern)) (nat (sv_len pattern))
      else starts_with_loop up (ptr_bytes (sv_ptr subject)) (nat (sv_len subject))
             (ptr_bytes (sv_ptr pattern)) (nat (sv_len pattern)) (nat byte_index) 0)"

lemma U8_BACK_1_less: "0 < i \<Longrightarrow> U8_BACK_1 s 0 i < i"
  by (auto simp: U8_BACK_1_def utf8_back1SafeBody_def Let_def)

function ends_with_loop :: "(int \<Rightarrow> int) \<Rightarrow> byte list \<Rightarrow> byte list \<Rightarrow> nat \<Rightarrow> nat \<Rightarrow> bool" where
  "ends_with_loop up s P si pi =
     (if 0 < pi then
        if si \<le> 0 then False
        else if up (snd (U8_PREV s 0 si)) \<noteq> up (snd (U8_PREV P 0 pi)) then False
        else ends_with_loop up s P (fst (U8_PREV s 0 si)) (fst (U8_PREV P 0 pi))
      else True)"
  by pat_completeness auto
termination
  by (relation "measure (\<lambda>(up, s, P, si, pi). pi)") (auto simp: U8_PREV_fst U8_BACK_1_less)

declare starts_with_loop.simps [simp del] ends_with_loop.simps [simp del]

definition fixed_ends_with :: "(int \<Rightarrow> int) \<Rightarrow> string_view \<Rightarrow> int \<Rightarrow> string_view \<Rightarrow> bool \<Rightarrow> bool" where
  "fixed_ends_with up subject byte_index pattern case_insensitive =
     (if byte_index < 0 \<or> sv_len subject < byte_index \<or> sv_len pattern \<le> 0 \<or>
         sv_ptr subject = NullPtr \<or> sv_ptr pattern = NullPtr then False
      else if \<not> case_insensitive then
        sv_len pattern \<le> byte_index \<and>
        memcmp_eq (drop (nat (byte_index - sv_len pattern)) (ptr_bytes (sv_ptr subject)))
          (ptr_bytes (sv_ptr pattern)) (nat (sv_len pattern))
      else ends_with_loop up (ptr_bytes (sv_ptr subject)) (ptr_bytes (sv_ptr pattern))
             (nat byte_index) (nat (sv_len pattern)))"

subsection \<open>Exact bytes\<close>

function exact_scan :: "byte list \<Rightarrow> nat \<Rightarrow> byte list \<Rightarrow> nat \<Rightarrow> nat \<Rightarrow> nat option" where
  "exact_scan P m s last_position current =
     (if current \<le> last_position then
        (case memchr s current (P ! 0) (last_position - current + 1) of
           None \<Rightarrow> None
         | Some current' \<Rightarrow>
             if memcmp_eq (drop current' s) P m then Some current'
             else exact_scan P m s last_position (current' + 1))
      else None)"
  by pat_completeness auto
termination
  by (relation "measure (\<lambda>(P, m, s, last_position, current). Suc last_position - current)")
    (auto simp: memchr_def find_upt_Some simp del: upt_Suc)

declare exact_scan.simps [simp del]

definition find_first_exact_bytes :: "cptr \<Rightarrow> int \<Rightarrow> cptr \<Rightarrow> int \<Rightarrow> int" where
  "find_first_exact_bytes subject subject_length pattern patlen =
     (if subject = NullPtr \<or> pattern = NullPtr \<or> subject_length < patlen \<or> patlen \<le> 0 then - 1
      else if patlen = 1 then
        (case memchr (ptr_bytes subject) 0 (ptr_bytes pattern ! 0) (nat subject_length) of
           None \<Rightarrow> - 1 | Some i \<Rightarrow> int i)
      else
        (case exact_scan (ptr_bytes pattern) (nat patlen) (ptr_bytes subject) (nat (subject_length - patlen)) 0 of
           None \<Rightarrow> - 1 | Some i \<Rightarrow> int i))"

partial_function (option) count_exact_loop :: "cptr \<Rightarrow> int \<Rightarrow> cptr \<Rightarrow> int \<Rightarrow> int \<Rightarrow> int \<Rightarrow> int option" where
  "count_exact_loop subject subject_length pattern patlen offset count =
     (if offset \<le> subject_length - patlen then
        let relative = find_first_exact_bytes (ptr_add subject (nat offset)) (subject_length - offset) pattern patlen
        in if relative < 0 then Some count
           else count_exact_loop subject subject_length pattern patlen (offset + (relative + patlen)) (count + 1)
      else Some count)"

definition count_exact_bytes :: "cptr \<Rightarrow> int \<Rightarrow> cptr \<Rightarrow> int \<Rightarrow> int option" where
  "count_exact_bytes subject subject_length pattern patlen =
     (if subject = NullPtr \<or> pattern = NullPtr \<or> subject_length \<le> 0 \<or> patlen \<le> 0 then Some 0
      else count_exact_loop subject subject_length pattern patlen 0 0)"

subsection \<open>Fields of a split\<close>

type_synonym fixed_range = "int \<times> int"

datatype fixed_split_result = Split_ok | Limit_too_large

text \<open>What both split loops do with a match \<open>[start, stop)\<close>: fields and their number.\<close>

definition split_step :: "bool \<Rightarrow> int \<Rightarrow> int \<Rightarrow> fixed_range list \<times> int \<Rightarrow> fixed_range list \<times> int" where
  "split_step omit_empty start stop = (\<lambda>(flds, field_count).
     if omit_empty \<and> fst (last flds) = start then
       (butlast flds @ [(stop, snd (last flds))], field_count)
     else (butlast flds @ [(fst (last flds), start), (stop, stop)], field_count + 1))"

definition split_finish :: "bool \<Rightarrow> bool \<Rightarrow> int \<Rightarrow> int \<Rightarrow> fixed_range list \<Rightarrow> fixed_range list" where
  "split_finish omit_empty tokens_only field_limit len flds =
     (let flds = butlast flds @ [(fst (last flds), len)];
          flds = (if omit_empty \<and> fst (last flds) = snd (last flds) then butlast flds else flds)
      in if tokens_only \<and> field_limit < INT_MAX then take (nat field_limit) flds else flds)"

definition split_limits :: "int \<Rightarrow> bool \<Rightarrow> int \<times> int" where
  "split_limits n tokens_only =
     (let field_limit = (if n < 0 then INT_MAX else n)
      in (field_limit, if tokens_only \<and> field_limit < INT_MAX then field_limit + 1 else field_limit))"

function exact_split_loop ::
  "byte list \<Rightarrow> nat \<Rightarrow> byte \<Rightarrow> bool \<Rightarrow> int \<Rightarrow> nat \<Rightarrow> fixed_range list \<times> int \<Rightarrow> fixed_range list \<times> int" where
  "exact_split_loop s len delimiter omit_empty search_limit search_from st =
     (if snd st < search_limit then
        (case memchr s search_from delimiter (len - search_from) of
           None \<Rightarrow> st
         | Some start \<Rightarrow>
             exact_split_loop s len delimiter omit_empty search_limit (start + 1)
               (split_step omit_empty (int start) (int start + 1) st))
      else st)"
  by pat_completeness auto
termination
  by (relation "measure (\<lambda>(s, len, delimiter, omit_empty, search_limit, search_from, st). len - search_from)")
    (auto simp: memchr_def find_upt_Some)

declare exact_split_loop.simps [simp del]

definition split_exact_byte ::
  "string_view \<Rightarrow> byte \<Rightarrow> int \<Rightarrow> bool \<Rightarrow> bool \<Rightarrow> (fixed_split_result \<times> fixed_range list) result" where
  "split_exact_byte subject delimiter n omit_empty tokens_only =
     (if INT_MAX - 1 \<le> n then Inr (Limit_too_large, [])
      else if n = 0 then Inr (Split_ok, [])
      else if is_na subject \<or> sv_len subject < 0 \<or> (sv_ptr subject = NullPtr \<and> sv_len subject \<noteq> 0) then
        Inl (Invalid_argument ''fixed matcher requires a subject'')
      else if sv_len subject = 0 then Inr (Split_ok, [])
      else
        let (field_limit, search_limit) = split_limits n tokens_only;
            (flds, field_count) =
              exact_split_loop (ptr_bytes (sv_ptr subject)) (nat (sv_len subject)) delimiter omit_empty
                search_limit 0 ([(0, 0)], 1)
        in Inr (Split_ok, split_finish omit_empty tokens_only field_limit (sv_len subject) flds))"

subsection \<open>The reusable matcher\<close>

record fixed_search_options =
  opt_case_insensitive :: bool
  opt_overlap :: bool

record fixed_matcher =
  fm_matcher :: "byte_search_matcher option"
  fm_pattern :: cptr
  fm_pattern_length :: int
  fm_options :: fixed_search_options

definition FixedMatcher :: fixed_matcher where
  "FixedMatcher = \<lparr>fm_matcher = None, fm_pattern = NullPtr, fm_pattern_length = 0,
     fm_options = \<lparr>opt_case_insensitive = False, opt_overlap = False\<rparr>\<rparr>"

text \<open>A matcher is kept when the pattern has the same address, length and options.\<close>

definition fixed_prepare ::
  "(int \<Rightarrow> int) \<Rightarrow> fixed_matcher \<Rightarrow> string_view \<Rightarrow> fixed_search_options \<Rightarrow> fixed_matcher result" where
  "fixed_prepare up fm pattern options =
     (if is_na pattern \<or> sv_ptr pattern = NullPtr \<or> sv_len pattern \<le> 0 then
        Inl (Invalid_argument ''fixed matcher requires a pattern'')
      else if fm_matcher fm \<noteq> None \<and> ptr_eq (sv_ptr pattern) (fm_pattern fm) \<and>
          sv_len pattern = fm_pattern_length fm \<and>
          opt_case_insensitive options = opt_case_insensitive (fm_options fm) \<and>
          opt_overlap options = opt_overlap (fm_options fm) then Inr fm
      else
        bindE (ByteSearchMatcher up (sv_ptr pattern) (sv_len pattern) (opt_overlap options)
            (opt_case_insensitive options)) (\<lambda>bm.
        Inr (fm\<lparr>fm_matcher := Some bm, fm_pattern := sv_ptr pattern, fm_pattern_length := sv_len pattern,
               fm_options := options\<rparr>)))"

definition reset_subject ::
  "(int \<Rightarrow> int) \<Rightarrow> fixed_matcher \<Rightarrow> string_view \<Rightarrow> string_view \<Rightarrow> fixed_search_options
    \<Rightarrow> (fixed_matcher \<times> byte_search_matcher option) result" where
  "reset_subject up fm subject pattern options =
     (if is_na subject \<or> sv_len subject < 0 \<or> (sv_ptr subject = NullPtr \<and> sv_len subject \<noteq> 0) then
        Inl (Invalid_argument ''fixed matcher requires a subject'')
      else if sv_len subject = 0 then Inr (fm, None)
      else
        bindE (fixed_prepare up fm pattern options) (\<lambda>fm.
        bindE (matcher_reset (the (fm_matcher fm)) (sv_ptr subject) (sv_len subject)) (\<lambda>bm.
        Inr (fm\<lparr>fm_matcher := Some bm\<rparr>, Some bm))))"

text \<open>\<open>reset_subject\<close> returns false for an empty subject: the second component is then
  None, otherwise the matcher it has reset. The operations below store the matcher
  back when they have used it.\<close>

partial_function (option) count_loop ::
  "(int \<Rightarrow> int) \<Rightarrow> byte_search_matcher \<Rightarrow> int \<Rightarrow> (byte_search_matcher \<times> int) option" where
  "count_loop up bm found =
     Option.bind (find_next up bm) (\<lambda>(bm, r).
       if r = not_found then Some (bm, found) else count_loop up bm (found + 1))"

definition fixed_count ::
  "(int \<Rightarrow> int) \<Rightarrow> fixed_matcher \<Rightarrow> string_view \<Rightarrow> string_view \<Rightarrow> fixed_search_options
    \<Rightarrow> (fixed_matcher \<times> int) result option" where
  "fixed_count up fm subject pattern options =
     bindR (Some (reset_subject up fm subject pattern options)) (\<lambda>(fm, on).
       case on of
         None \<Rightarrow> Some (Inr (fm, 0))
       | Some bm \<Rightarrow> map_option (\<lambda>(bm, found). Inr (fm\<lparr>fm_matcher := Some bm\<rparr>, found)) (count_loop up bm 0))"

definition fixed_contains ::
  "(int \<Rightarrow> int) \<Rightarrow> fixed_matcher \<Rightarrow> string_view \<Rightarrow> string_view \<Rightarrow> fixed_search_options
    \<Rightarrow> (fixed_matcher \<times> bool) result option" where
  "fixed_contains up fm subject pattern options =
     bindR (Some (reset_subject up fm subject pattern options)) (\<lambda>(fm, on).
       case on of
         None \<Rightarrow> Some (Inr (fm, False))
       | Some bm \<Rightarrow> map_option (\<lambda>(bm, r). Inr (fm\<lparr>fm_matcher := Some bm\<rparr>, r \<noteq> not_found)) (find_first up bm))"

definition fixed_find_first ::
  "(int \<Rightarrow> int) \<Rightarrow> fixed_matcher \<Rightarrow> string_view \<Rightarrow> string_view \<Rightarrow> fixed_search_options
    \<Rightarrow> (fixed_matcher \<times> fixed_range option) result option" where
  "fixed_find_first up fm subject pattern options =
     bindR (Some (reset_subject up fm subject pattern options)) (\<lambda>(fm, on).
       case on of
         None \<Rightarrow> Some (Inr (fm, None))
       | Some bm \<Rightarrow> Option.bind (find_first up bm) (\<lambda>(bm, start).
           if start = not_found then Some (Inr (fm\<lparr>fm_matcher := Some bm\<rparr>, None))
           else Some (bindE (matched_length bm) (\<lambda>l.
             Inr (fm\<lparr>fm_matcher := Some bm\<rparr>, Some (start, start + l))))))"

partial_function (option) find_all_loop ::
  "(int \<Rightarrow> int) \<Rightarrow> byte_search_matcher \<Rightarrow> int \<Rightarrow> fixed_range list \<Rightarrow> (byte_search_matcher \<times> fixed_range list) result option" where
  "find_all_loop up bm start output =
     (if start = not_found then Some (Inr (bm, output))
      else case matched_length bm of
             Inl e \<Rightarrow> Some (Inl e)
           | Inr l \<Rightarrow> Option.bind (find_next up bm) (\<lambda>(bm, next).
               find_all_loop up bm next (output @ [(start, start + l)])))"

definition fixed_find_all ::
  "(int \<Rightarrow> int) \<Rightarrow> fixed_matcher \<Rightarrow> string_view \<Rightarrow> string_view \<Rightarrow> fixed_search_options
    \<Rightarrow> (fixed_matcher \<times> fixed_range list) result option" where
  "fixed_find_all up fm subject pattern options =
     bindR (Some (reset_subject up fm subject pattern options)) (\<lambda>(fm, on).
       case on of
         None \<Rightarrow> Some (Inr (fm, []))
       | Some bm \<Rightarrow> Option.bind (find_first up bm) (\<lambda>(bm, start).
           bindR (find_all_loop up bm start []) (\<lambda>(bm, output).
             Some (Inr (fm\<lparr>fm_matcher := Some bm\<rparr>, output)))))"

partial_function (option) split_loop ::
  "(int \<Rightarrow> int) \<Rightarrow> bool \<Rightarrow> int \<Rightarrow> byte_search_matcher \<Rightarrow> fixed_range list \<times> int
    \<Rightarrow> (byte_search_matcher \<times> fixed_range list) result option" where
  "split_loop up omit_empty search_limit bm st =
     (if snd st < search_limit then
        Option.bind (find_next up bm) (\<lambda>(bm, start).
          if start = not_found then Some (Inr (bm, fst st))
          else case matched_length bm of
                 Inl e \<Rightarrow> Some (Inl e)
               | Inr l \<Rightarrow> split_loop up omit_empty search_limit bm (split_step omit_empty start (start + l) st))
      else Some (Inr (bm, fst st)))"

definition fixed_split ::
  "(int \<Rightarrow> int) \<Rightarrow> fixed_matcher \<Rightarrow> string_view \<Rightarrow> string_view \<Rightarrow> fixed_search_options \<Rightarrow> int \<Rightarrow> bool \<Rightarrow> bool
    \<Rightarrow> (fixed_matcher \<times> fixed_split_result \<times> fixed_range list) result option" where
  "fixed_split up fm subject pattern options n omit_empty tokens_only =
     (if \<not> opt_case_insensitive options \<and> sv_ptr pattern \<noteq> NullPtr \<and> sv_len pattern = 1 then
        Some (bindE (split_exact_byte subject (ptr_bytes (sv_ptr pattern) ! 0) n omit_empty tokens_only)
          (\<lambda>r. Inr (fm, r)))
      else if INT_MAX - 1 \<le> n then Some (Inr (fm, Limit_too_large, []))
      else if n = 0 then Some (Inr (fm, Split_ok, []))
      else
        bindR (Some (reset_subject up fm subject pattern options)) (\<lambda>(fm, on).
          case on of
            None \<Rightarrow> Some (Inr (fm, Split_ok, []))
          | Some bm \<Rightarrow>
              let (field_limit, search_limit) = split_limits n tokens_only
              in bindR (split_loop up omit_empty search_limit bm ([(0, 0)], 1)) (\<lambda>(bm, flds).
                   Some (Inr (fm\<lparr>fm_matcher := Some bm\<rparr>, Split_ok,
                     split_finish omit_empty tokens_only field_limit (sv_len subject) flds)))))"

definition split_fixed_fields ::
  "(int \<Rightarrow> int) \<Rightarrow> fixed_matcher \<Rightarrow> string_view \<Rightarrow> string_view \<Rightarrow> fixed_search_options \<Rightarrow> int \<Rightarrow> bool \<Rightarrow> bool
    \<Rightarrow> (fixed_matcher \<times> fixed_split_result \<times> fixed_range list) result option" where
  "split_fixed_fields up fm subject pattern options n omit_empty tokens_only =
     (if \<not> opt_case_insensitive options \<and> sv_ptr pattern \<noteq> NullPtr \<and> sv_len pattern = 1 then
        Some (bindE (split_exact_byte subject (ptr_bytes (sv_ptr pattern) ! 0) n omit_empty tokens_only)
          (\<lambda>r. Inr (fm, r)))
      else fixed_split up fm subject pattern options n omit_empty tokens_only)"

subsection \<open>The plan of an extraction\<close>

record fixed_extract_row =
  row_begin :: nat
  row_count :: int
  row_forced_na :: bool

record fixed_extract_plan =
  plan_rows :: "fixed_extract_row list"
  plan_matches :: "string_view list"
  max_columns :: int
  matches_are_patterns :: bool

text \<open>The body of the loop over the output rows: matcher and plan so far.\<close>

definition extract_row ::
  "(int \<Rightarrow> int) \<Rightarrow> string_view list \<Rightarrow> string_view list \<Rightarrow> fixed_search_options \<Rightarrow> bool \<Rightarrow> nat
    \<Rightarrow> fixed_matcher \<times> fixed_extract_plan \<Rightarrow> (fixed_matcher \<times> fixed_extract_plan) result option" where
  "extract_row up subjects patterns options omit_no_match i = (\<lambda>(fm, plan).
     let pattern_index = i mod length patterns;
         subject = subjects ! (i mod length subjects);
         pattern = patterns ! pattern_index;
         begin_index = (if matches_are_patterns plan then pattern_index else length (plan_matches plan));
         finish = (\<lambda>fm matches count forced_na. Some (Inr (fm,
           plan\<lparr>plan_rows := plan_rows plan @ [\<lparr>row_begin = begin_index, row_count = count, row_forced_na = forced_na\<rparr>],
                plan_matches := matches,
                max_columns := (let width = (if forced_na then 1 else count)
                                in if max_columns plan < width then width else max_columns plan)\<rparr>)))
     in
     if is_na subject \<or> is_na pattern \<or> sv_len pattern \<le> 0 then finish fm (plan_matches plan) 0 True
     else if sv_len subject \<le> 0 then finish fm (plan_matches plan) 0 (\<not> omit_no_match)
     else if matches_are_patterns plan then
       bindR (if opt_overlap options then fixed_count up fm subject pattern options
              else map_option (\<lambda>c. Inr (fm, c))
                (count_exact_bytes (sv_ptr subject) (sv_len subject) (sv_ptr pattern) (sv_len pattern)))
         (\<lambda>(fm, count). finish fm (plan_matches plan) count (count = 0 \<and> \<not> omit_no_match))
     else
       bindR (fixed_find_all up fm subject pattern options) (\<lambda>(fm, scratch).
         let encoding = (if sv_enc subject = Enc_ascii then Enc_ascii else Enc_ascii_or_utf8);
             matches = plan_matches plan @
               map (\<lambda>(start, stop). StringView (ptr_add (sv_ptr subject) (nat start)) (stop - start) encoding) scratch;
             count = length matches - begin_index
         in if nat INT_MAX < count then Some (Inl (Length_error ''fixed extraction result is too large''))
            else finish fm matches (int count) (count = 0 \<and> \<not> omit_no_match)))"

fun extract_rows ::
  "(int \<Rightarrow> int) \<Rightarrow> string_view list \<Rightarrow> string_view list \<Rightarrow> fixed_search_options \<Rightarrow> bool \<Rightarrow> nat list
    \<Rightarrow> fixed_matcher \<times> fixed_extract_plan \<Rightarrow> (fixed_matcher \<times> fixed_extract_plan) result option" where
  "extract_rows up subjects patterns options omit_no_match [] st = Some (Inr st)"
| "extract_rows up subjects patterns options omit_no_match (i # is) st =
     bindR (extract_row up subjects patterns options omit_no_match i st)
       (extract_rows up subjects patterns options omit_no_match is)"

definition empty_plan :: "fixed_search_options \<Rightarrow> fixed_extract_plan" where
  "empty_plan options = \<lparr>plan_rows = [], plan_matches = [], max_columns = 0,
     matches_are_patterns = (\<not> opt_case_insensitive options)\<rparr>"

definition plan_fixed_extract ::
  "(int \<Rightarrow> int) \<Rightarrow> string_view list \<Rightarrow> string_view list \<Rightarrow> int \<Rightarrow> fixed_search_options \<Rightarrow> bool \<Rightarrow> fixed_matcher
    \<Rightarrow> (fixed_matcher \<times> fixed_extract_plan) result option" where
  "plan_fixed_extract up subjects patterns output_length options omit_no_match matcher =
     (if output_length \<le> 0 then Some (Inr (matcher, empty_plan options))
      else if subjects = [] \<or> patterns = [] then
        Some (Inl (Invalid_argument ''fixed extraction requires non-empty inputs''))
      else extract_rows up subjects patterns options omit_no_match [0..<nat output_length]
             (matcher, empty_plan options))"

definition plan_fixed_extract_range ::
  "(int \<Rightarrow> int) \<Rightarrow> string_view list \<Rightarrow> string_view list \<Rightarrow> int \<Rightarrow> int \<Rightarrow> fixed_search_options \<Rightarrow> bool
    \<Rightarrow> fixed_matcher \<Rightarrow> (fixed_matcher \<times> fixed_extract_plan) result option" where
  "plan_fixed_extract_range up subjects patterns begin_row end_row options omit_no_match matcher =
     (if begin_row < 0 \<or> end_row < begin_row then Some (Inl (Invalid_argument ''invalid fixed extraction range''))
      else if begin_row = end_row then Some (Inr (matcher, empty_plan options))
      else if subjects = [] \<or> patterns = [] then
        Some (Inl (Invalid_argument ''fixed extraction requires non-empty inputs''))
      else extract_rows up subjects patterns options omit_no_match [nat begin_row..<nat end_row]
             (matcher, empty_plan options))"

subsection \<open>Comparison at a boundary is an occurrence there\<close>

text \<open>The buffer behind a view holds its bytes.\<close>

lemma sv_buffer:
  assumes "sv_ok v"
  shows "nat (sv_len v) \<le> length (ptr_bytes (sv_ptr v))" "take (nat (sv_len v)) (ptr_bytes (sv_ptr v)) = sv_bytes v"
    "length (sv_bytes v) = nat (sv_len v)"
  using assms by (auto simp: sv_ok_def sv_bytes_def)

lemma u8_fold_nth: "k < u8_count s \<Longrightarrow> u8_fold up s ! k = up (snd (U8_NEXT s (u8_pos s k) (length s)))"
  by (simp add: u8_fold_def)

lemma u8_pos_end: "k \<le> u8_count s \<Longrightarrow> u8_pos s k < length s \<longleftrightarrow> k < u8_count s"
  unfolding u8_pos_def u8_count_def by (simp add: u8f.cp_pos_less_iff)

lemma starts_with_loop_spec:
  assumes S: "n \<le> length S" "take n S = s" "length s = n" and Q: "m \<le> length Q" "take m Q = P" "length P = m"
    and "k \<le> u8_count s" "j \<le> u8_count P"
  shows "starts_with_loop up S n Q m (u8_pos s k) (u8_pos P j) \<longleftrightarrow> occ (drop j (u8_fold up P)) (u8_fold up s) k"
  using assms(7,8)
proof (induction "u8_count P - j" arbitrary: j k)
  case 0
  then show ?case using u8_pos_end [of j P] Q by (subst starts_with_loop.simps) (simp add: occ_def)
next
  case (Suc d)
  let ?F = "u8_fold up P" and ?L = "u8_fold up s"
  have j: "j < u8_count P" "u8_pos P j < m" using Suc u8_pos_end [of j P] Q(3) by auto
  have F: "drop j ?F = ?F ! j # drop (Suc j) ?F" using j by (simp add: Cons_nth_drop_Suc)
  show ?case
  proof (cases "k < u8_count s")
    case False
    then show ?thesis using j F u8_pos_end [OF Suc.prems(1)] S(3)
      by (subst starts_with_loop.simps) (simp add: occ_def)
  next
    case True
    have L: "drop k ?L = ?L ! k # drop (Suc k) ?L" using True by (simp add: Cons_nth_drop_Suc)
    have pos: "\<not> n \<le> u8_pos s k" using True u8_pos_end [OF Suc.prems(1)] S(3) by simp
    have "starts_with_loop up S n Q m (u8_pos s (Suc k)) (u8_pos P (Suc j)) \<longleftrightarrow> occ (drop (Suc j) ?F) ?L (Suc k)"
      using Suc.hyps True j by (intro Suc.hyps(1)) auto
    then show ?thesis
      using j pos u8_read(1) [OF S(1,2) True] u8_read(1) [OF Q(1,2) j(1)] F L True S(3) Q(3)
      by (subst starts_with_loop.simps) (auto simp: occ_def u8_fold_nth)
  qed
qed

lemma ends_with_loop_spec:
  assumes S: "n \<le> length S" "take n S = s" "length s = n" and Q: "m \<le> length Q" "take m Q = P" "length P = m"
    and "k \<le> u8_count s" "j \<le> u8_count P"
  shows "ends_with_loop up S Q (u8_pos s k) (u8_pos P j) \<longleftrightarrow>
    j \<le> k \<and> (\<forall>i<j. u8_fold up s ! (k - j + i) = u8_fold up P ! i)"
  using assms(7,8)
proof (induction j arbitrary: k)
  case 0
  then show ?case by (subst ends_with_loop.simps) (simp add: u8_pos_bounds)
next
  case (Suc j)
  have j: "j < u8_count P" "0 < u8_pos P (Suc j)"
    using Suc.prems u8_pos_less [of 0 "Suc j" P] by (auto simp: u8_pos_bounds)
  show ?case
  proof (cases k)
    case 0
    then show ?thesis using j by (subst ends_with_loop.simps) (simp add: u8_pos_bounds)
  next
    case (Suc k')
    then have k: "k' < u8_count s" "0 < u8_pos s (Suc k')"
      using Suc.prems u8_pos_less [of 0 "Suc k'" s] by (auto simp: u8_pos_bounds)
    have "ends_with_loop up S Q (u8_pos s (Suc k')) (u8_pos P (Suc j)) \<longleftrightarrow>
        u8_fold up s ! k' = u8_fold up P ! j \<and> ends_with_loop up S Q (u8_pos s k') (u8_pos P j)"
      using j k u8_read(2) [OF S(1,2) k(1)] u8_read(2) [OF Q(1,2) j(1)] S(3) Q(3)
      by (subst ends_with_loop.simps) (simp add: u8_fold_nth)
    also have "\<dots> \<longleftrightarrow> u8_fold up s ! k' = u8_fold up P ! j \<and>
        j \<le> k' \<and> (\<forall>i<j. u8_fold up s ! (k' - j + i) = u8_fold up P ! i)"
      using Suc.IH [of k'] k j by simp
    finally show ?thesis using Suc by (auto simp: less_Suc_eq)
  qed
qed

lemma sv_args:
  assumes "sv_ok v"
  shows "sv_ptr v \<noteq> NullPtr" "0 \<le> sv_len v" "sv_bytes v \<noteq> [] \<longleftrightarrow> 0 < sv_len v" "\<not> is_na v" "sv_len v \<le> INT_MAX"
proof -
  show "sv_ptr v \<noteq> NullPtr" "0 \<le> sv_len v" "\<not> is_na v" "sv_len v \<le> INT_MAX" using assms by (simp_all add: sv_ok_def)
  have "sv_bytes v \<noteq> [] \<longleftrightarrow> 0 < nat (sv_len v)" using sv_buffer(3) [OF assms] by (cases "sv_bytes v") auto
  then show "sv_bytes v \<noteq> [] \<longleftrightarrow> 0 < sv_len v" by simp
qed

lemma memcmp_occ:
  assumes "sv_ok subject" "sv_ok pattern" "sv_bytes pattern \<noteq> []" "int i + sv_len pattern \<le> sv_len subject"
  shows "memcmp_eq (drop i (ptr_bytes (sv_ptr subject))) (ptr_bytes (sv_ptr pattern)) (nat (sv_len pattern)) \<longleftrightarrow>
    occ (sv_bytes pattern) (sv_bytes subject) i"
proof -
  note S = sv_buffer [OF assms(1)] and Q = sv_buffer [OF assms(2)]
  have "nat (sv_len pattern) \<le> nat (sv_len subject) - i" using assms(4) by linarith
  then have "take (nat (sv_len pattern)) (drop i (sv_bytes subject)) =
      take (nat (sv_len pattern)) (drop i (ptr_bytes (sv_ptr subject)))"
    unfolding S(2) [symmetric] drop_take by (simp add: min_absorb1)
  then show ?thesis using Q by (simp add: memcmp_eq_def occ_def)
qed

lemma fixed_starts_with_spec:
  assumes "sv_ok subject" "sv_ok pattern" "sv_bytes pattern \<noteq> []" "k \<le> u8_count (sv_bytes subject)"
  shows "fixed_starts_with up subject (int (u8_pos (sv_bytes subject) k)) pattern ci \<longleftrightarrow>
    (if ci then occ (u8_fold up (sv_bytes pattern)) (u8_fold up (sv_bytes subject)) k
     else occ (sv_bytes pattern) (sv_bytes subject) (u8_pos (sv_bytes subject) k))"
proof -
  let ?s = "sv_bytes subject" and ?P = "sv_bytes pattern" and ?i = "u8_pos (sv_bytes subject) k"
  note S = sv_buffer [OF assms(1)] and Q = sv_buffer [OF assms(2)]
  note args = sv_args [OF assms(1)] sv_args [OF assms(2)]
  have bound: "\<not> sv_len subject < int ?i" using u8_pos_bounds(1) [of ?s k] S(3) args(2) by linarith
  have exact: "sv_len pattern \<le> sv_len subject - int ?i \<and>
      memcmp_eq (drop ?i (ptr_bytes (sv_ptr subject))) (ptr_bytes (sv_ptr pattern)) (nat (sv_len pattern)) \<longleftrightarrow> occ ?P ?s ?i"
    using memcmp_occ [OF assms(1-3), of ?i] occ_bound [OF assms(3), of ?s ?i] S(3) Q(3) args by auto
  have len: "\<not> sv_len pattern \<le> 0" using args(8) assms(3) by simp
  have loop: "starts_with_loop up (ptr_bytes (sv_ptr subject)) (nat (sv_len subject)) (ptr_bytes (sv_ptr pattern))
      (nat (sv_len pattern)) ?i 0 \<longleftrightarrow> occ (u8_fold up ?P) (u8_fold up ?s) k"
    using starts_with_loop_spec [OF S Q assms(4), of 0] by (simp add: u8_pos_bounds)
  show ?thesis using args bound len loop exact by (simp add: fixed_starts_with_def)
qed

lemma fixed_ends_with_spec:
  assumes "sv_ok subject" "sv_ok pattern" "sv_bytes pattern \<noteq> []" "k \<le> u8_count (sv_bytes subject)"
  shows "fixed_ends_with up subject (int (u8_pos (sv_bytes subject) k)) pattern ci \<longleftrightarrow>
    (if ci then u8_count (sv_bytes pattern) \<le> k \<and>
        occ (u8_fold up (sv_bytes pattern)) (u8_fold up (sv_bytes subject)) (k - u8_count (sv_bytes pattern))
     else length (sv_bytes pattern) \<le> u8_pos (sv_bytes subject) k \<and>
        occ (sv_bytes pattern) (sv_bytes subject) (u8_pos (sv_bytes subject) k - length (sv_bytes pattern)))"
proof -
  let ?s = "sv_bytes subject" and ?P = "sv_bytes pattern" and ?i = "u8_pos (sv_bytes subject) k"
  note S = sv_buffer [OF assms(1)] and Q = sv_buffer [OF assms(2)]
  note args = sv_args [OF assms(1)] sv_args [OF assms(2)]
  have bound: "\<not> sv_len subject < int ?i" using u8_pos_bounds(1) [of ?s k] S(3) args(2) by linarith
  have len: "\<not> sv_len pattern \<le> 0" using args(8) assms(3) by simp
  have off: "nat (int ?i - sv_len pattern) = ?i - length ?P" using Q(3) len by linarith
  have exact: "sv_len pattern \<le> int ?i \<and>
      memcmp_eq (drop (nat (int ?i - sv_len pattern)) (ptr_bytes (sv_ptr subject))) (ptr_bytes (sv_ptr pattern)) (nat (sv_len pattern)) \<longleftrightarrow>
      length ?P \<le> ?i \<and> occ ?P ?s (?i - length ?P)"
    unfolding off using memcmp_occ [OF assms(1-3), of "?i - length ?P"] Q(3) bound len by auto
  have loop: "ends_with_loop up (ptr_bytes (sv_ptr subject)) (ptr_bytes (sv_ptr pattern)) ?i (nat (sv_len pattern)) \<longleftrightarrow>
      u8_count ?P \<le> k \<and> occ (u8_fold up ?P) (u8_fold up ?s) (k - u8_count ?P)"
    using ends_with_loop_spec [OF S Q assms(4), of "u8_count ?P" up] assms(4)
    by (auto simp: u8_pos_bounds Q(3) occ_iff [OF u8_fold_ne [OF assms(3)]])
  show ?thesis using args bound len loop exact by (simp add: fixed_ends_with_def)
qed

subsection \<open>The exact-byte fast paths\<close>

lemma exact_scan_short:
  assumes "0 < m" "m \<le> length Q" "n + m \<le> length s"
  shows "exact_scan Q m s n current = short_scan Q m s n current"
proof (induction "Suc n - current" arbitrary: current rule: less_induct)
  case less
  obtain m' where m': "m = Suc m'" using assms(1) by (cases m) auto
  have Q: "Q = Q ! 0 # drop 1 Q" using assms(1,2) by (cases Q) auto
  have cmp: "memcmp_eq (drop c s) Q m \<longleftrightarrow> memcmp_eq (drop (c + 1) s) (drop 1 Q) (m - 1)"
    if "s ! c = Q ! 0" "c \<le> n" for c
  proof -
    have "drop c s = s ! c # drop (Suc c) s"
      using that assms(1,3) by (intro Cons_nth_drop_Suc [symmetric]) simp
    then show ?thesis using that(1) by (subst Q) (simp add: memcmp_eq_def m')
  qed
  have hit: "s ! c = Q ! 0 \<and> current \<le> c \<and> c \<le> n"
    if "current \<le> n" "memchr s current (Q ! 0) (n - current + 1) = Some c" for c
    using that by (auto simp: memchr_def find_upt_Some less_Suc_eq_le simp del: upt_Suc)
  show ?case
  proof (cases "current \<le> n")
    case True
    show ?thesis
    proof (cases "memchr s current (Q ! 0) (n - current + 1)")
      case None
      with True show ?thesis by (simp add: exact_scan.simps [of _ _ _ _ current] short_scan.simps [of _ _ _ _ current])
    next
      case (Some c)
      note c = hit [OF True Some]
      have "exact_scan Q m s n (c + 1) = short_scan Q m s n (c + 1)" using c by (intro less) auto
      with True Some c cmp show ?thesis
        by (simp add: exact_scan.simps [of _ _ _ _ current] short_scan.simps [of _ _ _ _ current])
    qed
  qed (simp add: exact_scan.simps short_scan.simps)
qed

lemma find_first_exact_bytes_spec:
  assumes "subject \<noteq> NullPtr" "n \<le> length (ptr_bytes subject)" "pattern \<noteq> NullPtr" "0 < m" "m \<le> length (ptr_bytes pattern)"
  shows "find_first_exact_bytes subject (int n) pattern (int m) =
    (case first_occ (take m (ptr_bytes pattern)) (take n (ptr_bytes subject)) 0 of None \<Rightarrow> - 1 | Some i \<Rightarrow> int i)"
proof -
  let ?P = "take m (ptr_bytes pattern)" and ?s = "take n (ptr_bytes subject)"
  have P: "length ?P = m" "?P \<noteq> []" using assms by auto
  consider (long) "n < m" | (one) "m = 1" "1 \<le> n" | (more) "m \<le> n" "m \<noteq> 1" by linarith
  then show ?thesis
  proof cases
    case long
    then have "first_occ ?P ?s 0 = None"
      using occ_bound [OF P(2), of ?s] P(1) assms(2) by (fastforce simp: first_occ_def find_upt_None)
    with long show ?thesis by (simp add: find_first_exact_bytes_def)
  next
    case one
    have "occ ?P ?s i \<longleftrightarrow> ptr_bytes subject ! i = ptr_bytes pattern ! 0" if "i < n" for i
      using that one assms P by (auto simp: occ_iff)
    then have "memchr (ptr_bytes subject) 0 (ptr_bytes pattern ! 0) n = first_occ ?P ?s 0"
      using assms(2) unfolding memchr_def first_occ_def by (auto simp: min_absorb2 intro: find_cong)
    with one assms show ?thesis by (simp add: find_first_exact_bytes_def)
  next
    case more
    have "exact_scan (ptr_bytes pattern) m (ptr_bytes subject) (n - m) 0 = first_occ ?P ?s 0"
      using exact_scan_short [of m "ptr_bytes pattern" "n - m" "ptr_bytes subject" 0]
        short_scan_spec [of ?P n "ptr_bytes subject" "ptr_bytes pattern" 0] more assms P by simp
    moreover have "nat (int n - int m) = n - m" by simp
    ultimately show ?thesis using more assms by (simp add: find_first_exact_bytes_def)
  qed
qed

lemma all_matches_exact:
  assumes "P \<noteq> []" "start \<le> length s"
  shows "all_matches up False overlap P s start =
    (case first_occ P s start of None \<Rightarrow> []
     | Some a \<Rightarrow> (a, a + length P) # all_matches up False overlap P s (next_start overlap s (a, a + length P)))"
  using assms by (subst all_matches.simps) (auto simp: start_ok_def spec_from_def split: option.split)

lemma count_exact_loop_spec:
  assumes "subject \<noteq> NullPtr" "n \<le> length (ptr_bytes subject)" "pattern \<noteq> NullPtr" "0 < m" "m \<le> length (ptr_bytes pattern)"
    and "offset \<le> n"
  shows "count_exact_loop subject (int n) pattern (int m) (int offset) count =
    Some (count + int (length (all_matches up False False (take m (ptr_bytes pattern)) (take n (ptr_bytes subject)) offset)))"
  using assms(6)
proof (induction "n - offset" arbitrary: offset count rule: less_induct)
  case less
  let ?P = "take m (ptr_bytes pattern)" and ?s = "take n (ptr_bytes subject)"
  have P: "length ?P = m" "?P \<noteq> []" "length ?s = n" using assms by auto
  have shift: "first_occ ?P ?s offset = map_option (\<lambda>i. offset + i) (first_occ ?P (take (n - offset) (drop offset (ptr_bytes subject))) 0)"
    using first_occ_drop [of ?P ?s offset] by (simp add: drop_take)
  have bound: "a + m \<le> n \<and> offset \<le> a" if "first_occ ?P ?s offset = Some a" for a
    using that occ_bound [OF P(2), of ?s a] P by (auto simp: first_occ_def find_upt_Some)
  show ?case
  proof (cases "offset + m \<le> n")
    case False
    then have "first_occ ?P ?s offset = None" using bound by (cases "first_occ ?P ?s offset") auto
    with False show ?thesis
      using all_matches_exact [OF P(2), of offset ?s up False] less.prems P by (subst count_exact_loop.simps) simp
  next
    case True
    have len: "int n - int offset = int (n - offset)" using less.prems by simp
    have rel: "find_first_exact_bytes (ptr_add subject offset) (int n - int offset) pattern (int m) =
        (case first_occ ?P (take (n - offset) (drop offset (ptr_bytes subject))) 0 of None \<Rightarrow> - 1 | Some i \<Rightarrow> int i)"
      unfolding len using assms
      by (subst find_first_exact_bytes_spec) (auto simp: ptr_add_bytes, cases subject, auto)
    show ?thesis
    proof (cases "first_occ ?P (take (n - offset) (drop offset (ptr_bytes subject))) 0")
      case None
      then show ?thesis
        using True rel shift all_matches_exact [OF P(2), of offset ?s up False] less.prems P
        by (subst count_exact_loop.simps) simp
    next
      case (Some i)
      then have occ: "first_occ ?P ?s offset = Some (offset + i)" using shift by simp
      have step: "count_exact_loop subject (int n) pattern (int m) (int (offset + i + m)) (count + 1) =
          Some (count + 1 + int (length (all_matches up False False ?P ?s (offset + i + m))))"
        using bound [OF occ] assms(4) by (intro less.hyps) auto
      have "count_exact_loop subject (int n) pattern (int m) (int offset) count =
          count_exact_loop subject (int n) pattern (int m) (int (offset + i + m)) (count + 1)"
        using True rel Some by (subst count_exact_loop.simps) (simp add: algebra_simps)
      with step occ show ?thesis
        using all_matches_exact [OF P(2), of offset ?s up False] less.prems P by (simp add: next_start_def)
    qed
  qed
qed

lemma count_exact_bytes_spec:
  assumes "sv_ok subject" "sv_ok pattern" "sv_bytes pattern \<noteq> []"
  shows "count_exact_bytes (sv_ptr subject) (sv_len subject) (sv_ptr pattern) (sv_len pattern) =
    Some (int (length (all_matches up False False (sv_bytes pattern) (sv_bytes subject) 0)))"
proof -
  note S = sv_buffer [OF assms(1)] and Q = sv_buffer [OF assms(2)]
  note args = sv_args [OF assms(1)] sv_args [OF assms(2)]
  have len: "0 < sv_len pattern" using args(8) assms(3) by simp
  show ?thesis
  proof (cases "sv_len subject = 0")
    case True
    then have "sv_bytes subject = []" using S(3) by simp
    then show ?thesis
      using True all_matches_exact [OF assms(3), of 0 "[]" up False] by (simp add: count_exact_bytes_def first_occ_def)
  next
    case False
    have "count_exact_loop (sv_ptr subject) (int (nat (sv_len subject))) (sv_ptr pattern) (int (nat (sv_len pattern))) (int 0) 0 =
        Some (0 + int (length (all_matches up False False (take (nat (sv_len pattern)) (ptr_bytes (sv_ptr pattern)))
          (take (nat (sv_len subject)) (ptr_bytes (sv_ptr subject))) 0)))"
      using args len S(1) Q(1) by (intro count_exact_loop_spec) auto
    with False show ?thesis using args len S(2) Q(2) by (simp add: count_exact_bytes_def)
  qed
qed

subsection \<open>The matcher refines the list of all matches\<close>

text \<open>One call of \<open>find_next\<close> takes one element off the list of the remaining matches.\<close>

definition stands_before :: "(int \<Rightarrow> int) \<Rightarrow> bool \<Rightarrow> byte_search_matcher \<Rightarrow> (nat \<times> nat) list \<Rightarrow> bool" where
  "stands_before up ci bm ms \<longleftrightarrow> bm_inv up ci bm \<and> start_ok ci (bm_text bm) (standing bm) \<and>
     all_matches up ci (bm_overlap bm) (bm_pat bm) (bm_text bm) (standing bm) = ms"

definition stands_on :: "(int \<Rightarrow> int) \<Rightarrow> bool \<Rightarrow> byte_search_matcher \<Rightarrow> int \<Rightarrow> (nat \<times> nat) list \<Rightarrow> bool" where
  "stands_on up ci bm r ms \<longleftrightarrow> (case ms of [] \<Rightarrow> r = not_found
     | (a, b) # ms \<Rightarrow> r = int a \<and> a < b \<and> b \<le> length (bm_text bm) \<and>
         matched_length bm = Inr (int b - int a) \<and> stands_before up ci bm ms)"

lemma find_next_step:
  assumes "stands_before up ci bm ms"
  shows "\<exists>bm' r. find_next up bm = Some (bm', r) \<and> same_job bm bm' \<and> table_ready bm' \<and> stands_on up ci bm' r ms"
proof -
  let ?s = "bm_text bm" and ?P = "bm_pat bm" and ?ov = "bm_overlap bm"
  have inv: "bm_inv up ci bm" and ok: "start_ok ci ?s (standing bm)"
    and ms: "all_matches up ci ?ov ?P ?s (standing bm) = ms"
    using assms by (simp_all add: stands_before_def)
  have ready: "bm_ready bm" using inv by (simp add: bm_inv_def bm_job_def)
  note facts = bm_ready_facts [OF ready]
  obtain bm1 where bm1: "find_next up bm = Some (range_result bm1 (spec_from up ci ?P ?s (standing bm)))"
      "same_job bm bm1" "table_ready bm1"
    using find_next_spec [OF inv ok] by blast
  show ?thesis
  proof (cases "spec_from up ci ?P ?s (standing bm)")
    case None
    then have "ms = []" using ms ok facts(3) by (subst (asm) all_matches.simps) simp
    with None bm1 show ?thesis
      by (auto simp: range_result_def no_match_def stands_on_def same_job_def table_ready_def)
  next
    case (Some r)
    obtain a b where r: "r = (a, b)" by (cases r)
    note range = spec_from_range [OF Some [unfolded r] facts(3) ok]
    have ms': "ms = (a, b) # all_matches up ci ?ov ?P ?s (next_start ?ov ?s (a, b))"
      using ms ok facts(3) Some r by (subst (asm) all_matches.simps) simp
    define bm2 where "bm2 = fst (match_at bm1 a b)"
    have bm2: "search_pos bm2 = int a" "search_end bm2 = int b" by (simp_all add: bm2_def match_at_def)
    have same: "same_job bm bm2" "table_ready bm2"
      using bm1(2,3) by (simp_all add: bm2_def match_at_def same_job_def table_ready_def)
    note sf = same_job_facts [OF same(1)]
    have inv2: "bm_inv up ci bm2" using inv same sf by (simp add: bm_inv_def)
    have ov: "bm_overlap bm2 = ?ov" using same(1) by (simp add: same_job_def)
    have st: "standing bm2 = next_start ?ov ?s (a, b)" by (simp add: standing_def bm2 ov sf)
    have "start_ok ci ?s (next_start ?ov ?s (a, b))" using range by (simp add: next_start_def)
    moreover have "matched_length bm2 = Inr (int b - int a)"
    proof -
      have len2: "search_length bm2 = search_length bm" and ptrs: "bm_search bm2 \<noteq> NullPtr" "bm_pattern bm2 \<noteq> NullPtr"
        using same(1) ready by (simp_all add: same_job_def bm_ready_def)
      have "int b \<le> search_length bm" using range facts(1) ready by (simp add: bm_ready_def) linarith
      then show ?thesis using range ptrs by (simp add: matched_length_def matched_start_def bm2 len2)
    qed
    ultimately have "stands_on up ci bm2 (int a) ms"
      using range inv2 st ov sf by (simp add: stands_on_def stands_before_def ms')
    then show ?thesis
      using bm1(1) Some r same by (simp add: range_result_def bm2_def match_at_def)
  qed
qed

lemma stands_on_tail: "stands_on up ci bm r (x # ms) \<Longrightarrow> stands_before up ci bm ms"
  by (auto simp: stands_on_def split: prod.splits)

lemma count_loop_spec:
  "stands_before up ci bm ms \<Longrightarrow>
   \<exists>bm'. count_loop up bm found = Some (bm', found + int (length ms)) \<and> same_job bm bm' \<and> table_ready bm'"
proof (induction ms arbitrary: bm found)
  case Nil
  from find_next_step [OF Nil] show ?case by (subst count_loop.simps) (auto simp: stands_on_def)
next
  case (Cons x ms)
  obtain bm1 r where bm1: "find_next up bm = Some (bm1, r)" "same_job bm bm1" "stands_on up ci bm1 r (x # ms)"
    using find_next_step [OF Cons.prems] by blast
  obtain bm2 where "count_loop up bm1 (found + 1) = Some (bm2, found + 1 + int (length ms))" "same_job bm1 bm2" "table_ready bm2"
    using Cons.IH [OF stands_on_tail [OF bm1(3)]] by blast
  moreover have "r \<noteq> not_found" using bm1(3) by (auto simp: stands_on_def not_found_def split: prod.splits)
  ultimately show ?case
    using bm1 same_job_trans [of bm bm1 bm2] by (subst count_loop.simps) auto
qed

lemma find_all_loop_spec:
  "stands_on up ci bm r ms \<Longrightarrow> table_ready bm \<Longrightarrow>
   \<exists>bm'. find_all_loop up bm r out = Some (Inr (bm', out @ map (\<lambda>(a, b). (int a, int b)) ms)) \<and>
     same_job bm bm' \<and> table_ready bm'"
proof (induction ms arbitrary: bm r out)
  case Nil
  then show ?case by (subst find_all_loop.simps) (auto simp: stands_on_def same_job_def)
next
  case (Cons x ms)
  obtain a b where x: "x = (a, b)" by (cases x)
  have r: "r = int a" "r \<noteq> not_found" "matched_length bm = Inr (int b - int a)"
    using Cons.prems(1) x by (auto simp: stands_on_def not_found_def)
  obtain bm1 r1 where bm1: "find_next up bm = Some (bm1, r1)" "same_job bm bm1" "table_ready bm1" "stands_on up ci bm1 r1 ms"
    using find_next_step [OF stands_on_tail [OF Cons.prems(1)]] by blast
  obtain bm2 where "find_all_loop up bm1 r1 (out @ [(int a, int b)]) =
      Some (Inr (bm2, (out @ [(int a, int b)]) @ map (\<lambda>(a, b). (int a, int b)) ms))" "same_job bm1 bm2" "table_ready bm2"
    using Cons.IH [OF bm1(4,3)] by blast
  then show ?case
    using r bm1 x same_job_trans [of bm bm1 bm2] by (subst find_all_loop.simps) auto
qed

text \<open>The split loops run over the matches until the limit of fields is reached.\<close>

fun split_run :: "bool \<Rightarrow> int \<Rightarrow> (nat \<times> nat) list \<Rightarrow> fixed_range list \<times> int \<Rightarrow> fixed_range list \<times> int" where
  "split_run omit_empty limit [] st = st"
| "split_run omit_empty limit ((a, b) # ms) st =
     (if snd st < limit then split_run omit_empty limit ms (split_step omit_empty (int a) (int b) st) else st)"

lemma split_loop_spec:
  "stands_before up ci bm ms \<Longrightarrow> table_fresh bm \<or> table_ready bm \<Longrightarrow>
   \<exists>bm'. split_loop up omit limit bm st = Some (Inr (bm', fst (split_run omit limit ms st))) \<and>
     same_job bm bm' \<and> (table_fresh bm' \<or> table_ready bm')"
proof (induction ms arbitrary: bm st)
  case Nil
  from find_next_step [OF Nil(1)] Nil(2) show ?case
    by (subst split_loop.simps) (auto simp: stands_on_def same_job_def)
next
  case (Cons x ms)
  obtain a b where x: "x = (a, b)" by (cases x)
  obtain bm1 r where bm1: "find_next up bm = Some (bm1, r)" "same_job bm bm1" "table_ready bm1" "stands_on up ci bm1 r (x # ms)"
    using find_next_step [OF Cons.prems(1)] by blast
  have r: "r = int a" "r \<noteq> not_found" "matched_length bm1 = Inr (int b - int a)"
    using bm1(4) x by (auto simp: stands_on_def not_found_def)
  obtain bm2 where "split_loop up omit limit bm1 (split_step omit (int a) (int b) st) =
      Some (Inr (bm2, fst (split_run omit limit ms (split_step omit (int a) (int b) st))))" "same_job bm1 bm2"
      "table_fresh bm2 \<or> table_ready bm2"
    using Cons.IH [OF stands_on_tail [OF bm1(4)], of "split_step omit (int a) (int b) st"] bm1(3) by blast
  then show ?case
    using r bm1 x Cons.prems(2) same_job_trans [of bm bm1 bm2]
    by (subst split_loop.simps) (auto simp: same_job_def)
qed

subsection \<open>Operations of the matcher\<close>

text \<open>The kept matcher belongs to the remembered pattern and options.\<close>

definition fm_inv :: "(int \<Rightarrow> int) \<Rightarrow> fixed_matcher \<Rightarrow> bool" where
  "fm_inv up fm \<longleftrightarrow> (case fm_matcher fm of None \<Rightarrow> True
     | Some bm \<Rightarrow>
         bm_pattern bm = fm_pattern fm \<and> pattern_length bm = fm_pattern_length fm \<and>
         bm_overlap bm = opt_overlap (fm_options fm) \<and> bm_pattern bm \<noteq> NullPtr \<and> 0 < pattern_length bm \<and>
         nat (pattern_length bm) \<le> length (ptr_bytes (bm_pattern bm)) \<and>
         bm_strategy bm = choose_strategy (pattern_length bm) (opt_case_insensitive (fm_options fm)) \<and>
         (opt_case_insensitive (fm_options fm) \<longrightarrow> folded_pattern bm = u8_fold up (bm_pat bm)) \<and>
         (table_fresh bm \<or> table_ready bm))"

text \<open>Pattern bytes are borrowed: while a matcher is kept, its address still holds the
  same bytes.\<close>

definition pattern_stable :: "fixed_matcher \<Rightarrow> string_view \<Rightarrow> bool" where
  "pattern_stable fm pattern \<longleftrightarrow>
     (fm_matcher fm \<noteq> None \<and> ptr_eq (sv_ptr pattern) (fm_pattern fm) \<longrightarrow> sv_ptr pattern = fm_pattern fm)"

lemma fm_inv_init: "fm_inv up FixedMatcher" "pattern_stable FixedMatcher pattern"
  by (simp_all add: fm_inv_def FixedMatcher_def pattern_stable_def)

definition search_args_ok :: "(int \<Rightarrow> int) \<Rightarrow> fixed_matcher \<Rightarrow> string_view \<Rightarrow> string_view \<Rightarrow> bool" where
  "search_args_ok up fm subject pattern \<longleftrightarrow> fm_inv up fm \<and> pattern_stable fm pattern \<and>
     sv_ok subject \<and> sv_ok pattern \<and> sv_bytes pattern \<noteq> []"

lemma fixed_prepare_ok:
  assumes "fm_inv up fm" "pattern_stable fm pattern" "sv_ok pattern" "sv_bytes pattern \<noteq> []"
  shows "\<exists>fm' bm. fixed_prepare up fm pattern options = Inr fm' \<and> fm_inv up fm' \<and> fm_matcher fm' = Some bm \<and>
    fm_pattern fm' = sv_ptr pattern \<and> fm_pattern_length fm' = sv_len pattern \<and>
    opt_case_insensitive (fm_options fm') = opt_case_insensitive options \<and>
    opt_overlap (fm_options fm') = opt_overlap options"
proof -
  note Q = sv_buffer [OF assms(3)] and args = sv_args [OF assms(3)]
  have len: "0 < sv_len pattern" using args(3) assms(4) by simp
  show ?thesis
  proof (cases "fm_matcher fm \<noteq> None \<and> ptr_eq (sv_ptr pattern) (fm_pattern fm) \<and>
          sv_len pattern = fm_pattern_length fm \<and>
          opt_case_insensitive options = opt_case_insensitive (fm_options fm) \<and>
          opt_overlap options = opt_overlap (fm_options fm)")
    case True
    then show ?thesis using assms(1,2) args len by (auto simp: fixed_prepare_def pattern_stable_def)
  next
    case False
    let ?ci = "opt_case_insensitive options" and ?S = "choose_strategy (sv_len pattern) (opt_case_insensitive options)"
    define bm where "bm = \<lparr>bm_strategy = ?S, bm_overlap = opt_overlap options, search_pos = - 1, search_end = - 1,
        bm_search = NullPtr, search_length = 0, pattern_length = sv_len pattern, bm_pattern = sv_ptr pattern,
        kmp_next = (if ?S = Kmp \<or> ?S = Kmp_case_insensitive then kmp_fresh (nat (sv_len pattern)) else []),
        pattern_pos = - 1,
        folded_pattern = (if ?S = Kmp_case_insensitive
          then fold_codepoints up (ptr_bytes (sv_ptr pattern)) (nat (sv_len pattern)) 0 else [])\<rparr>"
    define fm' where "fm' = fm\<lparr>fm_matcher := Some bm, fm_pattern := sv_ptr pattern,
        fm_pattern_length := sv_len pattern, fm_options := options\<rparr>"
    have "ByteSearchMatcher up (sv_ptr pattern) (sv_len pattern) (opt_overlap options) ?ci = Inr bm"
      using args len by (simp add: ByteSearchMatcher_def Let_def bm_def)
    then have prep: "fixed_prepare up fm pattern options = Inr fm'"
      using False args len unfolding fixed_prepare_def if_not_P [OF False] by (simp add: fm'_def)
    have "bm_pat bm = sv_bytes pattern" using Q(2) by (simp add: bm_pat_def bm_def)
    then have "fm_inv up fm'"
      using Q args len fold_codepoints_eq [OF Q(1), of up]
      by (auto simp: fm_inv_def fm'_def bm_def table_fresh_def choose_strategy_def)
    with prep show ?thesis by (auto simp: fm'_def)
  qed
qed

lemma reset_subject_ok:
  assumes "search_args_ok up fm subject pattern" "sv_bytes subject \<noteq> []"
  shows "\<exists>fm' bm. reset_subject up fm subject pattern options = Inr (fm', Some bm) \<and> fm_inv up fm' \<and>
    fm_pattern fm' = sv_ptr pattern \<and> fm_pattern_length fm' = sv_len pattern \<and>
    (\<forall>bm'. same_job bm bm' \<longrightarrow> table_fresh bm' \<or> table_ready bm' \<longrightarrow> fm_inv up (fm'\<lparr>fm_matcher := Some bm'\<rparr>)) \<and>
    (table_fresh bm \<or> table_ready bm) \<and> search_pos bm < 0 \<and> bm_text bm = sv_bytes subject \<and>
    stands_before up (opt_case_insensitive options) bm
      (all_matches up (opt_case_insensitive options) (opt_overlap options) (sv_bytes pattern) (sv_bytes subject) 0)"
proof -
  have ok: "sv_ok subject" "sv_ok pattern" "sv_bytes pattern \<noteq> []" "fm_inv up fm" "pattern_stable fm pattern"
    using assms by (simp_all add: search_args_ok_def)
  note S = sv_buffer [OF ok(1)] and Q = sv_buffer [OF ok(2)]
  note args = sv_args [OF ok(1)] sv_args [OF ok(2)]
  obtain fm1 bm0 where fm1: "fixed_prepare up fm pattern options = Inr fm1" "fm_inv up fm1" "fm_matcher fm1 = Some bm0"
      "fm_pattern fm1 = sv_ptr pattern" "fm_pattern_length fm1 = sv_len pattern"
      "opt_case_insensitive (fm_options fm1) = opt_case_insensitive options"
      "opt_overlap (fm_options fm1) = opt_overlap options"
    using fixed_prepare_ok [OF ok(4,5,2,3)] by blast
  define bm where "bm = bm0\<lparr>bm_search := sv_ptr subject, search_length := sv_len subject, search_pos := - 1,
      search_end := - 1, pattern_pos := - 1\<rparr>"
  have reset: "matcher_reset bm0 (sv_ptr subject) (sv_len subject) = Inr bm"
    using args by (simp add: matcher_reset_def bm_def)
  have len: "sv_len subject \<noteq> 0" using args(3) assms(2) by simp
  have run: "reset_subject up fm subject pattern options = Inr (fm1\<lparr>fm_matcher := Some bm\<rparr>, Some bm)"
    using args len fm1(1,3) reset by (simp add: reset_subject_def)
  have pat: "bm_pat bm = sv_bytes pattern" and pat0: "bm_pat bm0 = sv_bytes pattern"
    using fm1(2-5) Q by (simp_all add: fm_inv_def bm_pat_def bm_def)
  have subj: "bm_text bm = sv_bytes subject" using S by (simp add: bm_text_def bm_def)
  have tabs: "table_fresh bm \<or> table_ready bm"
  proof -
    have "table_fresh bm \<longleftrightarrow> table_fresh bm0" "table_ready bm \<longleftrightarrow> table_ready bm0"
      by (simp_all add: table_fresh_def table_ready_def bm_def)
    then show ?thesis using fm1(2,3) by (simp add: fm_inv_def)
  qed
  have inv: "bm_inv up (opt_case_insensitive options) bm"
    using fm1(2-7) S Q args tabs pat pat0
    by (simp add: bm_inv_def bm_job_def bm_ready_def fm_inv_def bm_def)
  have done': "fm_inv up (fm1\<lparr>fm_matcher := Some bm'\<rparr>)"
    if "same_job bm bm'" "table_fresh bm' \<or> table_ready bm'" for bm'
    using fm1(2-7) that same_job_facts(2) [OF that(1)] pat pat0
    by (auto simp: fm_inv_def same_job_def bm_def)
  have "standing bm = 0" "bm_overlap bm = opt_overlap options"
    using fm1(2,3,7) by (simp_all add: standing_def bm_def fm_inv_def)
  then have "stands_before up (opt_case_insensitive options) bm
      (all_matches up (opt_case_insensitive options) (opt_overlap options) (sv_bytes pattern) (sv_bytes subject) 0)"
    using inv pat subj start_ok_0 by (simp add: stands_before_def)
  moreover have "fm_inv up (fm1\<lparr>fm_matcher := Some bm\<rparr>)" using done' [of bm] tabs by (simp add: same_job_def)
  ultimately show ?thesis
    using run fm1(4,5) done' tabs subj
    by (intro exI [of _ "fm1\<lparr>fm_matcher := Some bm\<rparr>"] exI [of _ bm]) (auto simp: bm_def)
qed

text \<open>What the four searching operations return; an empty subject never reaches the
  matcher and has no match.\<close>

lemma reset_subject_empty:
  assumes "sv_ok subject" "sv_bytes subject = []"
  shows "reset_subject up fm subject pattern options = Inr (fm, None)"
  using assms sv_args [OF assms(1)] by (simp add: reset_subject_def)

lemma all_matches_Nil: "all_matches up ci overlap P [] 0 = []"
proof -
  have "u8_fold up [] = []" using u8_pos_bounds(4) [of "[]"] by (simp add: u8_fold_def)
  then show ?thesis by (subst all_matches.simps) (simp add: spec_from_def first_occ_def)
qed

definition matches_of :: "(int \<Rightarrow> int) \<Rightarrow> fixed_search_options \<Rightarrow> string_view \<Rightarrow> string_view \<Rightarrow> (nat \<times> nat) list" where
  "matches_of up options pattern subject =
     all_matches up (opt_case_insensitive options) (opt_overlap options) (sv_bytes pattern) (sv_bytes subject) 0"

lemma fixed_count_spec:
  assumes "search_args_ok up fm subject pattern"
  shows "\<exists>fm'. fixed_count up fm subject pattern options = Some (Inr (fm', int (length (matches_of up options pattern subject)))) \<and>
    fm_inv up fm'"
proof (cases "sv_bytes subject = []")
  case True
  with assms show ?thesis
    by (simp add: fixed_count_def reset_subject_empty search_args_ok_def matches_of_def all_matches_Nil)
next
  case False
  obtain fm' bm where r: "reset_subject up fm subject pattern options = Inr (fm', Some bm)"
      "\<And>bm'. same_job bm bm' \<Longrightarrow> table_fresh bm' \<or> table_ready bm' \<Longrightarrow> fm_inv up (fm'\<lparr>fm_matcher := Some bm'\<rparr>)"
      "stands_before up (opt_case_insensitive options) bm (matches_of up options pattern subject)"
    using reset_subject_ok [OF assms False, of options] unfolding matches_of_def by blast
  then show ?thesis using count_loop_spec [OF r(3), of 0] by (force simp: fixed_count_def)
qed

lemma fixed_find_all_spec:
  assumes "search_args_ok up fm subject pattern"
  shows "\<exists>fm'. fixed_find_all up fm subject pattern options =
      Some (Inr (fm', map (\<lambda>(a, b). (int a, int b)) (matches_of up options pattern subject))) \<and> fm_inv up fm'"
proof (cases "sv_bytes subject = []")
  case True
  with assms show ?thesis
    by (simp add: fixed_find_all_def reset_subject_empty search_args_ok_def matches_of_def all_matches_Nil)
next
  case False
  obtain fm' bm where r: "reset_subject up fm subject pattern options = Inr (fm', Some bm)"
      "\<And>bm'. same_job bm bm' \<Longrightarrow> table_fresh bm' \<or> table_ready bm' \<Longrightarrow> fm_inv up (fm'\<lparr>fm_matcher := Some bm'\<rparr>)"
      "stands_before up (opt_case_insensitive options) bm (matches_of up options pattern subject)" "search_pos bm < 0"
    using reset_subject_ok [OF assms False, of options] unfolding matches_of_def by blast
  obtain bm1 s where bm1: "find_next up bm = Some (bm1, s)" "same_job bm bm1" "table_ready bm1"
      "stands_on up (opt_case_insensitive options) bm1 s (matches_of up options pattern subject)"
    using find_next_step [OF r(3)] by blast
  obtain bm2 where bm2: "find_all_loop up bm1 s [] =
      Some (Inr (bm2, map (\<lambda>(a, b). (int a, int b)) (matches_of up options pattern subject)))" "same_job bm1 bm2" "table_ready bm2"
    using find_all_loop_spec [OF bm1(4,3), of "[]"] by auto
  have "find_first up bm = Some (bm1, s)" using bm1(1) r(4) by (simp add: find_next_def)
  then show ?thesis
    using r(1) bm2 r(2) [OF same_job_trans [OF bm1(2) bm2(2)]] by (simp add: fixed_find_all_def)
qed

lemma fixed_find_first_spec:
  assumes "search_args_ok up fm subject pattern"
  shows "\<exists>fm'. fixed_find_first up fm subject pattern options =
      Some (Inr (fm', map_option (\<lambda>(a, b). (int a, int b)) (case matches_of up options pattern subject of [] \<Rightarrow> None | r # _ \<Rightarrow> Some r))) \<and>
      fm_inv up fm'"
    and "\<exists>fm'. fixed_contains up fm subject pattern options =
      Some (Inr (fm', matches_of up options pattern subject \<noteq> [])) \<and> fm_inv up fm'"
proof -
  let ?ms = "matches_of up options pattern subject" and ?ci = "opt_case_insensitive options"
  have "(\<exists>fm'. fixed_find_first up fm subject pattern options =
      Some (Inr (fm', map_option (\<lambda>(a, b). (int a, int b)) (case ?ms of [] \<Rightarrow> None | r # _ \<Rightarrow> Some r))) \<and> fm_inv up fm') \<and>
      (\<exists>fm'. fixed_contains up fm subject pattern options = Some (Inr (fm', ?ms \<noteq> [])) \<and> fm_inv up fm')"
  proof (cases "sv_bytes subject = []")
    case True
    with assms show ?thesis
      by (simp add: fixed_find_first_def fixed_contains_def reset_subject_empty search_args_ok_def matches_of_def all_matches_Nil)
  next
    case False
    obtain fm' bm where r: "reset_subject up fm subject pattern options = Inr (fm', Some bm)"
        "\<And>bm'. same_job bm bm' \<Longrightarrow> table_fresh bm' \<or> table_ready bm' \<Longrightarrow> fm_inv up (fm'\<lparr>fm_matcher := Some bm'\<rparr>)"
        "stands_before up ?ci bm ?ms" "search_pos bm < 0"
      using reset_subject_ok [OF assms False, of options] unfolding matches_of_def by blast
    obtain bm1 s where bm1: "find_next up bm = Some (bm1, s)" "same_job bm bm1" "table_ready bm1" "stands_on up ?ci bm1 s ?ms"
      using find_next_step [OF r(3)] by blast
    have first: "find_first up bm = Some (bm1, s)" using bm1(1) r(4) by (simp add: find_next_def)
    have fm: "fm_inv up (fm'\<lparr>fm_matcher := Some bm1\<rparr>)" using r(2) [OF bm1(2)] bm1(3) by simp
    show ?thesis
    proof (cases ?ms)
      case Nil
      then have "s = not_found" using bm1(4) by (simp add: stands_on_def)
      with Nil show ?thesis using r(1) first fm by (simp add: fixed_find_first_def fixed_contains_def)
    next
      case (Cons x ms)
      obtain a b where x: "x = (a, b)" by (cases x)
      have "s = int a" "s \<noteq> not_found" "matched_length bm1 = Inr (int b - int a)"
        using bm1(4) Cons x by (auto simp: stands_on_def not_found_def)
      with Cons x show ?thesis using r(1) first fm by (simp add: fixed_find_first_def fixed_contains_def)
    qed
  qed
  then show "\<exists>fm'. fixed_find_first up fm subject pattern options =
      Some (Inr (fm', map_option (\<lambda>(a, b). (int a, int b)) (case ?ms of [] \<Rightarrow> None | r # _ \<Rightarrow> Some r))) \<and> fm_inv up fm'"
    and "\<exists>fm'. fixed_contains up fm subject pattern options = Some (Inr (fm', ?ms \<noteq> [])) \<and> fm_inv up fm'"
    by blast+
qed

subsection \<open>Splitting\<close>

text \<open>The fields a list of matches cuts a subject of \<open>len\<close> bytes into: at most \<open>limit\<close>
  fields, the last one with the rest; with \<open>omit_empty\<close> an empty field gives way to
  the next one.\<close>

fun split_fields :: "bool \<Rightarrow> int \<Rightarrow> nat \<Rightarrow> int \<Rightarrow> (nat \<times> nat) list \<Rightarrow> nat \<Rightarrow> (nat \<times> nat) list" where
  "split_fields omit_empty limit start count [] len = [(start, len)]"
| "split_fields omit_empty limit start count ((a, b) # ms) len =
     (if count < limit then
        if omit_empty \<and> start = a then split_fields omit_empty limit b count ms len
        else (start, a) # split_fields omit_empty limit b (count + 1) ms len
      else [(start, len)])"

definition drop_empty_last :: "bool \<Rightarrow> (nat \<times> nat) list \<Rightarrow> (nat \<times> nat) list" where
  "drop_empty_last omit_empty flds = (if omit_empty \<and> fst (last flds) = snd (last flds) then butlast flds else flds)"

text \<open>What a split gives for a limit of \<open>n\<close> fields: none for 0; with \<open>tokens_only\<close> the first \<open>n\<close> of all
  fields; otherwise \<open>n\<close> fields with the rest in the last one. A negative limit is none but that of
  an \<open>int\<close>.\<close>

definition split_spec :: "int \<Rightarrow> bool \<Rightarrow> bool \<Rightarrow> (nat \<times> nat) list \<Rightarrow> nat \<Rightarrow> (nat \<times> nat) list" where
  "split_spec n omit_empty tokens_only ms len =
     (if n = 0 then []
      else
        let limit = (if n < 0 \<or> tokens_only then INT_MAX else n);
            flds = drop_empty_last omit_empty (split_fields omit_empty limit 0 1 ms len)
        in if tokens_only \<and> 0 < n then take (nat n) flds else flds)"

abbreviation int_ranges :: "(nat \<times> nat) list \<Rightarrow> fixed_range list" where
  "int_ranges \<equiv> map (\<lambda>(a, b). (int a, int b))"

lemma split_fields_ne [simp]: "split_fields omit limit start count ms len \<noteq> []"
  by (induction omit limit start count ms len rule: split_fields.induct) auto

lemma split_run_fields:
  "flds = fst (split_run omit limit ms (pre @ [(int start, e)], count)) \<Longrightarrow>
   butlast flds @ [(fst (last flds), int len)] = pre @ int_ranges (split_fields omit limit start count ms len)"
proof (induction omit limit start count ms len arbitrary: pre e flds rule: split_fields.induct)
  case (2 omit limit start count a b ms len)
  show ?case
  proof (cases "count < limit")
    case True
    show ?thesis
    proof (cases "omit \<and> start = a")
      case skip: True
      then have "flds = fst (split_run omit limit ms (pre @ [(int b, e)], count))"
        using 2(3) True by (simp add: split_step_def)
      with 2(1) [OF True skip] True skip show ?thesis by simp
    next
      case False
      then have "flds = fst (split_run omit limit ms ((pre @ [(int start, int a)]) @ [(int b, int b)], count + 1))"
        using 2(3) True by (auto simp: split_step_def)
      from 2(2) [OF True False this] True False show ?thesis by auto
    qed
  qed (use 2(3) in simp)
qed simp

lemma drop_empty_last_Cons: "xs \<noteq> [] \<Longrightarrow> drop_empty_last omit (x # xs) = x # drop_empty_last omit xs"
  by (simp add: drop_empty_last_def)

text \<open>A higher limit changes nothing before the field that takes the rest.\<close>

lemma split_fields_limit:
  assumes "count \<le> L" "L \<le> M"
  shows "take (nat (L - count)) (drop_empty_last omit (split_fields omit L start count ms len)) =
    take (nat (L - count)) (drop_empty_last omit (split_fields omit M start count ms len))"
  using assms
proof (induction omit L start count ms len rule: split_fields.induct)
  case (2 omit L start count a b ms len)
  show ?case
  proof (cases "count < L")
    case True
    have "nat (L - count) = Suc (nat (L - (count + 1)))" using True by simp
    then show ?thesis using 2 True by (cases "omit \<and> start = a") (auto simp: drop_empty_last_Cons)
  qed (use 2 in simp)
qed simp

lemma split_fields_length:
  "1 \<le> count \<Longrightarrow> count \<le> limit \<Longrightarrow> int (length (split_fields omit limit start count ms len)) \<le> limit - count + 1"
  by (induction omit limit start count ms len rule: split_fields.induct) auto

lemma split_finish_spec:
  assumes "split_limits n tokens_only = (fl, sl)" "n < INT_MAX - 1" "n \<noteq> 0"
  shows "split_finish omit tokens_only fl (int len) (fst (split_run omit sl ms ([(0, 0)], 1))) =
    int_ranges (split_spec n omit tokens_only ms len)"
proof -
  define F where "F = split_fields omit sl 0 1 ms len"
  define flds where "flds = fst (split_run omit sl ms ([(0, 0)], 1))"
  have eq: "butlast flds @ [(fst (last flds), int len)] = int_ranges F"
    using split_run_fields [of flds omit sl ms "[]" 0 0 1] by (simp add: flds_def F_def)
  have last: "last (int_ranges F) = (int (fst (last F)), int (snd (last F)))"
    by (simp add: last_map case_prod_beta F_def)
  have "split_finish omit tokens_only fl (int len) flds =
      int_ranges (if tokens_only \<and> fl < INT_MAX then take (nat fl) (drop_empty_last omit F) else drop_empty_last omit F)"
    unfolding split_finish_def Let_def eq last drop_empty_last_def by (simp add: take_map flip: map_butlast)
  moreover have "take (nat n) (drop_empty_last omit (split_fields omit (n + 1) 0 1 ms len)) =
      take (nat n) (drop_empty_last omit (split_fields omit INT_MAX 0 1 ms len))" if "0 < n"
    using split_fields_limit [of 1 "n + 1" INT_MAX omit 0 ms len] that assms(2) by simp
  ultimately show ?thesis
    using assms by (auto simp: split_spec_def split_limits_def Let_def F_def flds_def split: if_splits)
qed

lemma exact_split_loop_spec:
  assumes "n \<le> length S" "from \<le> n"
  shows "exact_split_loop S n d omit limit from st =
    split_run omit limit (all_matches up False False [d] (take n S) from) st"
  using assms(2)
proof (induction "n - from" arbitrary: "from" st rule: less_induct)
  case less
  let ?s = "take n S"
  have len: "length ?s = n" using assms(1) by simp
  have "memchr S from d (n - from) = first_occ [d] ?s from"
    unfolding memchr_def first_occ_def len using less.prems len by (auto simp: occ_iff Suc_le_eq intro!: find_cong)
  note mc = this all_matches_exact [of "[d]" "from" ?s up False, simplified len]
  show ?case
  proof (cases "first_occ [d] ?s from")
    case None
    then show ?thesis using mc less.prems by (subst exact_split_loop.simps) simp
  next
    case (Some a)
    then have a: "a < n" "from \<le> a" by (auto simp: first_occ_def find_upt_Some len)
    have "exact_split_loop S n d omit limit (a + 1) st' = split_run omit limit (all_matches up False False [d] ?s (a + 1)) st'" for st'
      using a by (intro less.hyps) auto
    then show ?thesis using Some mc less.prems a
      by (subst exact_split_loop.simps) (simp add: next_start_def add.commute)
  qed
qed

text \<open>The verdict on the limit alone.\<close>

definition split_verdict :: "int \<Rightarrow> fixed_split_result" where
  "split_verdict n = (if n \<ge> INT_MAX - 1 then Limit_too_large else Split_ok)"

lemma split_spec_zero: "split_spec 0 omit tokens_only ms len = []"
  by (simp add: split_spec_def)

lemma split_exact_byte_spec:
  assumes "sv_ok subject"
  shows "split_exact_byte subject d n omit tokens_only = Inr (split_verdict n,
    if n \<ge> INT_MAX - 1 \<or> sv_bytes subject = [] then []
    else int_ranges (split_spec n omit tokens_only (all_matches up False False [d] (sv_bytes subject) 0) (length (sv_bytes subject))))"
proof -
  note S = sv_buffer [OF assms(1)] and args = sv_args [OF assms(1)]
  obtain fl sl where lims: "split_limits n tokens_only = (fl, sl)" by (cases "split_limits n tokens_only")
  have "exact_split_loop (ptr_bytes (sv_ptr subject)) (nat (sv_len subject)) d omit sl 0 ([(0, 0)], 1) =
      split_run omit sl (all_matches up False False [d] (sv_bytes subject) 0) ([(0, 0)], 1)"
    using exact_split_loop_spec [OF S(1), of 0] S(2) by simp
  moreover have "sv_len subject = int (length (sv_bytes subject))" using S(3) args(2) by simp
  ultimately show ?thesis
    using args split_finish_spec [OF lims, of omit "length (sv_bytes subject)" "all_matches up False False [d] (sv_bytes subject) 0"]
    by (auto simp: split_exact_byte_def split_verdict_def case_prod_beta lims split_spec_zero)
qed

lemma fixed_split_spec:
  assumes "search_args_ok up fm subject pattern" "\<not> opt_overlap options"
  shows "\<exists>fm'. fixed_split up fm subject pattern options n omit tokens_only =
      Some (Inr (fm', split_verdict n, if n \<ge> INT_MAX - 1 \<or> sv_bytes subject = [] then []
        else int_ranges (split_spec n omit tokens_only (matches_of up options pattern subject) (length (sv_bytes subject))))) \<and>
    fm_inv up fm'"
proof -
  have ok: "sv_ok subject" "sv_ok pattern" "sv_bytes pattern \<noteq> []" "fm_inv up fm" using assms(1) by (simp_all add: search_args_ok_def)
  note Q = sv_buffer [OF ok(2)] and args = sv_args [OF ok(2)]
  show ?thesis
  proof (cases "\<not> opt_case_insensitive options \<and> sv_ptr pattern \<noteq> NullPtr \<and> sv_len pattern = 1")
    case True
    have "sv_bytes pattern = [ptr_bytes (sv_ptr pattern) ! 0]"
      using Q True by (cases "ptr_bytes (sv_ptr pattern)") auto
    then have "matches_of up options pattern subject = all_matches up False False [ptr_bytes (sv_ptr pattern) ! 0] (sv_bytes subject) 0"
      using True assms(2) by (simp add: matches_of_def)
    with True show ?thesis
      using split_exact_byte_spec [OF ok(1), of _ n omit tokens_only up] ok(4) by (simp add: fixed_split_def)
  next
    case general: False
    show ?thesis
    proof (cases "n \<ge> INT_MAX - 1 \<or> n = 0 \<or> sv_bytes subject = []")
      case True
      then show ?thesis using general ok by (auto simp: fixed_split_def reset_subject_empty split_verdict_def split_spec_zero)
    next
      case limits: False
      then have False: "sv_bytes subject \<noteq> []" and n: "n < INT_MAX - 1" "n \<noteq> 0" by auto
      obtain fm' bm where r: "reset_subject up fm subject pattern options = Inr (fm', Some bm)"
          "\<And>bm'. same_job bm bm' \<Longrightarrow> table_fresh bm' \<or> table_ready bm' \<Longrightarrow> fm_inv up (fm'\<lparr>fm_matcher := Some bm'\<rparr>)"
          "table_fresh bm \<or> table_ready bm"
          "stands_before up (opt_case_insensitive options) bm (matches_of up options pattern subject)"
        using reset_subject_ok [OF assms(1) False, of options] unfolding matches_of_def by blast
      obtain fl sl where lims: "split_limits n tokens_only = (fl, sl)" by (cases "split_limits n tokens_only")
      obtain bm1 where bm1: "split_loop up omit sl bm ([(0, 0)], 1) =
          Some (Inr (bm1, fst (split_run omit sl (matches_of up options pattern subject) ([(0, 0)], 1))))"
          "same_job bm bm1" "table_fresh bm1 \<or> table_ready bm1"
        using split_loop_spec [OF r(4,3), of omit sl "([(0, 0)], 1)"] by blast
      have len: "sv_len subject = int (length (sv_bytes subject))" using sv_buffer(3) [OF ok(1)] sv_args(2) [OF ok(1)] by simp
      show ?thesis
        using general n False r(1) bm1(1) r(2) [OF bm1(2,3)] len
          split_finish_spec [OF lims n, of omit "length (sv_bytes subject)" "matches_of up options pattern subject"]
        by (auto simp: fixed_split_def lims split_verdict_def)
    qed
  qed
qed

text \<open>Matches in order, each a copy of the pattern: what exact search without overlap finds.\<close>

fun match_chain :: "byte list \<Rightarrow> byte list \<Rightarrow> nat \<Rightarrow> (nat \<times> nat) list \<Rightarrow> bool" where
  "match_chain P s start [] = True"
| "match_chain P s start ((a, b) # ms) =
     (start \<le> a \<and> b = a + length P \<and> b \<le> length s \<and> slice s a b = P \<and> match_chain P s b ms)"

lemma all_matches_chain:
  assumes "P \<noteq> []" "start \<le> length s"
  shows "match_chain P s start (all_matches up False False P s start)"
  using assms(2)
proof (induction "length s - start" arbitrary: start rule: less_induct)
  case less
  show ?case
  proof (cases "first_occ P s start")
    case None
    then show ?thesis using all_matches_exact [OF assms(1) less.prems, of up False] by simp
  next
    case (Some a)
    then have a: "occ P s a" "start \<le> a" by (auto simp: first_occ_def find_upt_Some)
    note b = occ_bound [OF assms(1) a(1)]
    have "match_chain P s (a + length P) (all_matches up False False P s (a + length P))"
      using b a assms(1) by (intro less.hyps) (auto, cases P, auto)
    moreover have "slice s a (a + length P) = P" using a(1) by (simp add: slice_def occ_def)
    ultimately show ?thesis
      using all_matches_exact [OF assms(1) less.prems, of up False] Some a b by (simp add: next_start_def)
  qed
qed

lemma split_fields_join:
  "match_chain P s start ms \<Longrightarrow> start \<le> length s \<Longrightarrow>
   join_with P (map (\<lambda>(a, b). slice s a b) (split_fields False limit start count ms (length s))) = drop start s"
proof (induction False limit start count ms "length s" rule: split_fields.induct)
  case (1 limit start count)
  then show ?case by (simp add: slice_to_end)
next
  case (2 limit start count a b ms)
  show ?case
  proof (cases "count < limit")
    case True
    have c: "start \<le> a" "b = a + length P" "b \<le> length s" "slice s a b = P" "match_chain P s b ms"
      using 2(3) by auto
    have "join_with P (map (\<lambda>(a, b). slice s a b) (split_fields False limit start count ((a, b) # ms) (length s))) =
        slice s start a @ P @ drop b s"
      using 2(2) [OF True] True c by (simp add: join_with_Cons)
    also have "\<dots> = slice s start a @ slice s a b @ slice s b (length s)"
      using c by (simp add: slice_to_end)
    also have "\<dots> = slice s start (length s)"
      using c(1-3) by (metis append_assoc le_add1 order_trans slice_append)
    finally show ?thesis by (simp add: slice_to_end)
  next
    case False
    then show ?thesis by (simp add: slice_to_end)
  qed
qed

subsection \<open>Properties\<close>

text \<open>C6. Counting, finding all and finding the first match agree with one reference,
  the list of all matches: whatever was searched before with the same matcher, a call
  returns (no loop hangs, nothing is thrown) and keeps the matcher usable.\<close>

theorem fixed_matcher_finds_all:
  assumes "search_args_ok up fm subject pattern"
  shows "\<exists>fm1 fm2 fm3 fm4.
    fixed_find_all up fm subject pattern options = Some (Inr (fm1, int_ranges (matches_of up options pattern subject))) \<and>
    fixed_count up fm subject pattern options = Some (Inr (fm2, int (length (matches_of up options pattern subject)))) \<and>
    fixed_contains up fm subject pattern options = Some (Inr (fm3, matches_of up options pattern subject \<noteq> [])) \<and>
    fixed_find_first up fm subject pattern options = Some (Inr (fm4, map_option (\<lambda>(a, b). (int a, int b))
      (case matches_of up options pattern subject of [] \<Rightarrow> None | r # _ \<Rightarrow> Some r))) \<and>
    fm_inv up fm1 \<and> fm_inv up fm2 \<and> fm_inv up fm3 \<and> fm_inv up fm4"
  using fixed_find_all_spec [OF assms, of options] fixed_count_spec [OF assms, of options]
    fixed_find_first_spec [OF assms, of options] by blast

text \<open>Searching \<open>ab\<close> in \<open>abab\<close> with a new matcher.\<close>

lemma new_matcher_args:
  "e \<noteq> Enc_missing \<Longrightarrow> e' \<noteq> Enc_missing \<Longrightarrow> P \<noteq> [] \<Longrightarrow> int (length s) \<le> INT_MAX \<Longrightarrow> int (length P) \<le> INT_MAX \<Longrightarrow>
   search_args_ok up FixedMatcher (view_of a e s) (view_of b e' P)"
  by (simp add: search_args_ok_def fm_inv_init)

lemma abab_matches: "all_matches up False False [0x61, 0x62] [0x61, 0x62, 0x61, 0x62] 0 = [(0, 2), (2, 4)]"
proof -
  let ?P = "[0x61, 0x62] :: byte list" and ?s = "[0x61, 0x62, 0x61, 0x62] :: byte list"
  have "first_occ ?P ?s 0 = Some 0" "first_occ ?P ?s 2 = Some 2" "first_occ ?P ?s 4 = None" by code_simp+
  then show ?thesis
    using all_matches_exact [of ?P 0 ?s up False] all_matches_exact [of ?P 2 ?s up False]
      all_matches_exact [of ?P 4 ?s up False] by (simp add: next_start_def eval_nat_numeral)
qed

theorem fixed_matcher_finds_all_witness:
  "\<exists>fm. fixed_count (\<lambda>c. c) FixedMatcher (view_of 8 Enc_ascii [0x61, 0x62, 0x61, 0x62]) (view_of 16 Enc_ascii [0x61, 0x62])
     \<lparr>opt_case_insensitive = False, opt_overlap = False\<rparr> = Some (Inr (fm, 2))"
proof -
  have "search_args_ok (\<lambda>c. c) FixedMatcher (view_of 8 Enc_ascii [0x61, 0x62, 0x61, 0x62]) (view_of 16 Enc_ascii [0x61, 0x62])"
    by (rule new_matcher_args) (simp_all add: INT_MAX_def)
  from fixed_matcher_finds_all [OF this, of "\<lparr>opt_case_insensitive = False, opt_overlap = False\<rparr>"]
  show ?thesis by (auto simp: matches_of_def abab_matches)
qed

text \<open>C17. Splitting by an exact pattern loses nothing: the fields, joined by the pattern,
  are the subject again, and a positive limit bounds their number. A limit of 0 gives no fields,
  and one that is too large is reported and gives none. The one-byte fast path and the matcher
  both satisfy it.\<close>

theorem fixed_split_join:
  assumes "search_args_ok up fm subject pattern" "\<not> opt_overlap options" "\<not> opt_case_insensitive options"
  shows "\<exists>fm' flds. fixed_split up fm subject pattern options n False False =
      Some (Inr (fm', if n \<ge> INT_MAX - 1 then Limit_too_large else Split_ok, flds)) \<and>
    (if n = 0 \<or> n \<ge> INT_MAX - 1 then flds = []
     else join_with (sv_bytes pattern) (map (\<lambda>(a, b). slice (sv_bytes subject) (nat a) (nat b)) flds) = sv_bytes subject \<and>
       (0 < n \<longrightarrow> int (length flds) \<le> n))"
proof -
  let ?s = "sv_bytes subject" and ?P = "sv_bytes pattern" and ?l = "if n < 0 then INT_MAX else n"
  have P: "?P \<noteq> []" using assms(1) by (simp add: search_args_ok_def)
  define F where "F = split_fields False ?l 0 1 (matches_of up options pattern subject) (length ?s)"
  have "match_chain ?P ?s 0 (matches_of up options pattern subject)"
    using all_matches_chain [OF P, of 0 ?s up] assms(2,3) by (simp add: matches_of_def)
  then have join: "join_with ?P (map (\<lambda>(a, b). slice ?s a b) F) = ?s"
    unfolding F_def using split_fields_join by fastforce
  have number: "0 < n \<Longrightarrow> int (length F) \<le> n"
    using split_fields_length [of 1 n False 0 "matches_of up options pattern subject" "length ?s"] by (simp add: F_def)
  have spec: "n \<noteq> 0 \<Longrightarrow> split_spec n False False (matches_of up options pattern subject) (length ?s) = F"
    by (simp add: split_spec_def F_def drop_empty_last_def)
  have ranges: "map (\<lambda>(a, b). slice ?s (nat a) (nat b)) (int_ranges F) = map (\<lambda>(a, b). slice ?s a b) F"
    by (simp add: case_prod_beta)
  obtain fm' where run: "fixed_split up fm subject pattern options n False False =
      Some (Inr (fm', split_verdict n, if n \<ge> INT_MAX - 1 \<or> ?s = [] then []
        else int_ranges (split_spec n False False (matches_of up options pattern subject) (length ?s))))"
    using fixed_split_spec [OF assms(1,2), of n False False] by auto
  show ?thesis
  proof (cases "n = 0 \<or> n \<ge> INT_MAX - 1 \<or> ?s = []")
    case True
    then show ?thesis using run by (auto simp: split_verdict_def split_spec_zero)
  next
    case False
    have "join_with ?P (map (\<lambda>(a, b). slice ?s (nat a) (nat b)) (int_ranges F)) = ?s"
      using join unfolding ranges .
    moreover have "fixed_split up fm subject pattern options n False False = Some (Inr (fm', Split_ok, int_ranges F))"
      using run spec False by (simp add: split_verdict_def)
    ultimately show ?thesis
      using False number by (intro exI [of _ fm'] exI [of _ "int_ranges F"] conjI) (simp_all del: map_map)
  qed
qed

theorem fixed_split_join_witness:
  "\<exists>fm flds. fixed_split (\<lambda>c. c) FixedMatcher (view_of 8 Enc_ascii [0x61, 0x62, 0x61, 0x62]) (view_of 16 Enc_ascii [0x61, 0x62])
     \<lparr>opt_case_insensitive = False, opt_overlap = False\<rparr> (- 1) False False = Some (Inr (fm, Split_ok, flds)) \<and>
   join_with [0x61, 0x62] (map (\<lambda>(a, b). slice [0x61, 0x62, 0x61, 0x62] (nat a) (nat b)) flds) = [0x61, 0x62, 0x61, 0x62]"
proof -
  have "search_args_ok (\<lambda>c. c) FixedMatcher (view_of 8 Enc_ascii [0x61, 0x62, 0x61, 0x62]) (view_of 16 Enc_ascii [0x61, 0x62])"
    by (rule new_matcher_args) (simp_all add: INT_MAX_def)
  from fixed_split_join [OF this, of "\<lparr>opt_case_insensitive = False, opt_overlap = False\<rparr>" "- 1"]
  show ?thesis by (simp add: INT_MAX_def)
qed

text \<open>C23. Splitting without overlap, with every limit, \<open>omit_empty\<close> and \<open>tokens_only\<close>, cuts
  the subject as the reference \<open>split_spec\<close> does: no fields for a limit of 0 and for an empty
  subject, a report for a limit that is too large. The one-byte fast path of
  \<open>split_fixed_fields\<close> gives what the general matcher gives.\<close>

theorem split_fixed_fields_correct:
  assumes "search_args_ok up fm subject pattern" "\<not> opt_overlap options"
  shows "\<exists>fm'. split_fixed_fields up fm subject pattern options n omit_empty tokens_only =
      Some (Inr (fm', if n \<ge> INT_MAX - 1 then Limit_too_large else Split_ok,
        if n \<ge> INT_MAX - 1 \<or> sv_bytes subject = [] then []
        else int_ranges (split_spec n omit_empty tokens_only (matches_of up options pattern subject) (length (sv_bytes subject))))) \<and>
    fm_inv up fm'"
proof -
  have "split_fixed_fields up fm subject pattern options n omit_empty tokens_only =
      fixed_split up fm subject pattern options n omit_empty tokens_only"
    by (simp add: split_fixed_fields_def fixed_split_def)
  with fixed_split_spec [OF assms, of n omit_empty tokens_only] show ?thesis by (simp add: split_verdict_def)
qed

text \<open>Tokens of \<open>abab\<close> between occurrences of \<open>ab\<close>, empty ones dropped: none is left.\<close>

theorem split_fixed_fields_correct_witness:
  "\<exists>fm. split_fixed_fields (\<lambda>c. c) FixedMatcher (view_of 8 Enc_ascii [0x61, 0x62, 0x61, 0x62]) (view_of 16 Enc_ascii [0x61, 0x62])
     \<lparr>opt_case_insensitive = False, opt_overlap = False\<rparr> (- 1) True False = Some (Inr (fm, Split_ok, []))"
proof -
  have "search_args_ok (\<lambda>c. c) FixedMatcher (view_of 8 Enc_ascii [0x61, 0x62, 0x61, 0x62]) (view_of 16 Enc_ascii [0x61, 0x62])"
    by (rule new_matcher_args) (simp_all add: INT_MAX_def)
  from split_fixed_fields_correct [OF this, of "\<lparr>opt_case_insensitive = False, opt_overlap = False\<rparr>" "- 1" True False]
  show ?thesis by (auto simp: INT_MAX_def matches_of_def abab_matches split_spec_def drop_empty_last_def)
qed

text \<open>The exact-byte counting loop of the fast paths counts what the matcher counts:
  the non-overlapping occurrences from the left.\<close>

lemma count_exact_bytes_correct:
  assumes "search_args_ok up fm subject pattern" "options = \<lparr>opt_case_insensitive = False, opt_overlap = False\<rparr>"
  shows "\<exists>fm' c. fixed_count up fm subject pattern options = Some (Inr (fm', c)) \<and>
    count_exact_bytes (sv_ptr subject) (sv_len subject) (sv_ptr pattern) (sv_len pattern) = Some c"
  using fixed_count_spec [OF assms(1), of options] count_exact_bytes_spec [of subject pattern up] assms
  by (auto simp: search_args_ok_def matches_of_def)

text \<open>The comparisons at a code point boundary: \<open>fixed_starts_with\<close> holds exactly when
  the pattern occurs there, \<open>fixed_ends_with\<close> exactly when an occurrence ends there;
  by bytes, or by case-folded code points.\<close>

lemma fixed_comparison_correct:
  assumes "sv_ok subject" "sv_ok pattern" "sv_bytes pattern \<noteq> []" "k \<le> u8_count (sv_bytes subject)"
  shows "fixed_starts_with up subject (int (u8_pos (sv_bytes subject) k)) pattern ci =
      (if ci then occ (u8_fold up (sv_bytes pattern)) (u8_fold up (sv_bytes subject)) k
       else occ (sv_bytes pattern) (sv_bytes subject) (u8_pos (sv_bytes subject) k)) \<and>
    fixed_ends_with up subject (int (u8_pos (sv_bytes subject) k)) pattern ci =
      (if ci then u8_count (sv_bytes pattern) \<le> k \<and>
          occ (u8_fold up (sv_bytes pattern)) (u8_fold up (sv_bytes subject)) (k - u8_count (sv_bytes pattern))
       else length (sv_bytes pattern) \<le> u8_pos (sv_bytes subject) k \<and>
          occ (sv_bytes pattern) (sv_bytes subject) (u8_pos (sv_bytes subject) k - length (sv_bytes pattern)))"
  using fixed_starts_with_spec [OF assms] fixed_ends_with_spec [OF assms] by simp

end
