(* ===== verification/Repeat.thy ===== *)
theory Repeat
  imports Prelude
begin

text \<open>
  The repetition kernel of \<^verbatim>\<open>src/shared/repeat.cpp\<close>, used by \<open>str_dup\<close>: the size
  check and the doubling copy. The doubling loop does not end when the source is
  empty and the output is not, so it is a \<open>partial_function\<close>; the lemmas show that
  it returns for every non-empty source.
\<close>

text \<open>The result is the value stored in \<open>output_length\<close>, or \<open>None\<close> where the C++
  function returns false. \<open>n_times\<close> is the \<open>int\<close> argument \<open>times\<close>, an \<open>int\<close>, the sizes are \<open>size_t\<close>.\<close>

definition checked_repeat_size :: "nat \<Rightarrow> int \<Rightarrow> nat \<Rightarrow> nat option" where
  "checked_repeat_size source_length n_times limit =
     (if n_times \<le> 0 \<or> source_length = 0 then Some 0
      else let count = nat n_times in
        if source_length > limit div count then None
        else Some (source_length * count))"

lemma checked_repeat_size_Some:
  "checked_repeat_size n n_times limit = Some m \<longleftrightarrow> m = n * nat n_times \<and> (m \<le> limit)"
proof (cases "n_times \<le> 0 \<or> n = 0")
  case True
  then show ?thesis by (auto simp: checked_repeat_size_def)
next
  case False
  then have "n \<le> limit div nat n_times \<longleftrightarrow> n * nat n_times \<le> limit"
    by (simp add: less_eq_div_iff_mult_less_eq)
  with False show ?thesis by (auto simp: checked_repeat_size_def Let_def)
qed

lemma checked_repeat_size_None:
  "checked_repeat_size n n_times limit = None \<longleftrightarrow> limit < n * nat n_times"
proof -
  have "checked_repeat_size n n_times limit = Some (n * nat n_times) \<longleftrightarrow> n * nat n_times \<le> limit"
    by (simp add: checked_repeat_size_Some)
  then show ?thesis
    using checked_repeat_size_Some by (cases "checked_repeat_size n n_times limit") fastforce+
qed

partial_function (option) repeat_loop :: "byte list \<Rightarrow> nat \<Rightarrow> nat \<Rightarrow> byte list option" where
  "repeat_loop destination written output_length =
     (if written < output_length then
        let remaining = output_length - written;
            amount = (if written < remaining then written else remaining)
        in repeat_loop (memcpy_at destination written destination amount) (written + amount) output_length
      else Some destination)"

definition repeat_bytes :: "byte list \<Rightarrow> byte list \<Rightarrow> nat \<Rightarrow> nat \<Rightarrow> byte list option" where
  "repeat_bytes destination source source_length output_length =
     (if output_length = 0 then Some destination
      else repeat_loop (memcpy_at destination 0 source source_length) source_length output_length)"

text \<open>The bytes of a periodic output: byte \<open>i\<close> is byte \<open>i mod period\<close> of the source.\<close>

definition periodic :: "byte list \<Rightarrow> nat \<Rightarrow> byte list \<Rightarrow> bool" where
  "periodic src m buf \<longleftrightarrow> m \<le> length buf \<and> (\<forall>i < m. buf ! i = src ! (i mod length src))"

lemma periodic_double:
  assumes per: "periodic src w buf" and w: "w mod length src = 0" and "0 < w"
    and a: "a \<le> w" and fit: "w + a \<le> length buf"
  shows "periodic src (w + a) (memcpy_at buf w buf a)"
  unfolding periodic_def
proof (intro conjI allI impI)
  show "w + a \<le> length (memcpy_at buf w buf a)" using fit a by simp
  fix i assume i: "i < w + a"
  show "memcpy_at buf w buf a ! i = src ! (i mod length src)"
  proof (cases "i < w")
    case True
    with per fit show ?thesis by (simp add: periodic_def memcpy_at_def nth_append)
  next
    case False
    then have "memcpy_at buf w buf a ! i = buf ! (i - w)"
      using i fit a by (auto simp: memcpy_at_def nth_append)
    also have "\<dots> = src ! ((i - w) mod length src)"
      using per i a False by (simp add: periodic_def)
    also have "(i - w) mod length src = i mod length src"
      using w False by (metis mod_eq_0_iff_dvd dvd_minus_mod le_add_diff_inverse not_less add_0_right
          mod_add_left_eq add.left_neutral)
    finally show ?thesis .
  qed
qed

lemma repeat_loop_correct:
  assumes "periodic src w buf" "0 < w" "0 < length src" "w mod length src = 0 \<or> w = m"
    "w \<le> m" "m \<le> length buf"
  shows "\<exists>out. repeat_loop buf w m = Some out \<and> periodic src m out \<and> length out = length buf \<and>
    drop m out = drop m buf"
  using assms
proof (induction "m - w" arbitrary: buf w rule: less_induct)
  case less
  show ?case
  proof (cases "w < m")
    case False
    with less.prems have "w = m" by simp
    with less.prems show ?thesis by (simp add: repeat_loop.simps)
  next
    case True
    let ?a = "if w < m - w then w else m - w"
    let ?buf = "memcpy_at buf w buf ?a"
    have w0: "w mod length src = 0" using less.prems True by auto
    have len: "length ?buf = length buf" using less.prems True by simp
    have per: "periodic src (w + ?a) ?buf"
      using less.prems True by (intro periodic_double [OF less.prems(1) w0 less.prems(2)]) auto
    have next0: "(w + ?a) mod length src = 0 \<or> w + ?a = m"
      using w0 by (auto simp: mod_add_left_eq [symmetric])
    have "\<exists>out. repeat_loop ?buf (w + ?a) m = Some out \<and> periodic src m out \<and>
        length out = length ?buf \<and> drop m out = drop m ?buf"
      using less.hyps [of "w + ?a" ?buf] per next0 len less.prems True by auto
    moreover have "drop m ?buf = drop m buf"
      using less.prems True by (intro drop_memcpy_at) auto
    moreover have "repeat_loop buf w m = repeat_loop ?buf (w + ?a) m"
      using True by (simp add: repeat_loop.simps [of buf w m] Let_def)
    ultimately show ?thesis using len by simp
  qed
qed

lemma nth_concat_replicate:
  "i < t * length src \<Longrightarrow> concat (replicate t src) ! i = src ! (i mod length src)"
proof (induction t arbitrary: i)
  case (Suc t)
  then show ?case
    by (cases "i < length src") (auto simp: nth_append le_mod_geq)
qed simp

lemma repeat_bytes_correct:
  assumes "0 < length src" "m = length src * t" "m \<le> length dst"
  shows "repeat_bytes dst src (length src) m = Some (concat (replicate t src) @ drop m dst)"
proof (cases "t = 0")
  case True
  then show ?thesis using assms by (simp add: repeat_bytes_def)
next
  case False
  then have le: "length src \<le> m" using assms by simp
  let ?b = "memcpy_at dst 0 src (length src)"
  have "periodic src (length src) ?b"
    using le assms by (auto simp: periodic_def memcpy_at_def nth_append)
  then obtain out where out: "repeat_loop ?b (length src) m = Some out" "periodic src m out"
      "length out = length dst" "drop m out = drop m ?b"
    using repeat_loop_correct [of src "length src" ?b m] assms le by auto
  have "drop m ?b = drop m dst" using le assms(3) by (intro drop_memcpy_at) simp_all
  moreover have "take m out = concat (replicate t src)"
    using out(2) assms
    by (intro nth_equalityI) (auto simp: periodic_def length_concat sum_list_replicate
        nth_concat_replicate mult.commute)
  ultimately have "out = concat (replicate t src) @ drop m dst"
    using out(4) by (metis append_take_drop_id)
  with out(1) False assms show ?thesis by (simp add: repeat_bytes_def)
qed

subsection \<open>Properties\<close>

text \<open>The doubling loop of \<open>repeat_bytes\<close> ends and writes \<open>t\<close> copies of the source,
  leaving the rest of the destination alone.\<close>

lemma repeat_bytes_copies:
  assumes "0 < length src" "length src * t \<le> length dst"
  shows "repeat_bytes dst src (length src) (length src * t) = Some (concat (replicate t src) @ drop (length src * t) dst)"
  using assms by (intro repeat_bytes_correct) simp_all

end
