(* ===== verification/Join.thy ===== *)
theory Join
  imports Utf8_View
begin

text \<open>
  Concatenation (\<^verbatim>\<open>src/shared/join.h\<close>, \<^verbatim>\<open>join.cpp\<close>), the kernels of \<open>str_flatten\<close> and
  \<open>str_c\<close>: a planning pass computes the size, the missing-value verdict and the ASCII mark
  of the result, a writing pass fills a buffer of the planned size. The lemmas show
  that both passes agree with one specification of the joined text, so the writer
  fills the buffer exactly; the three pairs of passes interpret \<open>two_pass\<close>.

  A \<open>size_t\<close> count is a natural number; the conversion of a signed length is
  \<open>size_cast\<close>, and the subtractions from the limit are exact because the planned size
  never exceeds it (\<open>plan_fits\<close>).
\<close>

record flatten_plan =
  fp_bytes :: nat
  fp_pieces :: nat
  fp_has_na :: bool
  fp_too_large :: bool
  fp_ascii :: bool

record column =
  col_values :: "string_view list"
  col_size :: nat

definition included :: "string_view \<Rightarrow> int \<Rightarrow> bool \<Rightarrow> bool" where
  "included v na_empty omit_empty =
     (if is_na v \<and> na_empty = NA_INTEGER then False
      else if omit_empty \<and> (is_na v \<or> sv_len v = 0) then False
      else True)"

definition join_is_ascii :: "string_view \<Rightarrow> bool" where
  "join_is_ascii v =
     (if is_na v \<or> sv_enc v = Enc_ascii then True
      else if sv_enc v \<noteq> Enc_ascii_or_utf8 then False
      else list_all (\<lambda>i. \<not> ptr_bytes (sv_ptr v) ! i > 0x7f) [0..<nat (sv_len v)])"

definition add_bytes :: "flatten_plan \<Rightarrow> nat \<Rightarrow> flatten_plan" where
  "add_bytes plan bytes =
     (let limit = nat INT_MAX in
      if fp_too_large plan \<or> bytes > limit - fp_bytes plan then plan\<lparr>fp_too_large := True\<rparr>
      else plan\<lparr>fp_bytes := fp_bytes plan + bytes\<rparr>)"

definition value_at :: "column \<Rightarrow> nat \<Rightarrow> nat \<Rightarrow> string_view" where
  "value_at c row row_count =
     (if col_size c = 1 then col_values c ! 0
      else if col_size c = row_count then col_values c ! row
      else col_values c ! (row mod col_size c))"

text \<open>The output buffer with the write cursor.\<close>

type_synonym out_cursor = "byte list \<times> nat"

definition copy_bytes :: "string_view \<Rightarrow> out_cursor \<Rightarrow> out_cursor" where
  "copy_bytes v = (\<lambda>(output, cursor).
     if sv_len v \<le> 0 then (output, cursor)
     else (memcpy_at output cursor (ptr_bytes (sv_ptr v)) (nat (sv_len v)), cursor + nat (sv_len v)))"

definition empty_flatten_plan :: flatten_plan where
  "empty_flatten_plan = \<lparr>fp_bytes = 0, fp_pieces = 0, fp_has_na = False, fp_too_large = False, fp_ascii = True\<rparr>"

definition and_ascii :: "flatten_plan \<Rightarrow> string_view \<Rightarrow> flatten_plan" where
  "and_ascii plan v = plan\<lparr>fp_ascii := fp_ascii plan \<and> join_is_ascii v\<rparr>"

definition flatten_step :: "int \<Rightarrow> bool \<Rightarrow> string_view \<Rightarrow> flatten_plan \<Rightarrow> flatten_plan" where
  "flatten_step na_empty omit_empty v plan =
     (if is_na v \<and> na_empty \<noteq> NA_INTEGER \<and> na_empty = 0 then plan\<lparr>fp_has_na := True\<rparr>
      else if \<not> included v na_empty omit_empty then plan
      else
        let plan = (if \<not> is_na v then and_ascii (add_bytes plan (size_cast (sv_len v))) v else plan)
        in plan\<lparr>fp_pieces := fp_pieces plan + 1\<rparr>)"

definition plan_flatten :: "string_view list \<Rightarrow> nat \<Rightarrow> string_view option \<Rightarrow> int \<Rightarrow> bool \<Rightarrow> flatten_plan" where
  "plan_flatten values n_values separator na_empty omit_empty =
     (let plan = fold (flatten_step na_empty omit_empty) (take n_values values) empty_flatten_plan in
      case separator of None \<Rightarrow> plan
      | Some smb \<Rightarrow>
          if fp_pieces plan \<le> 1 then plan
          else
            let separator_count = fp_pieces plan - 1;
                separator_length = size_cast (sv_len smb);
                limit = nat INT_MAX;
                plan = (if separator_length > 0 \<and> separator_count > (limit - fp_bytes plan) div separator_length
                        then plan\<lparr>fp_too_large := True\<rparr>
                        else plan\<lparr>fp_bytes := fp_bytes plan + separator_count * separator_length\<rparr>)
            in and_ascii plan smb)"

definition write_flatten_step :: "string_view option \<Rightarrow> int \<Rightarrow> bool \<Rightarrow> string_view \<Rightarrow> out_cursor \<times> bool \<Rightarrow> out_cursor \<times> bool" where
  "write_flatten_step separator na_empty omit_empty v = (\<lambda>(oc, started).
     if \<not> included v na_empty omit_empty then (oc, started)
     else
       let (oc, started) =
             (if started \<and> separator \<noteq> None \<and> sv_len (the separator) > 0 then
                (let n = size_cast (sv_len (the separator))
                 in ((memcpy_at (fst oc) (snd oc) (ptr_bytes (sv_ptr (the separator))) n, snd oc + n), started))
              else if \<not> started then (oc, True)
              else (oc, started))
       in if \<not> is_na v \<and> sv_len v > 0 then
            (let n = size_cast (sv_len v)
             in ((memcpy_at (fst oc) (snd oc) (ptr_bytes (sv_ptr v)) n, snd oc + n), started))
          else (oc, started))"

definition write_flatten :: "string_view list \<Rightarrow> nat \<Rightarrow> string_view option \<Rightarrow> int \<Rightarrow> bool \<Rightarrow> byte list \<Rightarrow> byte list" where
  "write_flatten values n_values separator na_empty omit_empty output =
     fst (fst (fold (write_flatten_step separator na_empty omit_empty) (take n_values values) ((output, 0), False)))"

text \<open>The columns of one row. \<open>Inl\<close> is the plan of the early return at a missing value.\<close>

fun plan_cells :: "nat \<Rightarrow> nat \<Rightarrow> string_view \<Rightarrow> nat \<Rightarrow> column list \<Rightarrow> flatten_plan \<Rightarrow> flatten_plan + flatten_plan" where
  "plan_cells row row_count separator col [] plan = Inr plan"
| "plan_cells row row_count separator col (c # cs) plan =
     (let v = value_at c row row_count in
      if is_na v then Inl (plan\<lparr>fp_has_na := True\<rparr>)
      else
        let plan = (if col > 0 then and_ascii (add_bytes plan (size_cast (sv_len separator))) separator else plan);
            plan = and_ascii (add_bytes plan (size_cast (sv_len v))) v
        in plan_cells row row_count separator (col + 1) cs (plan\<lparr>fp_pieces := fp_pieces plan + 1\<rparr>))"

definition plan_join_row :: "column list \<Rightarrow> nat \<Rightarrow> nat \<Rightarrow> nat \<Rightarrow> string_view \<Rightarrow> flatten_plan" where
  "plan_join_row columns column_count row row_count separator =
     case_sum id id (plan_cells row row_count separator 0 (take column_count columns) empty_flatten_plan)"

fun write_cells :: "nat \<Rightarrow> nat \<Rightarrow> string_view \<Rightarrow> nat \<Rightarrow> column list \<Rightarrow> out_cursor \<Rightarrow> out_cursor" where
  "write_cells row row_count separator col [] oc = oc"
| "write_cells row row_count separator col (c # cs) oc =
     (let oc = (if col > 0 then copy_bytes separator oc else oc);
          oc = copy_bytes (value_at c row row_count) oc
      in write_cells row row_count separator (col + 1) cs oc)"

definition write_join_row :: "column list \<Rightarrow> nat \<Rightarrow> nat \<Rightarrow> nat \<Rightarrow> string_view \<Rightarrow> byte list \<Rightarrow> byte list" where
  "write_join_row columns column_count row row_count separator output =
     fst (write_cells row row_count separator 0 (take column_count columns) (output, 0))"

fun plan_rows :: "column list \<Rightarrow> nat \<Rightarrow> string_view \<Rightarrow> string_view \<Rightarrow> nat list \<Rightarrow> flatten_plan \<Rightarrow> flatten_plan" where
  "plan_rows cols row_count separator collapse [] plan = plan"
| "plan_rows cols row_count separator collapse (row # rows) plan =
     (let plan = (if row > 0 then and_ascii (add_bytes plan (size_cast (sv_len collapse))) collapse else plan) in
      case plan_cells row row_count separator 0 cols plan of
        Inl plan \<Rightarrow> plan
      | Inr plan \<Rightarrow> plan_rows cols row_count separator collapse rows plan)"

definition plan_join_all :: "column list \<Rightarrow> nat \<Rightarrow> nat \<Rightarrow> string_view \<Rightarrow> string_view \<Rightarrow> flatten_plan" where
  "plan_join_all columns column_count row_count separator collapse =
     plan_rows (take column_count columns) row_count separator collapse [0..<row_count] empty_flatten_plan"

definition write_row_step :: "column list \<Rightarrow> nat \<Rightarrow> string_view \<Rightarrow> string_view \<Rightarrow> nat \<Rightarrow> out_cursor \<Rightarrow> out_cursor" where
  "write_row_step cols row_count separator collapse row oc =
     write_cells row row_count separator 0 cols (if row > 0 then copy_bytes collapse oc else oc)"

definition write_join_all :: "column list \<Rightarrow> nat \<Rightarrow> nat \<Rightarrow> string_view \<Rightarrow> string_view \<Rightarrow> byte list \<Rightarrow> byte list" where
  "write_join_all columns column_count row_count separator collapse output =
     fst (fold (write_row_step (take column_count columns) row_count separator collapse) [0..<row_count] (output, 0))"

subsection \<open>The size of the plan\<close>

text \<open>The plan of a text of \<open>t\<close> bytes so far.\<close>

definition plan_fits :: "flatten_plan \<Rightarrow> nat \<Rightarrow> bool" where
  "plan_fits p t \<longleftrightarrow> fp_bytes p \<le> nat INT_MAX \<and> (fp_too_large p \<longleftrightarrow> t > nat INT_MAX) \<and>
     (\<not> fp_too_large p \<longrightarrow> fp_bytes p = t)"

lemma plan_fits_empty [simp]: "plan_fits empty_flatten_plan 0"
  by (simp add: plan_fits_def empty_flatten_plan_def)

lemma empty_flatten_plan_simps [simp]:
  "fp_pieces empty_flatten_plan = 0" "\<not> fp_has_na empty_flatten_plan" "fp_ascii empty_flatten_plan"
  by (simp_all add: empty_flatten_plan_def)

lemma plan_fits_add: "plan_fits p t \<Longrightarrow> plan_fits (add_bytes p b) (t + b)"
  by (auto simp: plan_fits_def add_bytes_def Let_def)

lemma plan_fits_update [simp]:
  "plan_fits (and_ascii p v) t = plan_fits p t" "plan_fits (p\<lparr>fp_pieces := k\<rparr>) t = plan_fits p t"
  "plan_fits (p\<lparr>fp_has_na := b\<rparr>) t = plan_fits p t"
  by (simp_all add: plan_fits_def and_ascii_def)

lemma add_bytes_frame [simp]:
  "fp_pieces (add_bytes p b) = fp_pieces p" "fp_has_na (add_bytes p b) = fp_has_na p"
  "fp_ascii (add_bytes p b) = fp_ascii p"
  by (simp_all add: add_bytes_def Let_def)

lemma and_ascii_frame [simp]:
  "fp_pieces (and_ascii p v) = fp_pieces p" "fp_has_na (and_ascii p v) = fp_has_na p"
  "fp_bytes (and_ascii p v) = fp_bytes p" "fp_too_large (and_ascii p v) = fp_too_large p"
  "fp_ascii (and_ascii p v) \<longleftrightarrow> fp_ascii p \<and> join_is_ascii v"
  by (simp_all add: and_ascii_def)

text \<open>The size a caller reads from a plan.\<close>

definition plan_size :: "flatten_plan \<Rightarrow> nat option" where
  "plan_size p = (if fp_too_large p then None else Some (fp_bytes p))"

lemma plan_size_fits: "plan_fits p t \<Longrightarrow> plan_size p = (if int t \<le> INT_MAX then Some t else None)"
  by (auto simp: plan_fits_def plan_size_def INT_MAX_def)

lemma size_cast_view [simp]: "sv_ok v \<Longrightarrow> size_cast (sv_len v) = length (sv_bytes v)"
  by (auto simp: sv_ok_def sv_bytes_def)

text \<open>An honest mark: the bytes behind an \<open>ascii\<close> mark are ASCII.\<close>

lemma join_is_ascii_sound:
  assumes "sv_ok v" "marked_ascii v" "join_is_ascii v"
  shows "\<forall>b\<in>set (sv_bytes v). b < 0x80"
proof
  fix b assume "b \<in> set (sv_bytes v)"
  then obtain i where i: "i < nat (sv_len v)" "b = ptr_bytes (sv_ptr v) ! i"
    by (auto simp: sv_bytes_def in_set_conv_nth)
  have "b \<le> 0x7f \<longleftrightarrow> b < 0x80"
    by (simp add: word_le_nat_alt word_less_nat_alt) arith
  with i assms \<open>b \<in> _\<close> show "b < 0x80"
    by (auto simp: join_is_ascii_def sv_ok_def marked_ascii_def list_all_iff not_less split: if_splits)
qed

text \<open>A value is a missing view or a view of readable bytes; a missing value contributes no bytes.\<close>

definition value_ok :: "string_view \<Rightarrow> bool" where
  "value_ok v \<longleftrightarrow> is_na v \<or> sv_ok v"

definition content :: "string_view \<Rightarrow> byte list" where
  "content v = (if is_na v then [] else sv_bytes v)"

subsection \<open>The writers\<close>

definition out_ok :: "byte list \<Rightarrow> byte list \<Rightarrow> out_cursor \<Rightarrow> bool" where
  "out_ok out0 txt oc \<longleftrightarrow> filled out0 (snd oc) txt (fst oc)"

lemma out_ok_start [simp]: "out_ok out0 [] (out0, 0)"
  by (simp add: out_ok_def)

lemma out_ok_all: "out_ok out0 txt oc \<Longrightarrow> length txt = length out0 \<Longrightarrow> fst oc = txt"
  by (auto simp: out_ok_def filled_def)

lemma out_ok_memcpy:
  assumes "out_ok out0 txt oc" "sv_ok v" "length txt + length (sv_bytes v) \<le> length out0"
  shows "out_ok out0 (txt @ sv_bytes v)
    (memcpy_at (fst oc) (snd oc) (ptr_bytes (sv_ptr v)) (nat (sv_len v)), snd oc + nat (sv_len v))"
  using filled_memcpy [of out0 "snd oc" "txt" "fst oc" "nat (sv_len v)" "ptr_bytes (sv_ptr v)"] assms
  by (auto simp: out_ok_def filled_def sv_ok_def sv_bytes_def)

lemma out_ok_copy:
  assumes "out_ok out0 txt oc" "sv_ok v" "length txt + length (sv_bytes v) \<le> length out0"
  shows "out_ok out0 (txt @ sv_bytes v) (copy_bytes v oc)"
  using out_ok_memcpy [OF assms] assms by (auto simp: copy_bytes_def sv_bytes_def split: prod.splits)

subsection \<open>Flattening\<close>

definition separator_text :: "string_view option \<Rightarrow> byte list" where
  "separator_text separator = (case separator of None \<Rightarrow> [] | Some v \<Rightarrow> sv_bytes v)"

definition flatten_pieces :: "int \<Rightarrow> bool \<Rightarrow> string_view list \<Rightarrow> byte list list" where
  "flatten_pieces na_empty omit_empty vs = map content (filter (\<lambda>v. included v na_empty omit_empty) vs)"

definition flatten_text :: "string_view option \<Rightarrow> int \<Rightarrow> bool \<Rightarrow> string_view list \<Rightarrow> byte list" where
  "flatten_text separator na_empty omit_empty vs = join_with (separator_text separator) (flatten_pieces na_empty omit_empty vs)"

definition flatten_valid :: "string_view option \<Rightarrow> int \<Rightarrow> string_view list \<Rightarrow> bool" where
  "flatten_valid separator na_empty vs \<longleftrightarrow> (\<forall>v\<in>set vs. value_ok v) \<and> (\<forall>v. separator = Some v \<longrightarrow> sv_ok v) \<and>
     (na_empty = 0 \<longrightarrow> (\<forall>v\<in>set vs. \<not> is_na v))"

lemma flatten_pieces_snoc:
  "flatten_pieces na omit (vs @ [v]) = flatten_pieces na omit vs @ (if included v na omit then [content v] else [])"
  by (simp add: flatten_pieces_def)

lemma flatten_steps_na:
  "fp_has_na (fold (flatten_step na omit) vs p) \<longleftrightarrow> fp_has_na p \<or> (na = 0 \<and> (\<exists>v\<in>set vs. is_na v))"
  by (induction vs arbitrary: p) (auto simp: flatten_step_def Let_def NA_INTEGER_def)

lemma flatten_step_skip:
  "na = 0 \<longrightarrow> \<not> is_na v \<Longrightarrow> \<not> included v na omit \<Longrightarrow> flatten_step na omit v p = p"
  by (auto simp: flatten_step_def)

lemma flatten_step_piece:
  assumes "na = 0 \<longrightarrow> \<not> is_na v" "included v na omit" "value_ok v" "plan_fits p t"
  shows "plan_fits (flatten_step na omit v p) (t + length (content v))"
    and "fp_pieces (flatten_step na omit v p) = fp_pieces p + 1"
    and "fp_ascii (flatten_step na omit v p) \<longleftrightarrow> fp_ascii p \<and> join_is_ascii v"
  using assms plan_fits_add [OF assms(4), of "length (sv_bytes v)"]
  by (cases "is_na v"; simp add: flatten_step_def Let_def value_ok_def content_def join_is_ascii_def)+

lemma flatten_steps:
  assumes "flatten_valid separator na vs"
    and "p = fold (flatten_step na omit) vs empty_flatten_plan"
  shows "plan_fits p (sum_list (map length (flatten_pieces na omit vs)))"
    and "fp_pieces p = length (flatten_pieces na omit vs)"
    and "fp_ascii p \<longleftrightarrow> (\<forall>v\<in>set vs. included v na omit \<longrightarrow> join_is_ascii v)"
proof -
  let ?p = "\<lambda>vs. fold (flatten_step na omit) vs empty_flatten_plan"
  have "plan_fits (?p vs) (sum_list (map length (flatten_pieces na omit vs))) \<and>
      fp_pieces (?p vs) = length (flatten_pieces na omit vs) \<and>
      (fp_ascii (?p vs) \<longleftrightarrow> (\<forall>v\<in>set vs. included v na omit \<longrightarrow> join_is_ascii v))"
    using assms(1)
  proof (induction vs rule: rev_induct)
    case (snoc v vs)
    then have "flatten_valid separator na vs" and v: "value_ok v" "na = 0 \<Longrightarrow> \<not> is_na v"
      by (auto simp: flatten_valid_def)
    with snoc.IH have IH: "plan_fits (?p vs) (sum_list (map length (flatten_pieces na omit vs)))"
      "fp_pieces (?p vs) = length (flatten_pieces na omit vs)"
      "fp_ascii (?p vs) \<longleftrightarrow> (\<forall>v\<in>set vs. included v na omit \<longrightarrow> join_is_ascii v)" by auto
    show ?case
    proof (cases "included v na omit")
      case True
      note step = flatten_step_piece [OF _ True v(1) IH(1)]
      show ?thesis
        using v(2) IH True step by (simp add: flatten_pieces_snoc) blast
    next
      case False
      then show ?thesis using IH v(2) by (simp add: flatten_pieces_snoc flatten_step_skip)
    qed
  qed (simp add: flatten_pieces_def empty_flatten_plan_def plan_fits_def INT_MAX_def)
  then show "plan_fits p (sum_list (map length (flatten_pieces na omit vs)))"
    "fp_pieces p = length (flatten_pieces na omit vs)"
    "fp_ascii p \<longleftrightarrow> (\<forall>v\<in>set vs. included v na omit \<longrightarrow> join_is_ascii v)"
    by (simp_all add: assms(2))
qed

lemma plan_fits_separators:
  assumes "plan_fits p t"
  shows "plan_fits (if 0 < k \<and> n > (nat INT_MAX - fp_bytes p) div k then p\<lparr>fp_too_large := True\<rparr>
      else p\<lparr>fp_bytes := fp_bytes p + n * k\<rparr>) (t + n * k)"
proof (cases "k = 0")
  case False
  then have "n > (nat INT_MAX - fp_bytes p) div k \<longleftrightarrow> n * k > nat INT_MAX - fp_bytes p"
    by (simp add: div_less_iff_less_mult)
  with assms False show ?thesis by (auto simp: plan_fits_def)
qed (use assms in \<open>auto simp: plan_fits_def\<close>)

lemma plan_flatten_fits:
  assumes "flatten_valid separator na vs"
  shows "plan_fits (plan_flatten vs (length vs) separator na omit) (length (flatten_text separator na omit vs))"
    and "fp_pieces (plan_flatten vs (length vs) separator na omit) = length (flatten_pieces na omit vs)"
    and "fp_ascii (plan_flatten vs (length vs) separator na omit) \<longleftrightarrow>
      (\<forall>v\<in>set vs. included v na omit \<longrightarrow> join_is_ascii v) \<and>
      (\<forall>v. separator = Some v \<and> 1 < length (flatten_pieces na omit vs) \<longrightarrow> join_is_ascii v)"
proof -
  define q where "q = fold (flatten_step na omit) vs empty_flatten_plan"
  note q = flatten_steps [OF assms q_def]
  let ?t = "sum_list (map length (flatten_pieces na omit vs))"
  have "plan_fits (plan_flatten vs (length vs) separator na omit) (length (flatten_text separator na omit vs)) \<and>
    fp_pieces (plan_flatten vs (length vs) separator na omit) = length (flatten_pieces na omit vs) \<and>
    (fp_ascii (plan_flatten vs (length vs) separator na omit) \<longleftrightarrow>
      (\<forall>v\<in>set vs. included v na omit \<longrightarrow> join_is_ascii v) \<and>
      (\<forall>v. separator = Some v \<and> 1 < length (flatten_pieces na omit vs) \<longrightarrow> join_is_ascii v))"
  proof (cases separator)
    case None
    then show ?thesis using q
      by (simp add: plan_flatten_def flatten_text_def separator_text_def length_join_with q_def [symmetric])
  next
    case (Some s)
    then have s: "sv_ok s" using assms by (simp add: flatten_valid_def)
    let ?n = "length (flatten_pieces na omit vs)"
    have len: "length (flatten_text separator na omit vs) = ?t + (?n - 1) * length (sv_bytes s)"
      by (simp add: flatten_text_def separator_text_def Some length_join_with)
    show ?thesis
    proof (cases "?n \<le> 1")
      case True
      then show ?thesis using q Some len by (auto simp: plan_flatten_def q_def [symmetric])
    next
      case False
      then show ?thesis
        using q(2,3) plan_fits_separators [OF q(1), of "length (sv_bytes s)" "?n - 1"] s
        unfolding len by (auto simp: plan_flatten_def Some q_def [symmetric] Let_def simp del: length_sv_bytes split: if_splits)
    qed
  qed
  then show "plan_fits (plan_flatten vs (length vs) separator na omit) (length (flatten_text separator na omit vs))"
    "fp_pieces (plan_flatten vs (length vs) separator na omit) = length (flatten_pieces na omit vs)"
    "fp_ascii (plan_flatten vs (length vs) separator na omit) \<longleftrightarrow>
      (\<forall>v\<in>set vs. included v na omit \<longrightarrow> join_is_ascii v) \<and>
      (\<forall>v. separator = Some v \<and> 1 < length (flatten_pieces na omit vs) \<longrightarrow> join_is_ascii v)"
    by auto
qed

lemma plan_flatten_na:
  "fp_has_na (plan_flatten vs (length vs) separator na omit) \<longleftrightarrow> na = 0 \<and> (\<exists>v\<in>set vs. is_na v)"
proof -
  have "fp_has_na (plan_flatten vs (length vs) separator na omit) \<longleftrightarrow>
      fp_has_na (fold (flatten_step na omit) vs empty_flatten_plan)"
    by (auto simp: plan_flatten_def Let_def split: option.splits)
  then show ?thesis by (simp add: flatten_steps_na empty_flatten_plan_def)
qed

lemma sv_bytes_empty: "sv_len v \<le> 0 \<Longrightarrow> sv_bytes v = []"
  by (simp add: sv_bytes_def)

lemma write_flatten_step_skip: "\<not> included v na omit \<Longrightarrow> write_flatten_step separator na omit v st = st"
  by (cases st) (simp add: write_flatten_step_def)

lemma write_flatten_step_piece:
  assumes "out_ok out0 tx oc" "value_ok v" "\<forall>s. separator = Some s \<longrightarrow> sv_ok s" "included v na omit"
    and "length tx + (if started then length (separator_text separator) else 0) + length (content v) \<le> length out0"
  shows "\<exists>oc'. write_flatten_step separator na omit v (oc, started) = (oc', True) \<and>
    out_ok out0 (tx @ (if started then separator_text separator else []) @ content v) oc'"
proof -
  define S where "S = (if started then separator_text separator else [])"
  define oc1 where "oc1 = (if started \<and> separator \<noteq> None \<and> sv_len (the separator) > 0 then
      (memcpy_at (fst oc) (snd oc) (ptr_bytes (sv_ptr (the separator))) (nat (sv_len (the separator))),
        snd oc + nat (sv_len (the separator))) else oc)"
  have 1: "out_ok out0 (tx @ S) oc1"
  proof (cases "started \<and> separator \<noteq> None \<and> sv_len (the separator) > 0")
    case True
    then obtain s where s: "separator = Some s" "sv_ok s" using assms(3) by auto
    with True show ?thesis
      using out_ok_memcpy [OF assms(1) s(2)] assms(5) by (simp add: oc1_def S_def separator_text_def)
  next
    case False
    then have "S = []"
      using sv_bytes_empty by (auto simp: S_def separator_text_def split: option.splits)
    with False show ?thesis using assms(1) unfolding oc1_def by (simp only: if_False append_Nil2)
  qed
  have len: "length (tx @ S) + length (content v) \<le> length out0" using assms(5) by (auto simp: S_def)
  have step: "write_flatten_step separator na omit v (oc, started) =
      ((if \<not> is_na v \<and> sv_len v > 0 then
         (memcpy_at (fst oc1) (snd oc1) (ptr_bytes (sv_ptr v)) (nat (sv_len v)), snd oc1 + nat (sv_len v)) else oc1), True)"
    using assms(2,3,4) by (auto simp: write_flatten_step_def oc1_def Let_def value_ok_def sv_ok_def)
  show ?thesis
  proof (cases "\<not> is_na v \<and> sv_len v > 0")
    case True
    then have v: "sv_ok v" "content v = sv_bytes v" using assms(2) by (auto simp: value_ok_def content_def)
    with len have "length (tx @ S) + length (sv_bytes v) \<le> length out0" by simp
    from out_ok_memcpy [OF 1 v(1) this] True v(2) show ?thesis
      unfolding step S_def [symmetric] by simp
  next
    case False
    then have "content v = []" using sv_bytes_empty by (auto simp: content_def)
    with 1 False show ?thesis unfolding step S_def [symmetric] by auto
  qed
qed

lemma flatten_text_snoc:
  "flatten_text separator na omit (vs @ [v]) = flatten_text separator na omit vs @
     (if included v na omit then (if flatten_pieces na omit vs \<noteq> [] then separator_text separator else []) @ content v else [])"
  by (simp add: flatten_text_def flatten_pieces_snoc join_with_snoc)

lemma write_flatten_steps:
  assumes "\<forall>v\<in>set vs. value_ok v" "\<forall>s. separator = Some s \<longrightarrow> sv_ok s"
    and "length (flatten_text separator na omit vs) \<le> length out0"
  shows "\<exists>oc. fold (write_flatten_step separator na omit) vs ((out0, 0), False) = (oc, flatten_pieces na omit vs \<noteq> []) \<and>
    out_ok out0 (flatten_text separator na omit vs) oc"
  using assms(1,3)
proof (induction vs rule: rev_induct)
  case (snoc v vs)
  from snoc.prems have vs: "\<forall>v\<in>set vs. value_ok v" "value_ok v"
      "length (flatten_text separator na omit vs) \<le> length out0"
    by (auto simp: flatten_text_snoc)
  then obtain oc where oc: "fold (write_flatten_step separator na omit) vs ((out0, 0), False) =
      (oc, flatten_pieces na omit vs \<noteq> [])" "out_ok out0 (flatten_text separator na omit vs) oc"
    using snoc.IH by auto
  show ?case
  proof (cases "included v na omit")
    case True
    have "length (flatten_text separator na omit vs) + (if flatten_pieces na omit vs \<noteq> [] then length (separator_text separator) else 0) +
        length (content v) \<le> length out0"
      using snoc.prems(2) True by (simp add: flatten_text_snoc split: if_splits)
    from write_flatten_step_piece [OF oc(2) vs(2) assms(2) True this] True show ?thesis
      by (auto simp: oc(1) flatten_text_snoc flatten_pieces_snoc)
  next
    case False
    then show ?thesis using oc
      by (simp add: write_flatten_step_skip flatten_text_snoc flatten_pieces_snoc)
  qed
qed (simp add: flatten_text_def flatten_pieces_def)

lemma write_flatten_text:
  assumes "flatten_valid separator na vs" "length out = length (flatten_text separator na omit vs)"
  shows "write_flatten vs (length vs) separator na omit out = flatten_text separator na omit vs"
proof -
  obtain oc where "fold (write_flatten_step separator na omit) vs ((out, 0), False) = (oc, flatten_pieces na omit vs \<noteq> [])"
      "out_ok out (flatten_text separator na omit vs) oc"
    using write_flatten_steps [of vs separator na omit out] assms by (auto simp: flatten_valid_def)
  with out_ok_all show ?thesis using assms(2) by (simp add: write_flatten_def)
qed

interpretation flatten: two_pass "\<lambda>(vs, separator, na, omit). flatten_valid separator na vs"
  "\<lambda>(vs, separator, na, omit). plan_size (plan_flatten vs (length vs) separator na omit)"
  "\<lambda>(vs, separator, na, omit). write_flatten vs (length vs) separator na omit"
  "\<lambda>(vs, separator, na, omit). flatten_text separator na omit vs"
  by unfold_locales (auto simp: plan_size_fits [OF plan_flatten_fits(1)] write_flatten_text)

subsection \<open>Rows\<close>

text \<open>Pieces from position \<open>col\<close> on: every piece but the first of all is preceded by the separator.\<close>

fun pieces_text :: "byte list \<Rightarrow> nat \<Rightarrow> byte list list \<Rightarrow> byte list" where
  "pieces_text S col [] = []"
| "pieces_text S col (x # xs) = (if col > 0 then S else []) @ x @ pieces_text S (col + 1) xs"

lemma pieces_text_join: "pieces_text S 0 xs = join_with S xs"
proof (cases xs)
  case (Cons x xs')
  have "pieces_text S (Suc k) ys = concat (map (\<lambda>y. S @ y) ys)" for k ys
    by (induction ys arbitrary: k) auto
  with Cons show ?thesis by (simp add: join_with_concat)
qed simp

text \<open>A separator is used when there is a piece before the last one.\<close>

definition separators_ascii :: "string_view \<Rightarrow> nat \<Rightarrow> nat \<Rightarrow> bool" where
  "separators_ascii s col n \<longleftrightarrow> n = 0 \<or> col + n \<le> 1 \<or> join_is_ascii s"

abbreviation cell_bytes :: "nat \<Rightarrow> nat \<Rightarrow> column \<Rightarrow> byte list" where
  "cell_bytes row row_count c \<equiv> sv_bytes (value_at c row row_count)"

lemma plan_cells_na:
  "(\<exists>c\<in>set cs. is_na (value_at c row rc)) \<Longrightarrow> \<exists>q. plan_cells row rc s col cs p = Inl q \<and> fp_has_na q"
  by (induction cs arbitrary: col p) (auto simp: Let_def)

lemma plan_cells_ok:
  assumes "\<forall>c\<in>set cs. sv_ok (value_at c row rc)" "sv_ok s" "plan_fits p t"
  shows "\<exists>q. plan_cells row rc s col cs p = Inr q \<and>
    plan_fits q (t + length (pieces_text (sv_bytes s) col (map (cell_bytes row rc) cs))) \<and>
    fp_has_na q = fp_has_na p \<and> fp_pieces q = fp_pieces p + length cs \<and>
    (fp_ascii q \<longleftrightarrow> fp_ascii p \<and> (\<forall>c\<in>set cs. join_is_ascii (value_at c row rc)) \<and> separators_ascii s col (length cs))"
  using assms
proof (induction cs arbitrary: col p t)
  case (Cons c cs)
  let ?v = "value_at c row rc"
  have v: "sv_ok ?v" "\<not> is_na ?v" using Cons.prems by (auto simp: sv_ok_def)
  define p1 where "p1 = (if col > 0 then and_ascii (add_bytes p (size_cast (sv_len s))) s else p)"
  define t1 where "t1 = t + (if col > 0 then length (sv_bytes s) else 0)"
  have "plan_fits p1 t1"
    using Cons.prems plan_fits_add [of p t] by (simp add: p1_def t1_def del: length_sv_bytes)
  then have 2: "plan_fits (and_ascii (add_bytes p1 (size_cast (sv_len ?v))) ?v) (t1 + length (sv_bytes ?v))"
    using v(1) plan_fits_add [of p1 t1] by (simp del: length_sv_bytes)
  let ?p2 = "and_ascii (add_bytes p1 (size_cast (sv_len ?v))) ?v"
  have "plan_cells row rc s col (c # cs) p = plan_cells row rc s (col + 1) cs (?p2\<lparr>fp_pieces := fp_pieces ?p2 + 1\<rparr>)"
    using v(2) by (simp add: p1_def Let_def)
  moreover have "plan_fits (?p2\<lparr>fp_pieces := fp_pieces ?p2 + 1\<rparr>) (t1 + length (sv_bytes ?v))" using 2 by simp
  moreover have "fp_ascii p1 \<longleftrightarrow> fp_ascii p \<and> (col > 0 \<longrightarrow> join_is_ascii s)" "fp_has_na p1 = fp_has_na p"
      "fp_pieces p1 = fp_pieces p"
    by (simp_all add: p1_def)
  ultimately show ?case
    using Cons.IH [of "?p2\<lparr>fp_pieces := fp_pieces ?p2 + 1\<rparr>" "t1 + length (sv_bytes ?v)" "col + 1"] Cons.prems(1,2)
    by (auto simp: t1_def separators_ascii_def add.assoc simp del: length_sv_bytes)
qed (simp add: separators_ascii_def)

lemma write_cells_ok:
  assumes "\<forall>c\<in>set cs. sv_ok (value_at c row rc)" "sv_ok s" "out_ok out0 tx oc"
    and "length tx + length (pieces_text (sv_bytes s) col (map (cell_bytes row rc) cs)) \<le> length out0"
  shows "out_ok out0 (tx @ pieces_text (sv_bytes s) col (map (cell_bytes row rc) cs)) (write_cells row rc s col cs oc)"
  using assms
proof (induction cs arbitrary: col tx oc)
  case (Cons c cs)
  define S where "S = (if col > 0 then sv_bytes s else [])"
  let ?v = "value_at c row rc"
  have v: "sv_ok ?v" using Cons.prems by simp
  have fit: "length tx + length S + length (sv_bytes ?v) + length (pieces_text (sv_bytes s) (col + 1) (map (cell_bytes row rc) cs)) \<le> length out0"
    using Cons.prems(4) by (simp add: S_def del: length_sv_bytes)
  have "out_ok out0 (tx @ S) (if col > 0 then copy_bytes s oc else oc)"
    using Cons.prems fit out_ok_copy [OF Cons.prems(3,2)] by (auto simp: S_def simp del: length_sv_bytes)
  then have "out_ok out0 ((tx @ S) @ sv_bytes ?v) (copy_bytes ?v (if col > 0 then copy_bytes s oc else oc))"
    using fit v by (intro out_ok_copy) (simp_all del: length_sv_bytes)
  from Cons.IH [OF _ Cons.prems(2) this, of "col + 1"] Cons.prems(1) fit show ?case
    by (simp add: S_def Let_def del: length_sv_bytes)
qed simp

definition row_text :: "column list \<Rightarrow> nat \<Rightarrow> nat \<Rightarrow> string_view \<Rightarrow> byte list" where
  "row_text cs row rc separator = join_with (sv_bytes separator) (map (cell_bytes row rc) cs)"

definition row_valid :: "column list \<Rightarrow> nat \<Rightarrow> nat \<Rightarrow> string_view \<Rightarrow> bool" where
  "row_valid cs row rc separator \<longleftrightarrow> sv_ok separator \<and> (\<forall>c\<in>set cs. sv_ok (value_at c row rc))"

lemma plan_join_row_fits:
  assumes "row_valid cs row rc separator"
  shows "plan_fits (plan_join_row cs (length cs) row rc separator) (length (row_text cs row rc separator))"
    and "\<not> fp_has_na (plan_join_row cs (length cs) row rc separator)"
    and "fp_pieces (plan_join_row cs (length cs) row rc separator) = length cs"
    and "fp_ascii (plan_join_row cs (length cs) row rc separator) \<longleftrightarrow>
      (\<forall>c\<in>set cs. join_is_ascii (value_at c row rc)) \<and> (1 < length cs \<longrightarrow> join_is_ascii separator)"
  using assms plan_cells_ok [of cs row rc separator empty_flatten_plan 0 0]
  by (auto simp: row_valid_def plan_join_row_def row_text_def pieces_text_join separators_ascii_def)

lemma write_join_row_text:
  assumes "row_valid cs row rc separator" "length out = length (row_text cs row rc separator)"
  shows "write_join_row cs (length cs) row rc separator out = row_text cs row rc separator"
  using assms out_ok_all [OF write_cells_ok [of cs row rc separator out "[]" "(out, 0)" 0]]
  by (simp add: row_valid_def write_join_row_def row_text_def pieces_text_join)

interpretation join_row: two_pass "\<lambda>(cs, row, rc, separator). row_valid cs row rc separator"
  "\<lambda>(cs, row, rc, separator). plan_size (plan_join_row cs (length cs) row rc separator)"
  "\<lambda>(cs, row, rc, separator). write_join_row cs (length cs) row rc separator"
  "\<lambda>(cs, row, rc, separator). row_text cs row rc separator"
  by unfold_locales (auto simp: plan_size_fits [OF plan_join_row_fits(1)] write_join_row_text)

subsection \<open>All rows\<close>

definition all_text :: "column list \<Rightarrow> nat \<Rightarrow> string_view \<Rightarrow> string_view \<Rightarrow> byte list" where
  "all_text cs rc separator collapse = join_with (sv_bytes collapse) (map (\<lambda>row. row_text cs row rc separator) [0..<rc])"

definition all_valid :: "column list \<Rightarrow> nat \<Rightarrow> string_view \<Rightarrow> string_view \<Rightarrow> bool" where
  "all_valid cs rc separator collapse \<longleftrightarrow> sv_ok collapse \<and> (\<forall>row < rc. row_valid cs row rc separator)"

lemma plan_rows_na:
  "(\<exists>row\<in>set rows. \<exists>c\<in>set cs. is_na (value_at c row rc)) \<Longrightarrow> fp_has_na (plan_rows cs rc s k rows p)"
proof (induction rows arbitrary: p)
  case (Cons row rows)
  define p1 where "p1 = (if row > 0 then and_ascii (add_bytes p (size_cast (sv_len k))) k else p)"
  show ?case
  proof (cases "\<exists>c\<in>set cs. is_na (value_at c row rc)")
    case True
    with plan_cells_na [OF True, of s 0 p1] show ?thesis by (auto simp: p1_def [symmetric])
  next
    case False
    with Cons have IH: "fp_has_na (plan_rows cs rc s k rows q)" for q by auto
    have "plan_cells row rc s col cs' q = Inl r \<Longrightarrow> fp_has_na r" for col cs' q r
      by (induction cs' arbitrary: col q) (auto simp: Let_def split: if_splits)
    with IH show ?thesis by (auto simp: p1_def [symmetric] split: sum.splits)
  qed
qed simp

lemma plan_rows_ok:
  assumes "all_valid cs rc s k" "plan_fits p t" "i \<le> rc"
  shows "plan_fits (plan_rows cs rc s k [i..<rc] p)
      (t + length (pieces_text (sv_bytes k) i (map (\<lambda>row. row_text cs row rc s) [i..<rc]))) \<and>
    fp_has_na (plan_rows cs rc s k [i..<rc] p) = fp_has_na p \<and>
    fp_pieces (plan_rows cs rc s k [i..<rc] p) = fp_pieces p + (rc - i) * length cs \<and>
    (fp_ascii (plan_rows cs rc s k [i..<rc] p) \<longleftrightarrow> fp_ascii p \<and>
       (\<forall>row\<in>set [i..<rc]. \<forall>c\<in>set cs. join_is_ascii (value_at c row rc)) \<and>
       (i < rc \<longrightarrow> separators_ascii s 0 (length cs)) \<and> separators_ascii k i (rc - i))"
  using assms(2,3)
proof (induction "rc - i" arbitrary: i p t)
  case (Suc d)
  then have i: "i < rc" "d = rc - Suc i" and upt: "[i..<rc] = i # [Suc i..<rc]"
    by (auto simp: upt_conv_Cons)
  have ok: "sv_ok k" "sv_ok s" "\<forall>c\<in>set cs. sv_ok (value_at c i rc)"
    using assms(1) i by (auto simp: all_valid_def row_valid_def)
  define p1 where "p1 = (if i > 0 then and_ascii (add_bytes p (size_cast (sv_len k))) k else p)"
  define t1 where "t1 = t + (if i > 0 then length (sv_bytes k) else 0)"
  have p1: "plan_fits p1 t1" "fp_has_na p1 = fp_has_na p" "fp_pieces p1 = fp_pieces p"
      "fp_ascii p1 \<longleftrightarrow> fp_ascii p \<and> (i > 0 \<longrightarrow> join_is_ascii k)"
    using Suc.prems ok(1) plan_fits_add [of p t] by (simp_all add: p1_def t1_def del: length_sv_bytes)
  obtain q where q: "plan_cells i rc s 0 cs p1 = Inr q" "plan_fits q (t1 + length (row_text cs i rc s))"
      "fp_has_na q = fp_has_na p1" "fp_pieces q = fp_pieces p1 + length cs"
      "fp_ascii q \<longleftrightarrow> fp_ascii p1 \<and> (\<forall>c\<in>set cs. join_is_ascii (value_at c i rc)) \<and> separators_ascii s 0 (length cs)"
    using plan_cells_ok [OF ok(3,2) p1(1), of 0] by (auto simp: row_text_def pieces_text_join)
  have step: "plan_rows cs rc s k [i..<rc] p = plan_rows cs rc s k [Suc i..<rc] q"
    using q(1) by (simp add: upt p1_def Let_def)
  have len: "t + length (pieces_text (sv_bytes k) i (map (\<lambda>row. row_text cs row rc s) [i..<rc])) =
      t1 + length (row_text cs i rc s) + length (pieces_text (sv_bytes k) (Suc i) (map (\<lambda>row. row_text cs row rc s) [Suc i..<rc]))"
    by (simp add: upt t1_def del: length_sv_bytes)
  have cnt: "(rc - i) * length cs = length cs + (rc - Suc i) * length cs"
    using i(1) by (simp add: Suc_diff_Suc [symmetric])
  have sep: "separators_ascii k i (rc - i) \<longleftrightarrow> (i > 0 \<longrightarrow> join_is_ascii k) \<and> separators_ascii k (Suc i) (rc - Suc i)"
    using i(1) by (auto simp: separators_ascii_def)
  from Suc.hyps(1) [OF i(2) q(2)] i(1) show ?case
    unfolding step len cnt sep using p1 q by (auto simp: upt simp del: length_sv_bytes)
qed (simp add: separators_ascii_def)

lemma plan_join_all_fits:
  assumes "all_valid cs rc separator collapse"
  shows "plan_fits (plan_join_all cs (length cs) rc separator collapse) (length (all_text cs rc separator collapse))"
    and "\<not> fp_has_na (plan_join_all cs (length cs) rc separator collapse)"
    and "fp_ascii (plan_join_all cs (length cs) rc separator collapse) \<longleftrightarrow>
      (\<forall>row < rc. \<forall>c\<in>set cs. join_is_ascii (value_at c row rc)) \<and>
      (0 < rc \<and> 1 < length cs \<longrightarrow> join_is_ascii separator) \<and> (1 < rc \<longrightarrow> join_is_ascii collapse)"
  using plan_rows_ok [OF assms plan_fits_empty, of 0]
  by (auto simp: plan_join_all_def all_text_def pieces_text_join separators_ascii_def)

lemma write_rows_ok:
  assumes "all_valid cs rc s k" "out_ok out0 tx oc" "i \<le> rc"
    and "length tx + length (pieces_text (sv_bytes k) i (map (\<lambda>row. row_text cs row rc s) [i..<rc])) \<le> length out0"
  shows "out_ok out0 (tx @ pieces_text (sv_bytes k) i (map (\<lambda>row. row_text cs row rc s) [i..<rc]))
    (fold (write_row_step cs rc s k) [i..<rc] oc)"
  using assms(2-)
proof (induction "rc - i" arbitrary: i tx oc)
  case (Suc d)
  then have i: "i < rc" "d = rc - Suc i" and upt: "[i..<rc] = i # [Suc i..<rc]"
    by (auto simp: upt_conv_Cons)
  have ok: "sv_ok k" "sv_ok s" "\<forall>c\<in>set cs. sv_ok (value_at c i rc)"
    using assms(1) i by (auto simp: all_valid_def row_valid_def)
  define S where "S = (if i > 0 then sv_bytes k else [])"
  have row: "row_text cs i rc s = pieces_text (sv_bytes s) 0 (map (cell_bytes i rc) cs)"
    by (simp add: row_text_def pieces_text_join)
  have fit: "length tx + length S + length (row_text cs i rc s) +
      length (pieces_text (sv_bytes k) (Suc i) (map (\<lambda>row. row_text cs row rc s) [Suc i..<rc])) \<le> length out0"
    using Suc.prems(3) by (simp add: upt S_def del: length_sv_bytes)
  have "out_ok out0 (tx @ S) (if i > 0 then copy_bytes k oc else oc)"
    using Suc.prems(1) fit out_ok_copy [OF Suc.prems(1) ok(1)] by (auto simp: S_def simp del: length_sv_bytes)
  then have "out_ok out0 ((tx @ S) @ row_text cs i rc s) (write_row_step cs rc s k i oc)"
    unfolding write_row_step_def row using fit unfolding row
    by (intro write_cells_ok [OF ok(3,2)]) (simp_all del: length_sv_bytes)
  from Suc.hyps(1) [OF i(2) this] i(1) fit show ?case
    by (simp add: upt S_def del: length_sv_bytes)
qed simp

lemma write_join_all_text:
  assumes "all_valid cs rc separator collapse" "length out = length (all_text cs rc separator collapse)"
  shows "write_join_all cs (length cs) rc separator collapse out = all_text cs rc separator collapse"
  using out_ok_all [OF write_rows_ok [OF assms(1) out_ok_start [of out], of 0]] assms(2)
  by (simp add: write_join_all_def all_text_def pieces_text_join)

interpretation join_all: two_pass "\<lambda>(cs, rc, separator, collapse). all_valid cs rc separator collapse"
  "\<lambda>(cs, rc, separator, collapse). plan_size (plan_join_all cs (length cs) rc separator collapse)"
  "\<lambda>(cs, rc, separator, collapse). write_join_all cs (length cs) rc separator collapse"
  "\<lambda>(cs, rc, separator, collapse). all_text cs rc separator collapse"
  by unfold_locales (auto simp: plan_size_fits [OF plan_join_all_fits(1)] write_join_all_text)

text \<open>A column is recycled along the rows, whichever of the three cases of \<open>value_at\<close> applies.\<close>

definition column_ok :: "column \<Rightarrow> bool" where
  "column_ok c \<longleftrightarrow> 0 < col_size c \<and> length (col_values c) = col_size c \<and> (\<forall>v\<in>set (col_values c). value_ok v)"

lemma value_at_recycled: "row < rc \<Longrightarrow> value_at c row rc = col_values c ! (row mod col_size c)"
  by (auto simp: value_at_def)

lemma value_at_ok: "column_ok c \<Longrightarrow> row < rc \<Longrightarrow> value_ok (value_at c row rc)"
  by (auto simp: column_ok_def value_at_recycled)

definition recycled_text :: "column list \<Rightarrow> nat \<Rightarrow> byte list \<Rightarrow> byte list \<Rightarrow> byte list" where
  "recycled_text cs rc separator collapse = join_with collapse
     (map (\<lambda>row. join_with separator (map (\<lambda>c. sv_bytes (col_values c ! (row mod col_size c))) cs)) [0..<rc])"

lemma all_text_recycled: "all_text cs rc s k = recycled_text cs rc (sv_bytes s) (sv_bytes k)"
  by (auto simp: all_text_def recycled_text_def row_text_def value_at_recycled intro!: arg_cong [where f = "join_with _"])

lemma all_valid_recycled:
  assumes "\<forall>c\<in>set cs. column_ok c" "sv_ok s" "sv_ok k"
    and "\<not> (\<exists>row < rc. \<exists>c\<in>set cs. is_na (col_values c ! (row mod col_size c)))"
  shows "all_valid cs rc s k"
  using assms value_at_ok by (fastforce simp: all_valid_def row_valid_def value_ok_def value_at_recycled)

subsection \<open>Properties\<close>

text \<open>Flattening a vector: the plan reports a missing result exactly when missing values
  are neither removed nor replaced, and otherwise counts the bytes and pieces of the
  joined text, or that it exceeds an R string; the writer then fills a buffer of the
  planned size with the joined text, whatever the buffer held.\<close>

lemma flatten_two_passes:
  assumes "\<forall>v\<in>set vs. value_ok v" "\<forall>s. separator = Some s \<longrightarrow> sv_ok s"
  shows "let p = plan_flatten vs (length vs) separator na omit; tx = flatten_text separator na omit vs in
    (fp_has_na p \<longleftrightarrow> na = 0 \<and> (\<exists>v\<in>set vs. is_na v)) \<and>
    (\<not> fp_has_na p \<longrightarrow>
      (fp_too_large p \<longleftrightarrow> INT_MAX < int (length tx)) \<and>
      (\<not> fp_too_large p \<longrightarrow> fp_bytes p = length tx) \<and>
      fp_pieces p = length (flatten_pieces na omit vs) \<and>
      (\<not> fp_too_large p \<and> length out = fp_bytes p \<longrightarrow> write_flatten vs (length vs) separator na omit out = tx))"
proof (cases "na = 0 \<and> (\<exists>v\<in>set vs. is_na v)")
  case False
  then have valid: "flatten_valid separator na vs" using assms by (auto simp: flatten_valid_def)
  then show ?thesis
    using False plan_flatten_fits(1,2) [OF valid, of omit] flatten.produce [of "(vs, separator, na, omit)" "length out" out]
    by (auto simp: plan_flatten_na plan_size_def plan_fits_def Let_def INT_MAX_def)
qed (simp add: plan_flatten_na Let_def)

text \<open>Joining vectors element by element and collapsing the rows: a missing cell of the
  recycled columns makes the result missing; otherwise the planned size is that of the
  text, and the writer produces the rows joined by the separator and collapsed.\<close>

lemma join_all_two_passes:
  assumes "\<forall>c\<in>set cs. column_ok c" "sv_ok separator" "sv_ok collapse"
  shows "let p = plan_join_all cs (length cs) rc separator collapse;
             tx = recycled_text cs rc (sv_bytes separator) (sv_bytes collapse) in
    (fp_has_na p \<longleftrightarrow> (\<exists>row < rc. \<exists>c\<in>set cs. is_na (col_values c ! (row mod col_size c)))) \<and>
    (\<not> fp_has_na p \<longrightarrow>
      (fp_too_large p \<longleftrightarrow> INT_MAX < int (length tx)) \<and>
      (\<not> fp_too_large p \<longrightarrow> fp_bytes p = length tx) \<and>
      (\<not> fp_too_large p \<and> length out = fp_bytes p \<longrightarrow> write_join_all cs (length cs) rc separator collapse out = tx))"
proof (cases "\<exists>row < rc. \<exists>c\<in>set cs. is_na (col_values c ! (row mod col_size c))")
  case True
  then have "\<exists>row\<in>set [0..<rc]. \<exists>c\<in>set cs. is_na (value_at c row rc)" by (auto simp: value_at_recycled)
  from plan_rows_na [OF this] True show ?thesis by (simp add: plan_join_all_def Let_def)
next
  case False
  note valid = all_valid_recycled [OF assms False]
  show ?thesis
    using False plan_join_all_fits(1,2) [OF valid] join_all.produce [of "(cs, rc, separator, collapse)" "length out" out] valid
    by (auto simp: plan_size_def plan_fits_def Let_def INT_MAX_def all_text_recycled)
qed

end
