(* ===== verification/Replacement.thy ===== *)
theory Replacement
  imports Utf8_View
begin

text \<open>
  Replacement of byte ranges (\<^verbatim>\<open>src/shared/replacement.h\<close>, \<^verbatim>\<open>replacement.cpp\<close>), the last
  step of the literal and regular expression replacements: the validation of the
  inputs and of the match ranges, the checked size of the result, the writer and the
  ASCII test of a result that is not written. The lemmas show which exception is
  thrown for which input, that the overflow tests are exact, and that the writer
  produces the spliced text; the pair of passes interprets \<open>two_pass\<close>.
\<close>

record byte_range =
  rg_start :: int
  rg_end :: int

definition utf8_encoding :: "string_encoding \<Rightarrow> bool" where
  "utf8_encoding e \<longleftrightarrow> \<not> (e \<noteq> Enc_ascii \<and> e \<noteq> Enc_utf8 \<and> e \<noteq> Enc_ascii_or_utf8)"

definition validate_inputs :: "string_view \<Rightarrow> string_view \<Rightarrow> unit result" where
  "validate_inputs subject replacement =
     (if is_na subject \<or> is_na replacement then
        Inl (Invalid_argument ''replacement requires non-missing input'')
      else if sv_len subject < 0 \<or> sv_len replacement < 0 then
        Inl (Invalid_argument ''replacement input has negative length'')
      else if sv_ptr subject = NullPtr \<or> sv_ptr replacement = NullPtr then
        Inl (Invalid_argument ''replacement input data is null'')
      else if \<not> utf8_encoding (sv_enc subject) \<or> \<not> utf8_encoding (sv_enc replacement) then
        Inl (Invalid_argument ''replacement requires normalized UTF-8 input'')
      else Inr ())"

fun validate_ranges_loop :: "string_view \<Rightarrow> byte_range list \<Rightarrow> nat \<Rightarrow> int \<Rightarrow> nat result" where
  "validate_ranges_loop subject [] matched_bytes previous_end = Inr matched_bytes"
| "validate_ranges_loop subject (r # rs) matched_bytes previous_end =
     (if rg_start r < previous_end \<or> rg_start r < 0 \<or> rg_end r \<le> rg_start r \<or> rg_end r > sv_len subject then
        Inl (Out_of_range ''replacement range is out of bounds'')
      else
        let width = size_cast (rg_end r - rg_start r) in
        if width > SIZE_MAX - matched_bytes then Inl (Length_error ''matched byte count overflow'')
        else validate_ranges_loop subject rs (matched_bytes + width) (rg_end r))"

definition validate_ranges :: "string_view \<Rightarrow> byte_range list \<Rightarrow> nat result" where
  "validate_ranges subject ranges = validate_ranges_loop subject ranges 0 0"

definition span_is_ascii :: "byte list \<Rightarrow> int \<Rightarrow> bool" where
  "span_is_ascii data len = list_all (\<lambda>i. \<not> data ! i > 0x7f) [0..<nat len]"

definition charsxp_limit :: cxx_error where
  "charsxp_limit = Length_error ''Elements of character vectors (CHARSXPs) are limited to 2^31-1 bytes''"

definition checked_replacement_size :: "string_view \<Rightarrow> nat \<Rightarrow> byte_range list \<Rightarrow> string_view \<Rightarrow> nat result" where
  "checked_replacement_size subject matched_bytes ranges replacement =
     bindE (validate_inputs subject replacement) (\<lambda>_.
       let subject_size = size_cast (sv_len subject) in
       if matched_bytes > subject_size then
         Inl (Invalid_argument ''matched byte count exceeds the subject'')
       else
         let unmatched_bytes = subject_size - matched_bytes;
             replacement_size = size_cast (sv_len replacement);
             count = length ranges
         in
         if replacement_size > 0 \<and> count > (SIZE_MAX - unmatched_bytes) div replacement_size then Inl charsxp_limit
         else
           let res = unmatched_bytes + count * replacement_size in
           if res > nat INT_MAX then Inl charsxp_limit else Inr res)"

text \<open>The state of the writer: the output, the bytes used and the end of the previous range.\<close>

definition write_range :: "string_view \<Rightarrow> string_view \<Rightarrow> byte_range \<Rightarrow> byte list \<times> nat \<times> int \<Rightarrow> byte list \<times> nat \<times> int" where
  "write_range subject replacement r = (\<lambda>(output, used, previous_end).
     let prefix = size_cast (rg_start r - previous_end);
         (output, used) =
           (if prefix > 0 then (memcpy_at output used (drop (nat previous_end) (ptr_bytes (sv_ptr subject))) prefix, used + prefix)
            else (output, used));
         replacement_size = size_cast (sv_len replacement);
         (output, used) =
           (if replacement_size > 0 then (memcpy_at output used (ptr_bytes (sv_ptr replacement)) replacement_size, used + replacement_size)
            else (output, used))
     in (output, used, rg_end r))"

definition write_replacement :: "string_view \<Rightarrow> byte_range list \<Rightarrow> string_view \<Rightarrow> byte list option \<Rightarrow> nat \<Rightarrow> byte list result" where
  "write_replacement subject ranges replacement output output_size =
     bindE (validate_inputs subject replacement) (\<lambda>_.
     bindE (validate_ranges subject ranges) (\<lambda>matched_bytes.
     bindE (checked_replacement_size subject matched_bytes ranges replacement) (\<lambda>expected_size.
       if output_size \<noteq> expected_size then Inl (Length_error ''replacement buffer size mismatch'')
       else if output_size > 0 \<and> output = None then Inl (Invalid_argument ''replacement output buffer is null'')
       else
         let output = (case output of None \<Rightarrow> [] | Some out \<Rightarrow> out);
             (output, used, previous_end) = fold (write_range subject replacement) ranges (output, 0, 0);
             suffix = size_cast (sv_len subject - previous_end);
             (output, used) =
               (if suffix > 0 then (memcpy_at output used (drop (nat previous_end) (ptr_bytes (sv_ptr subject))) suffix, used + suffix)
                else (output, used))
         in if used \<noteq> output_size then Inl (Logic_error ''replacement writer size mismatch'') else Inr output)))"

definition ascii_step :: "string_view \<Rightarrow> byte_range \<Rightarrow> bool \<times> int \<Rightarrow> bool \<times> int" where
  "ascii_step subject r = (\<lambda>(ascii, previous_end).
     (if \<not> span_is_ascii (drop (nat previous_end) (ptr_bytes (sv_ptr subject))) (rg_start r - previous_end)
      then False else ascii, rg_end r))"

definition replacement_is_ascii :: "string_view \<Rightarrow> byte_range list \<Rightarrow> string_view \<Rightarrow> bool result" where
  "replacement_is_ascii subject ranges replacement =
     bindE (validate_inputs subject replacement) (\<lambda>_.
     bindE (validate_ranges subject ranges) (\<lambda>_.
       let (ascii, previous_end) = fold (ascii_step subject) ranges (True, 0);
           ascii = (if \<not> span_is_ascii (drop (nat previous_end) (ptr_bytes (sv_ptr subject))) (sv_len subject - previous_end)
                    then False else ascii);
           ascii = (if length ranges > 0 \<and> \<not> span_is_ascii (ptr_bytes (sv_ptr replacement)) (sv_len replacement)
                    then False else ascii)
       in Inr ascii))"

subsection \<open>The specification\<close>

text \<open>Ordered, disjoint, non-empty ranges inside the subject.\<close>

fun ranges_valid :: "int \<Rightarrow> int \<Rightarrow> byte_range list \<Rightarrow> bool" where
  "ranges_valid len prev [] = (0 \<le> prev \<and> prev \<le> len)"
| "ranges_valid len prev (r # rs) = (0 \<le> prev \<and> prev \<le> rg_start r \<and> rg_start r < rg_end r \<and> ranges_valid len (rg_end r) rs)"

fun spliced :: "byte list \<Rightarrow> byte list \<Rightarrow> nat \<Rightarrow> byte_range list \<Rightarrow> byte list" where
  "spliced s R prev [] = drop prev s"
| "spliced s R prev (r # rs) = slice s prev (nat (rg_start r)) @ R @ spliced s R (nat (rg_end r)) rs"

definition matched :: "byte_range list \<Rightarrow> nat" where
  "matched rs = sum_list (map (\<lambda>r. nat (rg_end r - rg_start r)) rs)"

definition replacement_args :: "string_view \<Rightarrow> string_view \<Rightarrow> bool" where
  "replacement_args subject replacement \<longleftrightarrow> sv_ok subject \<and> sv_ok replacement \<and>
     utf8_encoding (sv_enc subject) \<and> utf8_encoding (sv_enc replacement)"

lemma validate_inputs_ok: "replacement_args s R \<Longrightarrow> validate_inputs s R = Inr ()"
  by (auto simp: replacement_args_def validate_inputs_def sv_ok_def)

lemma ranges_valid_le: "ranges_valid len prev rs \<Longrightarrow> 0 \<le> prev \<and> prev \<le> len"
  by (induction rs arbitrary: prev) (auto, fastforce)

lemma matched_simps [simp]:
  "matched [] = 0" "matched (r # rs) = nat (rg_end r - rg_start r) + matched rs"
  by (simp_all add: matched_def)

lemma matched_bytes_le: "ranges_valid len prev rs \<Longrightarrow> int (matched rs) \<le> len - prev"
proof (induction rs arbitrary: prev)
  case (Cons r rs)
  then have "int (matched rs) \<le> len - rg_end r" by simp
  with Cons.prems show ?case by simp
qed simp

lemma length_spliced:
  "ranges_valid (int (length s)) prev rs \<Longrightarrow>
   length (spliced s R (nat prev) rs) + matched rs = length s - nat prev + length rs * length R"
proof (induction rs arbitrary: prev)
  case (Cons r rs)
  then have r: "0 \<le> prev" "prev \<le> rg_start r" "rg_start r < rg_end r" "ranges_valid (int (length s)) (rg_end r) rs"
    by auto
  then have e: "rg_end r \<le> int (length s)" using ranges_valid_le by blast
  have sl: "length (slice s (nat prev) (nat (rg_start r))) = nat (rg_start r) - nat prev"
    using r e by (intro length_slice) linarith
  have eq: "nat (rg_start r) - nat prev + nat (rg_end r - rg_start r) + (length s - nat (rg_end r)) = length s - nat prev"
    using r e by linarith
  show ?case using Cons.IH [OF r(4)] sl eq by simp
qed simp

lemma validate_ranges_loop_ok:
  assumes "sv_ok s" "ranges_valid (sv_len s) prev rs" "int m \<le> prev"
  shows "validate_ranges_loop s rs m prev = Inr (m + matched rs)"
  using assms(2,3)
proof (induction rs arbitrary: m prev)
  case (Cons r rs)
  then have r: "0 \<le> prev" "prev \<le> rg_start r" "rg_start r < rg_end r" "ranges_valid (sv_len s) (rg_end r) rs"
    by auto
  have e: "rg_end r \<le> sv_len s" "sv_len s \<le> INT_MAX" using ranges_valid_le [OF r(4)] assms(1) by (auto simp: sv_ok_def)
  have w: "size_cast (rg_end r - rg_start r) = nat (rg_end r - rg_start r)"
    using r e by (intro size_cast_nonneg) linarith+
  have le: "int (m + nat (rg_end r - rg_start r)) \<le> rg_end r" using r Cons.prems(2) by linarith
  have "nat (rg_end r - rg_start r) \<le> SIZE_MAX - m"
    using le e r by (simp add: SIZE_MAX_def INT_MAX_def)
  then show ?case using r e w Cons.IH [OF r(4) le] by (simp add: Let_def)
qed simp

lemma validate_ranges_loop_error:
  assumes "sv_ok s" "0 \<le> prev" "prev \<le> sv_len s" "\<not> ranges_valid (sv_len s) prev rs" "int m \<le> prev"
  shows "validate_ranges_loop s rs m prev = Inl (Out_of_range ''replacement range is out of bounds'')"
  using assms(2-)
proof (induction rs arbitrary: m prev)
  case (Cons r rs)
  show ?case
  proof (cases "prev \<le> rg_start r \<and> rg_start r < rg_end r \<and> rg_end r \<le> sv_len s")
    case True
    have e: "sv_len s \<le> INT_MAX" using assms(1) by (auto simp: sv_ok_def)
    have w: "size_cast (rg_end r - rg_start r) = nat (rg_end r - rg_start r)"
      using True e Cons.prems by (intro size_cast_nonneg) linarith+
    have le: "int (m + nat (rg_end r - rg_start r)) \<le> rg_end r" using True Cons.prems by linarith
    have "nat (rg_end r - rg_start r) \<le> SIZE_MAX - m"
      using le e True Cons.prems(1) unfolding SIZE_MAX_def INT_MAX_def by (elim conjE) linarith
    moreover have "validate_ranges_loop s rs (m + nat (rg_end r - rg_start r)) (rg_end r) =
        Inl (Out_of_range ''replacement range is out of bounds'')"
      using True Cons.prems le by (intro Cons.IH) auto
    ultimately show ?thesis using True w Cons.prems(1) by (simp add: Let_def)
  qed auto
qed auto

lemma validate_ranges_exact:
  assumes "sv_ok s"
  shows "validate_ranges s rs = (if ranges_valid (sv_len s) 0 rs then Inr (matched rs)
    else Inl (Out_of_range ''replacement range is out of bounds''))"
  using assms validate_ranges_loop_ok [OF assms, of 0 rs 0] validate_ranges_loop_error [OF assms, of 0 rs 0]
  by (simp add: validate_ranges_def sv_ok_def)

text \<open>The overflow guard of the size never rejects a result that fits, because \<open>SIZE_MAX\<close> is
  far above the limit of a string.\<close>

lemma checked_replacement_size_exact:
  assumes "replacement_args s R" "ranges_valid (sv_len s) 0 rs"
  defines "n \<equiv> length (spliced (sv_bytes s) (sv_bytes R) 0 rs)"
  shows "checked_replacement_size s (matched rs) rs R = (if int n \<le> INT_MAX then Inr n else Inl charsxp_limit)"
proof -
  have ok: "sv_ok s" "sv_ok R" using assms(1) by (auto simp: replacement_args_def)
  let ?u = "nat (sv_len s) - matched rs" and ?r = "nat (sv_len R)"
  have m: "matched rs \<le> nat (sv_len s)" using matched_bytes_le [OF assms(2)] by simp
  have "int (length (sv_bytes s)) = sv_len s" using ok(1) by (simp add: sv_ok_def sv_bytes_def)
  then have n: "n = ?u + length rs * ?r"
    using length_spliced [of "sv_bytes s" 0 rs "sv_bytes R"] assms(2) ok m by (simp add: n_def)
  have u: "?u \<le> nat INT_MAX" using ok(1) by (auto simp: sv_ok_def)
  have guard: "(0 < ?r \<and> length rs > (SIZE_MAX - ?u) div ?r) \<longleftrightarrow> SIZE_MAX < n"
  proof (cases "?r = 0")
    case False
    then have "length rs > (SIZE_MAX - ?u) div ?r \<longleftrightarrow> length rs * ?r > SIZE_MAX - ?u"
      by (simp add: div_less_iff_less_mult)
    moreover have "?u \<le> SIZE_MAX" using u by (simp add: SIZE_MAX_def INT_MAX_def)
    ultimately show ?thesis using False unfolding n by linarith
  qed (use u n in \<open>simp add: SIZE_MAX_def INT_MAX_def\<close>)
  have casts: "size_cast (sv_len s) = nat (sv_len s)" "size_cast (sv_len R) = ?r"
    using ok by (auto simp: sv_ok_def)
  have "SIZE_MAX < n \<Longrightarrow> \<not> int n \<le> INT_MAX" by (simp add: SIZE_MAX_def INT_MAX_def)
  moreover have "n > nat INT_MAX \<longleftrightarrow> \<not> int n \<le> INT_MAX" by (auto simp: INT_MAX_def)
  ultimately show ?thesis
    unfolding checked_replacement_size_def validate_inputs_ok [OF assms(1)] bindE_simps Let_def casts guard
    using m by (auto simp: n [symmetric])
qed

definition range_writer :: "byte list \<Rightarrow> byte list \<Rightarrow> int \<Rightarrow> byte list \<times> nat \<times> int \<Rightarrow> bool" where
  "range_writer out0 tx prev st \<longleftrightarrow> filled out0 (fst (snd st)) tx (fst st) \<and> snd (snd st) = prev"

lemma filled_guarded:
  assumes "filled out0 used tx out" "used + n \<le> length out0" "n \<le> length src"
  shows "filled out0 (used + n) (tx @ take n src) (if 0 < n then memcpy_at out used src n else out)"
  using filled_memcpy [OF assms] assms(1) by auto

lemma take_drop_view:
  assumes "sv_ok s" "0 \<le> a" "a \<le> b" "b \<le> sv_len s"
  shows "take (nat (b - a)) (drop (nat a) (ptr_bytes (sv_ptr s))) = slice (sv_bytes s) (nat a) (nat b)"
    and "nat (b - a) \<le> length (drop (nat a) (ptr_bytes (sv_ptr s)))"
    and "size_cast (b - a) = nat (b - a)"
    and "nat (b - a) = length (slice (sv_bytes s) (nat a) (nat b))"
proof -
  have "nat b - nat a = nat (b - a)" using assms by (simp add: nat_diff_distrib)
  then show "take (nat (b - a)) (drop (nat a) (ptr_bytes (sv_ptr s))) = slice (sv_bytes s) (nat a) (nat b)"
    using assms by (simp add: sv_bytes_def slice_take nat_mono) (simp add: slice_def)
  show "nat (b - a) \<le> length (drop (nat a) (ptr_bytes (sv_ptr s)))"
    using assms by (simp add: sv_ok_def) linarith
  show "size_cast (b - a) = nat (b - a)"
    using assms by (intro size_cast_nonneg) (auto simp: sv_ok_def)
  show "nat (b - a) = length (slice (sv_bytes s) (nat a) (nat b))"
    using assms by (simp add: nat_diff_distrib)
qed

lemma write_range_ok:
  assumes "replacement_args s R" "range_writer out0 tx prev st"
    and r: "0 \<le> prev" "prev \<le> rg_start r" "rg_start r \<le> sv_len s"
    and "length tx + length (slice (sv_bytes s) (nat prev) (nat (rg_start r))) + length (sv_bytes R) \<le> length out0"
  shows "range_writer out0 (tx @ slice (sv_bytes s) (nat prev) (nat (rg_start r)) @ sv_bytes R) (rg_end r) (write_range s R r st)"
proof -
  obtain out used where st: "st = (out, used, prev)" and fl: "filled out0 used tx out"
    using assms(2) by (cases st) (auto simp: range_writer_def)
  have ok: "sv_ok s" "sv_ok R" using assms(1) by (auto simp: replacement_args_def)
  note td = take_drop_view [OF ok(1) r]
  let ?n = "nat (rg_start r - prev)" and ?m = "nat (sv_len R)"
  have used: "used = length tx" using fl by (simp add: filled_def)
  have R: "sv_bytes R = take ?m (ptr_bytes (sv_ptr R))" "?m \<le> length (ptr_bytes (sv_ptr R))" "length (sv_bytes R) = ?m"
      "size_cast (sv_len R) = ?m"
    using ok(2) by (auto simp: sv_bytes_def sv_ok_def)
  have fit: "used + ?n \<le> length out0" "used + ?n + ?m \<le> length out0"
    using assms(6) R(3) unfolding used td(4) by linarith+
  have 1: "filled out0 (used + ?n) (tx @ slice (sv_bytes s) (nat prev) (nat (rg_start r)))
      (if 0 < ?n then memcpy_at out used (drop (nat prev) (ptr_bytes (sv_ptr s))) ?n else out)" (is "filled _ _ _ ?o")
    using filled_guarded [OF fl fit(1) td(2)] unfolding td(1) .
  have 2: "filled out0 (used + ?n + ?m) ((tx @ slice (sv_bytes s) (nat prev) (nat (rg_start r))) @ sv_bytes R)
      (if 0 < ?m then memcpy_at ?o (used + ?n) (ptr_bytes (sv_ptr R)) ?m else ?o)" (is "filled _ _ _ ?o2")
    using filled_guarded [OF 1 fit(2) R(2)] unfolding R(1) [symmetric] .
  have "write_range s R r st = (?o2, used + ?n + ?m, rg_end r)"
    by (auto simp: write_range_def st td(3) R(4) Let_def)
  with 2 show ?thesis by (simp add: range_writer_def)
qed

lemma write_ranges_ok:
  assumes "replacement_args s R" "ranges_valid (sv_len s) prev rs" "range_writer out0 tx prev st"
    and "length tx + length (spliced (sv_bytes s) (sv_bytes R) (nat prev) rs) \<le> length out0"
  shows "\<exists>tx' prev'. range_writer out0 tx' prev' (fold (write_range s R) rs st) \<and> 0 \<le> prev' \<and> prev' \<le> sv_len s \<and>
    tx @ spliced (sv_bytes s) (sv_bytes R) (nat prev) rs = tx' @ drop (nat prev') (sv_bytes s)"
  using assms(2-)
proof (induction rs arbitrary: tx prev st)
  case (Cons r rs)
  then have r: "0 \<le> prev" "prev \<le> rg_start r" "rg_start r < rg_end r" "ranges_valid (sv_len s) (rg_end r) rs"
    by auto
  have e: "rg_start r \<le> sv_len s" using ranges_valid_le [OF r(4)] r by linarith
  have "length tx + length (slice (sv_bytes s) (nat prev) (nat (rg_start r))) + length (sv_bytes R) \<le> length out0"
    using Cons.prems(3) by simp
  from write_range_ok [OF assms(1) Cons.prems(2) r(1,2) e this]
  show ?case using Cons.IH [OF r(4)] Cons.prems(3) by fastforce
qed auto

lemma write_replacement_text:
  assumes "replacement_args s R" "ranges_valid (sv_len s) 0 rs"
    and "int (length (spliced (sv_bytes s) (sv_bytes R) 0 rs)) \<le> INT_MAX"
    and "length out = length (spliced (sv_bytes s) (sv_bytes R) 0 rs)"
  shows "write_replacement s rs R (Some out) (length out) = Inr (spliced (sv_bytes s) (sv_bytes R) 0 rs)"
proof -
  let ?tx = "spliced (sv_bytes s) (sv_bytes R) 0 rs"
  have ok: "sv_ok s" using assms(1) by (simp add: replacement_args_def)
  have "range_writer out [] 0 (out, 0, 0)" by (simp add: range_writer_def)
  from write_ranges_ok [OF assms(1,2) this] obtain tx' prev' where
    st: "range_writer out tx' prev' (fold (write_range s R) rs (out, 0, 0))" "0 \<le> prev'" "prev' \<le> sv_len s"
      "?tx = tx' @ drop (nat prev') (sv_bytes s)"
    using assms(4) by auto
  then obtain o1 used where fo: "fold (write_range s R) rs (out, 0, 0) = (o1, used, prev')" and fl: "filled out used tx' o1"
    by (cases "fold (write_range s R) rs (out, 0, 0)") (auto simp: range_writer_def)
  note td = take_drop_view [OF ok st(2,3) order_refl]
  have tail: "slice (sv_bytes s) (nat prev') (nat (sv_len s)) = drop (nat prev') (sv_bytes s)"
    using ok slice_to_end [of "sv_bytes s"] by simp
  let ?n = "nat (sv_len s - prev')"
  have used: "used = length tx'" using fl by (simp add: filled_def)
  have len: "used + ?n = length out" unfolding used td(4) tail using assms(4) st(4) by simp
  have "filled out (used + ?n) ?tx (if 0 < ?n then memcpy_at o1 used (drop (nat prev') (ptr_bytes (sv_ptr s))) ?n else o1)"
    (is "filled _ _ _ ?o2")
    using filled_guarded [OF fl _ td(2)] len unfolding td(1) tail st(4) by simp
  then have o2: "?o2 = ?tx" unfolding len by (rule filled_all)
  have "validate_ranges s rs = Inr (matched rs)" by (simp add: validate_ranges_exact [OF ok] assms(2))
  moreover have "int (length out) \<le> INT_MAX" using assms(3,4) by simp
  ultimately show ?thesis using o2 len
    unfolding write_replacement_def validate_inputs_ok [OF assms(1)] bindE_simps
    by (simp add: checked_replacement_size_exact [OF assms(1,2)] assms(3) assms(4) [symmetric] fo td(3) split: if_splits)
qed

subsection \<open>The ASCII test\<close>

definition all_ascii :: "byte list \<Rightarrow> bool" where
  "all_ascii bs \<longleftrightarrow> list_all (\<lambda>b. b < 0x80) bs"

lemma all_ascii_append [simp]: "all_ascii (xs @ ys) \<longleftrightarrow> all_ascii xs \<and> all_ascii ys"
  by (simp add: all_ascii_def)

lemma span_is_ascii_iff:
  assumes "nat n \<le> length data"
  shows "span_is_ascii data n \<longleftrightarrow> all_ascii (take (nat n) data)"
proof -
  have "\<not> b > 0x7f \<longleftrightarrow> b < 0x80" for b :: byte
    by (simp add: word_le_nat_alt word_less_nat_alt not_less) arith
  then have "span_is_ascii data n \<longleftrightarrow> (\<forall>i < nat n. data ! i < 0x80)"
    by (auto simp: span_is_ascii_def list_all_iff)
  then show ?thesis using assms by (auto simp: all_ascii_def list_all_length)
qed

lemma ascii_steps:
  assumes "sv_ok s" "ranges_valid (sv_len s) prev rs"
  shows "\<exists>a' p'. fold (ascii_step s) rs (a, prev) = (a', p') \<and> 0 \<le> p' \<and> p' \<le> sv_len s \<and>
    ((a' \<and> all_ascii (drop (nat p') (sv_bytes s)) \<and> (rs \<noteq> [] \<longrightarrow> all_ascii R)) \<longleftrightarrow>
     (a \<and> all_ascii (spliced (sv_bytes s) R (nat prev) rs)))"
  using assms(2)
proof (induction rs arbitrary: a prev)
  case (Cons r rs)
  then have r: "0 \<le> prev" "prev \<le> rg_start r" "rg_start r < rg_end r" "ranges_valid (sv_len s) (rg_end r) rs"
    by auto
  have e: "rg_start r \<le> sv_len s" using ranges_valid_le [OF r(4)] r by linarith
  note td = take_drop_view [OF assms(1) r(1,2) e]
  have "ascii_step s r (a, prev) = (a \<and> all_ascii (slice (sv_bytes s) (nat prev) (nat (rg_start r))), rg_end r)"
    using span_is_ascii_iff [OF td(2)] by (auto simp: ascii_step_def td(1))
  with Cons.IH [OF r(4), of "a \<and> all_ascii (slice (sv_bytes s) (nat prev) (nat (rg_start r)))"] show ?case
    by auto
qed simp

lemma replacement_is_ascii_exact:
  assumes "replacement_args s R" "ranges_valid (sv_len s) 0 rs"
  shows "replacement_is_ascii s rs R = Inr (all_ascii (spliced (sv_bytes s) (sv_bytes R) 0 rs))"
proof -
  have ok: "sv_ok s" "sv_ok R" using assms(1) by (auto simp: replacement_args_def)
  obtain a' p' where f: "fold (ascii_step s) rs (True, 0) = (a', p')" "0 \<le> p'" "p' \<le> sv_len s"
      "(a' \<and> all_ascii (drop (nat p') (sv_bytes s)) \<and> (rs \<noteq> [] \<longrightarrow> all_ascii (sv_bytes R))) \<longleftrightarrow>
        all_ascii (spliced (sv_bytes s) (sv_bytes R) 0 rs)"
    using ascii_steps [OF ok(1) assms(2), of True "sv_bytes R"] by auto
  note td = take_drop_view [OF ok(1) f(2,3) order_refl]
  have tail: "slice (sv_bytes s) (nat p') (nat (sv_len s)) = drop (nat p') (sv_bytes s)"
    using ok slice_to_end [of "sv_bytes s"] by simp
  have 1: "span_is_ascii (drop (nat p') (ptr_bytes (sv_ptr s))) (sv_len s - p') \<longleftrightarrow> all_ascii (drop (nat p') (sv_bytes s))"
    unfolding span_is_ascii_iff [OF td(2)] td(1) tail ..
  have 2: "span_is_ascii (ptr_bytes (sv_ptr R)) (sv_len R) \<longleftrightarrow> all_ascii (sv_bytes R)"
    using ok(2) by (subst span_is_ascii_iff) (auto simp: sv_ok_def sv_bytes_def)
  show ?thesis
    unfolding replacement_is_ascii_def validate_inputs_ok [OF assms(1)] validate_ranges_exact [OF ok(1)] bindE_simps
    using assms(2) by (simp add: f(1) 1 2 f(4) [symmetric])
qed

subsection \<open>Properties\<close>

text \<open>C36. The writer of replacements, on every pair of normalized inputs, every list of ranges
  and every output buffer: it rejects ranges that are not ordered, disjoint, non-empty
  and inside the subject, a result above the limit of an R string and a buffer of the
  wrong size or a null one, in this order, and otherwise writes the spliced text. Its
  internal size test never fires.\<close>

theorem write_replacement_exact:
  assumes "replacement_args s R" "\<forall>out. dst = Some out \<longrightarrow> length out = n"
  shows "write_replacement s rs R dst n =
    (let tx = spliced (sv_bytes s) (sv_bytes R) 0 rs in
     if \<not> ranges_valid (sv_len s) 0 rs then Inl (Out_of_range ''replacement range is out of bounds'')
     else if INT_MAX < int (length tx) then Inl charsxp_limit
     else if n \<noteq> length tx then Inl (Length_error ''replacement buffer size mismatch'')
     else if 0 < n \<and> dst = None then Inl (Invalid_argument ''replacement output buffer is null'')
     else Inr tx)"
proof -
  let ?tx = "spliced (sv_bytes s) (sv_bytes R) 0 rs"
  have ok: "sv_ok s" using assms(1) by (simp add: replacement_args_def)
  note start = write_replacement_def validate_inputs_ok [OF assms(1)] validate_ranges_exact [OF ok]
  show ?thesis
  proof (cases "ranges_valid (sv_len s) 0 rs")
    case True
    note size = checked_replacement_size_exact [OF assms(1) True]
    show ?thesis
    proof (cases "int (length ?tx) \<le> INT_MAX \<and> n = length ?tx \<and> \<not> (0 < n \<and> dst = None)")
      case good: True
      have "write_replacement s rs R dst n = write_replacement s rs R (Some (case dst of None \<Rightarrow> [] | Some out \<Rightarrow> out)) n"
        using good True by (cases dst) (auto simp: start size)
      also have "\<dots> = Inr ?tx"
        using write_replacement_text [OF assms(1) True, of "case dst of None \<Rightarrow> [] | Some out \<Rightarrow> out"] good assms(2)
        by (cases dst) auto
      finally show ?thesis using True good by (auto simp: Let_def)
    next
      case False
      then show ?thesis using True by (auto simp: start size Let_def not_le)
    qed
  qed (simp add: start)
qed

theorem write_replacement_exact_witness:
  "write_replacement (view_of 8 Enc_ascii [0x61, 0x62, 0x63, 0x64]) [\<lparr>rg_start = 1, rg_end = 2\<rparr>, \<lparr>rg_start = 3, rg_end = 4\<rparr>]
     (view_of 16 Enc_ascii [0x2d, 0x2d]) (Some (replicate 6 0)) 6 = Inr [0x61, 0x2d, 0x2d, 0x63, 0x2d, 0x2d] \<and>
   write_replacement (view_of 8 Enc_ascii [0x61, 0x62, 0x63, 0x64]) [\<lparr>rg_start = 2, rg_end = 4\<rparr>, \<lparr>rg_start = 1, rg_end = 2\<rparr>]
     (view_of 16 Enc_ascii [0x2d, 0x2d]) None 0 = Inl (Out_of_range ''replacement range is out of bounds'')"
proof -
  let ?s = "view_of 8 Enc_ascii [0x61, 0x62, 0x63, 0x64]" and ?R = "view_of 16 Enc_ascii [0x2d, 0x2d]"
  have ok: "replacement_args ?s ?R"
    by (simp add: replacement_args_def utf8_encoding_def INT_MAX_def)
  show ?thesis
    using write_replacement_exact [OF ok, of "Some (replicate 6 0)" 6 "[\<lparr>rg_start = 1, rg_end = 2\<rparr>, \<lparr>rg_start = 3, rg_end = 4\<rparr>]"]
      write_replacement_exact [OF ok, of None 0 "[\<lparr>rg_start = 2, rg_end = 4\<rparr>, \<lparr>rg_start = 1, rg_end = 2\<rparr>]"]
    by (simp add: Let_def slice_def INT_MAX_def)
qed

text \<open>The ASCII test of a replacement, which looks at the unmatched spans and at the
  replacement but never builds the result, answers for the bytes of the result.\<close>

lemma replacement_ascii_matches_text:
  assumes "replacement_args s R"
  shows "replacement_is_ascii s rs R =
    (if ranges_valid (sv_len s) 0 rs then Inr (list_all (\<lambda>b. b < 0x80) (spliced (sv_bytes s) (sv_bytes R) 0 rs))
     else Inl (Out_of_range ''replacement range is out of bounds''))"
proof (cases "ranges_valid (sv_len s) 0 rs")
  case False
  moreover have "sv_ok s" using assms by (simp add: replacement_args_def)
  ultimately show ?thesis
    by (simp add: replacement_is_ascii_def validate_inputs_ok [OF assms] validate_ranges_exact)
qed (simp add: replacement_is_ascii_exact [OF assms] all_ascii_def)

text \<open>Inputs that are not normalized non-missing strings are rejected before anything is
  read or written, by all three entry points with the same exception.\<close>

lemma replacement_rejects_inputs:
  assumes "is_na s \<or> is_na R \<or> sv_len s < 0 \<or> sv_len R < 0 \<or> sv_ptr s = NullPtr \<or> sv_ptr R = NullPtr \<or>
    sv_enc s \<in> {Enc_native, Enc_latin1, Enc_bytes, Enc_unknown} \<or> sv_enc R \<in> {Enc_native, Enc_latin1, Enc_bytes, Enc_unknown}"
  shows "\<exists>msg. checked_replacement_size s k rs R = Inl (Invalid_argument msg) \<and>
    write_replacement s rs R dst n = Inl (Invalid_argument msg) \<and>
    replacement_is_ascii s rs R = Inl (Invalid_argument msg)"
proof -
  have "\<exists>msg. validate_inputs s R = Inl (Invalid_argument msg)"
    using assms by (auto simp: validate_inputs_def utf8_encoding_def)
  then show ?thesis
    by (auto simp: checked_replacement_size_def write_replacement_def replacement_is_ascii_def)
qed

end
