(* ===== verification/Parallel.thy ===== *)
theory Parallel
  imports Prelude Complex_Main
begin

text \<open>
  The driver of data-parallel operations (\<^verbatim>\<open>src/shared/parallel.h\<close>, \<^verbatim>\<open>parallel.cpp\<close>): the
  settings, the plan, the queue of chunks the workers draw from, the worker context
  and report, the warnings counted in serial order, and the choice of the failure
  that is raised. An \<open>R_xlen_t\<close> is an \<open>int\<close>; the lemmas on the settings show that the
  products of the plan stay below \<open>2 ^ 63\<close>.
\<close>

definition worker_maximum :: int where "worker_maximum = 256"
definition chunks_per_worker :: int where "chunks_per_worker = 128"
definition minimum_chunk_tasks :: int where "minimum_chunk_tasks = 256"
definition count_maximum :: rat where "count_maximum = 4503599627370496"

subsection \<open>Settings\<close>

record settings =
  threads_setting :: int
  chunks_per_worker_setting :: int
  minimum_chunk_setting :: int

definition default_settings :: settings where
  "default_settings = \<lparr>threads_setting = 1, chunks_per_worker_setting = chunks_per_worker,
     minimum_chunk_setting = minimum_chunk_tasks\<rparr>"

text \<open>What the settings code reads of an R value: an integer or double vector, or another
  type. A double is a number, an infinity or a NaN.\<close>

datatype rdouble = Fin rat | Pos_inf | Neg_inf | Nan

datatype sexp = Nil_value | Int_vector "int list" | Real_vector "rdouble list" | Other_vector nat

fun sexp_length :: "sexp \<Rightarrow> nat" where
  "sexp_length Nil_value = 0"
| "sexp_length (Int_vector xs) = length xs"
| "sexp_length (Real_vector xs) = length xs"
| "sexp_length (Other_vector n) = n"

text \<open>\<open>static_cast<R_xlen_t>(number > count_maximum ? count_maximum : number)\<close> for a number
  that is not below one; a conversion to an integer type drops the fraction.\<close>

fun double_count :: "rdouble \<Rightarrow> int option" where
  "double_count (Fin x) = (if x < 1 then None else Some \<lfloor>if x > count_maximum then count_maximum else x\<rfloor>)"
| "double_count Pos_inf = Some \<lfloor>count_maximum\<rfloor>"
| "double_count Neg_inf = None"
| "double_count Nan = None"

definition setting_value :: "sexp \<Rightarrow> int option" where
  "setting_value v =
     (if sexp_length v \<noteq> 1 then None
      else case v of
        Int_vector xs \<Rightarrow>
          let stored = xs ! 0 in
          if stored = NA_INTEGER then None else double_count (Fin (rat_of_int stored))
      | Real_vector xs \<Rightarrow> double_count (xs ! 0)
      | _ \<Rightarrow> None)"

definition setting_scalar :: "int \<Rightarrow> sexp" where
  "setting_scalar v = (if v > INT_MAX then Real_vector [Fin (rat_of_int v)] else Int_vector [v])"

definition exchange_setting :: "int \<Rightarrow> sexp \<Rightarrow> sexp \<times> int" where
  "exchange_setting setting v =
     (setting_scalar setting,
      case (if v \<noteq> Nil_value then setting_value v else None) of Some requested \<Rightarrow> requested | None \<Rightarrow> setting)"

definition C_charr_threads :: "settings \<Rightarrow> sexp \<Rightarrow> sexp \<times> settings" where
  "C_charr_threads st v =
     (Int_vector [threads_setting st],
      case (if v \<noteq> Nil_value then setting_value v else None) of
        None \<Rightarrow> st
      | Some requested \<Rightarrow> st\<lparr>threads_setting := (if requested > worker_maximum then worker_maximum else requested)\<rparr>)"

definition C_charr_chunks_per_worker :: "settings \<Rightarrow> sexp \<Rightarrow> sexp \<times> settings" where
  "C_charr_chunks_per_worker st v =
     (let (previous, n) = exchange_setting (chunks_per_worker_setting st) v
      in (previous, st\<lparr>chunks_per_worker_setting := n\<rparr>))"

definition C_charr_min_chunk :: "settings \<Rightarrow> sexp \<Rightarrow> sexp \<times> settings" where
  "C_charr_min_chunk st v =
     (let (previous, n) = exchange_setting (minimum_chunk_setting st) v
      in (previous, st\<lparr>minimum_chunk_setting := n\<rparr>))"

subsection \<open>The plan\<close>

record parallel_plan =
  plan_workers :: int
  plan_chunk :: int

definition chunk_tasks :: "int \<Rightarrow> int \<Rightarrow> int \<Rightarrow> int \<Rightarrow> int" where
  "chunk_tasks tasks workers per_worker floor_tasks =
     (let targets = workers * per_worker;
          even_cut = tasks div targets + (if tasks mod targets \<noteq> 0 then 1 else 0);
          chunk = (if even_cut > floor_tasks then even_cut else floor_tasks);
          widest = tasks div workers + (if tasks mod workers \<noteq> 0 then 1 else 0);
          chunk = (if chunk > widest then widest else chunk)
      in if chunk < 1 then 1 else chunk)"

definition clamp_workers :: "int \<Rightarrow> int \<Rightarrow> int" where
  "clamp_workers tasks requested =
     (if requested < 2 \<or> tasks < 2 then 1
      else
        let limit = tasks;
            limit = (if limit > requested then requested else limit);
            limit = (if limit > worker_maximum then worker_maximum else limit)
        in if limit < 2 then 1 else limit)"

definition make_parallel_plan :: "settings \<Rightarrow> bool \<Rightarrow> int \<Rightarrow> parallel_plan" where
  "make_parallel_plan st eligible tasks =
     (let plan = \<lparr>plan_workers = 1, plan_chunk = (if tasks > 0 then tasks else 1)\<rparr> in
      if \<not> eligible then plan
      else
        let plan = plan\<lparr>plan_workers := clamp_workers tasks (threads_setting st)\<rparr> in
        if plan_workers plan < 2 then plan
        else
          let plan = plan\<lparr>plan_chunk := chunk_tasks tasks (plan_workers plan) (chunks_per_worker_setting st) (minimum_chunk_setting st)\<rparr>;
              chunks = tasks div plan_chunk plan + (if tasks mod plan_chunk plan \<noteq> 0 then 1 else 0)
          in if chunks < plan_workers plan then plan\<lparr>plan_workers := chunks\<rparr> else plan)"

subsection \<open>Queue, contexts and reports\<close>

record chunk_queue =
  q_next :: int
  q_tasks :: int
  q_chunk :: int

definition ChunkQueue :: "int \<Rightarrow> int \<Rightarrow> chunk_queue" where
  "ChunkQueue tasks chunk = \<lparr>q_next = 0, q_tasks = tasks, q_chunk = (if chunk < 1 then 1 else chunk)\<rparr>"

text \<open>The claim is one atomic \<open>fetch_add\<close>.\<close>

definition claim :: "chunk_queue \<Rightarrow> (int \<times> int) option \<times> chunk_queue" where
  "claim q =
     (let fst_task = q_next q; q' = q\<lparr>q_next := q_next q + q_chunk q\<rparr> in
      if fst_task \<ge> q_tasks q then (None, q')
      else (Some (fst_task, if q_tasks q - fst_task < q_chunk q then q_tasks q else fst_task + q_chunk q), q'))"

definition drained :: "chunk_queue \<Rightarrow> bool" where
  "drained q \<longleftrightarrow> q_next q \<ge> q_tasks q"

record worker_report =
  rp_failed :: bool
  rp_stopped_early :: bool
  rp_failed_at :: int
  rp_message :: string

record worker_context =
  wc_worker :: nat
  wc_begin :: int
  wc_end :: int
  wc_holding :: bool

definition WorkerContext :: "nat \<Rightarrow> worker_context" where
  "WorkerContext w = \<lparr>wc_worker = w, wc_begin = 0, wc_end = 0, wc_holding = False\<rparr>"

definition serial_position :: "worker_context \<Rightarrow> int" where
  "serial_position c = (if wc_holding c then wc_begin c else - 1)"

definition next_chunk :: "worker_context \<Rightarrow> chunk_queue \<Rightarrow> bool \<times> worker_context \<times> chunk_queue" where
  "next_chunk c q =
     (case claim q of
        (None, q') \<Rightarrow> (False, c, q')
      | (Some (b, e), q') \<Rightarrow> (True, c\<lparr>wc_begin := b, wc_end := e, wc_holding := True\<rparr>, q'))"

definition stop_early :: "worker_report \<Rightarrow> worker_report" where
  "stop_early r = r\<lparr>rp_stopped_early := True\<rparr>"

text \<open>What a body throws: a \<open>ReportedError\<close> with its message, a standard exception, or anything else. \<open>describe_error\<close>
  writes the message, cut to the buffer as \<open>snprintf\<close> does.\<close>

datatype thrown = Reported string | Standard cxx_error | Unknown_thrown

definition message_size :: nat where "message_size = 4096"

fun what :: "cxx_error \<Rightarrow> string" where
  "what (Invalid_argument msg) = msg"
| "what (Logic_error msg) = msg"
| "what (Length_error msg) = msg"
| "what (Out_of_range msg) = msg"
| "what (Runtime_error msg) = msg"

definition describe_error :: "nat \<Rightarrow> thrown \<Rightarrow> string" where
  "describe_error buffer_size e =
     take (buffer_size - 1) (case e of Reported msg \<Rightarrow> msg | Standard error \<Rightarrow> what error | Unknown_thrown \<Rightarrow> ''unknown C++ exception'')"

text \<open>The handler of \<open>run_guarded\<close>, with the message \<open>describe_error\<close> wrote.\<close>

definition record_failure :: "worker_context \<Rightarrow> string \<Rightarrow> worker_report \<Rightarrow> worker_report" where
  "record_failure c msg r = r\<lparr>rp_failed := True, rp_failed_at := serial_position c, rp_message := msg\<rparr>"

subsection \<open>Warnings in serial order\<close>

record serial_warnings =
  sw_setup :: "int list"
  sw_chunks :: "int list"
  sw_chunk :: int
  sw_counted :: int

definition warnings_reset :: "nat \<Rightarrow> int \<Rightarrow> int \<Rightarrow> serial_warnings" where
  "warnings_reset workers tasks chunk =
     (let chunks = (if tasks \<le> 0 then 0 else tasks div chunk + (if tasks mod chunk \<noteq> 0 then 1 else 0))
      in \<lparr>sw_setup = replicate workers 0, sw_chunks = replicate (nat chunks) 0, sw_chunk = chunk, sw_counted = chunks\<rparr>)"

definition fail_at :: "int \<Rightarrow> serial_warnings \<Rightarrow> serial_warnings" where
  "fail_at position sw = sw\<lparr>sw_counted := (if position < 0 then 0 else position div sw_chunk sw + 1)\<rparr>"

definition add_warnings :: "worker_context \<Rightarrow> int \<Rightarrow> serial_warnings \<Rightarrow> serial_warnings" where
  "add_warnings c number sw =
     (let position = serial_position c in
      if position < 0 then sw\<lparr>sw_setup := (sw_setup sw)[wc_worker c := sw_setup sw ! wc_worker c + number]\<rparr>
      else sw\<lparr>sw_chunks := (sw_chunks sw)[nat (position div sw_chunk sw) := sw_chunks sw ! nat (position div sw_chunk sw) + number]\<rparr>)"

definition warnings_count :: "serial_warnings \<Rightarrow> int" where
  "warnings_count sw = sum_list (sw_setup sw) + sum_list (take (nat (sw_counted sw)) (sw_chunks sw))"

subsection \<open>The end of a region\<close>

text \<open>The report that is raised: the failed one with the lowest position, the first of them
  in worker order.\<close>

fun first_failure :: "worker_report list \<Rightarrow> worker_report option \<Rightarrow> worker_report option" where
  "first_failure [] fst_rep = fst_rep"
| "first_failure (r # rs) fst_rep =
     first_failure rs (if rp_failed r \<and> (fst_rep = None \<or> rp_failed_at r < rp_failed_at (the fst_rep)) then Some r else fst_rep)"

definition region_verdict :: "chunk_queue \<Rightarrow> worker_report list \<Rightarrow> serial_warnings \<Rightarrow> thrown option \<times> serial_warnings" where
  "region_verdict q reports sw =
     (case first_failure reports None of
        Some r \<Rightarrow> (Some (Standard (Runtime_error (rp_message r))), fail_at (rp_failed_at r) sw)
      | None \<Rightarrow>
          if \<not> list_ex rp_stopped_early reports \<and> \<not> drained q then
            (Some (Standard (Logic_error ''parallel body returned before its chunks were drained'')), sw)
          else (None, sw))"

subsection \<open>Workers\<close>

text \<open>A body of the documented shape: it builds its resources, then loops over
  \<open>next_chunk\<close> and over the tasks of the chunk. Setup and tasks count warnings and may
  throw.\<close>

record par_body =
  body_setup :: "nat \<Rightarrow> int \<times> thrown option"
  body_task :: "int \<Rightarrow> int \<times> thrown option"

text \<open>Where a worker is: before its setup, at the head of the chunk loop, at the head of
  the task loop, returned, or unwound by the exception of its setup or of a task.\<close>

datatype worker_pc = Setup | Ready | At int | Returned | Unwound | Thrown int

record worker =
  wk_context :: worker_context
  wk_pc :: worker_pc
  wk_thrown :: "thrown option"
  wk_report :: worker_report

record region =
  re_queue :: chunk_queue
  re_workers :: "worker list"
  re_warnings :: serial_warnings
  re_done :: "int list"

definition start_worker :: "nat \<Rightarrow> worker" where
  "start_worker w = \<lparr>wk_context = WorkerContext w, wk_pc = Setup, wk_thrown = None,
     wk_report = \<lparr>rp_failed = False, rp_stopped_early = False, rp_failed_at = 0, rp_message = []\<rparr>\<rparr>"

text \<open>\<open>run_region\<close> runs one worker where the plan has fewer than two or there are fewer than two tasks.\<close>

definition region_workers :: "nat \<Rightarrow> int \<Rightarrow> nat" where
  "region_workers workers tasks = (if workers < 2 \<or> tasks < 2 then 1 else workers)"

definition start_region :: "nat \<Rightarrow> int \<Rightarrow> int \<Rightarrow> region" where
  "start_region workers tasks chunk =
     (let workers = region_workers workers tasks; chunk = (if chunk < 1 then 1 else chunk) in
      \<lparr>re_queue = ChunkQueue tasks chunk, re_workers = map start_worker [0..<workers],
       re_warnings = warnings_reset workers tasks chunk, re_done = []\<rparr>)"

definition fail_worker :: "worker_pc \<Rightarrow> thrown \<Rightarrow> worker \<Rightarrow> worker" where
  "fail_worker pc e wk =
     wk\<lparr>wk_pc := pc, wk_thrown := Some e,
        wk_report := record_failure (wk_context wk) (describe_error message_size e) (wk_report wk)\<rparr>"

text \<open>One step of worker \<open>w\<close>.\<close>

definition worker_step :: "par_body \<Rightarrow> nat \<Rightarrow> region \<Rightarrow> region" where
  "worker_step B w s =
     (let wk = re_workers s ! w; put = (\<lambda>wk s. s\<lparr>re_workers := (re_workers s)[w := wk]\<rparr>) in
      case wk_pc wk of
        Setup \<Rightarrow>
          let (k, thrown) = body_setup B w; s = s\<lparr>re_warnings := add_warnings (wk_context wk) k (re_warnings s)\<rparr> in
          (case thrown of None \<Rightarrow> put (wk\<lparr>wk_pc := Ready\<rparr>) s | Some e \<Rightarrow> put (fail_worker Unwound e wk) s)
      | Ready \<Rightarrow>
          let (got, c, q) = next_chunk (wk_context wk) (re_queue s)
          in put (wk\<lparr>wk_context := c, wk_pc := (if got then At (wc_begin c) else Returned)\<rparr>) (s\<lparr>re_queue := q\<rparr>)
      | At i \<Rightarrow>
          if i < wc_end (wk_context wk) then
            let (k, thrown) = body_task B i; s = s\<lparr>re_warnings := add_warnings (wk_context wk) k (re_warnings s)\<rparr> in
            (case thrown of
               None \<Rightarrow> put (wk\<lparr>wk_pc := At (i + 1)\<rparr>) (s\<lparr>re_done := re_done s @ [i]\<rparr>)
             | Some e \<Rightarrow> put (fail_worker (Thrown i) e wk) s)
          else put (wk\<lparr>wk_pc := Ready\<rparr>) s
      | _ \<Rightarrow> s)"

definition running :: "worker \<Rightarrow> bool" where
  "running wk \<longleftrightarrow> (case wk_pc wk of Setup \<Rightarrow> True | Ready \<Rightarrow> True | At _ \<Rightarrow> True | _ \<Rightarrow> False)"

text \<open>The threads interleave in any order.\<close>

inductive region_step :: "par_body \<Rightarrow> region \<Rightarrow> region \<Rightarrow> bool" for B where
  step: "w < length (re_workers s) \<Longrightarrow> running (re_workers s ! w) \<Longrightarrow> region_step B s (worker_step B w s)"

inductive reaches :: "par_body \<Rightarrow> region \<Rightarrow> region \<Rightarrow> bool" for B where
  refl: "reaches B s s"
| step: "reaches B s t \<Longrightarrow> region_step B t u \<Longrightarrow> reaches B s u"

inductive_cases region_stepE: "region_step B s t"

definition joined :: "region \<Rightarrow> bool" where
  "joined s \<longleftrightarrow> list_all (\<lambda>wk. \<not> running wk) (re_workers s)"

text \<open>The end of \<open>run_region\<close>: a single worker runs without the handler, so its exception leaves as it is,
  nothing is checked and the warnings stay as they were counted; the report of its failure is
  not read. Otherwise the reports decide.\<close>

definition region_result :: "region \<Rightarrow> thrown option \<times> serial_warnings" where
  "region_result s =
     (if length (re_workers s) < 2 then (wk_thrown (re_workers s ! 0), re_warnings s)
      else region_verdict (re_queue s) (map wk_report (re_workers s)) (re_warnings s))"

subsection \<open>The invariant of a region\<close>

fun worker_pos :: "worker_pc \<Rightarrow> int option" where
  "worker_pos (At i) = Some i"
| "worker_pos (Thrown i) = Some i"
| "worker_pos _ = None"

definition holds :: "worker \<Rightarrow> int \<Rightarrow> bool" where
  "holds wk i \<longleftrightarrow> (\<exists>p. worker_pos (wk_pc wk) = Some p \<and> p \<le> i \<and> i < wc_end (wk_context wk))"

definition worker_inv :: "par_body \<Rightarrow> chunk_queue \<Rightarrow> worker \<Rightarrow> bool" where
  "worker_inv B q wk \<longleftrightarrow>
     (let c = wk_context wk; r = wk_report wk; T = q_tasks q; C = q_chunk q in
      (\<forall>p. worker_pos (wk_pc wk) = Some p \<longrightarrow>
         wc_holding c \<and> C dvd wc_begin c \<and> 0 \<le> wc_begin c \<and> wc_begin c < T \<and> wc_begin c + C \<le> q_next q \<and>
         wc_end c = min T (wc_begin c + C) \<and> wc_begin c \<le> p \<and> p \<le> wc_end c) \<and>
      (\<forall>p. wk_pc wk = Thrown p \<longrightarrow> p < wc_end c \<and> snd (body_task B p) = wk_thrown wk \<and>
         rp_message r = describe_error message_size (the (wk_thrown wk)) \<and> rp_failed_at r = wc_begin c) \<and>
      (wk_thrown wk \<noteq> None \<longleftrightarrow> (\<exists>p. wk_pc wk = Thrown p)) \<and>
      (wk_pc wk = Returned \<longrightarrow> T \<le> q_next q) \<and> wk_pc wk \<noteq> Unwound \<and>
      (rp_failed r \<longleftrightarrow> (\<exists>p. wk_pc wk = Thrown p)) \<and> \<not> rp_stopped_early r)"

definition region_inv :: "par_body \<Rightarrow> int \<Rightarrow> int \<Rightarrow> nat \<Rightarrow> region \<Rightarrow> bool" where
  "region_inv B T C n s \<longleftrightarrow>
     length (re_workers s) = n \<and> q_tasks (re_queue s) = T \<and> q_chunk (re_queue s) = C \<and>
     C dvd q_next (re_queue s) \<and> 0 \<le> q_next (re_queue s) \<and>
     (\<forall>w < n. worker_inv B (re_queue s) (re_workers s ! w)) \<and>
     (\<forall>w < n. \<forall>v < n. w \<noteq> v \<longrightarrow> worker_pos (wk_pc (re_workers s ! w)) \<noteq> None \<longrightarrow>
        worker_pos (wk_pc (re_workers s ! v)) \<noteq> None \<longrightarrow>
        wc_begin (wk_context (re_workers s ! w)) \<noteq> wc_begin (wk_context (re_workers s ! v))) \<and>
     distinct (re_done s) \<and>
     (\<forall>i. i \<in> set (re_done s) \<longleftrightarrow> 0 \<le> i \<and> i < q_next (re_queue s) \<and> i < T \<and>
        \<not> (\<exists>w < n. holds (re_workers s ! w) i)) \<and>
     (\<forall>i\<in>set (re_done s). snd (body_task B i) = None)"

text \<open>Multiples of the chunk size are at least a chunk apart.\<close>

lemma chunk_apart: "(C::int) dvd a \<Longrightarrow> C dvd b \<Longrightarrow> 0 < C \<Longrightarrow> a < b \<Longrightarrow> a + C \<le> b"
  using zdvd_imp_le [of C "b - a"] by simp

lemma start_region_inv:
  assumes "1 \<le> C"
  shows "region_inv B T C (region_workers n T) (start_region n T C)"
proof -
  have "worker_inv B (re_queue (start_region n T C)) (start_worker w)" for w
    by (simp add: worker_inv_def start_worker_def Let_def)
  then show ?thesis
    using assms by (auto simp: region_inv_def start_region_def start_worker_def ChunkQueue_def Let_def)
qed

lemma worker_inv_claimed:
  "worker_inv B q wk \<Longrightarrow> q_next q \<le> m \<Longrightarrow> worker_inv B (q\<lparr>q_next := m\<rparr>) wk"
  unfolding worker_inv_def Let_def by (fastforce simp del: min_less_iff_conj min_le_iff_disj)

definition others_hold :: "region \<Rightarrow> nat \<Rightarrow> int \<Rightarrow> bool" where
  "others_hold s w i \<longleftrightarrow> (\<exists>v < length (re_workers s). v \<noteq> w \<and> holds (re_workers s ! v) i)"

lemma region_inv_done:
  assumes "region_inv B T C n s" "w < n"
  shows "i \<in> set (re_done s) \<longleftrightarrow> 0 \<le> i \<and> i < q_next (re_queue s) \<and> i < T \<and>
    \<not> holds (re_workers s ! w) i \<and> \<not> others_hold s w i"
  using assms unfolding region_inv_def others_hold_def by metis

lemma region_inv_put:
  assumes inv: "region_inv B T C n s" and w: "w < n"
    and q: "q_next (re_queue s) \<le> m" "C dvd m"
    and wk: "worker_inv B ((re_queue s)\<lparr>q_next := m\<rparr>) wk"
    and apart: "\<And>v. v < n \<Longrightarrow> v \<noteq> w \<Longrightarrow> worker_pos (wk_pc wk) \<noteq> None \<Longrightarrow> worker_pos (wk_pc (re_workers s ! v)) \<noteq> None \<Longrightarrow>
        wc_begin (wk_context (re_workers s ! v)) \<noteq> wc_begin (wk_context wk)"
    and D: "distinct D" "\<And>i. i \<in> set D \<longleftrightarrow> 0 \<le> i \<and> i < m \<and> i < T \<and> \<not> holds wk i \<and> \<not> others_hold s w i"
      "\<And>i. i \<in> set D \<Longrightarrow> snd (body_task B i) = None"
  shows "region_inv B T C n \<lparr>re_queue = (re_queue s)\<lparr>q_next := m\<rparr>, re_workers = (re_workers s)[w := wk], re_warnings = sw, re_done = D\<rparr>"
proof -
  have len: "length (re_workers s) = n" using inv by (simp add: region_inv_def)
  have old: "worker_inv B ((re_queue s)\<lparr>q_next := m\<rparr>) (re_workers s ! v)" if "v < n" for v
    using inv that q(1) by (intro worker_inv_claimed) (auto simp: region_inv_def)
  have all: "\<forall>v < n. worker_inv B ((re_queue s)\<lparr>q_next := m\<rparr>) ((re_workers s)[w := wk] ! v)"
    using old wk len w by (auto simp: nth_list_update)
  have hold: "(\<exists>v < n. holds ((re_workers s)[w := wk] ! v) i) \<longleftrightarrow> holds wk i \<or> others_hold s w i" for i
    using w len by (auto simp: others_hold_def nth_list_update)
  have ap: "\<forall>u < n. \<forall>v < n. u \<noteq> v \<longrightarrow> worker_pos (wk_pc ((re_workers s)[w := wk] ! u)) \<noteq> None \<longrightarrow>
      worker_pos (wk_pc ((re_workers s)[w := wk] ! v)) \<noteq> None \<longrightarrow>
      wc_begin (wk_context ((re_workers s)[w := wk] ! u)) \<noteq> wc_begin (wk_context ((re_workers s)[w := wk] ! v))"
  proof (intro allI impI)
    fix u v assume uv: "u < n" "v < n" "u \<noteq> v" "worker_pos (wk_pc ((re_workers s)[w := wk] ! u)) \<noteq> None"
      "worker_pos (wk_pc ((re_workers s)[w := wk] ! v)) \<noteq> None"
    consider "u = w" | "v = w" | "u \<noteq> w" "v \<noteq> w" by blast
    then show "wc_begin (wk_context ((re_workers s)[w := wk] ! u)) \<noteq> wc_begin (wk_context ((re_workers s)[w := wk] ! v))"
    proof cases
      case 1
      then show ?thesis using uv apart [of v] len w by (simp add: nth_list_update)
    next
      case 2
      then show ?thesis using uv apart [of u] len w by (simp add: nth_list_update)
    next
      case 3
      then show ?thesis using uv inv by (simp add: region_inv_def)
    qed
  qed
  show ?thesis
    using inv q all ap D len by (simp add: region_inv_def hold)
qed

text \<open>The four kinds of steps.\<close>

lemma region_inv_same_queue:
  assumes "region_inv B T C n s"
  shows "\<lparr>re_queue = (re_queue s)\<lparr>q_next := q_next (re_queue s)\<rparr>, re_workers = ws, re_warnings = sw, re_done = D\<rparr> =
    s\<lparr>re_workers := ws, re_warnings := sw, re_done := D\<rparr>"
  by (cases s) simp

lemma region_inv_idle:
  assumes inv: "region_inv B T C n s" and w: "w < n"
    and wk: "worker_inv B (re_queue s) wk" "worker_pos (wk_pc wk) = None"
    and old: "\<And>i. \<not> holds (re_workers s ! w) i"
  shows "region_inv B T C n (s\<lparr>re_workers := (re_workers s)[w := wk], re_warnings := sw, re_done := re_done s\<rparr>)"
  unfolding region_inv_same_queue [OF inv, symmetric]
proof (rule region_inv_put [OF inv w])
  have none: "\<not> holds wk i" for i using wk(2) by (simp add: holds_def)
  show "i \<in> set (re_done s) \<longleftrightarrow> 0 \<le> i \<and> i < q_next (re_queue s) \<and> i < T \<and> \<not> holds wk i \<and> \<not> others_hold s w i" for i
    using region_inv_done [OF inv w] old none by simp
qed (use inv wk in \<open>auto simp: region_inv_def\<close>)

lemma region_inv_claim:
  assumes inv: "region_inv B T C n s" and w: "w < n" and C: "0 < C" and idle: "wk_pc (re_workers s ! w) = Ready"
  shows "region_inv B T C n (worker_step B w s)"
proof -
  let ?wk = "re_workers s ! w" and ?q = "re_queue s"
  have q: "q_tasks ?q = T" "q_chunk ?q = C" "C dvd q_next ?q" "0 \<le> q_next ?q" using inv by (auto simp: region_inv_def)
  have wk: "worker_inv B ?q ?wk" using inv w by (simp add: region_inv_def)
  have old: "\<not> holds ?wk i" for i using idle by (simp add: holds_def)
  note D = region_inv_done [OF inv w]
  have dst: "distinct (re_done s)" "\<And>i. i \<in> set (re_done s) \<Longrightarrow> snd (body_task B i) = None"
    using inv by (auto simp: region_inv_def)
  define m where "m = q_next ?q + C"
  have m: "q_next ?q \<le> m" "C dvd m" using C q by (auto simp: m_def)
  show ?thesis
  proof (cases "q_next ?q \<ge> T")
    case True
    define wk' where "wk' = ?wk\<lparr>wk_context := wk_context ?wk, wk_pc := Returned\<rparr>"
    have "worker_step B w s = \<lparr>re_queue = ?q\<lparr>q_next := m\<rparr>, re_workers = (re_workers s)[w := wk'], re_warnings = re_warnings s, re_done = re_done s\<rparr>"
      using True idle q by (cases s) (simp add: worker_step_def next_chunk_def claim_def Let_def m_def wk'_def)
    moreover have "region_inv B T C n \<dots>"
    proof (rule region_inv_put [OF inv w m])
      show "worker_inv B (?q\<lparr>q_next := m\<rparr>) wk'"
        using wk True m(1) q(1) idle by (simp add: worker_inv_def wk'_def Let_def)
      show "i \<in> set (re_done s) \<longleftrightarrow> 0 \<le> i \<and> i < m \<and> i < T \<and> \<not> holds wk' i \<and> \<not> others_hold s w i" for i
        using D [of i] old [of i] True m(1) by (auto simp: wk'_def holds_def)
    qed (use dst in \<open>auto simp: wk'_def\<close>)
    ultimately show ?thesis by simp
  next
    case False
    let ?b = "q_next ?q" and ?e = "min T (q_next ?q + C)"
    define wk' where "wk' = ?wk\<lparr>wk_context := (wk_context ?wk)\<lparr>wc_begin := ?b, wc_end := ?e, wc_holding := True\<rparr>, wk_pc := At ?b\<rparr>"
    have e: "(if T - ?b < C then T else ?b + C) = ?e" by (simp add: min_def)
    have "worker_step B w s = \<lparr>re_queue = ?q\<lparr>q_next := m\<rparr>, re_workers = (re_workers s)[w := wk'], re_warnings = re_warnings s, re_done = re_done s\<rparr>"
      using False idle q unfolding wk'_def e [symmetric]
      by (cases s) (simp add: worker_step_def next_chunk_def claim_def Let_def m_def)
    moreover have "region_inv B T C n \<dots>"
    proof (rule region_inv_put [OF inv w m])
      show "worker_inv B (?q\<lparr>q_next := m\<rparr>) wk'"
        using wk False C q idle by (simp add: worker_inv_def wk'_def Let_def m_def)
      show "wc_begin (wk_context (re_workers s ! v)) \<noteq> wc_begin (wk_context wk')"
        if "v < n" "v \<noteq> w" "worker_pos (wk_pc (re_workers s ! v)) \<noteq> None" for v
      proof -
        have "worker_inv B ?q (re_workers s ! v)" using inv that by (simp add: region_inv_def)
        then have "wc_begin (wk_context (re_workers s ! v)) + C \<le> ?b"
          using that(3) q(2) by (auto simp: worker_inv_def Let_def)
        then show ?thesis using C by (simp add: wk'_def)
      qed
      have hw: "holds wk' i \<longleftrightarrow> ?b \<le> i \<and> i < ?e" for i by (simp add: wk'_def holds_def)
      show "i \<in> set (re_done s) \<longleftrightarrow> 0 \<le> i \<and> i < m \<and> i < T \<and> \<not> holds wk' i \<and> \<not> others_hold s w i" for i
        using C by (cases "i < ?b"; cases "i < T"; cases "i < ?b + C") (simp_all add: D old hw m_def)
    qed (use dst in auto)
    ultimately show ?thesis by simp
  qed
qed

lemma region_inv_disjoint:
  assumes inv: "region_inv B T C n s" and w: "w < n" and C: "0 < C" and hw: "holds (re_workers s ! w) i"
  shows "\<not> others_hold s w i"
proof
  assume "others_hold s w i"
  then obtain v where v: "v < n" "v \<noteq> w" "holds (re_workers s ! v) i"
    using inv by (auto simp: others_hold_def region_inv_def)
  have held: "C dvd wc_begin (wk_context (re_workers s ! u)) \<and> wc_begin (wk_context (re_workers s ! u)) \<le> i \<and>
      i < wc_begin (wk_context (re_workers s ! u)) + C \<and> worker_pos (wk_pc (re_workers s ! u)) \<noteq> None"
    if "u < n" "holds (re_workers s ! u) i" for u
  proof -
    have "worker_inv B (re_queue s) (re_workers s ! u)" "q_chunk (re_queue s) = C" using inv that by (auto simp: region_inv_def)
    with that(2) show ?thesis by (auto simp: worker_inv_def holds_def Let_def)
  qed
  have "wc_begin (wk_context (re_workers s ! v)) \<noteq> wc_begin (wk_context (re_workers s ! w))"
    using inv v w held [OF w hw] held [OF v(1,3)] by (simp add: region_inv_def)
  then show False
    using held [OF w hw] held [OF v(1,3)] chunk_apart [of C] C by (meson linorder_neqE not_le order.strict_trans2)
qed

lemma region_inv_task:
  assumes inv: "region_inv B T C n s" and w: "w < n" and C: "0 < C" and pc: "wk_pc (re_workers s ! w) = At i"
  shows "region_inv B T C n (worker_step B w s)"
proof -
  let ?wk = "re_workers s ! w" and ?q = "re_queue s"
  have q: "q_tasks ?q = T" "q_chunk ?q = C" "C dvd q_next ?q" using inv by (auto simp: region_inv_def)
  have wk: "worker_inv B ?q ?wk" using inv w by (simp add: region_inv_def)
  then have at: "wc_holding (wk_context ?wk)" "C dvd wc_begin (wk_context ?wk)" "0 \<le> wc_begin (wk_context ?wk)"
      "wc_begin (wk_context ?wk) < T" "wc_begin (wk_context ?wk) + C \<le> q_next ?q"
      "wc_end (wk_context ?wk) = min T (wc_begin (wk_context ?wk) + C)" "wc_begin (wk_context ?wk) \<le> i" "i \<le> wc_end (wk_context ?wk)"
      "\<not> rp_failed (wk_report ?wk)" "\<not> rp_stopped_early (wk_report ?wk)"
    using q pc by (auto simp: worker_inv_def Let_def)
  note D = region_inv_done [OF inv w]
  have dst: "distinct (re_done s)" "\<And>j. j \<in> set (re_done s) \<Longrightarrow> snd (body_task B j) = None"
    using inv by (auto simp: region_inv_def)
  have apart: "wc_begin (wk_context (re_workers s ! v)) \<noteq> wc_begin (wk_context ?wk)"
    if "v < n" "v \<noteq> w" "worker_pos (wk_pc (re_workers s ! v)) \<noteq> None" for v
    using inv that w pc by (simp add: region_inv_def)
  obtain k thrown where task: "body_task B i = (k, thrown)" by (cases "body_task B i")
  let ?sw = "add_warnings (wk_context ?wk) k (re_warnings s)"
  show ?thesis
  proof (cases "i < wc_end (wk_context ?wk)")
    case False
    have "region_inv B T C n (s\<lparr>re_workers := (re_workers s)[w := ?wk\<lparr>wk_pc := Ready\<rparr>], re_warnings := re_warnings s, re_done := re_done s\<rparr>)"
      using False pc wk at by (intro region_inv_idle [OF inv w]) (auto simp: holds_def worker_inv_def Let_def)
    moreover have "worker_step B w s = s\<lparr>re_workers := (re_workers s)[w := ?wk\<lparr>wk_pc := Ready\<rparr>], re_warnings := re_warnings s, re_done := re_done s\<rparr>"
      using False pc by (cases s) (simp add: worker_step_def Let_def)
    ultimately show ?thesis by simp
  next
    case True
    have hold: "holds ?wk j \<longleftrightarrow> i \<le> j \<and> j < wc_end (wk_context ?wk)" for j using pc by (simp add: holds_def)
    then have free: "\<not> others_hold s w i" "i \<notin> set (re_done s)"
      using True region_inv_disjoint [OF inv w C, of i] D by auto
    show ?thesis
    proof (cases thrown)
      case None
      let ?wk' = "?wk\<lparr>wk_pc := At (i + 1)\<rparr>"
      have "region_inv B T C n (s\<lparr>re_workers := (re_workers s)[w := ?wk'], re_warnings := ?sw, re_done := re_done s @ [i]\<rparr>)"
        unfolding region_inv_same_queue [OF inv, symmetric]
      proof (rule region_inv_put [OF inv w order_refl q(3)])
        show "worker_inv B (?q\<lparr>q_next := q_next ?q\<rparr>) ?wk'"
          using wk at True pc q by (auto simp: worker_inv_def Let_def)
        have hold': "holds ?wk' j \<longleftrightarrow> i < j \<and> j < wc_end (wk_context ?wk)" for j by (auto simp: holds_def)
        show "j \<in> set (re_done s @ [i]) \<longleftrightarrow> 0 \<le> j \<and> j < q_next ?q \<and> j < T \<and> \<not> holds ?wk' j \<and> \<not> others_hold s w j" for j
          using at True free by (cases "j = i") (auto simp: D hold hold')
      qed (use apart dst free task None in auto)
      moreover have "worker_step B w s = s\<lparr>re_workers := (re_workers s)[w := ?wk'], re_warnings := ?sw, re_done := re_done s @ [i]\<rparr>"
        using True pc task None by (cases s) (simp add: worker_step_def Let_def)
      ultimately show ?thesis by simp
    next
      case (Some msg)
      let ?wk' = "fail_worker (Thrown i) msg ?wk"
      have "region_inv B T C n (s\<lparr>re_workers := (re_workers s)[w := ?wk'], re_warnings := ?sw, re_done := re_done s\<rparr>)"
        unfolding region_inv_same_queue [OF inv, symmetric]
      proof (rule region_inv_put [OF inv w order_refl q(3)])
        show "worker_inv B (?q\<lparr>q_next := q_next ?q\<rparr>) ?wk'"
          using wk at True pc q task Some
          by (auto simp: worker_inv_def Let_def fail_worker_def record_failure_def serial_position_def)
        have hold': "holds ?wk' j \<longleftrightarrow> holds ?wk j" for j using pc by (simp add: holds_def fail_worker_def)
        show "j \<in> set (re_done s) \<longleftrightarrow> 0 \<le> j \<and> j < q_next ?q \<and> j < T \<and> \<not> holds ?wk' j \<and> \<not> others_hold s w j" for j
          unfolding hold' by (rule D)
        show "wc_begin (wk_context (re_workers s ! v)) \<noteq> wc_begin (wk_context ?wk')"
          if "v < n" "v \<noteq> w" "worker_pos (wk_pc (re_workers s ! v)) \<noteq> None" for v
          using apart [OF that] by (simp add: fail_worker_def)
      qed (use dst in auto)
      moreover have "worker_step B w s = s\<lparr>re_workers := (re_workers s)[w := ?wk'], re_warnings := ?sw, re_done := re_done s\<rparr>"
        using True pc task Some by (cases s) (simp add: worker_step_def Let_def)
      ultimately show ?thesis by simp
    qed
  qed
qed

lemma region_inv_setup:
  assumes inv: "region_inv B T C n s" and w: "w < n" and pc: "wk_pc (re_workers s ! w) = Setup"
    and ok: "snd (body_setup B w) = None"
  shows "region_inv B T C n (worker_step B w s)"
proof -
  let ?wk = "re_workers s ! w"
  obtain k where k: "body_setup B w = (k, None)" using ok by (cases "body_setup B w") simp
  have wk: "worker_inv B (re_queue s) ?wk" using inv w by (simp add: region_inv_def)
  have "region_inv B T C n (s\<lparr>re_workers := (re_workers s)[w := ?wk\<lparr>wk_pc := Ready\<rparr>],
      re_warnings := add_warnings (wk_context ?wk) k (re_warnings s), re_done := re_done s\<rparr>)"
    using pc wk by (intro region_inv_idle [OF inv w]) (auto simp: holds_def worker_inv_def Let_def)
  moreover have "worker_step B w s = s\<lparr>re_workers := (re_workers s)[w := ?wk\<lparr>wk_pc := Ready\<rparr>],
      re_warnings := add_warnings (wk_context ?wk) k (re_warnings s), re_done := re_done s\<rparr>"
    using pc k by (cases s) (simp add: worker_step_def Let_def)
  ultimately show ?thesis by simp
qed

lemma region_inv_reaches:
  assumes "reaches B s t" "region_inv B T C n s" "0 < C" "\<forall>w < n. snd (body_setup B w) = None"
  shows "region_inv B T C n t"
  using assms
proof (induction rule: reaches.induct)
  case (step s t u)
  then have inv: "region_inv B T C n t" by simp
  from \<open>region_step B t u\<close> obtain w where w: "w < length (re_workers t)" "running (re_workers t ! w)" "u = worker_step B w t"
    by (rule region_stepE)
  then have "w < n" using inv by (simp add: region_inv_def)
  with w(2) inv step.prems show ?case
    unfolding w(3) using region_inv_setup region_inv_claim region_inv_task
    by (auto simp: running_def split: worker_pc.splits)
qed

lemma first_failure_least:
  assumes "\<forall>r\<in>set rs. rp_failed r \<longrightarrow> r = f \<or> rp_failed_at f < rp_failed_at r" "f \<in> set rs \<or> acc = Some f" "rp_failed f"
    and "\<forall>r. acc = Some r \<longrightarrow> r = f \<or> rp_failed_at f < rp_failed_at r"
  shows "first_failure rs acc = Some f"
  using assms
proof (induction rs arbitrary: acc)
  case (Cons r rs)
  show ?case
    unfolding first_failure.simps
  proof (rule Cons.IH)
    show "f \<in> set rs \<or> (if rp_failed r \<and> (acc = None \<or> rp_failed_at r < rp_failed_at (the acc)) then Some r else acc) = Some f"
      using Cons.prems by (cases acc) fastforce+
  qed (use Cons.prems in \<open>auto split: if_splits\<close>)
qed simp

lemma first_failure_none: "\<forall>r\<in>set rs. \<not> rp_failed r \<Longrightarrow> first_failure rs None = None"
  by (induction rs) auto

lemma joined_worker:
  assumes "region_inv B T C n s" "joined s" "w < n"
  shows "wk_pc (re_workers s ! w) = Returned \<or> (\<exists>i. wk_pc (re_workers s ! w) = Thrown i)"
proof -
  have "\<not> running (re_workers s ! w)" "wk_pc (re_workers s ! w) \<noteq> Unwound"
    using assms by (auto simp: joined_def region_inv_def list_all_length worker_inv_def Let_def)
  then show ?thesis by (auto simp: running_def split: worker_pc.splits)
qed

lemma region_inv_done_iff:
  "region_inv B T C n s \<Longrightarrow> i \<in> set (re_done s) \<longleftrightarrow>
     0 \<le> i \<and> i < q_next (re_queue s) \<and> i < T \<and> \<not> (\<exists>w < n. holds (re_workers s ! w) i)"
  unfolding region_inv_def by blast

lemma region_inv_done_ok: "region_inv B T C n s \<Longrightarrow> i \<in> set (re_done s) \<Longrightarrow> snd (body_task B i) = None"
  unfolding region_inv_def by blast

lemma worker_inv_thrown:
  assumes "worker_inv B q wk" "wk_pc wk = Thrown i"
  shows "q_chunk q dvd wc_begin (wk_context wk)" "0 \<le> wc_begin (wk_context wk)" "wc_begin (wk_context wk) \<le> i"
    "i < wc_begin (wk_context wk) + q_chunk q" "i < q_tasks q" "i < q_next q"
    "rp_failed_at (wk_report wk) = wc_begin (wk_context wk)"
    "snd (body_task B i) = wk_thrown wk" "wk_thrown wk \<noteq> None" "rp_message (wk_report wk) = describe_error message_size (the (wk_thrown wk))"
    "rp_failed (wk_report wk)"
  using assms by (auto simp: worker_inv_def Let_def)

lemma worker_inv_report:
  assumes "worker_inv B q wk"
  shows "rp_failed (wk_report wk) \<longleftrightarrow> (\<exists>p. wk_pc wk = Thrown p)" "wk_pc wk = Returned \<Longrightarrow> q_tasks q \<le> q_next q"
    "wk_pc wk = Returned \<Longrightarrow> wk_thrown wk = None"
  using assms unfolding worker_inv_def Let_def by auto

lemma region_inv_parts:
  assumes "region_inv B T C n s"
  shows "length (re_workers s) = n" "q_tasks (re_queue s) = T" "q_chunk (re_queue s) = C" "distinct (re_done s)"
    "w < n \<Longrightarrow> worker_inv B (re_queue s) (re_workers s ! w)"
  using assms unfolding region_inv_def by blast+

lemma region_inv_apart:
  assumes "region_inv B T C n s" "w < n" "v < n" "w \<noteq> v" "wk_pc (re_workers s ! w) = Thrown i" "wk_pc (re_workers s ! v) = Thrown j"
  shows "wc_begin (wk_context (re_workers s ! w)) \<noteq> wc_begin (wk_context (re_workers s ! v))"
  using assms by (simp add: region_inv_def)

lemma joined_success:
  assumes inv: "region_inv B T C n s" "joined s" and n: "0 < n"
    and ok: "\<forall>i. 0 \<le> i \<and> i < T \<longrightarrow> snd (body_task B i) = None"
  shows "fst (region_result s) = None" "distinct (re_done s)" "set (re_done s) = {0..<T}"
proof -
  have ret: "wk_pc (re_workers s ! w) = Returned" if wn: "w < n" for w
  proof (rule ccontr)
    assume "wk_pc (re_workers s ! w) \<noteq> Returned"
    then obtain i where i: "wk_pc (re_workers s ! w) = Thrown i" using joined_worker [OF inv wn] by auto
    note th = worker_inv_thrown(2,3,5,8,9) [OF region_inv_parts(5) [OF inv(1) wn] i]
    have "0 \<le> i" by (rule order_trans [OF th(1,2)])
    moreover have "i < T" using th(3) unfolding region_inv_parts(2) [OF inv(1)] .
    ultimately have "snd (body_task B i) = None" using ok by simp
    with th(4,5) show False by simp
  qed
  have T: "T \<le> q_next (re_queue s)"
    using worker_inv_report(2) [OF region_inv_parts(5) [OF inv(1) n] ret [OF n]] region_inv_parts(2) [OF inv(1)] by simp
  have "\<not> rp_failed (wk_report wk)" if wk: "wk \<in> set (re_workers s)" for wk
  proof -
    obtain w where "w < n" "wk = re_workers s ! w" using wk region_inv_parts(1) [OF inv(1)] by (auto simp: in_set_conv_nth)
    with worker_inv_report(1) [OF region_inv_parts(5) [OF inv(1)]] ret show ?thesis by simp
  qed
  then have "first_failure (map wk_report (re_workers s)) None = None" by (intro first_failure_none) auto
  then show "fst (region_result s) = None"
    using T region_inv_parts(2) [OF inv(1)] worker_inv_report(3) [OF region_inv_parts(5) [OF inv(1) n] ret [OF n]]
    by (simp add: region_result_def region_verdict_def drained_def)
  show "distinct (re_done s)" by (rule region_inv_parts(4) [OF inv(1)])
  have "\<not> (\<exists>w < n. holds (re_workers s ! w) i)" for i using ret by (auto simp: holds_def)
  then show "set (re_done s) = {0..<T}" using region_inv_done_iff [OF inv(1)] T by auto
qed

lemma joined_failure:
  assumes inv: "region_inv B T C n s" "joined s" and n: "0 < n" and C: "0 < C"
    and m: "0 \<le> m" "m < T" "snd (body_task B m) = Some e"
    and least: "\<forall>i. 0 \<le> i \<and> i < m \<longrightarrow> snd (body_task B i) = None"
  shows "\<exists>r. first_failure (map wk_report (re_workers s)) None = Some r \<and> rp_message r = describe_error message_size e \<and>
    (n < 2 \<longrightarrow> wk_thrown (re_workers s ! 0) = Some e) \<and>
    rp_failed_at r \<le> m \<and> m < rp_failed_at r + C \<and> C dvd rp_failed_at r"
proof -
  have W: "worker_inv B (re_queue s) (re_workers s ! w)" "q_tasks (re_queue s) = T" "q_chunk (re_queue s) = C"
    if "w < n" for w using region_inv_parts(2,3,5) [OF inv(1)] that by auto
  have thrown: "C dvd wc_begin (wk_context (re_workers s ! w)) \<and> 0 \<le> wc_begin (wk_context (re_workers s ! w)) \<and>
      wc_begin (wk_context (re_workers s ! w)) \<le> i \<and> i < wc_begin (wk_context (re_workers s ! w)) + C \<and> m \<le> i \<and>
      i < q_next (re_queue s) \<and> rp_failed_at (wk_report (re_workers s ! w)) = wc_begin (wk_context (re_workers s ! w)) \<and>
      snd (body_task B i) = wk_thrown (re_workers s ! w) \<and> wk_thrown (re_workers s ! w) \<noteq> None \<and>
      rp_message (wk_report (re_workers s ! w)) = describe_error message_size (the (wk_thrown (re_workers s ! w))) \<and>
      rp_failed (wk_report (re_workers s ! w))"
    if "w < n" "wk_pc (re_workers s ! w) = Thrown i" for w i
  proof -
    have *: "C dvd wc_begin (wk_context (re_workers s ! w)) \<and> 0 \<le> wc_begin (wk_context (re_workers s ! w)) \<and>
      wc_begin (wk_context (re_workers s ! w)) \<le> i \<and> i < wc_begin (wk_context (re_workers s ! w)) + C \<and>
      i < q_next (re_queue s) \<and> rp_failed_at (wk_report (re_workers s ! w)) = wc_begin (wk_context (re_workers s ! w)) \<and>
      snd (body_task B i) = wk_thrown (re_workers s ! w) \<and> wk_thrown (re_workers s ! w) \<noteq> None \<and>
      rp_message (wk_report (re_workers s ! w)) = describe_error message_size (the (wk_thrown (re_workers s ! w))) \<and>
      rp_failed (wk_report (re_workers s ! w))"
      using worker_inv_thrown [OF W(1) [OF that(1)] that(2)] W(2,3) [OF that(1)] by simp
    then have "m \<le> i" using least by (metis not_le order_trans)
    with * show ?thesis by simp
  qed
  have "m < q_next (re_queue s)"
  proof (cases "wk_pc (re_workers s ! 0) = Returned")
    case True
    then show ?thesis using worker_inv_report(2) [OF W(1) [OF n]] W(2) [OF n] m(2) by linarith
  next
    case False
    then obtain i where "wk_pc (re_workers s ! 0) = Thrown i" using joined_worker [OF inv n] by auto
    from thrown [OF n this] show ?thesis by linarith
  qed
  moreover have "m \<notin> set (re_done s)" using region_inv_done_ok [OF inv(1), of m] m(3) by auto
  ultimately obtain w where w: "w < n" "holds (re_workers s ! w) m"
    using m region_inv_done_iff [OF inv(1), of m] by blast
  obtain i where i: "wk_pc (re_workers s ! w) = Thrown i"
    using joined_worker [OF inv w(1)] w(2) by (auto simp: holds_def)
  have im: "i = m" using thrown [OF w(1) i] w(2) i by (simp add: holds_def)
  let ?f = "wk_report (re_workers s ! w)"
  note fw = thrown [OF w(1) i, unfolded im]
  have "\<forall>r\<in>set (map wk_report (re_workers s)). rp_failed r \<longrightarrow> r = ?f \<or> rp_failed_at ?f < rp_failed_at r"
  proof (intro ballI impI)
    fix r assume "r \<in> set (map wk_report (re_workers s))" and rf: "rp_failed r"
    then obtain v where v: "v < n" "r = wk_report (re_workers s ! v)"
      using region_inv_parts(1) [OF inv(1)] by (auto simp: in_set_conv_nth)
    then obtain j where j: "wk_pc (re_workers s ! v) = Thrown j" using rf worker_inv_report(1) [OF W(1) [OF v(1)]] by auto
    show "r = ?f \<or> rp_failed_at ?f < rp_failed_at r"
    proof (cases "v = w")
      case False
      note ne = region_inv_apart [OF inv(1) v(1) w(1) False j i]
      have "\<not> wc_begin (wk_context (re_workers s ! v)) < wc_begin (wk_context (re_workers s ! w))"
      proof
        assume lt: "wc_begin (wk_context (re_workers s ! v)) < wc_begin (wk_context (re_workers s ! w))"
        have "wc_begin (wk_context (re_workers s ! v)) + C \<le> wc_begin (wk_context (re_workers s ! w))"
          by (rule chunk_apart [OF _ _ C lt]) (simp_all add: thrown [OF v(1) j] fw)
        with thrown [OF v(1) j] fw show False by linarith
      qed
      with ne v thrown [OF v(1) j] fw show ?thesis by simp
    qed (simp add: v)
  qed
  moreover have "?f \<in> set (map wk_report (re_workers s))" using w(1) region_inv_parts(1) [OF inv(1)] by simp
  ultimately have "first_failure (map wk_report (re_workers s)) None = Some ?f"
    using fw by (intro first_failure_least) auto
  moreover have "n < 2 \<longrightarrow> w = 0" using w(1) by linarith
  ultimately show ?thesis using fw m(3) by auto
qed

subsection \<open>Termination of a region\<close>

definition worker_rank :: "worker \<Rightarrow> nat" where
  "worker_rank wk = (case wk_pc wk of Setup \<Rightarrow> 2 | Ready \<Rightarrow> 1 | At i \<Rightarrow> 2 + 2 * nat (wc_end (wk_context wk) - i) | _ \<Rightarrow> 0)"

definition region_measure :: "region \<Rightarrow> nat" where
  "region_measure s = 4 * nat (q_tasks (re_queue s) - q_next (re_queue s)) + sum_list (map worker_rank (re_workers s))"

lemma sum_list_replace:
  "w < length xs \<Longrightarrow> sum_list (map f (xs[w := y])) + f (xs ! w) = sum_list (map f xs) + (f y :: nat)"
  by (induction xs arbitrary: w) (auto split: nat.splits)

lemma worker_step_rank:
  assumes "w < length (re_workers s)" "running (re_workers s ! w)" "0 < q_chunk (re_queue s)"
  shows "region_measure (worker_step B w s) < region_measure s"
proof -
  let ?wk = "re_workers s ! w" and ?q = "re_queue s"
  have drop: "region_measure s' < region_measure s"
    if "re_workers s' = (re_workers s)[w := wk]"
      "4 * nat (q_tasks (re_queue s') - q_next (re_queue s')) + worker_rank wk < 4 * nat (q_tasks ?q - q_next ?q) + worker_rank ?wk" for s' wk
    using sum_list_replace [OF assms(1), of worker_rank wk] that by (simp add: region_measure_def)
  show ?thesis
  proof (cases "wk_pc ?wk")
    case Setup
    then show ?thesis
      by (cases "snd (body_setup B w)"; cases "body_setup B w")
        (auto simp: worker_step_def Let_def fail_worker_def worker_rank_def intro!: drop)
  next
    case Ready
    then show ?thesis
      using assms(3)
      by (auto simp: worker_step_def next_chunk_def claim_def Let_def worker_rank_def intro!: drop)
  next
    case (At i)
    then show ?thesis
      by (cases "snd (body_task B i)"; cases "body_task B i")
        (auto simp: worker_step_def Let_def fail_worker_def worker_rank_def intro!: drop)
  qed (use assms(2) in \<open>auto simp: running_def\<close>)
qed

subsection \<open>Plans and settings\<close>

definition settings_ok :: "settings \<Rightarrow> bool" where
  "settings_ok st \<longleftrightarrow> 1 \<le> threads_setting st \<and> threads_setting st \<le> worker_maximum \<and>
     1 \<le> chunks_per_worker_setting st \<and> chunks_per_worker_setting st \<le> 4503599627370496 \<and>
     1 \<le> minimum_chunk_setting st \<and> minimum_chunk_setting st \<le> 4503599627370496"

lemma double_count_bounds: "double_count d = Some k \<Longrightarrow> 1 \<le> k \<and> k \<le> 4503599627370496"
proof (cases d)
  case (Fin x)
  assume "double_count d = Some k"
  then show ?thesis using Fin
    by (auto simp: count_maximum_def le_floor_iff floor_le_iff split: if_splits)
qed (auto simp: count_maximum_def)

lemma setting_value_bounds: "setting_value v = Some k \<Longrightarrow> 1 \<le> k \<and> k \<le> 4503599627370496"
  by (auto simp: setting_value_def Let_def dest: double_count_bounds split: sexp.splits if_splits simp del: double_count.simps)

definition ceil_div :: "int \<Rightarrow> int \<Rightarrow> int" where
  "ceil_div a b = a div b + (if a mod b \<noteq> 0 then 1 else 0)"

lemma ceil_div_bounds:
  assumes "0 < b"
  shows "a \<le> ceil_div a b * b" "ceil_div a b * b < a + b"
proof -
  have *: "a div b * b = a - a mod b" by (simp add: minus_mod_eq_div_mult)
  have "0 \<le> a mod b" "a mod b < b" using assms by simp_all
  then show "a \<le> ceil_div a b * b" "ceil_div a b * b < a + b"
    unfolding ceil_div_def distrib_right * by auto
qed

lemma ceil_div_pos: "0 < b \<Longrightarrow> 0 < a \<Longrightarrow> 1 \<le> ceil_div a b"
  using ceil_div_bounds(1) [of b a] mult_nonpos_nonneg [of "ceil_div a b" b] by linarith

lemma ceil_div_antimono:
  assumes "0 < c" "c \<le> b" "0 \<le> a"
  shows "ceil_div a b \<le> ceil_div a c"
proof (rule ccontr)
  assume "\<not> ?thesis"
  then have "ceil_div a c + 1 \<le> ceil_div a b" by simp
  then have "(ceil_div a c + 1) * b \<le> ceil_div a b * b" using assms by (intro mult_right_mono) auto
  moreover have "ceil_div a b * b < a + b" using ceil_div_bounds(2) assms by simp
  moreover have "0 \<le> ceil_div a c" using assms by (simp add: ceil_div_def pos_imp_zdiv_nonneg_iff)
  then have "ceil_div a c * c \<le> ceil_div a c * b" using assms by (intro mult_left_mono) auto
  moreover have "a \<le> ceil_div a c * c" using ceil_div_bounds(1) assms by simp
  ultimately show False by (simp add: distrib_right)
qed

lemma chunk_tasks_pos: "1 \<le> chunk_tasks tasks workers per_worker floor_tasks"
  by (simp add: chunk_tasks_def Let_def)

lemma clamp_workers_bounds:
  "1 \<le> clamp_workers tasks requested" "clamp_workers tasks requested \<le> worker_maximum"
  "clamp_workers tasks requested \<le> max 1 requested" "2 \<le> clamp_workers tasks requested \<Longrightarrow> 2 \<le> tasks"
  by (auto simp: clamp_workers_def worker_maximum_def Let_def split: if_splits)

text \<open>The comment of \<open>chunk_tasks\<close> says that the floor never takes the cut below one chunk per
  worker. The chunk is capped by the rounded-up share of a worker, so five tasks for four
  workers are cut into three chunks.\<close>

lemma chunk_tasks_below_workers: "chunk_tasks 5 4 128 256 = 2 \<and> ceil_div 5 2 = 3"
  by (simp add: chunk_tasks_def ceil_div_def)

lemma worker_step_chunk: "q_chunk (re_queue (worker_step B w s)) = q_chunk (re_queue s)"
  by (auto simp: worker_step_def next_chunk_def claim_def Let_def split: worker_pc.splits option.splits prod.splits)

lemma reaches_chunk: "reaches B s t \<Longrightarrow> q_chunk (re_queue t) = q_chunk (re_queue s)"
  by (induction rule: reaches.induct) (auto elim!: region_stepE simp: worker_step_chunk)

lemma region_step_rank: "region_step B s t \<Longrightarrow> 0 < q_chunk (re_queue s) \<Longrightarrow> region_measure t < region_measure s"
  by (auto elim!: region_stepE intro: worker_step_rank)

lemma not_joined_step: "\<not> joined s \<Longrightarrow> \<exists>t. region_step B s t"
  by (auto simp: joined_def list_all_length intro: region_step.intros)

lemma reaches_joined: "reaches B r s \<Longrightarrow> 0 < q_chunk (re_queue s) \<Longrightarrow> \<exists>t. reaches B r t \<and> joined t"
proof (induction "region_measure s" arbitrary: s rule: less_induct)
  case less
  show ?case
  proof (cases "joined s")
    case False
    then obtain t where t: "region_step B s t" using not_joined_step by blast
    have "reaches B s t" by (rule reaches.step [OF reaches.refl t])
    then have "0 < q_chunk (re_queue t)" using less.prems(2) by (simp add: reaches_chunk)
    with less.hyps [OF region_step_rank [OF t less.prems(2)] reaches.step [OF less.prems(1) t]] show ?thesis by simp
  qed (use less.prems in blast)
qed

text \<open>A schedule names the worker of each step.\<close>

fun schedule_ok :: "par_body \<Rightarrow> nat list \<Rightarrow> region \<Rightarrow> bool" where
  "schedule_ok B [] s = joined s"
| "schedule_ok B (w # ws) s =
     (w < length (re_workers s) \<and> running (re_workers s ! w) \<and> schedule_ok B ws (worker_step B w s))"

lemma schedule_reaches:
  "schedule_ok B ws s \<Longrightarrow> reaches B r s \<Longrightarrow> reaches B r (fold (worker_step B) ws s) \<and> joined (fold (worker_step B) ws s)"
  by (induction ws arbitrary: s) (auto intro: reaches.step region_step.intros)

definition sample_body :: par_body where
  "sample_body = \<lparr>body_setup = (\<lambda>_. (0, None)), body_task = (\<lambda>i. (1, if i = 1 then Some (Reported ''bad'') else if i = 2 then Some (Standard (Runtime_error ''worse'')) else None))\<rparr>"

definition counting_body :: par_body where
  "counting_body = \<lparr>body_setup = (\<lambda>_. (0, None)), body_task = (\<lambda>i. (1, None))\<rparr>"

subsection \<open>Properties\<close>

lemma region_workers_le: "0 < n \<Longrightarrow> region_workers n T \<le> n" "0 < region_workers n T"
  by (auto simp: region_workers_def)

text \<open>C3. A threaded run fails as a serial run would: whatever the interleaving of the workers,
  when all have ended, the exception raised is that of the lowest failing task, itself where one
  worker ran and with its message otherwise.\<close>

theorem parallel_failure_is_serial:
  assumes "reaches B (start_region n T C) s" "joined s" "0 < n" "1 \<le> C" "\<forall>w < n. snd (body_setup B w) = None"
    and "0 \<le> m" "m < T" "snd (body_task B m) = Some e" "\<forall>i. 0 \<le> i \<and> i < m \<longrightarrow> snd (body_task B i) = None"
  shows "fst (region_result s) = Some (if n < 2 \<or> T < 2 then e else Standard (Runtime_error (describe_error message_size e)))"
proof -
  have C: "0 < C" using assms(4) by simp
  let ?n = "region_workers n T"
  have "\<forall>w < ?n. snd (body_setup B w) = None" using assms(3,5) region_workers_le(1) [of n T] by simp
  from region_inv_reaches [OF assms(1) start_region_inv [OF assms(4)] C this]
  have inv: "region_inv B T C ?n s" .
  obtain r where r: "first_failure (map wk_report (re_workers s)) None = Some r" "rp_message r = describe_error message_size e"
      "?n < 2 \<longrightarrow> wk_thrown (re_workers s ! 0) = Some e"
    using joined_failure [OF inv assms(2) region_workers_le(2) C assms(6-9)] by blast
  have "length (re_workers s) < 2 \<longleftrightarrow> n < 2 \<or> T < 2"
    using region_inv_parts(1) [OF inv] by (auto simp: region_workers_def)
  then show ?thesis using r by (auto simp: region_result_def region_verdict_def region_workers_def)
qed

text \<open>The second worker fails at task 2 before the first one fails at task 1.\<close>

theorem parallel_failure_is_serial_witness:
  "fst (region_result (fold (worker_step sample_body) [0, 1, 0, 0, 0, 0, 1, 1, 0] (start_region 2 4 1))) = Some (Standard (Runtime_error ''bad''))"
  (is "fst (region_result ?s) = _")
proof -
  have "schedule_ok sample_body [0, 1, 0, 0, 0, 0, 1, 1, 0] (start_region 2 4 1)" by code_simp
  then have s: "reaches sample_body (start_region 2 4 1) ?s" "joined ?s"
    using schedule_reaches [OF _ reaches.refl] by blast+
  have "fst (region_result ?s) = Some (if (2::nat) < 2 \<or> (4::int) < 2 then Reported ''bad''
      else Standard (Runtime_error (describe_error message_size (Reported ''bad''))))"
    by (rule parallel_failure_is_serial [OF s, where m = 1]) (auto simp: sample_body_def)
  then show ?thesis by (simp add: describe_error_def message_size_def)
qed

text \<open>C11. A threaded run without a failure runs every task exactly once, on any number of
  workers and with any chunk size, and raises nothing.\<close>

theorem parallel_runs_each_task_once:
  assumes "reaches B (start_region n T C) s" "joined s" "0 < n" "1 \<le> C" "\<forall>w < n. snd (body_setup B w) = None"
    and "\<forall>i. 0 \<le> i \<and> i < T \<longrightarrow> snd (body_task B i) = None"
  shows "fst (region_result s) = None \<and> distinct (re_done s) \<and> set (re_done s) = {0..<T}"
proof -
  have "0 < C" using assms(4) by simp
  moreover have "\<forall>w < region_workers n T. snd (body_setup B w) = None" using assms(3,5) region_workers_le(1) [of n T] by simp
  ultimately show ?thesis
    using joined_success [OF region_inv_reaches [OF assms(1) start_region_inv [OF assms(4)]] assms(2) region_workers_le(2) assms(6)] by blast
qed

theorem parallel_runs_each_task_once_witness:
  "set (re_done (fold (worker_step counting_body) [0, 1, 1, 0, 0, 0, 0, 1, 1, 1, 1] (start_region 2 3 2))) = {0..<3}"
  (is "set (re_done ?s) = _")
proof -
  have "schedule_ok counting_body [0, 1, 1, 0, 0, 0, 0, 1, 1, 1, 1] (start_region 2 3 2)" by code_simp
  then have s: "reaches counting_body (start_region 2 3 2) ?s" "joined ?s"
    using schedule_reaches [OF _ reaches.refl] by blast+
  have "fst (region_result ?s) = None \<and> distinct (re_done ?s) \<and> set (re_done ?s) = {0..<3}"
    by (rule parallel_runs_each_task_once [OF s]) (auto simp: counting_body_def)
  then show ?thesis by simp
qed

text \<open>C19. A region always ends: from every state the workers can reach, also with failing
  setups and tasks, they can go on until all have ended, and every step of any
  interleaving decreases a bound, so no interleaving goes on forever.\<close>

theorem parallel_ends:
  assumes "reaches B (start_region n T C) s"
  shows "(\<exists>t. reaches B (start_region n T C) t \<and> joined t) \<and> (joined s \<or> (\<exists>t. region_step B s t)) \<and>
    (\<forall>t. region_step B s t \<longrightarrow> region_measure t < region_measure s)"
proof -
  have "0 < q_chunk (re_queue (start_region n T C))" by (simp add: start_region_def ChunkQueue_def Let_def)
  then have "0 < q_chunk (re_queue s)" using reaches_chunk [OF assms] by simp
  then show ?thesis
    using reaches_joined [OF assms] not_joined_step region_step_rank by blast
qed

theorem parallel_ends_witness:
  "\<exists>t. reaches sample_body (start_region 2 4 1) t \<and> joined t"
  using parallel_ends [OF reaches.refl, of sample_body 2 4 1] by blast

lemma ceil_div_le_iff:
  assumes "0 < b"
  shows "ceil_div a b \<le> k \<longleftrightarrow> a \<le> k * b"
proof
  assume "ceil_div a b \<le> k"
  then have "ceil_div a b * b \<le> k * b" using assms by (simp add: mult_right_mono)
  then show "a \<le> k * b" using ceil_div_bounds(1) [OF assms, of a] by linarith
next
  assume "a \<le> k * b"
  then have "ceil_div a b * b < (k + 1) * b" using ceil_div_bounds(2) [OF assms, of a] by (simp add: distrib_right)
  then show "ceil_div a b \<le> k" using assms by simp
qed

text \<open>The chunk of \<open>chunk_tasks\<close> is the larger of the even cut and the floor, where the floor is capped by the
  share of a worker.\<close>

lemma chunk_tasks_max:
  assumes "0 < tasks" "0 < w" "1 \<le> pw"
  shows "chunk_tasks tasks w pw fl = max (ceil_div tasks (w * pw)) (min fl (ceil_div tasks w))"
proof -
  have "w \<le> w * pw" using assms by simp
  then have "ceil_div tasks (w * pw) \<le> ceil_div tasks w" using assms by (intro ceil_div_antimono) auto
  moreover have "1 \<le> ceil_div tasks (w * pw)" using assms by (intro ceil_div_pos) auto
  ultimately show ?thesis unfolding chunk_tasks_def Let_def by (auto simp flip: ceil_div_def)
qed

text \<open>The number of workers \<open>chunk_tasks\<close> is called with.\<close>

abbreviation threads_for :: "settings \<Rightarrow> int \<Rightarrow> int" where
  "threads_for st tasks \<equiv> clamp_workers tasks (threads_setting st)"

lemma make_parallel_plan_cases:
  fixes tasks :: int
  assumes "settings_ok st"
  defines "w \<equiv> threads_for st tasks"
  defines "c \<equiv> chunk_tasks tasks w (chunks_per_worker_setting st) (minimum_chunk_setting st)"
  shows "make_parallel_plan st eligible tasks =
    (if eligible \<and> 2 \<le> w then \<lparr>plan_workers = min w (ceil_div tasks c), plan_chunk = c\<rparr>
     else \<lparr>plan_workers = 1, plan_chunk = (if tasks > 0 then tasks else 1)\<rparr>)"
  using clamp_workers_bounds(1) [of tasks "threads_setting st"]
  by (auto simp: make_parallel_plan_def Let_def w_def [symmetric] c_def [symmetric] ceil_div_def [symmetric] min_def)

text \<open>C40. A plan made from valid settings has at least one worker, at most the threads the
  settings allow, a chunk of at least one task, and never more workers than chunks. The
  product of the threads and the chunks per worker that \<open>chunk_tasks\<close> forms fits a 64-bit integer.
  The chunk of a threaded plan is the smallest one that cuts the tasks into no more pieces than
  that product and is not below the floor, the floor capped by the share of one thread.\<close>

theorem parallel_plan_bounds:
  assumes "settings_ok st"
  shows "let p = make_parallel_plan st eligible tasks; w = threads_for st tasks;
      pieces = w * chunks_per_worker_setting st; least = min (minimum_chunk_setting st) (ceil_div tasks w) in
    1 \<le> plan_workers p \<and> plan_workers p \<le> threads_setting st \<and> 1 \<le> plan_chunk p \<and>
    (0 < tasks \<longrightarrow> plan_workers p \<le> ceil_div tasks (plan_chunk p)) \<and> pieces < 2 ^ 63 \<and>
    (eligible \<and> 2 \<le> w \<longrightarrow> ceil_div tasks (plan_chunk p) \<le> pieces \<and> least \<le> plan_chunk p \<and>
      (\<forall>c\<ge>1. ceil_div tasks c \<le> pieces \<and> least \<le> c \<longrightarrow> plan_chunk p \<le> c))"
proof -
  define p where "p = make_parallel_plan st eligible tasks"
  define w where "w = threads_for st tasks"
  define pw where "pw = chunks_per_worker_setting st"
  define c where "c = chunk_tasks tasks w pw (minimum_chunk_setting st)"
  have st: "1 \<le> threads_setting st" "threads_setting st \<le> 256" "1 \<le> pw" "pw \<le> 4503599627370496"
    using assms by (auto simp: settings_ok_def worker_maximum_def pw_def)
  have w: "1 \<le> w" "w \<le> threads_setting st" "2 \<le> w \<Longrightarrow> 2 \<le> tasks"
    using clamp_workers_bounds [of tasks "threads_setting st"] st by (auto simp: w_def)
  have "w * pw \<le> 256 * 4503599627370496" using w st by (intro mult_mono) auto
  then have product: "w * pw < 2 ^ 63" by simp
  have c1: "1 \<le> c" by (simp add: c_def chunk_tasks_pos)
  have p: "p = (if eligible \<and> 2 \<le> w then \<lparr>plan_workers = min w (ceil_div tasks c), plan_chunk = c\<rparr>
      else \<lparr>plan_workers = 1, plan_chunk = (if tasks > 0 then tasks else 1)\<rparr>)"
    unfolding p_def w_def c_def pw_def by (rule make_parallel_plan_cases [OF assms])
  have tc: "2 \<le> w \<Longrightarrow> 1 \<le> ceil_div tasks c" using ceil_div_pos [of c tasks] c1 w(3) by linarith
  have one: "0 < tasks \<Longrightarrow> ceil_div tasks tasks = 1" by (simp add: ceil_div_def)
  have bounds: "1 \<le> plan_workers p" "plan_workers p \<le> threads_setting st" "1 \<le> plan_chunk p"
      "0 < tasks \<longrightarrow> plan_workers p \<le> ceil_div tasks (plan_chunk p)"
    using w c1 tc one st by (auto simp: p)
  have cut: "ceil_div tasks d \<le> w * pw \<longleftrightarrow> ceil_div tasks (w * pw) \<le> d" if "1 \<le> d" for d
    using that w st ceil_div_le_iff [of d tasks "w * pw"] ceil_div_le_iff [of "w * pw" tasks d] by (simp add: mult.commute)
  have "ceil_div tasks c \<le> w * pw \<and> min (minimum_chunk_setting st) (ceil_div tasks w) \<le> c \<and>
      (\<forall>d\<ge>1. ceil_div tasks d \<le> w * pw \<and> min (minimum_chunk_setting st) (ceil_div tasks w) \<le> d \<longrightarrow> c \<le> d)" if "2 \<le> w"
    using chunk_tasks_max [of tasks w pw "minimum_chunk_setting st"] that w st cut c1 by (simp add: c_def [symmetric])
  with bounds product show ?thesis
    by (auto simp: p_def [symmetric] w_def [symmetric] pw_def [symmetric] Let_def p)
qed

theorem parallel_plan_bounds_witness:
  "let p = make_parallel_plan (default_settings\<lparr>threads_setting := 4\<rparr>) True 5 in
    1 \<le> plan_workers p \<and> plan_workers p \<le> 4 \<and> 1 \<le> plan_chunk p \<and> plan_workers p \<le> ceil_div 5 (plan_chunk p) \<and>
    2 \<le> plan_chunk p \<and> plan_chunk p \<le> 2"
proof -
  have ok: "settings_ok (default_settings\<lparr>threads_setting := 4\<rparr>)"
    by (simp add: settings_ok_def default_settings_def worker_maximum_def chunks_per_worker_def minimum_chunk_tasks_def)
  have w: "clamp_workers 5 4 = 4" "ceil_div 5 4 = 2" "ceil_div 5 2 = 3"
    by (simp_all add: clamp_workers_def worker_maximum_def ceil_div_def)
  have "2 \<le> plan_chunk (make_parallel_plan (default_settings\<lparr>threads_setting := 4\<rparr>) True 5)"
    "plan_chunk (make_parallel_plan (default_settings\<lparr>threads_setting := 4\<rparr>) True 5) \<le> 2"
    using parallel_plan_bounds [OF ok, of True 5] w
    by (auto simp: Let_def default_settings_def chunks_per_worker_def minimum_chunk_tasks_def)
  then show ?thesis using parallel_plan_bounds [OF ok, of True 5] by (simp add: Let_def)
qed

text \<open>The three accessors keep the settings valid, whatever R value they are given, and
  return the previous setting; a value that is not one positive number changes nothing.\<close>

lemma settings_stay_valid:
  assumes "settings_ok st"
  shows "settings_ok (snd (C_charr_threads st v)) \<and> settings_ok (snd (C_charr_chunks_per_worker st v)) \<and>
    settings_ok (snd (C_charr_min_chunk st v)) \<and> setting_value (fst (C_charr_threads st v)) = Some (threads_setting st) \<and>
    (setting_value v = None \<longrightarrow> snd (C_charr_threads st v) = st \<and> snd (C_charr_chunks_per_worker st v) = st \<and> snd (C_charr_min_chunk st v) = st)"
proof -
  have ok: "settings_ok (snd (C_charr_threads st v)) \<and> settings_ok (snd (C_charr_chunks_per_worker st v)) \<and> settings_ok (snd (C_charr_min_chunk st v))"
    using assms by (auto simp: settings_ok_def C_charr_threads_def C_charr_chunks_per_worker_def C_charr_min_chunk_def
        exchange_setting_def worker_maximum_def dest: setting_value_bounds split: option.splits if_splits)
  have "setting_value (fst (C_charr_threads st v)) = Some (threads_setting st)"
    using assms by (auto simp: settings_ok_def C_charr_threads_def setting_value_def worker_maximum_def NA_INTEGER_def count_maximum_def)
  with ok show ?thesis
    by (auto simp: C_charr_threads_def C_charr_chunks_per_worker_def C_charr_min_chunk_def exchange_setting_def split: option.splits if_splits)
qed

end
