(* ===== verification/Line_IO.thy ===== *)
theory Line_IO
  imports Replacement
begin

text \<open>
  Reading and writing lines (\<^verbatim>\<open>src/shared/line_split.h\<close>, \<^verbatim>\<open>line_split.cpp\<close>, \<^verbatim>\<open>read_lines.h\<close>,
  \<^verbatim>\<open>read_lines.cpp\<close>, \<^verbatim>\<open>write_lines.h\<close>, \<^verbatim>\<open>write_lines.cpp\<close>): the scanner that cuts UTF-8 into
  lines and records ill-formed sequences, the repair of those sequences, and the buffered
  file writer. The C library is a parameter of the writer: whether a block can be written
  to the stream. The lemmas show that the scanner's slices are ordered, inside the data and
  honestly marked, that the sequences it records can always be repaired, that the writer
  of UTF-8 writes the repaired text, and that staging never changes what is written.
\<close>

record line_slice =
  ls_begin :: nat
  ls_length :: nat
  ls_ascii :: bool

record invalid_sequence =
  is_begin :: int
  is_length :: int

record scan_result =
  sr_lines :: "line_slice list"
  sr_invalid :: "invalid_sequence list"
  sr_embedded_nul :: bool

text \<open>The locals of the scanning loop beside the position.\<close>

record scan_state = scan_result +
  sc_line_begin :: nat
  sc_line_ascii :: bool
  sc_pending :: bool

definition plain_byte :: "byte \<Rightarrow> bool" where
  "plain_byte b \<longleftrightarrow> b > 0x0d \<and> b < 0x80"

function skip_plain :: "byte list \<Rightarrow> nat \<Rightarrow> nat \<Rightarrow> nat" where
  "skip_plain data n i = (if i < n \<and> plain_byte (data ! i) then skip_plain data n (i + 1) else i)"
  by pat_completeness auto
termination by (relation "measure (\<lambda>(data, n, i). n - i)") auto

declare skip_plain.simps [simp del]

definition newline_codepoint :: "int \<Rightarrow> bool" where
  "newline_codepoint c \<longleftrightarrow> c \<in> {0x0a, 0x0b, 0x0c, 0x85, 0x2028, 0x2029}"

text \<open>The end of the slice of a line.\<close>

definition push_line :: "bool \<Rightarrow> nat \<Rightarrow> scan_state \<Rightarrow> scan_state" where
  "push_line omit_empty stop st =
     (let field_length = stop - sc_line_begin st in
      if \<not> omit_empty \<or> field_length > 0 then
        st\<lparr>sr_lines := sr_lines st @ [\<lparr>ls_begin = sc_line_begin st, ls_length = field_length, ls_ascii = sc_line_ascii st\<rparr>]\<rparr>
      else st)"

text \<open>The code point at a byte that is not plain: the position behind it, and the code point,
  negative for an ill-formed sequence.\<close>

definition scan_codepoint :: "byte list \<Rightarrow> nat \<Rightarrow> nat \<Rightarrow> nat \<times> int" where
  "scan_codepoint data n i = (if data ! i < 0x80 then (i + 1, uint (data ! i)) else U8_NEXT data i n)"

definition scan_step :: "byte list \<Rightarrow> nat \<Rightarrow> bool \<Rightarrow> nat \<Rightarrow> scan_state \<Rightarrow> nat \<times> scan_state" where
  "scan_step data n omit_empty i st =
     (let (j, codepoint) = scan_codepoint data n i in
      if codepoint < 0 then
        let (consumed, j) = (if j \<le> i then (1, i + 1) else (j - i, j)) in
        (j, st\<lparr>sr_invalid := sr_invalid st @ [\<lparr>is_begin = int i, is_length = int consumed\<rparr>], sc_line_ascii := False\<rparr>)
      else if codepoint = 0 then (j, st\<lparr>sr_embedded_nul := True\<rparr>)
      else if codepoint = 0x0d \<or> newline_codepoint codepoint then
        let j = (if codepoint = 0x0d \<and> j < n \<and> data ! j = 0x0a then j + 1 else j);
            st = push_line omit_empty i st
        in (j, st\<lparr>sc_line_begin := j, sc_line_ascii := True, sc_pending := j < n\<rparr>)
      else (j, if codepoint > 0x7f then st\<lparr>sc_line_ascii := False\<rparr> else st))"

lemma skip_plain_ge: "i \<le> skip_plain data n i"
  by (induction data n i rule: skip_plain.induct) (subst skip_plain.simps, auto)

lemma scan_codepoint_gt: "i < fst (scan_codepoint data n i)"
  using U8_FWD_1_gt [of i data n] U8_NEXT_fst [of data i n] by (auto simp: scan_codepoint_def)

lemma scan_step_gt: "i < fst (scan_step data n omit i st)"
  using scan_codepoint_gt [of i data n] by (auto simp: scan_step_def Let_def split: prod.splits)

function scan_loop :: "byte list \<Rightarrow> nat \<Rightarrow> bool \<Rightarrow> nat \<Rightarrow> scan_state \<Rightarrow> scan_state" where
  "scan_loop data n omit_empty i st =
     (if i < n then
        if plain_byte (data ! i) then scan_loop data n omit_empty (skip_plain data n (i + 1)) st
        else let (j, st) = scan_step data n omit_empty i st in scan_loop data n omit_empty j st
      else st)"
  by pat_completeness auto
termination
proof (relation "measure (\<lambda>(data, n, omit_empty, i, st). n - i)")
  fix data :: "byte list" and n i :: nat and omit st x xa y
  assume "i < n" "x = scan_step data n omit i st" "(xa, y) = x"
  then show "((data, n, omit, xa, y), data, n, omit, i, st) \<in> measure (\<lambda>(data, n, omit_empty, i, st). n - i)"
    using scan_step_gt [of i data n omit st] by (cases "scan_step data n omit i st") auto
next
  fix data :: "byte list" and n i :: nat and omit :: bool and st :: scan_state
  assume "i < n"
  then show "((data, n, omit, skip_plain data n (i + 1), st), data, n, omit, i, st) \<in> measure (\<lambda>(data, n, omit_empty, i, st). n - i)"
    using skip_plain_ge [of "i + 1" data n] by auto
qed auto

declare scan_loop.simps [simp del]

definition scan_utf8 :: "cptr \<Rightarrow> int \<Rightarrow> bool \<Rightarrow> bool \<Rightarrow> scan_result result" where
  "scan_utf8 data len omit_empty keep_trailing_empty =
     (if len < 0 \<or> (data = NullPtr \<and> len \<noteq> 0) then Inl (Invalid_argument ''invalid UTF-8 byte view'')
      else
        let n = nat len;
            st = scan_loop (ptr_bytes data) n omit_empty 0
              \<lparr>sr_lines = [], sr_invalid = [], sr_embedded_nul = False, sc_line_begin = 0, sc_line_ascii = True, sc_pending = True\<rparr>;
            st = (if sc_pending st \<or> (keep_trailing_empty \<and> \<not> omit_empty) then push_line omit_empty n st else st)
        in Inr (scan_result.truncate st))"

subsection \<open>Repair\<close>

definition replacement_char :: "byte list" where
  "replacement_char = [0xef, 0xbf, 0xbd]"

fun repair_size :: "int \<Rightarrow> invalid_sequence list \<Rightarrow> nat \<Rightarrow> int \<Rightarrow> nat result" where
  "repair_size len [] output_length copied = Inr output_length"
| "repair_size len (q # qs) output_length copied =
     (if is_length q \<le> 0 \<or> is_begin q < copied \<or> is_begin q > len - is_length q then
        Inl (Invalid_argument ''invalid UTF-8 repair range'')
      else if is_length q < 3 then
        let added = size_cast (3 - is_length q) in
        if output_length > nat INT_MAX - added then Inl (Length_error ''converted UTF-8 string exceeds R string size'')
        else repair_size len qs (output_length + added) (is_begin q + is_length q)
      else repair_size len qs (output_length - size_cast (is_length q - 3)) (is_begin q + is_length q))"

definition repair_write :: "byte list \<Rightarrow> invalid_sequence \<Rightarrow> byte list \<times> nat \<times> int \<Rightarrow> byte list \<times> nat \<times> int" where
  "repair_write data q = (\<lambda>(destination, written, copied).
     let prefix = size_cast (is_begin q - copied);
         (destination, written) =
           (if prefix > 0 then (memcpy_at destination written (drop (nat copied) data) prefix, written + prefix) else (destination, written));
         destination = memcpy_at destination written replacement_char 3
     in (destination, written + 3, is_begin q + is_length q))"

definition repair_utf8 :: "cptr \<Rightarrow> int \<Rightarrow> invalid_sequence list \<Rightarrow> byte list result" where
  "repair_utf8 data len invalid =
     (if len < 0 \<or> (data = NullPtr \<and> len \<noteq> 0) then Inl (Invalid_argument ''invalid UTF-8 byte view'')
      else bindE (repair_size len invalid (size_cast len) 0) (\<lambda>output_length.
        let (destination, written, copied) = fold (repair_write (ptr_bytes data)) invalid (replicate output_length 0, 0, 0);
            suffix = size_cast (len - copied)
        in Inr (if suffix > 0 then memcpy_at destination written (drop (nat copied) (ptr_bytes data)) suffix else destination)))"

definition has_utf8_bom :: "byte list \<Rightarrow> int \<Rightarrow> bool" where
  "has_utf8_bom data len \<longleftrightarrow> len \<ge> 3 \<and> data ! 0 = 0xef \<and> data ! 1 = 0xbb \<and> data ! 2 = 0xbf"

subsection \<open>The file writer\<close>

datatype write_error = FileWriteError int | Cxx cxx_error

text \<open>A stream of the C library: what was passed to \<open>fwrite\<close>. The library decides whether a
  block is written in full, whether the close succeeds and the \<open>errno\<close> of a failure.\<close>

record stdio =
  io_fopen :: "string \<Rightarrow> bool"
  io_fwrite :: "byte list \<Rightarrow> byte list \<Rightarrow> bool"
  io_fclose :: "byte list \<Rightarrow> bool"
  io_errno :: int

record file_writer =
  fw_handle :: "byte list option"
  fw_used :: nat
  fw_buffer :: "byte list"

definition buffer_size :: nat where "buffer_size = 65536"

definition FileWriter :: file_writer where
  "FileWriter = \<lparr>fw_handle = None, fw_used = 0, fw_buffer = replicate buffer_size 0\<rparr>"

definition EIO :: int where "EIO = 5"

definition write_failure :: "stdio \<Rightarrow> write_error" where
  "write_failure io = FileWriteError (if io_errno io \<noteq> 0 then io_errno io else EIO)"

definition close_noexcept :: "file_writer \<Rightarrow> file_writer" where
  "close_noexcept fw = fw\<lparr>fw_handle := None, fw_used := 0\<rparr>"

definition writer_reset :: "stdio \<Rightarrow> string \<Rightarrow> file_writer \<Rightarrow> (write_error + unit) \<times> file_writer" where
  "writer_reset io path fw =
     (let fw = close_noexcept fw in
      if io_fopen io path then (Inr (), fw\<lparr>fw_handle := Some []\<rparr>) else (Inl (write_failure io), fw))"

definition writer_flush :: "stdio \<Rightarrow> file_writer \<Rightarrow> write_error + file_writer" where
  "writer_flush io fw =
     (if fw_used fw = 0 then Inr fw
      else
        let block = take (fw_used fw) (fw_buffer fw); file = the (fw_handle fw) in
        if \<not> io_fwrite io file block then Inl (write_failure io)
        else Inr (fw\<lparr>fw_handle := Some (file @ block), fw_used := 0\<rparr>))"

partial_function (option) write_loop :: "stdio \<Rightarrow> byte list \<Rightarrow> nat \<Rightarrow> file_writer \<Rightarrow> (write_error + file_writer) option" where
  "write_loop io data remaining fw =
     (if remaining > 0 then
        case (if fw_used fw = length (fw_buffer fw) then writer_flush io fw else Inr fw) of
          Inl e \<Rightarrow> Some (Inl e)
        | Inr fw \<Rightarrow>
            let available = length (fw_buffer fw) - fw_used fw;
                count = (if remaining < available then remaining else available)
            in write_loop io (drop count data) (remaining - count)
                 (fw\<lparr>fw_buffer := memcpy_at (fw_buffer fw) (fw_used fw) data count, fw_used := fw_used fw + count\<rparr>)
      else Some (Inr fw))"

definition writer_write :: "stdio \<Rightarrow> byte list option \<Rightarrow> int \<Rightarrow> file_writer \<Rightarrow> (write_error + file_writer) option" where
  "writer_write io data len fw =
     (if len < 0 \<or> (data = None \<and> len \<noteq> 0) then Some (Inl (Cxx (Invalid_argument ''invalid output byte view'')))
      else if fw_handle fw = None then Some (Inl (Cxx (Logic_error ''file is not open for writing'')))
      else write_loop io (case data of None \<Rightarrow> [] | Some d \<Rightarrow> d) (nat len) fw)"

definition writer_close :: "stdio \<Rightarrow> file_writer \<Rightarrow> (write_error + byte list option) \<times> file_writer" where
  "writer_close io fw =
     (case fw_handle fw of None \<Rightarrow> (Inr None, fw)
      | Some _ \<Rightarrow>
          (case writer_flush io fw of Inl e \<Rightarrow> (Inl e, fw)
           | Inr fw \<Rightarrow>
               let file = the (fw_handle fw); fw = fw\<lparr>fw_handle := None\<rparr> in
               (if \<not> io_fclose io file then Inl (write_failure io) else Inr (Some file), fw)))"

subsection \<open>The file reader\<close>

datatype file_condition = Directory | Open_failed

datatype read_error = FileConditionError file_condition int | Read_cxx cxx_error

text \<open>What the reader asks of the file system and of a stream: directories, the contents of a
  file that can be opened, whether seeking works, the offset of the end, and how many
  bytes a read returns.\<close>

record file_system =
  fs_is_directory :: "string \<Rightarrow> bool"
  fs_fopen :: "string \<Rightarrow> byte list option"
  fs_errno :: int
  fs_fseek :: "byte list \<Rightarrow> bool"
  fs_ftell :: "byte list \<Rightarrow> int"
  fs_fread :: "byte list \<Rightarrow> nat \<Rightarrow> nat"

record file_reader =
  fr_handle :: "byte list option"
  fr_size :: int

definition ENOENT :: int where "ENOENT = 2"

definition reader_close :: "file_reader \<Rightarrow> file_reader" where
  "reader_close fr = fr\<lparr>fr_handle := None, fr_size := 0\<rparr>"

definition reader_reset :: "file_system \<Rightarrow> string \<Rightarrow> file_reader \<Rightarrow> (read_error + unit) \<times> file_reader" where
  "reader_reset fs path fr =
     (let fr = reader_close fr in
      if fs_is_directory fs path then (Inl (FileConditionError Directory 0), fr)
      else case fs_fopen fs path of
        None \<Rightarrow> (Inl (FileConditionError Open_failed (if fs_errno fs \<noteq> 0 then fs_errno fs else ENOENT)), fr)
      | Some file \<Rightarrow>
          let fr = fr\<lparr>fr_handle := Some file\<rparr> in
          if \<not> fs_fseek fs file then (Inl (Read_cxx (Runtime_error ''cannot determine file size'')), fr)
          else
            let stop = fs_ftell fs file in
            if stop < 0 then (Inl (Read_cxx (Runtime_error ''cannot determine file size'')), fr)
            else if stop > INT_MAX then (Inl (Read_cxx (Length_error ''file is too large'')), fr)
            else (Inr (), fr\<lparr>fr_size := stop\<rparr>))"

definition reader_read :: "file_system \<Rightarrow> byte list option \<Rightarrow> file_reader \<Rightarrow> read_error + byte list option" where
  "reader_read fs destination fr =
     (if fr_size fr > 0 \<and> (destination = None \<or> fs_fread fs (the (fr_handle fr)) (nat (fr_size fr)) \<noteq> nat (fr_size fr)) then
        Inl (Read_cxx (Runtime_error ''cannot read the connection''))
      else if fr_size fr > 0 then
        Inr (Some (memcpy_at (the destination) 0 (the (fr_handle fr)) (nat (fr_size fr))))
      else Inr destination)"

subsection \<open>The warning text\<close>

text \<open>A C string written by \<open>snprintf\<close> at a position of a buffer: it is cut at the capacity.\<close>

definition snprintf_at :: "string \<Rightarrow> nat \<Rightarrow> nat \<Rightarrow> string \<Rightarrow> string" where
  "snprintf_at out position capacity s = take position out @ take (capacity - position - 1) s"

definition hex_digit :: "nat \<Rightarrow> char" where
  "hex_digit k = ''0123456789abcdef'' ! k"

definition hex_byte :: "byte \<Rightarrow> string" where
  "hex_byte b = [CHR 0x5c, CHR ''x'', hex_digit (unat b div 16), hex_digit (unat b mod 16)]"

fun warn_bytes :: "byte list \<Rightarrow> nat \<Rightarrow> string \<Rightarrow> nat \<Rightarrow> string \<times> nat" where
  "warn_bytes [] capacity out position = (out, position)"
| "warn_bytes (b # bs) capacity out position =
     (if position < capacity - 1 then
        let out = snprintf_at out position capacity (hex_byte b);
            position = position + length (hex_byte b);
            position = (if position \<ge> capacity then capacity - 1 else position)
        in warn_bytes bs capacity out position
      else (out, position))"

text \<open>The text left in the output buffer; \<open>None\<close> where the function returns without writing.\<close>

definition format_invalid_warning :: "byte list \<Rightarrow> invalid_sequence \<Rightarrow> nat \<Rightarrow> string option" where
  "format_invalid_warning data q capacity =
     (if capacity = 0 then None
      else if is_length q < 1 \<or> is_length q > 4 then
        Some (snprintf_at [] 0 capacity ''some input data in the current source encoding could not be converted to Unicode'')
      else
        let out = snprintf_at [] 0 capacity ''input data '';
            position = length ''input data '';
            position = (if position \<ge> capacity then capacity - 1 else position);
            (out, position) = warn_bytes (map (\<lambda>i. data ! nat (is_begin q + i)) [0..is_length q - 1]) capacity out position
        in Some (snprintf_at out position capacity '' in the current source encoding could not be converted to Unicode''))"

subsection \<open>Writing UTF-8\<close>

text \<open>Sequencing of calls that may throw and, as far as the model knows, not return.\<close>

definition thenW :: "(write_error + 'a) option \<Rightarrow> ('a \<Rightarrow> (write_error + 'b) option) \<Rightarrow> (write_error + 'b) option" where
  "thenW m f = (case m of None \<Rightarrow> None | Some (Inl e) \<Rightarrow> Some (Inl e) | Some (Inr x) \<Rightarrow> f x)"

lemma thenW_simps [simp]:
  "thenW (Some (Inl e)) f = Some (Inl e)" "thenW (Some (Inr x)) f = f x"
  by (simp_all add: thenW_def)

lemma U8_NEXT_gt: "U8_NEXT data i n = (j, c) \<Longrightarrow> i < j"
  using U8_FWD_1_gt [of i data n] U8_NEXT_fst [of data i n] by simp

function write_utf8_loop :: "stdio \<Rightarrow> byte list \<Rightarrow> nat \<Rightarrow> nat \<Rightarrow> nat \<Rightarrow> file_writer \<Rightarrow> (write_error + nat \<times> file_writer) option" where
  "write_utf8_loop io data n run_begin i fw =
     (if i < n then
        if data ! i < 0x80 then write_utf8_loop io data n run_begin (i + 1) fw
        else
          let (j, codepoint) = U8_NEXT data i n in
          if codepoint \<ge> 0 then write_utf8_loop io data n run_begin j fw
          else
            let j = (if j \<le> i then i + 1 else j) in
            thenW (writer_write io (Some (drop run_begin data)) (int (i - run_begin)) fw) (\<lambda>fw.
            thenW (writer_write io (Some replacement_char) 3 fw) (\<lambda>fw.
              write_utf8_loop io data n j j fw))
      else Some (Inr (run_begin, fw)))"
  by pat_completeness auto
termination
  by (relation "measure (\<lambda>(io, data, n, run_begin, i, fw). n - i)") (auto dest!: U8_NEXT_gt [OF sym] intro: diff_less_mono2)

declare write_utf8_loop.simps [simp del]

definition write_utf8 :: "stdio \<Rightarrow> byte list option \<Rightarrow> int \<Rightarrow> file_writer \<Rightarrow> (write_error + file_writer) option" where
  "write_utf8 io data len fw =
     (if len < 0 \<or> (data = None \<and> len \<noteq> 0) then Some (Inl (Cxx (Invalid_argument ''invalid output byte view'')))
      else
        let d = (case data of None \<Rightarrow> [] | Some d \<Rightarrow> d) in
        thenW (write_utf8_loop io d (nat len) 0 0 fw) (\<lambda>(run_begin, fw).
          writer_write io (map_option (drop run_begin) data) (len - int run_begin) fw))"

subsection \<open>Code points of longer sequences\<close>

lemma or_ge: "0 \<le> a \<Longrightarrow> 0 \<le> b \<Longrightarrow> a \<le> a OR (b::int)"
  using AND_upper2 [of b a] plus_and_or [of a b] by linarith

lemma last_trail_high:
  "2 \<le> c \<Longrightarrow> snd (u8_last_trail s i c) < 0 \<or> 0x80 \<le> snd (u8_last_trail s i c)"
proof -
  assume "2 \<le> c"
  then have "0x80 \<le> push_bit 6 c" by (simp add: push_bit_eq_mult)
  with or_ge [of "push_bit 6 c" "uint (s ! i - 0x80)"] \<open>2 \<le> c\<close> show ?thesis
    by (simp add: u8_last_trail_eq U_SENTINEL_def)
qed

lemma byte_uint_ge: "(w::byte) \<le> b \<Longrightarrow> uint w \<le> uint b"
  by (simp add: word_le_def)

lemma lead_bits:
  fixes b :: byte
  shows "0xc2 \<le> b \<Longrightarrow> b \<le> 0xdf \<Longrightarrow> 2 \<le> b AND 0x1f" "0xe1 \<le> b \<Longrightarrow> b \<le> 0xef \<Longrightarrow> 1 \<le> b AND 0xf"
    "0xa0 \<le> b \<Longrightarrow> b \<le> 0xbf \<Longrightarrow> 0x20 \<le> b AND 0x3f" "0x90 \<le> b \<Longrightarrow> b \<le> 0xbf \<Longrightarrow> 0x10 \<le> b AND 0x3f"
    "0xf1 \<le> b \<Longrightarrow> b \<le> 0xf4 \<Longrightarrow> 1 \<le> b - 0xf0"
proof -
  have "\<forall>b::byte. 0xc2 \<le> b \<and> b \<le> 0xdf \<longrightarrow> 2 \<le> b AND 0x1f" "\<forall>b::byte. 0xe1 \<le> b \<and> b \<le> 0xef \<longrightarrow> 1 \<le> b AND 0xf"
    "\<forall>b::byte. 0xa0 \<le> b \<and> b \<le> 0xbf \<longrightarrow> 0x20 \<le> b AND 0x3f" "\<forall>b::byte. 0x90 \<le> b \<and> b \<le> 0xbf \<longrightarrow> 0x10 \<le> b AND 0x3f"
    "\<forall>b::byte. 0xf1 \<le> b \<and> b \<le> 0xf4 \<longrightarrow> 1 \<le> b - 0xf0"
    unfolding byte_range_all by code_simp+
  then show "0xc2 \<le> b \<Longrightarrow> b \<le> 0xdf \<Longrightarrow> 2 \<le> b AND 0x1f" "0xe1 \<le> b \<Longrightarrow> b \<le> 0xef \<Longrightarrow> 1 \<le> b AND 0xf"
    "0xa0 \<le> b \<Longrightarrow> b \<le> 0xbf \<Longrightarrow> 0x20 \<le> b AND 0x3f" "0x90 \<le> b \<Longrightarrow> b \<le> 0xbf \<Longrightarrow> 0x10 \<le> b AND 0x3f"
    "0xf1 \<le> b \<Longrightarrow> b \<le> 0xf4 \<Longrightarrow> 1 \<le> b - 0xf0"
    by blast+
qed

lemma two_bits:
  fixes a b :: byte
  assumes "1 \<le> a \<or> 2 \<le> b"
  shows "2 \<le> push_bit 6 (uint a) OR uint b"
proof -
  have "push_bit 6 (uint a) \<le> push_bit 6 (uint a) OR uint b" "uint b \<le> push_bit 6 (uint a) OR uint b"
    using or_ge [of "push_bit 6 (uint a)" "uint b"] or_ge [of "uint b" "push_bit 6 (uint a)"] by (simp_all add: or.commute)
  moreover have "1 \<le> a \<Longrightarrow> 64 \<le> push_bit 6 (uint a)" using byte_uint_ge [of 1 a] by (simp add: push_bit_eq_mult)
  moreover have "2 \<le> b \<Longrightarrow> 2 \<le> uint b" using byte_uint_ge [of 2 b] by simp
  ultimately show ?thesis using assms by linarith
qed

text \<open>A sequence of more than one byte is a code point above ASCII or ill-formed.\<close>

lemma U8_NEXT_high:
  assumes "\<not> U8_IS_SINGLE (s ! i)"
  shows "snd (U8_NEXT s i n) < 0 \<or> 0x80 \<le> snd (U8_NEXT s i n)"
proof -
  let ?b = "s ! i" and ?t = "s ! (i + 1)"
  consider "\<not> U8_IS_LEAD ?b \<or> i + 1 = n" | "U8_IS_LEAD ?b" "i + 1 \<noteq> n" "?b < 0xe0"
    | "U8_IS_LEAD ?b" "i + 1 \<noteq> n" "0xe0 \<le> ?b" "?b < 0xf0" | "U8_IS_LEAD ?b" "i + 1 \<noteq> n" "0xf0 \<le> ?b"
    by fastforce
  then show ?thesis
  proof cases
    case 1
    then show ?thesis using U8_NEXT_illegal [OF assms] by (simp add: U_SENTINEL_def)
  next
    case 2
    then have "0xc2 \<le> ?b" "?b \<le> 0xdf" by (auto simp: U8_IS_LEAD_iff word_le_nat_alt word_less_nat_alt)
    then have "2 \<le> uint (?b AND 0x1f)" using byte_uint_ge [OF lead_bits(1)] by fastforce
    then show ?thesis using 2 by (simp add: U8_NEXT_2 last_trail_high)
  next
    case 3
    have "1 \<le> ?b AND 0xf \<or> 2 \<le> ?t AND 0x3f" if "t1_ok ?b ?t"
    proof (cases "?b = 0xe0")
      case True
      then have "U8_IS_TRAIL ?t" "0xa0 \<le> ?t"
        using that 3 valid_lead3_iff [of ?b ?t] by (auto simp: t1_ok_def)
      then have "0x20 \<le> ?t AND 0x3f" by (intro lead_bits) (auto simp: U8_IS_TRAIL_iff word_le_nat_alt word_less_nat_alt)
      moreover have "(2::byte) \<le> 0x20" by simp
      ultimately show ?thesis by (meson order_trans)
    next
      case False
      then show ?thesis using 3 lead_bits(2) [of ?b] by (auto simp: word_le_nat_alt word_less_nat_alt word_unat_eq_iff)
    qed
    then show ?thesis
      using 3 by (auto simp: U8_NEXT_3 U_SENTINEL_def intro!: last_trail_high two_bits)
  next
    case 4
    have le: "?b \<le> 0xf4" using 4 by (simp add: U8_IS_LEAD_iff)
    have bits: "1 \<le> ?b - 0xf0 \<or> 2 \<le> ?t AND 0x3f" if "t1_ok ?b ?t"
    proof (cases "?b = 0xf0")
      case True
      then have "U8_IS_TRAIL ?t" "0x90 \<le> ?t"
        using that 4 valid_lead4_iff [of ?b ?t] by (auto simp: t1_ok_def)
      then have "0x10 \<le> ?t AND 0x3f" by (intro lead_bits) (auto simp: U8_IS_TRAIL_iff word_le_nat_alt word_less_nat_alt)
      moreover have "(2::byte) \<le> 0x10" by simp
      ultimately show ?thesis by (meson order_trans)
    next
      case False
      then show ?thesis using 4 le lead_bits(5) [of ?b] by (auto simp: word_le_nat_alt word_less_nat_alt word_unat_eq_iff)
    qed
    have "2 \<le> push_bit 6 c OR uint (x::byte)" if "2 \<le> c" for c x
      using or_ge [of "push_bit 6 c" "uint x"] that by (simp add: push_bit_eq_mult)
    then show ?thesis
      using 4 bits by (auto simp: U8_NEXT_4 U_SENTINEL_def simp del: push_bit_or push_bit_push_bit intro!: last_trail_high two_bits)
  qed
qed

subsection \<open>Reference definitions\<close>

text \<open>The line cutting, the ill-formed sequences and the repaired text, code point by code point.\<close>

definition line_break :: "int \<Rightarrow> bool" where
  "line_break c \<longleftrightarrow> c \<in> {0x0a, 0x0b, 0x0c, 0x0d, 0x85, 0x2028, 0x2029}"

definition after_break :: "byte list \<Rightarrow> nat \<Rightarrow> nat \<Rightarrow> int \<Rightarrow> nat" where
  "after_break data n j c = (if c = 0x0d \<and> j < n \<and> data ! j = 0x0a then j + 1 else j)"

lemma U8_NEXT_le: "U8_NEXT data i n = (j, c) \<Longrightarrow> i < n \<Longrightarrow> j \<le> n"
  using U8_FWD_1_le [of i n data] U8_NEXT_fst [of data i n] by simp

lemma after_break_ge: "j \<le> after_break data n j c" "j \<le> n \<Longrightarrow> after_break data n j c \<le> n"
  by (auto simp: after_break_def)

function cut_lines :: "byte list \<Rightarrow> nat \<Rightarrow> nat \<Rightarrow> nat \<Rightarrow> (nat \<times> nat) list" where
  "cut_lines data n b i =
     (if i < n then
        let (j, c) = U8_NEXT data i n in
        if line_break c then (b, i) # cut_lines data n (after_break data n j c) (after_break data n j c)
        else cut_lines data n b j
      else [(b, n)])"
  by pat_completeness auto
termination
  by (relation "measure (\<lambda>(data, n, b, i). n - i)")
    (auto dest!: U8_NEXT_gt [OF sym] intro: diff_less_mono2 less_le_trans [OF _ after_break_ge(1)])

function ill_formed :: "byte list \<Rightarrow> nat \<Rightarrow> nat \<Rightarrow> invalid_sequence list" where
  "ill_formed data n i =
     (if i < n then
        let (j, c) = U8_NEXT data i n in
        (if c < 0 then [\<lparr>is_begin = int i, is_length = int (j - i)\<rparr>] else []) @ ill_formed data n j
      else [])"
  by pat_completeness auto
termination
  by (relation "measure (\<lambda>(data, n, i). n - i)") (auto dest!: U8_NEXT_gt [OF sym] intro: diff_less_mono2)

function repaired :: "byte list \<Rightarrow> nat \<Rightarrow> nat \<Rightarrow> byte list" where
  "repaired data n i =
     (if i < n then
        let (j, c) = U8_NEXT data i n in
        (if c < 0 then replacement_char else slice data i j) @ repaired data n j
      else [])"
  by pat_completeness auto
termination
  by (relation "measure (\<lambda>(data, n, i). n - i)") (auto dest!: U8_NEXT_gt [OF sym] intro: diff_less_mono2)

declare cut_lines.simps [simp del] ill_formed.simps [simp del] repaired.simps [simp del]

definition ascii_slice :: "byte list \<Rightarrow> nat \<Rightarrow> nat \<Rightarrow> bool" where
  "ascii_slice data a b = list_all (\<lambda>x. x < 0x80) (slice data a b)"

definition slice_of :: "byte list \<Rightarrow> nat \<times> nat \<Rightarrow> line_slice" where
  "slice_of data = (\<lambda>(a, b). \<lparr>ls_begin = a, ls_length = b - a, ls_ascii = ascii_slice data a b\<rparr>)"

subsection \<open>The scanner\<close>

lemma plain_byte_next:
  assumes "plain_byte (data ! i)"
  shows "U8_NEXT data i n = (i + 1, uint (data ! i))" "\<not> line_break (uint (data ! i))" "0 < uint (data ! i)" "data ! i < 0x80"
proof -
  show lt: "data ! i < 0x80" using assms by (simp add: plain_byte_def)
  then show "U8_NEXT data i n = (i + 1, uint (data ! i))" by (simp add: U8_NEXT_single U8_IS_SINGLE_iff)
  have "uint (0x0d::byte) < uint (data ! i)" "uint (data ! i) < uint (0x80::byte)"
    using assms by (simp_all add: plain_byte_def word_less_def)
  then show "\<not> line_break (uint (data ! i))" "0 < uint (data ! i)" by (auto simp: line_break_def)
qed

lemma skip_plain_inv:
  assumes "\<And>i. i < n \<Longrightarrow> plain_byte (data ! i) \<Longrightarrow> f (i + 1) = f i"
  shows "f (skip_plain data n i) = f i"
  using assms by (induction data n i rule: skip_plain.induct) (subst skip_plain.simps, auto)

lemma skip_plain_le: "i \<le> n \<Longrightarrow> skip_plain data n i \<le> n"
  by (induction data n i rule: skip_plain.induct) (subst skip_plain.simps, auto)

lemma scan_codepoint_eq: "scan_codepoint data n i = U8_NEXT data i n"
  by (simp add: scan_codepoint_def U8_NEXT_single U8_IS_SINGLE_iff)

lemma ascii_slice_snoc:
  assumes "a \<le> i" "i < j" "j \<le> length data"
  shows "ascii_slice data a j \<longleftrightarrow> ascii_slice data a i \<and> ascii_slice data i j"
proof -
  have "slice data a j = slice data a i @ slice data i j"
    using slice_append [of a i j data] assms by simp
  then show ?thesis by (simp add: ascii_slice_def)
qed

lemma slice_Cons: "i < j \<Longrightarrow> j \<le> length data \<Longrightarrow> slice data i j = data ! i # slice data (i + 1) j"
  by (simp add: slice_def Cons_nth_drop_Suc [symmetric] take_Suc_conv_app_nth [symmetric] Suc_diff_Suc [symmetric])

lemma ascii_slice_next:
  assumes "U8_NEXT data i n = (j, c)" "i < n" "n \<le> length data"
  shows "ascii_slice data i j \<longleftrightarrow> 0 \<le> c \<and> c \<le> 0x7f"
    and "0 \<le> c \<Longrightarrow> c \<le> 0x7f \<Longrightarrow> j = i + 1 \<and> c = uint (data ! i)"
proof -
  have ij: "i < j" "j \<le> length data"
    using U8_NEXT_gt [OF assms(1)] U8_NEXT_le [OF assms(1,2)] assms(3) by auto
  have *: "data ! i < 0x80 \<Longrightarrow> j = i + 1 \<and> c = uint (data ! i) \<and> 0 \<le> c \<and> c \<le> 0x7f"
    using assms(1) by (auto simp: U8_NEXT_single U8_IS_SINGLE_iff word_less_def)
  have **: "\<not> data ! i < 0x80 \<Longrightarrow> c < 0 \<or> 0x80 \<le> c"
    using U8_NEXT_high [of data i n] assms(1) by (simp add: U8_IS_SINGLE_iff)
  show "ascii_slice data i j \<longleftrightarrow> 0 \<le> c \<and> c \<le> 0x7f"
  proof (cases "data ! i < 0x80")
    case True
    then show ?thesis using * [OF True] ij by (simp add: ascii_slice_def slice_Cons)
  next
    case False
    then show ?thesis using ** [OF False] ij by (auto simp: ascii_slice_def slice_Cons)
  qed
  show "0 \<le> c \<Longrightarrow> c \<le> 0x7f \<Longrightarrow> j = i + 1 \<and> c = uint (data ! i)" using * ** by fastforce
qed

definition kept_line :: "bool \<Rightarrow> nat \<times> nat \<Rightarrow> bool" where
  "kept_line omit_empty = (\<lambda>(a, b). \<not> omit_empty \<or> a < b)"

text \<open>What the loop adds to its state from position \<open>i\<close> on.\<close>

definition scanned :: "byte list \<Rightarrow> nat \<Rightarrow> bool \<Rightarrow> nat \<Rightarrow> scan_state \<Rightarrow> scan_state \<Rightarrow> bool" where
  "scanned data n omit i st st' \<longleftrightarrow>
     (let L = cut_lines data n (sc_line_begin st) i in
      sr_lines st' = sr_lines st @ map (slice_of data) (filter (kept_line omit) (butlast L)) \<and>
      sc_line_begin st' = fst (last L) \<and> sc_line_ascii st' = ascii_slice data (fst (last L)) n \<and>
      sc_pending st' = (if tl L = [] then sc_pending st else fst (last L) < n) \<and>
      sr_invalid st' = sr_invalid st @ ill_formed data n i \<and>
      sr_embedded_nul st' = (sr_embedded_nul st \<or> 0 \<in> set (slice data i n)))"

lemma cut_lines_ne [simp]: "cut_lines data n b i \<noteq> []"
  by (induction data n b i rule: cut_lines.induct) (subst cut_lines.simps, auto split: prod.splits)

lemma cut_lines_begin: "fst (hd (cut_lines data n b i)) = b"
  by (induction data n b i rule: cut_lines.induct) (subst cut_lines.simps, auto split: prod.splits)

lemma slice_split:
  assumes "i \<le> j" "j \<le> n" "n \<le> length data"
  shows "slice data i n = slice data i j @ slice data j n"
  using slice_append [of i j n data] assms by simp

lemma sequence_nul:
  assumes "U8_NEXT data i n = (j, c)" "i < n" "n \<le> length data"
  shows "0 \<in> set (slice data i j) \<longleftrightarrow> c = 0"
proof -
  have ij: "i < j" "j \<le> length data"
    using U8_NEXT_gt [OF assms(1)] U8_NEXT_le [OF assms(1,2)] assms(3) by auto
  have trail: "data ! k \<noteq> 0" if "i < k" "k < j" for k
    using U8_FWD_1_trail [of i k data n] that U8_NEXT_fst [of data i n] assms(1) by (auto simp: U8_IS_TRAIL_iff)
  have rest: "0 \<notin> set (slice data (i + 1) j)"
    using trail ij by (auto simp: in_set_conv_nth nth_slice)
  have "data ! i = 0 \<longleftrightarrow> c = 0"
  proof (cases "data ! i < 0x80")
    case True
    then have "c = uint (data ! i)" using assms(1) by (simp add: U8_NEXT_single U8_IS_SINGLE_iff)
    then show ?thesis by (simp add: unsigned_eq_0_iff)
  next
    case False
    then show ?thesis using U8_NEXT_high [of data i n] assms(1) by (auto simp: U8_IS_SINGLE_iff)
  qed
  with rest ij show ?thesis by (auto simp: slice_Cons)
qed

text \<open>Plain bytes change neither reference.\<close>

lemma plain_references:
  assumes "i < n" "n \<le> length data" "plain_byte (data ! i)"
  shows "cut_lines data n b (i + 1) = cut_lines data n b i" "ill_formed data n (i + 1) = ill_formed data n i"
    "(0 \<in> set (slice data (i + 1) n)) = (0 \<in> set (slice data i n))"
  using assms plain_byte_next [OF assms(3)]
  by (auto simp: cut_lines.simps [of data n b i] ill_formed.simps [of data n i] slice_Cons [of i n])

lemma scanned_plain:
  assumes "i < n" "n \<le> length data" "plain_byte (data ! i)" "scanned data n omit (skip_plain data n (i + 1)) st st'"
  shows "scanned data n omit i st st'"
proof -
  have "(cut_lines data n b (skip_plain data n (i + 1)), ill_formed data n (skip_plain data n (i + 1)),
      0 \<in> set (slice data (skip_plain data n (i + 1)) n)) = (cut_lines data n b (i + 1), ill_formed data n (i + 1), 0 \<in> set (slice data (i + 1) n))" for b
    using plain_references assms(2)
    by (intro skip_plain_inv [where f = "\<lambda>k. (cut_lines data n b k, ill_formed data n k, 0 \<in> set (slice data k n))"]) auto
  then show ?thesis using assms plain_references [OF assms(1-3)] by (simp add: scanned_def)
qed

lemma ascii_slice_skip:
  assumes "b \<le> i" "i < n" "n \<le> length data" "plain_byte (data ! i)"
  shows "ascii_slice data b (skip_plain data n (i + 1)) = ascii_slice data b i"
proof -
  have "ascii_slice data b (max b (i + 1)) = ascii_slice data b (max b i)" if "i < n" "plain_byte (data ! i)" for i
  proof (cases "b \<le> i")
    case True
    then show ?thesis
      using that ascii_slice_snoc [of b i "i + 1" data] plain_byte_next(4) [OF that(2)] assms(3)
      by (simp add: max_def ascii_slice_def slice_Cons)
  next
    case False
    then show ?thesis by (auto simp: max_def le_Suc_eq)
  qed
  from skip_plain_inv [of n data "\<lambda>k. ascii_slice data b (max b k)", OF this, of "i + 1"] this [of i] assms
  show ?thesis using skip_plain_ge [of "i + 1" data n] by (simp add: max_def split: if_splits)
qed

text \<open>The steps at other bytes: ill-formed sequences, line breaks and other code points.\<close>

lemma scan_step_spec:
  assumes nx: "U8_NEXT data i n = (j, c)" "i < n" "n \<le> length data"
    and st: "sc_line_begin st \<le> i" "sc_line_ascii st = ascii_slice data (sc_line_begin st) i"
    and res: "scan_step data n omit i st = (k, st1)"
  shows "scanned data n omit k st1 st' \<Longrightarrow> scanned data n omit i st st'"
    and "sc_line_begin st1 \<le> k" "k \<le> n" "sc_line_ascii st1 = ascii_slice data (sc_line_begin st1) k"
proof -
  have ij: "i < j" "j \<le> n" using U8_NEXT_gt [OF nx(1)] U8_NEXT_le [OF nx(1,2)] by auto
  let ?b = "sc_line_begin st"
  have sp: "slice data i n = slice data i j @ slice data j n" by (rule slice_split) (use ij nx in auto)
  note nul = sequence_nul [OF nx]
  note asc = ascii_slice_next [OF nx]
  have snoc: "ascii_slice data ?b j \<longleftrightarrow> ascii_slice data ?b i \<and> 0 \<le> c \<and> c \<le> 0x7f"
    using ascii_slice_snoc [of ?b i j data] st ij nx asc by simp
  have step: "scan_step data n omit i st =
      (if c < 0 then (j, st\<lparr>sr_invalid := sr_invalid st @ [\<lparr>is_begin = int i, is_length = int (j - i)\<rparr>], sc_line_ascii := False\<rparr>)
       else if c = 0 then (j, st\<lparr>sr_embedded_nul := True\<rparr>)
       else if line_break c then (after_break data n j c,
         (push_line omit i st)\<lparr>sc_line_begin := after_break data n j c, sc_line_ascii := True, sc_pending := after_break data n j c < n\<rparr>)
       else (j, if c > 0x7f then st\<lparr>sc_line_ascii := False\<rparr> else st))"
    using nx(1) ij by (auto simp: scan_step_def scan_codepoint_eq Let_def after_break_def line_break_def newline_codepoint_def)
  have "line_break c \<Longrightarrow> 0 < c" by (auto simp: line_break_def)
  then consider (ill) "c < 0" | (brk) "0 < c" "line_break c" | (other) "0 \<le> c" "\<not> line_break c"
    by linarith
  then have "(scanned data n omit k st1 st' \<longrightarrow> scanned data n omit i st st') \<and>
    sc_line_begin st1 \<le> k \<and> k \<le> n \<and> sc_line_ascii st1 = ascii_slice data (sc_line_begin st1) k"
  proof cases
    case ill
    then have "\<not> line_break c" by (auto simp: line_break_def)
    with ill show ?thesis
      using ij st snoc nx nul res unfolding step
      by (auto simp: scanned_def cut_lines.simps [of data n ?b i] ill_formed.simps [of data n i] sp)
  next
    case brk
    let ?k = "after_break data n j c"
    have k: "j \<le> ?k" "?k \<le> n" using after_break_ge ij by auto
    have sk: "0 \<in> set (slice data j n) \<longleftrightarrow> 0 \<in> set (slice data ?k n)"
      using slice_Cons [of j n data] nx(3) ij by (auto simp: after_break_def)
    have ill': "ill_formed data n j = ill_formed data n ?k"
      by (auto simp: after_break_def ill_formed.simps [of data n j] U8_NEXT_single U8_IS_SINGLE_iff)
    have r: "k = ?k" "st1 = (push_line omit i st)\<lparr>sc_line_begin := ?k, sc_line_ascii := True, sc_pending := ?k < n\<rparr>"
      using res brk unfolding step by auto
    define L where "L = cut_lines data n ?k ?k"
    have L: "cut_lines data n ?b i = (?b, i) # L" "L \<noteq> []" "fst (hd L) = ?k"
      using nx brk by (simp_all add: cut_lines.simps [of data n ?b i] L_def cut_lines_begin)
    have one: "tl L = [] \<Longrightarrow> fst (last L) = ?k" using L(2,3) by (cases L) auto
    have ill2: "ill_formed data n i = ill_formed data n ?k" using nx brk ill' by (simp add: ill_formed.simps [of data n i])
    have nul2: "0 \<in> set (slice data i n) \<longleftrightarrow> 0 \<in> set (slice data ?k n)" using nul brk sk by (simp add: sp)
    have push: "sr_lines (push_line omit i st) = sr_lines st @ (if kept_line omit (?b, i) then [slice_of data (?b, i)] else [])"
        "sr_invalid (push_line omit i st) = sr_invalid st" "sr_embedded_nul (push_line omit i st) = sr_embedded_nul st"
      using st by (auto simp: push_line_def kept_line_def slice_of_def Let_def)
    have "scanned data n omit i st st'" if "scanned data n omit k st1 st'"
      using that L(2) one unfolding scanned_def r L(1) ill2 nul2 by (simp add: push Let_def L_def [symmetric])
    moreover have "ascii_slice data ?k ?k" by (simp add: ascii_slice_def)
    ultimately show ?thesis using k unfolding r by simp
  next
    case other
    have r: "k = j" "sc_line_begin st1 = ?b" "sr_lines st1 = sr_lines st" "sr_invalid st1 = sr_invalid st" "sc_pending st1 = sc_pending st"
        "sr_embedded_nul st1 = (sr_embedded_nul st \<or> c = 0)" "sc_line_ascii st1 = (sc_line_ascii st \<and> c \<le> 0x7f)"
      using res other unfolding step by (auto split: if_splits)
    have "cut_lines data n ?b i = cut_lines data n ?b j" "ill_formed data n i = ill_formed data n j"
      using nx other by (simp_all add: cut_lines.simps [of data n ?b i] ill_formed.simps [of data n i])
    then have "scanned data n omit i st st'" if "scanned data n omit k st1 st'"
      using that nul unfolding scanned_def r by (auto simp: Let_def sp)
    then show ?thesis using r ij st snoc other by auto
  qed
  then show "scanned data n omit k st1 st' \<Longrightarrow> scanned data n omit i st st'"
    "sc_line_begin st1 \<le> k" "k \<le> n" "sc_line_ascii st1 = ascii_slice data (sc_line_begin st1) k" by auto
qed

lemma scan_loop_spec:
  assumes "i \<le> n" "n \<le> length data" "sc_line_begin st \<le> i" "sc_line_ascii st = ascii_slice data (sc_line_begin st) i"
  shows "scanned data n omit i st (scan_loop data n omit i st)"
  using assms
proof (induction data n omit i st rule: scan_loop.induct)
  case (1 data n omit i st)
  show ?case
  proof (cases "i < n")
    case False
    then have "i = n" using 1 by simp
    with 1(5,6) show ?thesis
      by (simp add: scan_loop.simps [of data n omit n] scanned_def cut_lines.simps [of data n _ n] ill_formed.simps [of data n n])
  next
    case True
    show ?thesis
    proof (cases "plain_byte (data ! i)")
      case plain: True
      let ?j = "skip_plain data n (i + 1)"
      have j: "?j \<le> n" "sc_line_begin st \<le> ?j"
        using skip_plain_le [of "i + 1" n data] skip_plain_ge [of "i + 1" data n] True 1(5) by auto
      have "scanned data n omit ?j st (scan_loop data n omit ?j st)"
        using 1(1) [OF True plain j(1) 1(4) j(2)] ascii_slice_skip [OF 1(5) True 1(4) plain] 1(6) by simp
      with scanned_plain [OF True 1(4) plain] show ?thesis
        using True plain by (simp add: scan_loop.simps [of data n omit i])
    next
      case other: False
      obtain j c where nx: "U8_NEXT data i n = (j, c)" by fastforce
      obtain k st1 where res: "scan_step data n omit i st = (k, st1)" by fastforce
      note step = scan_step_spec [OF nx True 1(4) 1(5) 1(6) res]
      from 1(2) [OF True other, of "(k, st1)" k st1] res step(2-4) 1(4)
      have "scanned data n omit k st1 (scan_loop data n omit k st1)" by simp
      from step(1) [OF this] show ?thesis
        using True other res by (simp add: scan_loop.simps [of data n omit i])
    qed
  qed
qed

text \<open>The lines of a text: all pieces, the non-empty ones, or all but an empty piece behind a
  terminal separator.\<close>

definition text_lines :: "byte list \<Rightarrow> bool \<Rightarrow> bool \<Rightarrow> (nat \<times> nat) list" where
  "text_lines data omit_empty keep_trailing_empty =
     (let n = length data; L = cut_lines data n 0 0 in
      if omit_empty then filter (\<lambda>(a, b). a < b) L
      else if keep_trailing_empty \<or> tl L = [] \<or> fst (last L) < n then L
      else butlast L)"

lemma cut_lines_last: "snd (last (cut_lines data n b i)) = n"
  by (induction data n b i rule: cut_lines.induct) (subst cut_lines.simps, auto split: prod.splits)

lemma scan_utf8_spec:
  assumes "int (length data) \<le> INT_MAX"
  shows "scan_utf8 (Ptr a data) (int (length data)) omit keep = Inr
    \<lparr>sr_lines = map (slice_of data) (text_lines data omit keep), sr_invalid = ill_formed data (length data) 0,
     sr_embedded_nul = (0 \<in> set data)\<rparr>"
proof -
  define st0 :: scan_state where "st0 = \<lparr>sr_lines = [], sr_invalid = [], sr_embedded_nul = False, sc_line_begin = 0, sc_line_ascii = True, sc_pending = True\<rparr>"
  define st where "st = scan_loop data (length data) omit 0 st0"
  define L where "L = cut_lines data (length data) 0 0"
  have "scanned data (length data) omit 0 st0 st"
    unfolding st_def by (rule scan_loop_spec) (simp_all add: st0_def ascii_slice_def)
  then have st: "sr_lines st = map (slice_of data) (filter (kept_line omit) (butlast L))" "sc_line_begin st = fst (last L)"
      "sc_line_ascii st = ascii_slice data (fst (last L)) (length data)" "sc_pending st = (tl L = [] \<or> fst (last L) < length data)"
      "sr_invalid st = ill_formed data (length data) 0" "sr_embedded_nul st = (0 \<in> set data)"
    by (simp_all add: scanned_def st0_def L_def [symmetric] Let_def)
  have L: "L = butlast L @ [last L]" "last L = (fst (last L), length data)"
    using cut_lines_ne [of data "length data" 0 0] cut_lines_last [of data "length data" 0 0]
    by (auto simp: L_def intro: prod_eqI)
  have full: "map (slice_of data) (filter (kept_line omit) L) =
      sr_lines st @ (if kept_line omit (last L) then [slice_of data (last L)] else [])"
    by (subst L(1)) (simp add: st(1))
  have push: "push_line omit (length data) st = (if kept_line omit (last L) then st\<lparr>sr_lines := sr_lines st @ [slice_of data (last L)]\<rparr> else st)"
    by (subst (1 2) L(2)) (simp add: push_line_def kept_line_def slice_of_def st(2,3) Let_def)
  have keptF: "kept_line False = (\<lambda>_. True)" "kept_line True = (\<lambda>(a, b). a < b)" by (auto simp: kept_line_def)
  have one: "sr_lines (if sc_pending st \<or> (keep \<and> \<not> omit) then push_line omit (length data) st else st) = map (slice_of data) (text_lines data omit keep)"
  proof (cases omit)
    case True
    have "\<not> sc_pending st \<Longrightarrow> \<not> kept_line omit (last L)"
      using L(2) by (cases "last L") (auto simp: keptF st(4) True)
    moreover have "text_lines data omit keep = filter (kept_line omit) L"
      using True by (simp add: text_lines_def keptF L_def)
    ultimately show ?thesis using full True push by (auto simp del: map_map)
  next
    case False
    then show ?thesis using full st(1) push by (auto simp: text_lines_def L_def [symmetric] keptF Let_def st(4))
  qed
  have rest: "sr_invalid (if sc_pending st \<or> (keep \<and> \<not> omit) then push_line omit (length data) st else st) = ill_formed data (length data) 0"
      "sr_embedded_nul (if sc_pending st \<or> (keep \<and> \<not> omit) then push_line omit (length data) st else st) = (0 \<in> set data)"
    using st(5,6) by (simp_all add: push)
  define st2 where "st2 = (if sc_pending st \<or> (keep \<and> \<not> omit) then push_line omit (length data) st else st)"
  have "scan_utf8 (Ptr a data) (int (length data)) omit keep = Inr (scan_result.truncate st2)"
    by (simp add: scan_utf8_def Let_def st0_def [symmetric] st_def [symmetric] st2_def)
  with one rest show ?thesis unfolding st2_def [symmetric] by (simp add: scan_result.truncate_def)
qed

subsection \<open>The repair\<close>

text \<open>Ordered sequences of one to three bytes inside the data.\<close>

fun sequences_ok :: "int \<Rightarrow> int \<Rightarrow> invalid_sequence list \<Rightarrow> bool" where
  "sequences_ok len copied [] = (0 \<le> copied \<and> copied \<le> len)"
| "sequences_ok len copied (q # qs) =
     (0 \<le> copied \<and> copied \<le> is_begin q \<and> 1 \<le> is_length q \<and> is_length q \<le> 3 \<and> sequences_ok len (is_begin q + is_length q) qs)"

fun repair_text :: "byte list \<Rightarrow> nat \<Rightarrow> invalid_sequence list \<Rightarrow> byte list" where
  "repair_text data copied [] = drop copied data"
| "repair_text data copied (q # qs) =
     slice data copied (nat (is_begin q)) @ replacement_char @ repair_text data (nat (is_begin q + is_length q)) qs"

definition added_bytes :: "invalid_sequence list \<Rightarrow> nat" where
  "added_bytes qs = sum_list (map (\<lambda>q. nat (3 - is_length q)) qs)"

lemma sequences_ok_le: "sequences_ok len c qs \<Longrightarrow> 0 \<le> c \<and> c \<le> len"
  by (induction qs arbitrary: c) (auto, fastforce)

lemma length_repair_text:
  "sequences_ok (int (length data)) c qs \<Longrightarrow> length (repair_text data (nat c) qs) = length data - nat c + added_bytes qs"
proof (induction qs arbitrary: c)
  case (Cons q qs)
  then have q: "0 \<le> c" "c \<le> is_begin q" "1 \<le> is_length q" "is_length q \<le> 3" "sequences_ok (int (length data)) (is_begin q + is_length q) qs"
    by auto
  have e: "is_begin q + is_length q \<le> int (length data)" using sequences_ok_le [OF q(5)] by simp
  have "length (slice data (nat c) (nat (is_begin q))) = nat (is_begin q) - nat c"
    using q e by (intro length_slice) linarith
  moreover have "nat (is_begin q) - nat c + 3 + (length data - nat (is_begin q + is_length q)) = length data - nat c + nat (3 - is_length q)"
    using q e by linarith
  ultimately show ?case using Cons.IH [OF q(5)] by (simp add: added_bytes_def replacement_char_def)
qed (simp add: added_bytes_def)

lemma repair_size_exact:
  assumes "sequences_ok len c qs" "m \<le> nat INT_MAX"
  shows "repair_size len qs m c = (if m + added_bytes qs \<le> nat INT_MAX then Inr (m + added_bytes qs)
    else Inl (Length_error ''converted UTF-8 string exceeds R string size''))"
  using assms
proof (induction qs arbitrary: c m)
  case (Cons q qs)
  then have q: "0 \<le> c" "c \<le> is_begin q" "1 \<le> is_length q" "is_length q \<le> 3" "sequences_ok len (is_begin q + is_length q) qs"
    by auto
  have e: "is_begin q + is_length q \<le> len" using sequences_ok_le [OF q(5)] by simp
  have cast: "size_cast (3 - is_length q) = nat (3 - is_length q)" "size_cast (is_length q - 3) = 0 \<or> is_length q \<noteq> 3"
    using q by (auto simp: INT_MAX_def)
  have ad: "added_bytes (q # qs) = nat (3 - is_length q) + added_bytes qs" by (simp add: added_bytes_def)
  show ?case
  proof (cases "is_length q < 3")
    case True
    have ovf: "m > nat INT_MAX - nat (3 - is_length q) \<longleftrightarrow> m + nat (3 - is_length q) > nat INT_MAX"
      using q by (simp add: INT_MAX_def) linarith
    show ?thesis
    proof (cases "m + nat (3 - is_length q) > nat INT_MAX")
      case big: True
      then show ?thesis using True q e ovf by (simp add: cast ad Let_def)
    next
      case False
      then show ?thesis using True q e ovf Cons.IH [OF q(5), of "m + nat (3 - is_length q)"] by (simp add: cast ad Let_def)
    qed
  next
    case False
    then have "is_length q = 3" using q by simp
    then show ?thesis using q e cast Cons.IH [OF q(5) Cons.prems(2)] by (simp add: ad)
  qed
qed (simp add: added_bytes_def)

lemma repair_write_ok:
  assumes data: "int (length data) \<le> INT_MAX" and w: "range_writer out0 tx c st"
    and q: "0 \<le> c" "c \<le> is_begin q" "is_begin q \<le> int (length data)"
    and fit: "length tx + length (slice data (nat c) (nat (is_begin q))) + 3 \<le> length out0"
  shows "range_writer out0 (tx @ slice data (nat c) (nat (is_begin q)) @ replacement_char) (is_begin q + is_length q) (repair_write data q st)"
proof -
  obtain out used where st: "st = (out, used, c)" and fl: "filled out0 used tx out"
    using w by (cases st) (auto simp: range_writer_def)
  have ok: "sv_ok (view_of 1 Enc_utf8 data)" "sv_ptr (view_of 1 Enc_utf8 data) = Ptr 1 data"
    using data by (simp, simp add: view_of_def)
  note td = take_drop_view [OF ok(1), of c "is_begin q", simplified ok(2) ptr_bytes.simps view_of_ok(2,5), OF q]
  let ?n = "nat (is_begin q - c)"
  have used: "used = length tx" using fl by (simp add: filled_def)
  have len: "used + ?n \<le> length out0" "used + ?n + 3 \<le> length out0" using fit unfolding used td(4) by linarith+
  have 1: "filled out0 (used + ?n) (tx @ slice data (nat c) (nat (is_begin q)))
      (if 0 < ?n then memcpy_at out used (drop (nat c) data) ?n else out)" (is "filled _ _ _ ?o")
    using filled_guarded [OF fl len(1) td(2)] unfolding td(1) .
  have "filled out0 (used + ?n + 3) ((tx @ slice data (nat c) (nat (is_begin q))) @ take 3 replacement_char)
      (memcpy_at ?o (used + ?n) replacement_char 3)"
    by (rule filled_memcpy [OF 1 len(2)]) (simp add: replacement_char_def)
  moreover have "repair_write data q st = (memcpy_at ?o (used + ?n) replacement_char 3, used + ?n + 3, is_begin q + is_length q)"
    by (auto simp: repair_write_def st td(3) Let_def)
  ultimately show ?thesis by (simp add: range_writer_def replacement_char_def)
qed

lemma repair_writes_ok:
  assumes data: "int (length data) \<le> INT_MAX" and "sequences_ok (int (length data)) c qs" "range_writer out0 tx c st"
    and "length tx + length (repair_text data (nat c) qs) \<le> length out0"
  shows "\<exists>tx' c'. range_writer out0 tx' c' (fold (repair_write data) qs st) \<and> 0 \<le> c' \<and> c' \<le> int (length data) \<and>
    tx @ repair_text data (nat c) qs = tx' @ drop (nat c') data"
  using assms(2-)
proof (induction qs arbitrary: tx c st)
  case (Cons q qs)
  then have q: "0 \<le> c" "c \<le> is_begin q" "1 \<le> is_length q" "sequences_ok (int (length data)) (is_begin q + is_length q) qs" by auto
  have e: "is_begin q \<le> int (length data)" using sequences_ok_le [OF q(4)] q by linarith
  have "length tx + length (slice data (nat c) (nat (is_begin q))) + 3 \<le> length out0"
    using Cons.prems(3) by (simp add: replacement_char_def)
  from repair_write_ok [OF data Cons.prems(2) q(1,2) e this]
  show ?case using Cons.IH [OF q(4)] Cons.prems(3) by fastforce
qed auto

lemma repair_utf8_exact:
  assumes data: "int (length data) \<le> INT_MAX" and qs: "sequences_ok (int (length data)) 0 qs"
  shows "repair_utf8 (Ptr a data) (int (length data)) qs =
    (if int (length (repair_text data 0 qs)) \<le> INT_MAX then Inr (repair_text data 0 qs)
     else Inl (Length_error ''converted UTF-8 string exceeds R string size''))"
proof -
  let ?n = "length (repair_text data 0 qs)"
  have n: "?n = length data + added_bytes qs" using length_repair_text [OF qs] by simp
  have size: "repair_size (int (length data)) qs (length data) 0 =
      (if ?n \<le> nat INT_MAX then Inr ?n else Inl (Length_error ''converted UTF-8 string exceeds R string size''))"
    using repair_size_exact [OF qs, of "length data"] data by (simp add: n INT_MAX_def)
  have big: "?n \<le> nat INT_MAX \<longleftrightarrow> int ?n \<le> INT_MAX" by (auto simp: INT_MAX_def)
  let ?out = "replicate ?n (0::byte)"
  have "range_writer ?out [] 0 (?out, 0, 0)" by (simp add: range_writer_def)
  from repair_writes_ok [OF data qs this] obtain tx' c' where
    st: "range_writer ?out tx' c' (fold (repair_write data) qs (?out, 0, 0))" "0 \<le> c'" "c' \<le> int (length data)"
      "repair_text data 0 qs = tx' @ drop (nat c') data" by auto
  then obtain o1 used where fo: "fold (repair_write data) qs (?out, 0, 0) = (o1, used, c')" and fl: "filled ?out used tx' o1"
    by (cases "fold (repair_write data) qs (?out, 0, 0)") (auto simp: range_writer_def)
  have ok: "sv_ok (view_of 1 Enc_utf8 data)" "sv_ptr (view_of 1 Enc_utf8 data) = Ptr 1 data"
    using data by (simp, simp add: view_of_def)
  note td = take_drop_view [OF ok(1), of c' "int (length data)", simplified ok(2) ptr_bytes.simps view_of_ok(2,5), OF st(2,3) order_refl]
  have tail: "slice data (nat c') (nat (int (length data))) = drop (nat c') data" by (simp add: slice_to_end)
  let ?m = "nat (int (length data) - c')"
  have used: "used = length tx'" using fl by (simp add: filled_def)
  have len: "used + ?m = ?n" unfolding used td(4) tail st(4) by simp
  have "filled ?out (used + ?m) (repair_text data 0 qs) (if 0 < ?m then memcpy_at o1 used (drop (nat c') data) ?m else o1)"
    (is "filled _ _ _ ?o2")
    using filled_guarded [OF fl _ td(2)] len unfolding td(1) tail st(4) by simp
  then have o2: "?o2 = repair_text data 0 qs" unfolding len by (auto simp: filled_def)
  have cast: "size_cast (int (length data)) = length data" using data by simp
  show ?thesis
    unfolding repair_utf8_def ptr_bytes.simps cast size big
    using o2 by (simp add: fo td(3) split: if_splits)
qed

subsection \<open>From the scanner to the repair\<close>

lemma U8_NEXT_ill_length: "U8_NEXT data i n = (j, c) \<Longrightarrow> c < 0 \<Longrightarrow> j \<le> i + 3"
proof -
  assume nx: "U8_NEXT data i n = (j, c)" and c: "c < 0"
  have "\<not> U8_IS_SINGLE (data ! i)" using nx c by (auto simp: U8_NEXT_single)
  then consider "\<not> U8_IS_LEAD (data ! i) \<or> i + 1 = n" | "U8_IS_LEAD (data ! i)" "i + 1 \<noteq> n" "data ! i < 0xe0"
    | "U8_IS_LEAD (data ! i)" "i + 1 \<noteq> n" "0xe0 \<le> data ! i" "data ! i < 0xf0" | "U8_IS_LEAD (data ! i)" "i + 1 \<noteq> n" "0xf0 \<le> data ! i"
    by fastforce
  then show ?thesis
  proof cases
    case 1
    then show ?thesis using nx U8_NEXT_illegal [OF \<open>\<not> U8_IS_SINGLE (data ! i)\<close>] by auto
  next
    case 2
    then show ?thesis using nx by (auto simp: U8_NEXT_2 u8_last_trail_eq split: if_splits)
  next
    case 3
    then show ?thesis using nx by (auto simp: U8_NEXT_3 u8_last_trail_eq split: if_splits)
  next
    case 4
    then show ?thesis using nx c by (auto simp: U8_NEXT_4 u8_last_trail_eq split: if_splits)
  qed
qed

lemma ill_formed_ok:
  assumes "n \<le> length data" "c \<le> int i" "0 \<le> c" "i \<le> n"
  shows "sequences_ok (int n) c (ill_formed data n i)"
  using assms
proof (induction data n i arbitrary: c rule: ill_formed.induct)
  case (1 data n i)
  show ?case
  proof (cases "i < n")
    case True
    obtain j k where nx: "U8_NEXT data i n = (j, k)" by fastforce
    have j: "i < j" "j \<le> n" using U8_NEXT_gt [OF nx] U8_NEXT_le [OF nx True] by auto
    have IH: "sequences_ok (int n) c' (ill_formed data n j)" if "c' \<le> int j" "0 \<le> c'" for c'
      using 1(1) [OF True nx [symmetric] refl 1(2) that j(2)] .
    show ?thesis
    proof (cases "k < 0")
      case ill: True
      have "int i + int (j - i) = int j" using j by simp
      then show ?thesis
        using True nx ill IH [of "int j"] j 1(3,4) U8_NEXT_ill_length [OF nx ill]
        by (simp add: ill_formed.simps [of data n i])
    next
      case False
      then show ?thesis using True nx IH [of c] j 1(3,4) by (simp add: ill_formed.simps [of data n i])
    qed
  qed (use 1 in \<open>simp add: ill_formed.simps [of data n n]\<close>)
qed

lemma repair_text_ill_formed:
  assumes "b \<le> i" "i \<le> length data"
  shows "repair_text data b (ill_formed data (length data) i) = slice data b i @ repaired data (length data) i"
  using assms
proof (induction data "length data" i arbitrary: b rule: ill_formed.induct)
  case (1 data i)
  show ?case
  proof (cases "i < length data")
    case True
    obtain j k where nx: "U8_NEXT data i (length data) = (j, k)" by fastforce
    have j: "i < j" "j \<le> length data" using U8_NEXT_gt [OF nx] U8_NEXT_le [OF nx True] by auto
    have IH: "repair_text data c (ill_formed data (length data) j) = slice data c j @ repaired data (length data) j" if "c \<le> j" for c
      using 1(1) [OF True nx [symmetric] refl that j(2)] .
    have eqs: "ill_formed data (length data) i = (if k < 0 then [\<lparr>is_begin = int i, is_length = int (j - i)\<rparr>] else []) @ ill_formed data (length data) j"
        "repaired data (length data) i = (if k < 0 then replacement_char else slice data i j) @ repaired data (length data) j"
      using True nx by (simp_all add: ill_formed.simps [of data "length data" i] repaired.simps [of data "length data" i])
    have "slice data b i @ slice data i j = slice data b j" using slice_append [of b i j data] 1(2) j by simp
    moreover have "nat (int i + int (j - i)) = j" using j by simp
    ultimately show ?thesis
      unfolding eqs using IH [of b] IH [of j] 1(2) j
      by (cases "k < 0") (simp_all del: of_nat_diff add: append_assoc [symmetric] del: append_assoc)
  qed (use 1 in \<open>simp add: ill_formed.simps [of data "length data" "length data"] repaired.simps [of data "length data" "length data"] slice_def\<close>)
qed

subsection \<open>The writer\<close>

text \<open>What a writer stands for: the bytes passed to the stream and the staged ones.\<close>

definition file_text :: "file_writer \<Rightarrow> byte list" where
  "file_text fw = the (fw_handle fw) @ take (fw_used fw) (fw_buffer fw)"

definition writer_ok :: "file_writer \<Rightarrow> bool" where
  "writer_ok fw \<longleftrightarrow> fw_handle fw \<noteq> None \<and> length (fw_buffer fw) = buffer_size \<and> fw_used fw \<le> buffer_size"

lemma buffer_size_pos [simp]: "0 < buffer_size"
  by (simp add: buffer_size_def)

lemma writer_flush_ok:
  "writer_ok fw \<Longrightarrow> writer_flush io fw = Inr fw' \<Longrightarrow> writer_ok fw' \<and> file_text fw' = file_text fw \<and> fw_used fw' = 0"
  by (auto simp: writer_flush_def writer_ok_def file_text_def Let_def split: if_splits)

lemma writer_flush_error: "writer_flush io fw = Inl e \<Longrightarrow> e = write_failure io \<and> \<not> io_fwrite io (the (fw_handle fw)) (take (fw_used fw) (fw_buffer fw))"
  by (auto simp: writer_flush_def Let_def split: if_splits)

text \<open>A call that returns, with a failure of the stream or with the bytes appended.\<close>

definition appends :: "stdio \<Rightarrow> file_writer \<Rightarrow> byte list \<Rightarrow> (write_error + file_writer) option \<Rightarrow> bool" where
  "appends io fw bs res \<longleftrightarrow>
     (res = Some (Inl (write_failure io)) \<and> (\<exists>f b. \<not> io_fwrite io f b)) \<or>
     (\<exists>fw'. res = Some (Inr fw') \<and> writer_ok fw' \<and> file_text fw' = file_text fw @ bs)"

lemma stage_text:
  assumes "writer_ok fw" "fw_used fw + k \<le> buffer_size" "k \<le> length data"
  defines "fw' \<equiv> fw\<lparr>fw_buffer := memcpy_at (fw_buffer fw) (fw_used fw) data k, fw_used := fw_used fw + k\<rparr>"
  shows "writer_ok fw'" "file_text fw' = file_text fw @ take k data"
  using assms take_memcpy_at [of "fw_used fw" k "fw_buffer fw" data]
  by (auto simp: writer_ok_def file_text_def)

lemma write_loop_appends:
  assumes "writer_ok fw" "m \<le> length data"
  shows "appends io fw (take m data) (write_loop io data m fw)"
  using assms
proof (induction m arbitrary: data fw rule: less_induct)
  case (less m)
  show ?case
  proof (cases "m = 0")
    case True
    then show ?thesis using less.prems by (simp add: write_loop.simps appends_def)
  next
    case False
    define pre where "pre = (if fw_used fw = length (fw_buffer fw) then writer_flush io fw else Inr fw)"
    show ?thesis
    proof (cases pre)
      case (Inl e)
      then have "writer_flush io fw = Inl e" by (auto simp: pre_def split: if_splits)
      with writer_flush_error have "e = write_failure io \<and> (\<exists>f b. \<not> io_fwrite io f b)" by blast
      with Inl False show ?thesis by (simp add: write_loop.simps [of io data m fw] pre_def [symmetric] appends_def)
    next
      case (Inr fw1)
      then have fw1: "writer_ok fw1" "file_text fw1 = file_text fw" "fw_used fw1 < buffer_size"
        using less.prems(1) writer_flush_ok [OF less.prems(1)]
        by (auto simp: pre_def writer_ok_def split: if_splits)
      define k where "k = (if m < length (fw_buffer fw1) - fw_used fw1 then m else length (fw_buffer fw1) - fw_used fw1)"
      have k: "0 < k" "k \<le> m" "fw_used fw1 + k \<le> buffer_size" "k \<le> length data"
        using fw1 False less.prems(2) by (auto simp: k_def writer_ok_def)
      define fw2 where "fw2 = fw1\<lparr>fw_buffer := memcpy_at (fw_buffer fw1) (fw_used fw1) data k, fw_used := fw_used fw1 + k\<rparr>"
      have fw2: "writer_ok fw2" "file_text fw2 = file_text fw @ take k data"
        using stage_text [OF fw1(1) k(3,4)] fw1(2) by (simp_all add: fw2_def)
      have "write_loop io data m fw = write_loop io (drop k data) (m - k) fw2"
        using False Inr by (simp add: write_loop.simps [of io data m fw] pre_def [symmetric] k_def fw2_def Let_def)
      moreover have "appends io fw2 (take (m - k) (drop k data)) (write_loop io (drop k data) (m - k) fw2)"
        using k less.prems(2) by (intro less.IH fw2(1)) auto
      moreover have "take k data @ take (m - k) (drop k data) = take m data"
        using k by (metis le_add_diff_inverse take_add)
      ultimately show ?thesis by (auto simp: appends_def fw2(2))
    qed
  qed
qed

lemma writer_write_appends:
  assumes "writer_ok fw" "m \<le> length data"
  shows "appends io fw (take m data) (writer_write io (Some data) (int m) fw)"
  using write_loop_appends [OF assms] assms by (auto simp: writer_write_def writer_ok_def)

lemma appends_then:
  assumes "appends io fw bs m" "\<And>fw'. writer_ok fw' \<Longrightarrow> file_text fw' = file_text fw @ bs \<Longrightarrow> appends io fw' cs (f fw')"
  shows "appends io fw (bs @ cs) (thenW m f)"
  using assms(1)
proof (cases "\<exists>fw'. m = Some (Inr fw') \<and> writer_ok fw' \<and> file_text fw' = file_text fw @ bs")
  case True
  then obtain fw' where "m = Some (Inr fw')" "writer_ok fw'" "file_text fw' = file_text fw @ bs" by blast
  with assms(2) [of fw'] show ?thesis by (auto simp: appends_def)
qed (auto simp: appends_def)

lemma write_utf8_loop_appends:
  assumes "writer_ok fw" "b \<le> i" "i \<le> length data"
  shows "appends io fw (slice data b i @ repaired data (length data) i)
    (thenW (write_utf8_loop io data (length data) b i fw) (\<lambda>(r, fw). writer_write io (Some (drop r data)) (int (length data) - int r) fw))"
  using assms
proof (induction io data "length data" b i fw rule: write_utf8_loop.induct)
  case (1 io data b i fw)
  let ?n = "length data"
  show ?case
  proof (cases "i < ?n")
    case False
    then have "i = ?n" using 1 by simp
    then show ?thesis
      using writer_write_appends [OF 1(4), of "?n - b" "drop b data" io] 1(5)
      by (simp add: write_utf8_loop.simps [of io data ?n b ?n] repaired.simps [of data ?n ?n] slice_def of_nat_diff)
  next
    case True
    obtain j c where nx: "U8_NEXT data i ?n = (j, c)" by fastforce
    have j: "i < j" "j \<le> ?n" using U8_NEXT_gt [OF nx] U8_NEXT_le [OF nx True] by auto
    have rep: "repaired data ?n i = (if c < 0 then replacement_char else slice data i j) @ repaired data ?n j"
      using True nx by (simp add: repaired.simps [of data ?n i])
    have join: "slice data b i @ slice data i j = slice data b j" using slice_append [of b i j data] 1(5) j by simp
    show ?thesis
    proof (cases "c \<ge> 0")
      case good: True
      have "write_utf8_loop io data ?n b i fw = write_utf8_loop io data ?n b j fw"
      proof (cases "data ! i < 0x80")
        case True
        then have "j = i + 1" using nx by (simp add: U8_NEXT_single U8_IS_SINGLE_iff)
        then show ?thesis using True \<open>i < ?n\<close> by (simp add: write_utf8_loop.simps [of io data ?n b i])
      next
        case False
        then show ?thesis using good nx j \<open>i < ?n\<close> by (simp add: write_utf8_loop.simps [of io data ?n b i])
      qed
      moreover have "appends io fw (slice data b j @ repaired data ?n j)
          (thenW (write_utf8_loop io data ?n b j fw) (\<lambda>(r, fw). writer_write io (Some (drop r data)) (int ?n - int r) fw))"
      proof (cases "data ! i < 0x80")
        case True
        then have "j = i + 1" using nx by (simp add: U8_NEXT_single U8_IS_SINGLE_iff)
        then show ?thesis using 1(1) [OF \<open>i < ?n\<close> True 1(4)] 1(5) j by simp
      next
        case False
        show ?thesis using 1(2) [OF \<open>i < ?n\<close> False nx [symmetric] refl good 1(4)] 1(5) j by simp
      qed
      ultimately show ?thesis using good by (simp add: rep join [symmetric])
    next
      case bad: False
      then have hi: "\<not> data ! i < 0x80" using nx by (auto simp: U8_NEXT_single U8_IS_SINGLE_iff)
      have loop: "write_utf8_loop io data ?n b i fw =
          thenW (writer_write io (Some (drop b data)) (int (i - b)) fw) (\<lambda>fw.
          thenW (writer_write io (Some replacement_char) 3 fw) (\<lambda>fw. write_utf8_loop io data ?n j j fw))"
        using True hi bad nx j by (simp add: write_utf8_loop.simps [of io data ?n b i])
      have assoc: "thenW (thenW m f) g = thenW m (\<lambda>x. thenW (f x) g)" for m :: "(write_error + file_writer) option" and f :: "file_writer \<Rightarrow> (write_error + nat \<times> file_writer) option" and g :: "nat \<times> file_writer \<Rightarrow> (write_error + file_writer) option"
        by (simp add: thenW_def split: option.splits sum.splits)
      have first: "appends io fw (slice data b i) (writer_write io (Some (drop b data)) (int (i - b)) fw)"
        using writer_write_appends [OF 1(4), of "i - b" "drop b data" io] 1(5,6) by (simp add: slice_def)
      have second: "appends io fw' replacement_char (writer_write io (Some replacement_char) 3 fw')" if "writer_ok fw'" for fw'
        using writer_write_appends [OF that, of 3 replacement_char io] by (simp add: replacement_char_def)
      have third: "appends io fw' (repaired data ?n j)
          (thenW (write_utf8_loop io data ?n j j fw') (\<lambda>(r, fw). writer_write io (Some (drop r data)) (int ?n - int r) fw))" if "writer_ok fw'" for fw'
        using 1(3) [OF \<open>i < ?n\<close> hi nx [symmetric] refl bad refl] that j by simp
      have "appends io fw (slice data b i @ replacement_char @ repaired data ?n j)
          (thenW (writer_write io (Some (drop b data)) (int (i - b)) fw) (\<lambda>fw.
           thenW (writer_write io (Some replacement_char) 3 fw) (\<lambda>fw.
           thenW (write_utf8_loop io data ?n j j fw) (\<lambda>(r, fw). writer_write io (Some (drop r data)) (int ?n - int r) fw))))"
        by (intro appends_then [OF first] appends_then [OF second] third)
      then show ?thesis unfolding loop assoc using bad by (simp add: rep)
    qed
  qed
qed

lemma warn_bytes_cut:
  assumes "0 < capacity" "out = take (capacity - 1) full" "position = length out" 
  shows "\<exists>position'. warn_bytes bs capacity out position = (take (capacity - 1) (full @ concat (map hex_byte bs)), position') \<and>
    position' = length (take (capacity - 1) (full @ concat (map hex_byte bs)))"
  using assms
proof (induction bs arbitrary: out position full)
  case (Cons b bs)
  show ?case
  proof (cases "position < capacity - 1")
    case True
    then have full: "out = full" "length full = position" using Cons.prems by (auto simp: min_def split: if_splits)
    have "snprintf_at out position capacity (hex_byte b) = take (capacity - 1) (full @ hex_byte b)"
      using full True by (simp add: snprintf_at_def)
    moreover have "(if position + length (hex_byte b) \<ge> capacity then capacity - 1 else position + length (hex_byte b)) =
        length (take (capacity - 1) (full @ hex_byte b))"
      using full True by auto
    ultimately show ?thesis
      using Cons.IH [OF Cons.prems(1) refl refl, of "full @ hex_byte b"] True by (simp add: Let_def)
  next
    case False
    then have "length full \<ge> capacity - 1" using Cons.prems by (auto simp: min_def split: if_splits)
    with False Cons.prems show ?thesis by simp
  qed
qed simp

subsection \<open>Properties\<close>

text \<open>C8. Scanning cuts a text at its line breaks, a carriage return followed by a line feed
  counting as one, exactly as the code point by code point reference does, for every
  combination of the two flags; the ASCII mark of every line is exact, the ill-formed
  sequences are those of the text, and an embedded NUL is reported exactly.\<close>

theorem scan_utf8_exact:
  assumes "int (length data) \<le> INT_MAX"
  shows "scan_utf8 (Ptr a data) (int (length data)) omit_empty keep_trailing_empty = Inr
    \<lparr>sr_lines = map (\<lambda>(b, e). \<lparr>ls_begin = b, ls_length = e - b, ls_ascii = list_all (\<lambda>x. x < 0x80) (slice data b e)\<rparr>)
       (text_lines data omit_empty keep_trailing_empty),
     sr_invalid = ill_formed data (length data) 0, sr_embedded_nul = (0 \<in> set data)\<rparr>"
  using scan_utf8_spec [OF assms] by (simp add: slice_of_def [abs_def] ascii_slice_def)

text \<open>Two lines, an empty one between them dropped, and a trailing separator.\<close>

theorem scan_utf8_exact_witness:
  "map_sum id sr_lines (scan_utf8 (Ptr 1 [0x61, 0x0d, 0x0a, 0x0a, 0xc3, 0xa9, 0x0a]) 7 True False) =
    Inr [\<lparr>ls_begin = 0, ls_length = 1, ls_ascii = True\<rparr>, \<lparr>ls_begin = 4, ls_length = 2, ls_ascii = False\<rparr>]"
proof -
  let ?d = "[0x61, 0x0d, 0x0a, 0x0a, 0xc3, 0xa9, 0x0a] :: byte list"
  have "text_lines ?d True False = [(0, 1), (4, 6)]" by code_simp
  moreover have "slice ?d 0 1 = [0x61]" "slice ?d 4 6 = [0xc3, 0xa9]" by (simp_all add: slice_def)
  ultimately show ?thesis
    using scan_utf8_exact [of ?d 1 True False] by (simp add: INT_MAX_def)
qed

text \<open>C32. The sequences the scanner records can always be repaired: the result is the text with
  every ill-formed sequence replaced by U+FFFD, and the only failure is a result above the
  limit of an R string.\<close>

theorem scan_then_repair:
  assumes "int (length data) \<le> INT_MAX"
  shows "bindE (scan_utf8 (Ptr a data) (int (length data)) omit_empty keep) (\<lambda>r.
      repair_utf8 (Ptr a data) (int (length data)) (sr_invalid r)) =
    (if int (length (repaired data (length data) 0)) \<le> INT_MAX then Inr (repaired data (length data) 0)
     else Inl (Length_error ''converted UTF-8 string exceeds R string size''))"
proof -
  have "repair_text data 0 (ill_formed data (length data) 0) = repaired data (length data) 0"
    using repair_text_ill_formed [of 0 0 data] by simp
  with repair_utf8_exact [OF assms ill_formed_ok [of "length data" data 0 0]] show ?thesis
    by (simp add: scan_utf8_spec [OF assms])
qed

theorem scan_then_repair_witness:
  "bindE (scan_utf8 (Ptr 1 [0x61, 0xe2, 0x82, 0x62]) 4 False False) (\<lambda>r. repair_utf8 (Ptr 1 [0x61, 0xe2, 0x82, 0x62]) 4 (sr_invalid r)) =
    Inr [0x61, 0xef, 0xbf, 0xbd, 0x62]"
proof -
  have "repaired [0x61, 0xe2, 0x82, 0x62] 4 0 = [0x61, 0xef, 0xbf, 0xbd, 0x62]" by code_simp
  moreover have len: "length [0x61, 0xe2, 0x82, 0x62 :: byte] = 4" by simp
  moreover note scan_then_repair [of "[0x61, 0xe2, 0x82, 0x62]" 1 False False, unfolded len of_nat_numeral]
  ultimately show ?thesis by (simp add: INT_MAX_def)
qed

text \<open>C31. The buffered writer: \<open>write_utf8\<close> returns, and unless the stream refuses a block, in
  which case its error is raised, the file and the staged bytes together gain exactly the
  repaired text, however the staging buffer is filled; closing then leaves exactly that
  text in the file.\<close>

theorem write_utf8_appends_repaired:
  assumes "writer_ok fw"
  shows "(write_utf8 io (Some data) (int (length data)) fw = Some (Inl (write_failure io)) \<and> (\<exists>f b. \<not> io_fwrite io f b)) \<or>
    (\<exists>fw'. write_utf8 io (Some data) (int (length data)) fw = Some (Inr fw') \<and> writer_ok fw' \<and>
      file_text fw' = file_text fw @ repaired data (length data) 0 \<and>
      ((\<forall>f. io_fclose io f) \<longrightarrow> (\<forall>f b. io_fwrite io f b) \<longrightarrow>
        fst (writer_close io fw') = Inr (Some (file_text fw @ repaired data (length data) 0))))"
proof -
  have "appends io fw (repaired data (length data) 0) (write_utf8 io (Some data) (int (length data)) fw)"
    using write_utf8_loop_appends [OF assms, of 0 0 data io] by (simp add: write_utf8_def)
  moreover have "fst (writer_close io fw') = Inr (Some (file_text fw'))"
    if ok: "writer_ok fw'" "\<forall>f. io_fclose io f" "\<forall>f b. io_fwrite io f b" for fw'
    using ok by (auto simp: writer_close_def writer_flush_def writer_ok_def file_text_def Let_def)
  ultimately show ?thesis unfolding appends_def by (metis (no_types, lifting))
qed

theorem write_utf8_appends_repaired_witness:
  "\<exists>fw'. write_utf8 \<lparr>io_fopen = (\<lambda>_. True), io_fwrite = (\<lambda>_ _. True), io_fclose = (\<lambda>_. True), io_errno = 0\<rparr> (Some [0x61, 0xff]) 2
      (FileWriter\<lparr>fw_handle := Some []\<rparr>) = Some (Inr fw') \<and> file_text fw' = [0x61, 0xef, 0xbf, 0xbd]"
proof -
  let ?io = "\<lparr>io_fopen = (\<lambda>_. True), io_fwrite = (\<lambda>_ _. True), io_fclose = (\<lambda>_. True), io_errno = 0\<rparr>"
  let ?fw = "FileWriter\<lparr>fw_handle := Some []\<rparr>"
  have ok: "writer_ok ?fw" "file_text ?fw = []" by (simp_all add: writer_ok_def FileWriter_def file_text_def)
  have "repaired [0x61, 0xff] 2 0 = [0x61, 0xef, 0xbf, 0xbd]" by code_simp
  with write_utf8_appends_repaired [OF ok(1), of ?io "[0x61, 0xff]"] ok(2) show ?thesis
    by (auto simp: numeral_2_eq_2)
qed

end
