(* ===== verification/Index_Table.thy ===== *)
theory Index_Table
  imports Prelude
begin

unbundle bit_operations_syntax

text \<open>
  The insert-only open-addressing table of \<^verbatim>\<open>src/shared/index_hash_table.h\<close> and its probe
  loop. The table stores indices, not keys: the caller decides equality while it walks the
  probe sequence. The lemmas show that the capacity is a power of two with room to spare,
  that the masked successor walks through all slots, and that the probe loop ends and
  finds an equal entry that lies on an unbroken probe path.
\<close>

record index_hash_table =
  tbl_slots :: "int list"
  tbl_mask :: nat

definition empty_slot :: int where "empty_slot = - 1"

definition IndexHashTable :: index_hash_table where
  "IndexHashTable = \<lparr>tbl_slots = [], tbl_mask = 0\<rparr>"

text \<open>\<open>max_size\<close> is the limit of the vector of slots. The capacity is kept as its exponent: it
  starts at one and doubles.\<close>

function grow_capacity :: "nat \<Rightarrow> nat \<Rightarrow> nat \<Rightarrow> nat result" where
  "grow_capacity max_size count k =
     (let capacity = 2 ^ k in
      if capacity < 2 * count then
        if capacity > max_size div 2 then Inl (Length_error ''index hash table is too large'')
        else grow_capacity max_size count (Suc k)
      else Inr capacity)"
  by pat_completeness auto
termination
  by (relation "measure (\<lambda>(max_size, count, k). 2 * count - 2 ^ k)") (auto intro!: diff_less_mono2)

declare grow_capacity.simps [simp del]

definition table_reset :: "nat \<Rightarrow> nat \<Rightarrow> index_hash_table result" where
  "table_reset max_size count =
     bindE (grow_capacity max_size count 0) (\<lambda>capacity.
       Inr \<lparr>tbl_slots = replicate capacity empty_slot, tbl_mask = capacity - 1\<rparr>)"

definition first_slot :: "index_hash_table \<Rightarrow> 64 word \<Rightarrow> nat" where
  "first_slot t hash = unat hash AND tbl_mask t"

definition next_slot :: "index_hash_table \<Rightarrow> nat \<Rightarrow> nat" where
  "next_slot t slot = (slot + 1) AND tbl_mask t"

definition table_at :: "index_hash_table \<Rightarrow> nat \<Rightarrow> int" where
  "table_at t slot = tbl_slots t ! slot"

definition table_store :: "index_hash_table \<Rightarrow> nat \<Rightarrow> int \<Rightarrow> index_hash_table" where
  "table_store t slot index = t\<lparr>tbl_slots := (tbl_slots t)[slot := index]\<rparr>"

definition mix_hash64 :: "64 word \<Rightarrow> 64 word" where
  "mix_hash64 v =
     (let v = v XOR drop_bit 30 v;
          v = v * 0xbf58476d1ce4e5b9;
          v = v XOR drop_bit 27 v;
          v = v * 0x94d049bb133111eb;
          v = v XOR drop_bit 31 v
      in v)"

text \<open>The documented walk: \<open>same\<close> compares with the held index; with a limit, the walk gives up
  at that number of mismatches. The result tells whether an equal entry was found.\<close>

partial_function (option) probe :: "(int \<Rightarrow> bool) \<Rightarrow> nat option \<Rightarrow> int \<Rightarrow> nat \<Rightarrow> nat \<Rightarrow> index_hash_table \<Rightarrow> (bool \<times> index_hash_table) option" where
  "probe same limit index mismatches slot t =
     (let held = table_at t slot in
      if held < 0 then Some (False, table_store t slot index)
      else if same held then Some (True, t)
      else if limit = Some (mismatches + 1) then Some (False, t)
      else probe same limit index (mismatches + 1) (next_slot t slot) t)"

subsection \<open>Capacity\<close>

lemma grow_capacity_pow2:
  "grow_capacity mx count k = Inr c \<Longrightarrow> \<exists>j. c = 2 ^ j \<and> 2 * count \<le> c"
proof (induction mx count k rule: grow_capacity.induct)
  case (1 mx count k)
  then show ?case
    by (cases "(2::nat) ^ k < 2 * count")
      (auto simp: grow_capacity.simps [of mx count k] Let_def split: if_splits)
qed

lemma grow_capacity_total: "4 * count \<le> mx \<Longrightarrow> \<exists>c. grow_capacity mx count k = Inr c"
proof (induction mx count k rule: grow_capacity.induct)
  case (1 mx count k)
  have "\<not> (2::nat) ^ k > mx div 2" if "2 ^ k < 2 * count" using that 1(2) by linarith
  then show ?case
    using 1 by (cases "(2::nat) ^ k < 2 * count") (auto simp: grow_capacity.simps [of mx count k] Let_def)
qed

text \<open>A table between its reset and the last insertion: the capacity is a power of two.\<close>

definition table_ok :: "index_hash_table \<Rightarrow> bool" where
  "table_ok t \<longleftrightarrow> (\<exists>k. length (tbl_slots t) = 2 ^ k \<and> tbl_mask t = 2 ^ k - 1)"

lemma table_reset_ok:
  assumes "table_reset mx count = Inr t"
  shows "table_ok t" "2 * count \<le> length (tbl_slots t)" "tbl_slots t = replicate (length (tbl_slots t)) (- 1)"
proof -
  obtain c where c: "grow_capacity mx count 0 = Inr c" "t = \<lparr>tbl_slots = replicate c empty_slot, tbl_mask = c - 1\<rparr>"
    using assms by (auto simp: table_reset_def bindE_eq_Inr)
  from grow_capacity_pow2 [of mx count 0 c] c(1) obtain j where "c = 2 ^ j" "2 * count \<le> c" by auto
  with c(2) show "table_ok t" "2 * count \<le> length (tbl_slots t)" "tbl_slots t = replicate (length (tbl_slots t)) (- 1)"
    by (auto simp: table_ok_def empty_slot_def)
qed

lemma table_ok_store [simp]: "table_ok (table_store t s i) = table_ok t" "length (tbl_slots (table_store t s i)) = length (tbl_slots t)"
  "tbl_mask (table_store t s i) = tbl_mask t"
  by (simp_all add: table_ok_def table_store_def)

lemma mask_mod: "table_ok t \<Longrightarrow> n AND tbl_mask t = n mod length (tbl_slots t)"
  by (auto simp: table_ok_def take_bit_eq_mask mask_eq_exp_minus_1 simp flip: take_bit_eq_mod)

lemma slot_bounds:
  assumes "table_ok t"
  shows "0 < length (tbl_slots t)" "first_slot t h < length (tbl_slots t)" "next_slot t s = (s + 1) mod length (tbl_slots t)"
  using assms by (auto simp: first_slot_def next_slot_def mask_mod table_ok_def)

subsection \<open>Probing\<close>

text \<open>Slot \<open>k\<close> of the walk that starts at \<open>h\<close>.\<close>

definition walk :: "index_hash_table \<Rightarrow> nat \<Rightarrow> nat \<Rightarrow> nat" where
  "walk t h k = (h + k) mod length (tbl_slots t)"

definition free :: "index_hash_table \<Rightarrow> nat \<Rightarrow> bool" where
  "free t s \<longleftrightarrow> table_at t s < 0"

lemma walk_next: "table_ok t \<Longrightarrow> next_slot t (walk t h k) = walk t h (Suc k)"
  by (simp add: slot_bounds(3) walk_def mod_Suc_eq)

lemma walk_store [simp]: "walk (table_store t s i) h k = walk t h k"
  by (simp add: walk_def)

lemma walk_less: "table_ok t \<Longrightarrow> walk t h k < length (tbl_slots t)"
  unfolding walk_def by (rule mod_less_divisor [OF slot_bounds(1)])

lemma walk_reaches: "s < length (tbl_slots t) \<Longrightarrow> h < length (tbl_slots t) \<Longrightarrow> \<exists>k. walk t h k = s"
  by (rule exI [of _ "s + length (tbl_slots t) - h"]) (simp add: walk_def)

text \<open>The first free slot of a walk, when there is a free slot at all.\<close>

lemma first_free:
  assumes "table_ok t" "h < length (tbl_slots t)" "s < length (tbl_slots t)" "free t s"
  obtains e where "free t (walk t h e)" "\<forall>k < e. \<not> free t (walk t h k)"
proof -
  obtain k where "walk t h k = s" using walk_reaches [OF assms(3,2)] by blast
  then have "free t (walk t h k)" using assms(4) by simp
  then have "\<exists>k. free t (walk t h k)" by blast
  then have "\<exists>e. free t (walk t h e) \<and> (\<forall>k < e. \<not> free t (walk t h k))" by (rule exists_least_iff [THEN iffD1])
  then show ?thesis using that by blast
qed

lemma probe_none:
  assumes "table_ok t" "free t (walk t h e)" "\<forall>j. k \<le> j \<and> j < e \<longrightarrow> \<not> free t (walk t h j) \<and> \<not> same (table_at t (walk t h j))"
    and "k \<le> e" "\<forall>m. limit = Some m \<longrightarrow> k + m > e + n"
  shows "probe same limit index n (walk t h k) t = Some (False, table_store t (walk t h e) index)"
  using assms(3-)
proof (induction "e - k" arbitrary: k n)
  case 0
  then show ?case using assms(2) by (simp add: probe.simps free_def Let_def)
next
  case (Suc d)
  then have ke: "k < e" by simp
  then have "\<not> free t (walk t h k)" "\<not> same (table_at t (walk t h k))" using Suc.prems(1) by auto
  moreover have "limit \<noteq> Some (n + 1)" using Suc.prems(3) ke by fastforce
  ultimately have "probe same limit index n (walk t h k) t = probe same limit index (n + 1) (walk t h (Suc k)) t"
    by (simp add: probe.simps [of same limit index n] free_def Let_def walk_next [OF assms(1)])
  also have "\<dots> = Some (False, table_store t (walk t h e) index)"
    using Suc.hyps(2) Suc.prems ke by (intro Suc.hyps(1)) auto
  finally show ?case .
qed

text \<open>With any limit the walk ends; it finds only equal entries, and otherwise either stores the
  index in the first free slot or leaves the table alone.\<close>

lemma probe_outcome:
  assumes "table_ok t" "free t (walk t h e)" "\<forall>j < e. \<not> free t (walk t h j)" "k \<le> e"
  shows "(\<exists>j. k \<le> j \<and> j < e \<and> same (table_at t (walk t h j)) \<and> probe same limit index n (walk t h k) t = Some (True, t)) \<or>
    probe same limit index n (walk t h k) t = Some (False, table_store t (walk t h e) index) \<and> (\<forall>j. k \<le> j \<and> j < e \<longrightarrow> \<not> same (table_at t (walk t h j))) \<or>
    (limit \<noteq> None \<and> probe same limit index n (walk t h k) t = Some (False, t))"
  using assms(4)
proof (induction "e - k" arbitrary: k n)
  case 0
  then show ?case using assms(2) by (auto simp: probe.simps [of same limit index n] free_def Let_def)
next
  case (Suc d)
  then have ke: "k < e" by simp
  then have nf: "\<not> free t (walk t h k)" using assms(3) by simp
  show ?case
  proof (cases "same (table_at t (walk t h k)) \<or> limit = Some (n + 1)")
    case True
    then show ?thesis using nf ke by (auto simp: probe.simps [of same limit index n] free_def Let_def)
  next
    case False
    then have eq: "probe same limit index n (walk t h k) t = probe same limit index (n + 1) (walk t h (Suc k)) t"
      using nf by (simp add: probe.simps [of same limit index n] free_def Let_def walk_next [OF assms(1)])
    have "d = e - Suc k" "Suc k \<le> e" using Suc.hyps(2) ke by auto
    from Suc.hyps(1) [OF this, of "n + 1"] False show ?thesis
      unfolding eq by (metis Suc_leD le_eq_less_or_eq less_eq_Suc_le)
  qed
qed

end
