(* ===== verification/Collation.thy ===== *)
theory Collation
  imports Index_Table Utf8_View "HOL-Library.List_Lexorder" "HOL-Library.Multiset"
begin

unbundle bit_operations_syntax

text \<open>
  Ordering, ranking and deduplication by collation (\<^verbatim>\<open>src/shared/collation_ordering.h\<close>,
  \<^verbatim>\<open>collation_ordering.cpp\<close>), with the abbreviated keys that spare most calls of ICU's
  comparison. ICU's collator is a parameter: the first bytes of a sort key, the comparison
  of two strings and the case level attribute. What the code relies on is \<open>collator_ok\<close>: the
  comparison is that of sort keys without zero bytes, and, when the case level is off, the
  key part is the beginning of that key.

  \<open>std::stable_sort\<close> is an insertion sort in the error monad: the order of the comparisons,
  which the standard leaves open, only decides which failing comparison is reported.
\<close>

text \<open>A status code of ICU that is a failure is the left value of a call.\<close>

type_synonym status = int

record collator =
  co_case_level_on :: "status + bool"
  co_sort_key_part :: "byte list \<Rightarrow> status + byte list"
  co_strcoll :: "byte list \<Rightarrow> byte list \<Rightarrow> status + int"

record collation_prefix =
  cp_prefix :: "64 word"
  cp_index :: nat
  cp_complete :: bool

definition prefix_bytes :: nat where "prefix_bytes = 8"

definition compare_entries :: "string_view list \<Rightarrow> collator \<Rightarrow> collation_prefix \<Rightarrow> collation_prefix \<Rightarrow> status + int" where
  "compare_entries values co e1 e2 =
     (if cp_prefix e1 \<noteq> cp_prefix e2 then Inr (if cp_prefix e1 < cp_prefix e2 then - 1 else 1)
      else if cp_complete e1 \<and> cp_complete e2 then Inr 0
      else
        let a = values ! cp_index e1; b = values ! cp_index e2 in
        if sv_len a = sv_len b \<and> (sv_len a = 0 \<or> sv_bytes a = sv_bytes b) then Inr 0
        else bindE (co_strcoll co (sv_bytes a) (sv_bytes b)) (\<lambda>r.
          Inr (if r = 0 then 0 else if r < 0 then - 1 else 1)))"

definition entry_less :: "string_view list \<Rightarrow> collator \<Rightarrow> bool \<Rightarrow> collation_prefix \<Rightarrow> collation_prefix \<Rightarrow> status + bool" where
  "entry_less values co decreasing e1 e2 =
     bindE (compare_entries values co e1 e2) (\<lambda>r.
       Inr (if r \<noteq> 0 then (if decreasing then r > 0 else r < 0) else cp_index e1 < cp_index e2))"

definition probe_limit :: nat where "probe_limit = 8"

text \<open>Eight bytes, or fewer, of a string read as a little-endian integer.\<close>

definition load_word :: "byte list \<Rightarrow> 64 word" where
  "load_word bs = foldr (\<lambda>b acc. push_bit 8 acc OR ucast b) bs 0"

definition sample_bytes :: "string_view \<Rightarrow> 64 word" where
  "sample_bytes v =
     (let sz = nat (sv_len v); data = ptr_bytes (sv_ptr v);
          (middle, tail) =
            (if sz \<ge> 8 then (load_word (take 8 (drop ((sz - 8) div 2) data)), load_word (take 8 (drop (sz - 8) data)))
             else if sz > 0 then (0, load_word (take sz data))
             else (0, 0))
      in mix_hash64 (mix_hash64 (tail XOR word_of_nat sz) XOR middle))"

definition same_entry :: "string_view list \<Rightarrow> collation_prefix \<Rightarrow> collation_prefix \<Rightarrow> bool" where
  "same_entry values e1 e2 =
     (if cp_prefix e1 \<noteq> cp_prefix e2 \<or> cp_complete e1 \<noteq> cp_complete e2 then False
      else if cp_complete e1 then True
      else
        let a = values ! cp_index e1; b = values ! cp_index e2
        in sv_len a = sv_len b \<and> (sv_len a = 0 \<or> sv_bytes a = sv_bytes b))"

definition pack_prefix :: "byte list \<Rightarrow> 64 word" where
  "pack_prefix bs = foldl (\<lambda>prefix b. push_bit 8 prefix OR ucast b) 0 (take prefix_bytes (bs @ replicate prefix_bytes 0))"

fun prefixes_loop :: "string_view list \<Rightarrow> bool \<Rightarrow> collator \<Rightarrow> nat list \<Rightarrow> collation_prefix list \<Rightarrow> status + collation_prefix list" where
  "prefixes_loop values use_prefix co [] keys = Inr keys"
| "prefixes_loop values use_prefix co (i # idx) keys =
     (if \<not> use_prefix \<or> is_na (values ! i) then
        prefixes_loop values use_prefix co idx (keys[i := \<lparr>cp_prefix = 0, cp_index = i, cp_complete = False\<rparr>])
      else
        bindE (co_sort_key_part co (sv_bytes (values ! i))) (\<lambda>bytes.
          prefixes_loop values use_prefix co idx
            (keys[i := \<lparr>cp_prefix = pack_prefix bytes, cp_index = i, cp_complete = length bytes < prefix_bytes\<rparr>])))"

definition compute_collation_prefixes ::
  "string_view list \<Rightarrow> nat \<Rightarrow> nat \<Rightarrow> collator \<Rightarrow> collation_prefix list \<Rightarrow> status + collation_prefix list" where
  "compute_collation_prefixes values b e co keys =
     bindE (co_case_level_on co) (\<lambda>case_level.
       prefixes_loop values (\<not> case_level) co [b..<e] keys)"

subsection \<open>Sorting\<close>

fun insert_by :: "('a \<Rightarrow> 'a \<Rightarrow> 'e + bool) \<Rightarrow> 'a \<Rightarrow> 'a list \<Rightarrow> 'e + 'a list" where
  "insert_by lt x [] = Inr [x]"
| "insert_by lt x (y # ys) =
     bindE (lt y x) (\<lambda>b. if b then bindE (insert_by lt x ys) (\<lambda>zs. Inr (y # zs)) else Inr (x # y # ys))"

fun stable_sort :: "('a \<Rightarrow> 'a \<Rightarrow> 'e + bool) \<Rightarrow> 'a list \<Rightarrow> 'e + 'a list" where
  "stable_sort lt [] = Inr []"
| "stable_sort lt (x # xs) = bindE (stable_sort lt xs) (insert_by lt x)"

text \<open>\<open>keys[m++] = keys[i]\<close> for the selected indices, then \<open>keys.resize(m)\<close>.\<close>

definition compact_step :: "(nat \<Rightarrow> bool) \<Rightarrow> nat \<Rightarrow> 'a list \<times> nat \<Rightarrow> 'a list \<times> nat" where
  "compact_step sel i = (\<lambda>(keys, m). if sel i then (keys[m := keys ! i], m + 1) else (keys, m))"

definition compact :: "(nat \<Rightarrow> bool) \<Rightarrow> nat \<Rightarrow> 'a list \<Rightarrow> 'a list" where
  "compact sel sz keys = (let (keys, m) = fold (compact_step sel) [0..<sz] (keys, 0) in take m keys)"

definition build_collation_order ::
  "string_view list \<Rightarrow> nat \<Rightarrow> bool \<Rightarrow> collator \<Rightarrow> collation_prefix list \<Rightarrow> status + collation_prefix list \<times> nat list \<times> nat list" where
  "build_collation_order values sz decreasing co keys =
     (let missing = filter (\<lambda>i. is_na (values ! i)) [0..<sz];
          keys = compact (\<lambda>i. \<not> is_na (values ! i)) sz keys
      in bindE (stable_sort (entry_less values co decreasing) keys) (\<lambda>keys.
        Inr (keys, map cp_index keys, missing)))"

fun ranks_loop :: "string_view list \<Rightarrow> collator \<Rightarrow> collation_prefix list \<Rightarrow> nat list \<Rightarrow> int \<Rightarrow> int list \<Rightarrow> status + int list" where
  "ranks_loop values co keys [] current_rank out = Inr out"
| "ranks_loop values co keys (i # idx) current_rank out =
     bindE (if i > 0 then
              bindE (compare_entries values co (keys ! (i - 1)) (keys ! i)) (\<lambda>r.
                Inr (if r \<noteq> 0 then int i + 1 else current_rank))
            else Inr current_rank) (\<lambda>current_rank.
       ranks_loop values co keys idx current_rank (out[cp_index (keys ! i) := current_rank]))"

definition assign_min_collation_ranks :: "string_view list \<Rightarrow> collator \<Rightarrow> collation_prefix list \<Rightarrow> nat \<Rightarrow> int list \<Rightarrow> status + int list" where
  "assign_min_collation_ranks values co keys sz out = ranks_loop values co keys [0..<sz] 1 out"

subsection \<open>Duplicates\<close>

definition entry_hash :: "string_view list \<Rightarrow> collation_prefix \<Rightarrow> nat \<Rightarrow> 64 word" where
  "entry_hash values key index =
     (if cp_complete key then mix_hash64 (cp_prefix key)
      else mix_hash64 (cp_prefix key XOR sample_bytes (values ! index)))"

record mark_state =
  mk_table :: index_hash_table
  mk_out :: "int list"
  mk_missing_seen :: bool

definition mark_step :: "string_view list \<Rightarrow> collation_prefix list \<Rightarrow> nat \<Rightarrow> mark_state \<Rightarrow> mark_state option" where
  "mark_step values keys index st =
     (if is_na (values ! index) then
        Some (st\<lparr>mk_out := (mk_out st)[index := (if mk_missing_seen st then 1 else 0)], mk_missing_seen := True\<rparr>)
      else
        let key = keys ! index in
        Option.bind (probe (\<lambda>held. same_entry values (keys ! nat held) key)
            (if cp_complete key then None else Some probe_limit) (int index) 0
            (first_slot (mk_table st) (entry_hash values key index)) (mk_table st)) (\<lambda>(found, table).
          Some (st\<lparr>mk_table := table, mk_out := (mk_out st)[index := (if found then 1 else 0)]\<rparr>)))"

fun mark_loop :: "string_view list \<Rightarrow> collation_prefix list \<Rightarrow> nat list \<Rightarrow> mark_state \<Rightarrow> mark_state option" where
  "mark_loop values keys [] st = Some st"
| "mark_loop values keys (index # idx) st = Option.bind (mark_step values keys index st) (mark_loop values keys idx)"

text \<open>One run \<open>[b, e)\<close> of equal entries keeps its first, or last, source index.\<close>

definition mark_run :: "bool \<Rightarrow> collation_prefix list \<Rightarrow> nat \<Rightarrow> nat \<Rightarrow> int list \<Rightarrow> int list" where
  "mark_run from_last keys b e out =
     (let kept = (if from_last then e - 1 else b)
      in fold (\<lambda>j out. out[cp_index (keys ! j) := (if j = kept then 0 else 1)]) [b..<e] out)"

fun runs_loop :: "string_view list \<Rightarrow> collator \<Rightarrow> bool \<Rightarrow> collation_prefix list \<Rightarrow> nat list \<Rightarrow> nat \<Rightarrow> int list \<Rightarrow> status + int list" where
  "runs_loop values co from_last keys [] run_begin out = Inr out"
| "runs_loop values co from_last keys (i # idx) run_begin out =
     bindE (if i < length keys then
              bindE (compare_entries values co (keys ! (i - 1)) (keys ! i)) (\<lambda>r. Inr (r = 0))
            else Inr False) (\<lambda>same_run.
       if same_run then runs_loop values co from_last keys idx run_begin out
       else runs_loop values co from_last keys idx i (mark_run from_last keys run_begin i out))"

text \<open>\<open>None\<close> is a probe that does not end. A table that cannot be allocated raises \<open>length_error\<close>,
  which the function does not catch.\<close>

definition mark_collation_duplicates ::
  "nat \<Rightarrow> string_view list \<Rightarrow> nat \<Rightarrow> bool \<Rightarrow> collator \<Rightarrow> collation_prefix list \<Rightarrow> int list \<Rightarrow> (cxx_error + status + int list) option" where
  "mark_collation_duplicates max_size values sz from_last co keys out =
     (let present_size = length (filter (\<lambda>i. \<not> is_na (values ! i)) [0..<sz]) in
      case table_reset max_size present_size of
        Inl e \<Rightarrow> Some (Inl e)
      | Inr table \<Rightarrow>
          Option.bind (mark_loop values keys (map (\<lambda>step. if from_last then sz - 1 - step else step) [0..<sz])
              \<lparr>mk_table = table, mk_out = out, mk_missing_seen = False\<rparr>) (\<lambda>st.
            let out = mk_out st;
                keys = compact (\<lambda>i. \<not> is_na (values ! i) \<and> \<not> cp_complete (keys ! i) \<and> out ! i = 0) sz keys
            in Some (Inr (bindE (stable_sort (entry_less values co False) keys) (\<lambda>keys.
                 runs_loop values co from_last keys [1..<length keys + 1] 0 out)))))"

subsection \<open>Abbreviated keys\<close>

definition key_cmp :: "byte list \<Rightarrow> byte list \<Rightarrow> int" where
  "key_cmp a b = (if a = b then 0 else if a < b then - 1 else 1)"

text \<open>The behaviour ICU documents: \<open>skey\<close> stands for the sort key of a string, which
  \<open>ucol_nextSortKeyPart\<close> reads in pieces and whose byte order is the collation order. With the
  case level on, only \<open>ucol_strcollUTF8\<close> is trusted to follow that order.\<close>

definition collator_ok :: "collator \<Rightarrow> (byte list \<Rightarrow> byte list) \<Rightarrow> bool" where
  "collator_ok co skey \<longleftrightarrow>
     (\<exists>cl. co_case_level_on co = Inr cl \<and>
        (\<not> cl \<longrightarrow> (\<forall>s. 0 \<notin> set (skey s) \<and> co_sort_key_part co s = Inr (take prefix_bytes (skey s))))) \<and>
     (\<forall>a b. co_strcoll co a b = Inr (key_cmp (skey a) (skey b)))"

lemma key_cmp_sign [simp]:
  "key_cmp a b = 0 \<longleftrightarrow> a = b" "key_cmp a b < 0 \<longleftrightarrow> a < b" "key_cmp a b > 0 \<longleftrightarrow> b < a"
  by (auto simp: key_cmp_def)

fun pad :: "nat \<Rightarrow> byte list \<Rightarrow> byte list" where
  "pad 0 k = []"
| "pad (Suc n) [] = 0 # pad n []"
| "pad (Suc n) (x # k) = x # pad n k"

lemma length_pad [simp]: "length (pad n k) = n"
  by (induction n k rule: pad.induct) auto

lemma pad_eq: "pad n k = take n (k @ replicate m 0)" if "n \<le> m"
  using that
proof (induction n k arbitrary: m rule: pad.induct)
  case (2 n)
  then show ?case by (cases m) (auto simp: replicate_append_same)
qed auto

lemma pad_take: "pad n (take n k) = pad n k"
  by (induction n k rule: pad.induct) auto

lemma pad_less: "0 \<notin> set k \<Longrightarrow> 0 \<notin> set l \<Longrightarrow> pad n k < pad n l \<Longrightarrow> k < l"
proof (induction n arbitrary: k l)
  case (Suc n)
  then show ?case by (cases k; cases l) (auto simp: word_neq_0_conv)
qed simp

lemma pad_inj: "0 \<notin> set k \<Longrightarrow> 0 \<notin> set l \<Longrightarrow> length k < n \<Longrightarrow> length l < n \<Longrightarrow> pad n k = pad n l \<Longrightarrow> k = l"
proof (induction n arbitrary: k l)
  case (Suc n)
  then show ?case by (cases k; cases l) auto
qed simp

text \<open>The packed bytes read as a number, big-endian.\<close>

definition be_value :: "byte list \<Rightarrow> nat" where
  "be_value bs = foldl (\<lambda>acc b. acc * 256 + unat b) 0 bs"

lemma be_value_acc: "foldl (\<lambda>acc b. acc * 256 + unat b) a bs = a * 256 ^ length bs + be_value (bs :: byte list)"
proof (induction bs arbitrary: a)
  case (Cons b bs)
  show ?case unfolding be_value_def
    using Cons [of "a * 256 + unat b"] Cons [of "unat b"] by (simp add: algebra_simps)
qed (simp add: be_value_def)

lemma be_value_Cons: "be_value (b # bs) = unat b * 256 ^ length bs + be_value bs"
  using be_value_acc [of "unat b" bs] by (simp add: be_value_def)

lemma byte_digit: "unat (b :: byte) * m + m \<le> 256 * m"
proof -
  have "Suc (unat b) \<le> 256" using unat_byte_less [of b] by linarith
  from mult_le_mono1 [OF this, of m] show ?thesis by simp
qed

lemma be_value_bound: "be_value bs < 256 ^ length bs"
proof (induction bs)
  case (Cons b bs)
  with byte_digit [of b "256 ^ length bs"] show ?case unfolding be_value_Cons length_Cons power_Suc by linarith
qed (simp add: be_value_def)

lemma be_value_less: "length xs = length ys \<Longrightarrow> be_value xs < be_value ys \<longleftrightarrow> xs < ys"
proof (induction xs ys rule: list_induct2)
  case (Cons x xs y ys)
  have step: "a * m + u < b * m + v" if "a < b" "u < m" for a b u v m :: nat
  proof -
    have "(a + 1) * m \<le> b * m" using that(1) by (intro mult_le_mono1) simp
    with that(2) show ?thesis by simp
  qed
  consider "x = y" | "unat x < unat y" "x < y" | "unat y < unat x" "y < x"
    by (metis linorder_less_linear word_less_nat_alt)
  then show ?case
  proof cases
    case 2
    then show ?thesis using step [OF 2(1) be_value_bound, of xs] by (auto simp: be_value_Cons Cons.hyps)
  next
    case 3
    then show ?thesis using step [OF 3(1) be_value_bound, of ys "be_value xs"] by (auto simp: be_value_Cons Cons.hyps)
  qed (simp add: be_value_Cons Cons)
qed (simp add: be_value_def)

lemma unat_shift_or:
  fixes acc :: "64 word" and b :: byte
  assumes "unat acc < 2 ^ 56"
  shows "unat (push_bit 8 acc OR ucast b) = unat acc * 256 + unat b"
proof -
  have "push_bit 8 acc AND ucast b = 0"
    by (rule bit_word_eqI) (auto simp: bit_simps dest: bit_imp_le_length)
  then have "push_bit 8 acc OR ucast b = push_bit 8 acc + ucast b"
    by (simp add: disjunctive_add_eq_or)
  moreover have "unat (ucast b :: 64 word) = unat b"
    using order_less_trans [OF unat_byte_less [of b], of "2 ^ 64"] by (simp add: unsigned_ucast_eq take_bit_nat_eq_self)
  moreover have "unat acc * 256 + unat b < 2 ^ 64" proof -
    have "unat acc \<le> 2 ^ 56 - 1" "unat b \<le> 255" using assms unat_byte_less [of b] by linarith+
    then show ?thesis by (simp del: unat_byte_less)
  qed
  ultimately show ?thesis
    by (simp add: push_bit_eq_mult unat_word_ariths mult.commute)
qed

lemma foldl_shift_or:
  "unat acc * 256 ^ length bs + 256 ^ length bs \<le> 2 ^ 64 \<Longrightarrow>
    unat (foldl (\<lambda>prefix b. push_bit 8 prefix OR ucast b) (acc :: 64 word) bs) = foldl (\<lambda>acc b. acc * 256 + unat (b :: byte)) (unat acc) bs"
proof (induction bs arbitrary: acc)
  case (Cons b bs)
  have "(unat acc * 256 + 256) * 1 \<le> (unat acc * 256 + 256) * 256 ^ length bs" by (rule mult_le_mono2) simp
  also have "\<dots> \<le> 2 ^ 64" using Cons.prems by (simp add: algebra_simps)
  finally have acc: "unat acc < 2 ^ 56" by simp
  have "(unat acc * 256 + unat b) * 256 ^ length bs + 256 ^ length bs \<le> 2 ^ 64"
    using Cons.prems byte_digit [of b "256 ^ length bs"] unfolding add_mult_distrib mult.assoc length_Cons power_Suc by linarith
  with Cons.IH [of "push_bit 8 acc OR ucast b"] show ?case by (simp add: unat_shift_or [OF acc])
qed simp

lemma pack_prefix_value: "unat (pack_prefix k) = be_value (pad prefix_bytes k)"
proof -
  have "length (take 8 (k @ replicate 8 (0::byte))) = 8" by simp
  then show ?thesis unfolding pack_prefix_def prefix_bytes_def be_value_def pad_eq [of 8 8, OF order_refl]
    by (subst foldl_shift_or) (simp_all del: take_append)
qed

lemma pack_prefix_less: "pack_prefix k < pack_prefix l \<longleftrightarrow> pad prefix_bytes k < pad prefix_bytes l"
  by (simp add: word_less_nat_alt pack_prefix_value be_value_less)

lemma pack_prefix_eq: "pack_prefix k = pack_prefix l \<longleftrightarrow> pad prefix_bytes k = pad prefix_bytes l"
  by (metis linorder_less_linear order_less_irrefl pack_prefix_less)

subsection \<open>Comparison\<close>

text \<open>The sort key of an element, and the entry computed for it.\<close>

definition elem_key :: "(byte list \<Rightarrow> byte list) \<Rightarrow> string_view list \<Rightarrow> nat \<Rightarrow> byte list" where
  "elem_key skey values i = skey (sv_bytes (values ! i))"

definition computed :: "string_view list \<Rightarrow> collator \<Rightarrow> (byte list \<Rightarrow> byte list) \<Rightarrow> nat \<Rightarrow> collation_prefix" where
  "computed values co skey i =
     (if co_case_level_on co = Inr False \<and> \<not> is_na (values ! i) then
        \<lparr>cp_prefix = pack_prefix (elem_key skey values i), cp_index = i,
         cp_complete = length (elem_key skey values i) < prefix_bytes\<rparr>
      else \<lparr>cp_prefix = 0, cp_index = i, cp_complete = False\<rparr>)"

lemma computed_index [simp]: "cp_index (computed values co skey i) = i"
  by (simp add: computed_def)

lemma pack_prefix_take [simp]: "pack_prefix (take prefix_bytes k) = pack_prefix k"
  by (simp add: pack_prefix_eq pad_take)

lemma prefixes_loop_computed:
  assumes "collator_ok co skey" "co_case_level_on co = Inr cl" "distinct idx"
  shows "prefixes_loop values (\<not> cl) co idx keys =
    Inr (map (\<lambda>j. if j \<in> set idx then computed values co skey j else keys ! j) [0..<length keys])"
  using assms(3)
proof (induction idx arbitrary: keys)
  case Nil
  show ?case by (simp add: map_nth)
next
  case (Cons i idx)
  have step: "prefixes_loop values (\<not> cl) co (i # idx) keys = prefixes_loop values (\<not> cl) co idx (keys[i := computed values co skey i])"
    using assms(1,2) by (auto simp: computed_def collator_ok_def elem_key_def min_less_iff_disj)
  show ?case
    unfolding step using Cons by (auto intro!: nth_equalityI)
qed

lemma compute_collation_prefixes_computed:
  assumes "collator_ok co skey"
  shows "compute_collation_prefixes values b e co keys =
    Inr (map (\<lambda>j. if b \<le> j \<and> j < e then computed values co skey j else keys ! j) [0..<length keys])"
  using assms prefixes_loop_computed [OF assms]
  by (auto simp: compute_collation_prefixes_def collator_ok_def)

lemma compute_all:
  assumes "collator_ok co skey" "length keys = length values"
  shows "compute_collation_prefixes values 0 (length values) co keys = Inr (map (computed values co skey) [0..<length values])"
  unfolding compute_collation_prefixes_computed [OF assms(1)] assms(2) by simp

lemma same_bytes: "sv_len a = sv_len b \<and> (sv_len a = 0 \<or> sv_bytes a = sv_bytes b) \<Longrightarrow> sv_bytes a = sv_bytes b"
  by (auto simp: sv_bytes_def)

lemma compare_entries_computed:
  assumes "collator_ok co skey" "\<not> is_na (values ! i)" "\<not> is_na (values ! j)"
  shows "compare_entries values co (computed values co skey i) (computed values co skey j) =
    Inr (key_cmp (elem_key skey values i) (elem_key skey values j))"
proof -
  let ?a = "elem_key skey values i" and ?b = "elem_key skey values j"
  have coll: "co_strcoll co (sv_bytes (values ! i)) (sv_bytes (values ! j)) = Inr (key_cmp ?a ?b)"
    using assms(1) by (simp add: collator_ok_def elem_key_def)
  have bytes: "?a = ?b" if "sv_bytes (values ! i) = sv_bytes (values ! j)"
    using that by (simp add: elem_key_def)
  have norm: "(if key_cmp ?a ?b = 0 then 0 else if key_cmp ?a ?b < 0 then - 1 else 1) = key_cmp ?a ?b"
    by (simp add: key_cmp_def)
  obtain cl where cl: "co_case_level_on co = Inr cl" using assms(1) by (auto simp: collator_ok_def)
  show ?thesis
  proof (cases cl)
    case True
    then show ?thesis
      using cl bytes same_bytes [of "values ! i" "values ! j"] by (auto simp: compare_entries_def computed_def Let_def coll norm key_cmp_def)
  next
    case False
    have nz: "0 \<notin> set ?a" "0 \<notin> set ?b" using assms(1) cl False by (auto simp: collator_ok_def elem_key_def)
    consider "pack_prefix ?a < pack_prefix ?b" | "pack_prefix ?b < pack_prefix ?a" | "pack_prefix ?a = pack_prefix ?b"
      by (rule linorder_cases)
    then show ?thesis
    proof cases
      case 1
      then have "?a < ?b" using nz by (auto simp: pack_prefix_less intro: pad_less)
      then show ?thesis using 1 cl False assms(2,3) by (auto simp: compare_entries_def computed_def key_cmp_def)
    next
      case 2
      then have "?b < ?a" using nz by (auto simp: pack_prefix_less intro: pad_less)
      then show ?thesis using 2 cl False assms(2,3) by (auto simp: compare_entries_def computed_def key_cmp_def)
    next
      case 3
      then have "?a = ?b" if "length ?a < prefix_bytes" "length ?b < prefix_bytes"
        using that nz by (auto simp: pack_prefix_eq intro: pad_inj)
      then show ?thesis using 3 cl False assms(2,3) bytes same_bytes [of "values ! i" "values ! j"]
        by (simp add: compare_entries_def computed_def Let_def coll norm) (auto simp: key_cmp_def)
    qed
  qed
qed

text \<open>The order the entries are sorted by.\<close>

definition before :: "(byte list \<Rightarrow> byte list) \<Rightarrow> string_view list \<Rightarrow> bool \<Rightarrow> nat \<Rightarrow> nat \<Rightarrow> bool" where
  "before skey values decreasing i j \<longleftrightarrow>
     (if decreasing then elem_key skey values j < elem_key skey values i
      else elem_key skey values i < elem_key skey values j) \<or>
     elem_key skey values i = elem_key skey values j \<and> i < j"

lemma before_order:
  "\<not> before skey values d i i"
  "before skey values d i j \<Longrightarrow> before skey values d j k \<Longrightarrow> before skey values d i k"
  "before skey values d i j \<or> before skey values d j i \<or> i = j"
  by (auto simp: before_def split: if_splits)

lemma entry_less_computed:
  assumes "collator_ok co skey" "\<not> is_na (values ! i)" "\<not> is_na (values ! j)"
  shows "entry_less values co d (computed values co skey i) (computed values co skey j) = Inr (before skey values d i j)"
  by (auto simp: entry_less_def compare_entries_computed [OF assms] before_def)

subsection \<open>Sorting and compaction\<close>

lemma insert_by_sorted:
  assumes "\<forall>y \<in> set ys. lt y x = Inr (R y x)" "\<forall>y \<in> set ys. R x y \<or> R y x" "sorted_wrt R ys" "\<And>a b c. R a b \<Longrightarrow> R b c \<Longrightarrow> R a c"
  shows "\<exists>zs. insert_by lt x ys = Inr zs \<and> mset zs = add_mset x (mset ys) \<and> sorted_wrt R zs"
  using assms(1-3)
proof (induction ys)
  case (Cons y ys)
  then obtain zs where zs: "insert_by lt x ys = Inr zs" "mset zs = add_mset x (mset ys)" "sorted_wrt R zs" by auto
  have "set zs = insert x (set ys)" using zs(2) by (metis set_mset_add_mset_insert set_mset_mset)
  then show ?case using Cons.prems zs by (cases "R y x") (auto intro: assms(4))
qed simp

text \<open>A sort by a strict total order that never fails is the sorted permutation.\<close>

lemma stable_sort_sorted:
  assumes "\<forall>x \<in> set xs. \<forall>y \<in> set xs. lt x y = Inr (R x y)" "distinct xs"
    and "\<forall>x \<in> set xs. \<forall>y \<in> set xs. x = y \<or> R x y \<or> R y x" "\<And>a b c. R a b \<Longrightarrow> R b c \<Longrightarrow> R a c"
  shows "\<exists>zs. stable_sort lt xs = Inr zs \<and> mset zs = mset xs \<and> sorted_wrt R zs"
  using assms(1-3)
proof (induction xs)
  case (Cons x xs)
  then obtain zs where zs: "stable_sort lt xs = Inr zs" "mset zs = mset xs" "sorted_wrt R zs" by auto
  have "set zs = set xs" using zs(2) by (metis set_mset_mset)
  then have "\<forall>y \<in> set zs. lt y x = Inr (R y x)" "\<forall>y \<in> set zs. R x y \<or> R y x" using Cons.prems by auto
  from insert_by_sorted [where lt = lt and R = R, OF this zs(3) assms(4)] zs show ?case by auto
qed simp

lemma compact_fold:
  assumes "n \<le> length keys"
  shows "let (ks, m) = fold (compact_step sel) [0..<n] (keys, 0) in
    m \<le> n \<and> length ks = length keys \<and> take m ks = map ((!) keys) (filter sel [0..<n]) \<and> (\<forall>j \<ge> n. ks ! j = keys ! j)"
  using assms
proof (induction n)
  case (Suc n)
  obtain ks m where f: "fold (compact_step sel) [0..<n] (keys, 0) = (ks, m)" by force
  then have "m \<le> n" "length ks = length keys" "take m ks = map ((!) keys) (filter sel [0..<n])" "\<forall>j \<ge> n. ks ! j = keys ! j"
    using Suc by (auto simp: Let_def split: prod.splits)
  then have "let (ks, m) = compact_step sel n (ks, m) in m \<le> Suc n \<and> length ks = length keys \<and>
      take m ks = map ((!) keys) (filter sel [0..<Suc n]) \<and> (\<forall>j \<ge> Suc n. ks ! j = keys ! j)"
    using Suc.prems by (auto simp: compact_step_def take_Suc_conv_app_nth)
  then show ?case by (simp add: f)
qed simp

lemma compact_filter: "n \<le> length keys \<Longrightarrow> compact sel n keys = map ((!) keys) (filter sel [0..<n])"
  using compact_fold [of n keys sel] by (auto simp: compact_def Let_def split: prod.splits)

definition present :: "string_view list \<Rightarrow> nat list" where
  "present values = filter (\<lambda>i. \<not> is_na (values ! i)) [0..<length values]"

definition missing_indices :: "string_view list \<Rightarrow> nat list" where
  "missing_indices values = filter (\<lambda>i. is_na (values ! i)) [0..<length values]"

lemma computed_inj: "inj_on (computed values co skey) A"
  by (metis computed_index inj_onI)

lemma sort_computed:
  assumes "collator_ok co skey" "distinct is'" "\<forall>i \<in> set is'. \<not> is_na (values ! i)"
  shows "\<exists>order. stable_sort (entry_less values co d) (map (computed values co skey) is') = Inr (map (computed values co skey) order) \<and>
    mset order = mset is' \<and> sorted_wrt (before skey values d) order"
proof -
  let ?R = "\<lambda>e f. before skey values d (cp_index e) (cp_index f)" and ?xs = "map (computed values co skey) is'"
  have 1: "\<forall>x \<in> set ?xs. \<forall>y \<in> set ?xs. entry_less values co d x y = Inr (?R x y)"
    using assms(3) by (auto simp: entry_less_computed [OF assms(1)])
  have 2: "distinct ?xs" using assms(2) by (simp add: distinct_map computed_inj)
  have 3: "\<forall>x \<in> set ?xs. \<forall>y \<in> set ?xs. x = y \<or> ?R x y \<or> ?R y x" using before_order(3) by fastforce
  obtain zs where zs: "stable_sort (entry_less values co d) ?xs = Inr zs" "mset zs = mset ?xs" "sorted_wrt ?R zs"
    using stable_sort_sorted [where R = ?R, OF 1 2 3] before_order(2) by blast
  have "set zs = set ?xs" using zs(2) by (metis set_mset_mset)
  then have "\<forall>e \<in> set zs. computed values co skey (cp_index e) = e" by auto
  then have "zs = map (computed values co skey) (map cp_index zs)" by (simp add: map_idI)
  moreover have "mset (map cp_index zs) = mset is'" using arg_cong [OF zs(2), of "image_mset cp_index"] by (simp add: multiset.map_comp comp_def)
  moreover have "sorted_wrt (before skey values d) (map cp_index zs)" using zs(3) by (simp add: sorted_wrt_map)
  ultimately show ?thesis using zs(1) by metis
qed

lemma map_computed_present:
  "map ((!) (map (computed values co skey) [0..<n])) (filter sel [0..<n]) = map (computed values co skey) (filter sel [0..<n])"
  by auto

lemma build_order_computed:
  assumes "collator_ok co skey"
  shows "\<exists>order. build_collation_order values (length values) d co (map (computed values co skey) [0..<length values]) =
      Inr (map (computed values co skey) order, order, missing_indices values) \<and>
    mset order = mset (present values) \<and> sorted_wrt (before skey values d) order"
proof -
  have "distinct (present values)" "\<forall>i \<in> set (present values). \<not> is_na (values ! i)" by (auto simp: present_def)
  from sort_computed [OF assms this, of d] obtain order
    where "stable_sort (entry_less values co d) (map (computed values co skey) (present values)) = Inr (map (computed values co skey) order)"
      "mset order = mset (present values)" "sorted_wrt (before skey values d) order" by blast
  then show ?thesis
    by (auto simp: build_collation_order_def compact_filter map_computed_present missing_indices_def present_def comp_def)
qed

lemma sorted_filter_less:
  fixes ks :: "'a::linorder list"
  assumes "sorted ks" "i < length ks" "i = 0 \<or> ks ! (i - 1) < ks ! i"
  shows "filter (\<lambda>k. k < ks ! i) ks = take i ks"
proof -
  have "filter (\<lambda>k. k < ks ! i) (take i ks) = take i ks"
  proof (intro filter_True ballI)
    fix k assume "k \<in> set (take i ks)"
    then obtain j where "j < i" "k = ks ! j" using assms(2) by (auto simp: in_set_conv_nth)
    then show "k < ks ! i" using assms sorted_nth_mono [OF assms(1), of j "i - 1"] by fastforce
  qed
  moreover have "filter (\<lambda>k. k < ks ! i) (drop i ks) = []"
    using sorted_nth_mono [OF assms(1)] by (auto simp: filter_empty_conv in_set_conv_nth not_less)
  ultimately show ?thesis by (metis append_take_drop_id append_Nil2 filter_append)
qed

lemma ranks_loop_ranks:
  assumes "collator_ok co skey" "\<forall>i \<in> set order. \<not> is_na (values ! i)"
    and "ks = map (elem_key skey values) order" "sorted ks" "distinct order" "\<forall>i \<in> set order. i < length out"
    and "b \<le> length order" "cur = 1 + int (if b = 0 then 0 else length (filter (\<lambda>k. k < ks ! (b - 1)) ks))"
  shows "\<exists>out'. ranks_loop values co (map (computed values co skey) order) [b..<length order] cur out = Inr out' \<and>
    length out' = length out \<and> (\<forall>p. b \<le> p \<and> p < length order \<longrightarrow> out' ! (order ! p) = 1 + int (length (filter (\<lambda>k. k < ks ! p) ks))) \<and>
    (\<forall>i. (\<forall>p. b \<le> p \<and> p < length order \<longrightarrow> order ! p \<noteq> i) \<longrightarrow> out' ! i = out ! i)"
  using assms(6-)
proof (induction "length order - b" arbitrary: b cur out)
  case 0
  then show ?case by auto
next
  case (Suc d)
  then have b: "b < length order" by simp
  define cur' where "cur' = 1 + int (length (filter (\<lambda>k. k < ks ! b) ks))"
  have cmp: "compare_entries values co (computed values co skey (order ! (b - 1))) (computed values co skey (order ! b)) =
      Inr (key_cmp (ks ! (b - 1)) (ks ! b))" if "b > 0"
    using that b assms(2) by (simp add: compare_entries_computed [OF assms(1)] assms(3))
  have len: "b < length ks" using b assms(3) by simp
  then have le: "ks ! (b - 1) \<le> ks ! b" by (intro sorted_nth_mono [OF assms(4)]) auto
  have cur: "(if b > 0 then Inr (if key_cmp (ks ! (b - 1)) (ks ! b) \<noteq> 0 then int b + 1 else cur) else Inr cur) = Inr cur'"
    using sorted_filter_less [OF assms(4) len] le len Suc.prems(3) by (auto simp: cur'_def)
  have step: "ranks_loop values co (map (computed values co skey) order) [b..<length order] cur out =
      ranks_loop values co (map (computed values co skey) order) [Suc b..<length order] cur' (out[order ! b := cur'])"
    using b cmp cur by (cases "b > 0") (auto simp: upt_conv_Cons)
  have "\<exists>out'. ranks_loop values co (map (computed values co skey) order) [Suc b..<length order] cur' (out[order ! b := cur']) = Inr out' \<and>
    length out' = length (out[order ! b := cur']) \<and> (\<forall>p. Suc b \<le> p \<and> p < length order \<longrightarrow> out' ! (order ! p) = 1 + int (length (filter (\<lambda>k. k < ks ! p) ks))) \<and>
    (\<forall>i. (\<forall>p. Suc b \<le> p \<and> p < length order \<longrightarrow> order ! p \<noteq> i) \<longrightarrow> out' ! i = out[order ! b := cur'] ! i)"
    using Suc.hyps(2) Suc.prems b by (intro Suc.hyps(1)) (auto simp: cur'_def)
  then obtain out' where o: "ranks_loop values co (map (computed values co skey) order) [Suc b..<length order] cur' (out[order ! b := cur']) = Inr out'"
    "length out' = length out" "\<And>p. Suc b \<le> p \<Longrightarrow> p < length order \<Longrightarrow> out' ! (order ! p) = 1 + int (length (filter (\<lambda>k. k < ks ! p) ks))"
    "\<And>i. (\<forall>p. Suc b \<le> p \<and> p < length order \<longrightarrow> order ! p \<noteq> i) \<Longrightarrow> out' ! i = out[order ! b := cur'] ! i"
    by auto
  have "out' ! (order ! b) = cur'"
    using o(4) [of "order ! b"] assms(5) b Suc.prems(1) by (auto simp: nth_eq_iff_index_eq)
  then have "out' ! (order ! p) = 1 + int (length (filter (\<lambda>k. k < ks ! p) ks))" if "b \<le> p" "p < length order" for p
    using o(3) [of p] that by (cases "p = b") (auto simp: cur'_def)
  moreover have "out' ! i = out ! i" if "\<forall>p. b \<le> p \<and> p < length order \<longrightarrow> order ! p \<noteq> i" for i
    using o(4) [of i] that b by (metis Suc_leD nth_list_update_neq order_refl)
  ultimately show ?case unfolding step using o(1,2) by blast
qed

subsection \<open>Runs\<close>

lemma fold_update:
  assumes "distinct (map f js)" "\<forall>j \<in> set js. f j < length out"
  shows "length (fold (\<lambda>j out. out[f j := g j]) js out) = length out"
    "\<forall>j \<in> set js. fold (\<lambda>j out. out[f j := g j]) js out ! f j = g j"
    "i \<notin> f ` set js \<Longrightarrow> fold (\<lambda>j out. out[f j := g j]) js out ! i = out ! i"
  using assms by (induction js rule: rev_induct) (auto simp: nth_list_update image_iff)

definition twin :: "bool \<Rightarrow> 'a list \<Rightarrow> nat \<Rightarrow> bool" where
  "twin from_last ks p \<longleftrightarrow> (\<exists>q < length ks. (if from_last then p < q else q < p) \<and> ks ! q = ks ! p)"

lemma twin_run:
  fixes ks :: "'a::linorder list"
  assumes "sorted ks" "rb < e" "e \<le> length ks" "\<forall>p. rb \<le> p \<and> p < e \<longrightarrow> ks ! p = ks ! rb"
    and "rb = 0 \<or> ks ! (rb - 1) < ks ! rb" "e = length ks \<or> ks ! (e - 1) < ks ! e" "rb \<le> p" "p < e"
  shows "twin from_last ks p \<longleftrightarrow> p \<noteq> (if from_last then e - 1 else rb)"
proof -
  have low: "ks ! q < ks ! p" if "q < rb" for q
  proof -
    have "ks ! q \<le> ks ! (rb - 1)" using that assms(2,3) by (intro sorted_nth_mono [OF assms(1)]) auto
    moreover have "ks ! (rb - 1) < ks ! rb" using that assms(5) by auto
    moreover have "ks ! p = ks ! rb" using assms(4,7,8) by blast
    ultimately show ?thesis by simp
  qed
  have high: "ks ! p < ks ! q" if "e \<le> q" "q < length ks" for q
  proof -
    have "ks ! e \<le> ks ! q" using that by (intro sorted_nth_mono [OF assms(1)]) auto
    moreover have "ks ! (e - 1) < ks ! e" using that assms(6) by auto
    moreover have "rb \<le> e - 1 \<and> e - 1 < e" using assms(2) by simp
    then have "ks ! p = ks ! rb" "ks ! (e - 1) = ks ! rb" using assms(4,7,8) by blast+
    ultimately show ?thesis by simp
  qed
  have key: "ks ! p = ks ! rb" using assms(4,7,8) by blast
  have lo: "twin False ks p \<longleftrightarrow> p \<noteq> rb"
  proof
    assume "twin False ks p"
    then obtain q where "q < p" "ks ! q = ks ! p" unfolding twin_def by auto
    then show "p \<noteq> rb" using low [of q] by (metis order_less_irrefl)
  next
    assume "p \<noteq> rb"
    then have "rb < length ks \<and> rb < p" using assms(2,3,7) by simp
    then show "twin False ks p" unfolding twin_def using key by auto
  qed
  have "twin True ks p \<longleftrightarrow> p \<noteq> e - 1"
  proof
    assume "twin True ks p"
    then obtain q where "q < length ks" "p < q" "ks ! q = ks ! p" unfolding twin_def by auto
    then show "p \<noteq> e - 1" using high [of q] assms(2) by (metis Suc_diff_1 Suc_leI bot_nat_0.not_eq_extremum not_less0 order_less_irrefl)
  next
    assume "p \<noteq> e - 1"
    then have "p < e - 1" "e - 1 < length ks" "rb \<le> e - 1 \<and> e - 1 < e" using assms(2,3,8) by auto
    moreover from this have "ks ! (e - 1) = ks ! p" using assms(4) key by (metis)
    ultimately have "p < e - 1" "e - 1 < length ks" "ks ! (e - 1) = ks ! p" by blast+
    then show "twin True ks p" unfolding twin_def by auto
  qed
  with lo show ?thesis by (cases from_last) simp_all
qed

lemma mark_run_marks:
  fixes out :: "int list" and order :: "nat list" and vals :: "string_view list" and co :: collator
    and skey :: "byte list \<Rightarrow> byte list" and from_last :: bool and b e :: nat
  assumes "distinct order" "\<forall>i \<in> set order. i < length out" "e \<le> length order"
  defines "out' \<equiv> mark_run from_last (map (computed vals co skey) order) b e out"
  shows "length out' = length out"
    "b \<le> p \<Longrightarrow> p < e \<Longrightarrow> out' ! (order ! p) = (if p = (if from_last then e - 1 else b) then 0 else 1)"
    "(\<forall>p. b \<le> p \<and> p < e \<longrightarrow> order ! p \<noteq> i) \<Longrightarrow> out' ! i = out ! i"
proof -
  have eq: "out' = fold (\<lambda>j out. out[order ! j := (if j = (if from_last then e - 1 else b) then 0 else 1)]) [b..<e] out"
    unfolding out'_def mark_run_def Let_def using assms(3) by (intro fold_cong) auto
  have d: "distinct (map ((!) order) [b..<e])" "\<forall>j \<in> set [b..<e]. order ! j < length out"
    using assms(1-3) by (auto simp: distinct_map inj_on_def nth_eq_iff_index_eq)
  show "length out' = length out" unfolding eq by (rule fold_update(1) [OF d])
  show "b \<le> p \<Longrightarrow> p < e \<Longrightarrow> out' ! (order ! p) = (if p = (if from_last then e - 1 else b) then 0 else 1)"
    unfolding eq using fold_update(2) [OF d] by simp
  show "(\<forall>p. b \<le> p \<and> p < e \<longrightarrow> order ! p \<noteq> i) \<Longrightarrow> out' ! i = out ! i"
    unfolding eq by (rule fold_update(3) [OF d]) auto
qed

lemma runs_loop_marks:
  assumes "collator_ok co skey" "\<forall>i \<in> set order. \<not> is_na (values ! i)"
    and "ks = map (elem_key skey values) order" "sorted ks" "distinct order"
    and "\<forall>i \<in> set order. i < length out" "rb < i" "i \<le> length order"
    and "\<forall>p. rb \<le> p \<and> p < i \<longrightarrow> ks ! p = ks ! rb" "rb = 0 \<or> ks ! (rb - 1) < ks ! rb"
  shows "\<exists>out'. runs_loop values co from_last (map (computed values co skey) order) [i..<length order + 1] rb out = Inr out' \<and>
    length out' = length out \<and> (\<forall>p. rb \<le> p \<and> p < length order \<longrightarrow> out' ! (order ! p) = (if twin from_last ks p then 1 else 0)) \<and>
    (\<forall>j. (\<forall>p. rb \<le> p \<and> p < length order \<longrightarrow> order ! p \<noteq> j) \<longrightarrow> out' ! j = out ! j)"
  using assms(6-)
proof (induction "length order - i" arbitrary: i rb out)
  case 0
  let ?out' = "mark_run from_last (map (computed values co skey) order) rb i out"
  have i: "i = length order" using 0(1,4) by simp
  have "runs_loop values co from_last (map (computed values co skey) order) [i..<length order + 1] rb out = Inr ?out'"
    using i by (simp add: upt_conv_Cons)
  moreover have "twin from_last ks p \<longleftrightarrow> p \<noteq> (if from_last then i - 1 else rb)" if "rb \<le> p" "p < i" for p
    by (rule twin_run [OF assms(4) 0(3) _ 0(5,6) _ that]) (simp_all add: i assms(3))
  ultimately show ?case
    using mark_run_marks [OF assms(5) 0(2,4), where from_last = from_last and vals = "values" and co = co and skey = skey and b = rb] i by auto
next
  case (Suc d)
  have i: "i < length order" using Suc.hyps(2) by simp
  have cmp: "compare_entries values co (computed values co skey (order ! (i - 1))) (computed values co skey (order ! i)) =
      Inr (key_cmp (ks ! (i - 1)) (ks ! i))"
    using i assms(2) Suc.prems(2) by (simp add: compare_entries_computed [OF assms(1)] assms(3))
  have len: "i < length ks" using i assms(3) by simp
  then have le: "ks ! (i - 1) \<le> ks ! i" by (intro sorted_nth_mono [OF assms(4)]) auto
  have "rb \<le> i - 1 \<and> i - 1 < i" using Suc.prems(2) by simp
  then have run: "ks ! (i - 1) = ks ! rb" using Suc.prems(4) by blast
  have d: "d = length order - Suc i" "Suc i \<le> length order" using Suc.hyps(2) by auto
  show ?case
  proof (cases "ks ! (i - 1) = ks ! i")
    case True
    have "\<forall>p. rb \<le> p \<and> p < Suc i \<longrightarrow> ks ! p = ks ! rb" using Suc.prems(4) True run by (metis less_SucE)
    from Suc.hyps(1) [OF d(1) Suc.prems(1) _ d(2) this Suc.prems(5)] Suc.prems(2) show ?thesis
      using i cmp True by (simp add: upt_conv_Cons)
  next
    case False
    let ?out' = "mark_run from_last (map (computed values co skey) order) rb i out"
    note m = mark_run_marks [OF assms(5) Suc.prems(1,3), where from_last = from_last and vals = "values" and co = co and skey = skey and b = rb]
    have lt: "ks ! (i - 1) < ks ! i" using le False by simp
    have tw: "twin from_last ks p \<longleftrightarrow> p \<noteq> (if from_last then i - 1 else rb)" if "rb \<le> p" "p < i" for p
      by (rule twin_run [OF assms(4) Suc.prems(2) _ Suc.prems(4,5) _ that]) (use len lt in auto)
    have "\<forall>j \<in> set order. j < length ?out'" "\<forall>p. i \<le> p \<and> p < Suc i \<longrightarrow> ks ! p = ks ! i" "i = 0 \<or> ks ! (i - 1) < ks ! i"
      using Suc.prems(1) lt m(1) by (auto simp: le_less_Suc_eq)
    from Suc.hyps(1) [OF d(1) this(1) lessI d(2) this(2,3)] obtain out'
      where o: "runs_loop values co from_last (map (computed values co skey) order) [Suc i..<length order + 1] i ?out' = Inr out'"
        "length out' = length out" "\<And>p. i \<le> p \<Longrightarrow> p < length order \<Longrightarrow> out' ! (order ! p) = (if twin from_last ks p then 1 else 0)"
        "\<And>j. (\<forall>p. i \<le> p \<and> p < length order \<longrightarrow> order ! p \<noteq> j) \<Longrightarrow> out' ! j = ?out' ! j"
      using m(1) by auto
    have "out' ! (order ! p) = (if twin from_last ks p then 1 else 0)" if "rb \<le> p" "p < length order" for p
    proof (cases "p < i")
      case True
      then have "out' ! (order ! p) = ?out' ! (order ! p)"
        using i assms(5) by (intro o(4)) (auto simp: nth_eq_iff_index_eq)
      then show ?thesis using m(2) [of p] tw [of p] that True by auto
    qed (use o(3) that in auto)
    moreover have "out' ! j = out ! j" if "\<forall>p. rb \<le> p \<and> p < length order \<longrightarrow> order ! p \<noteq> j" for j
      using o(4) [of j] m(3) [of j] that Suc.prems(2) i by auto
    moreover have "runs_loop values co from_last (map (computed values co skey) order) [i..<length order + 1] rb out = Inr out'"
      using i cmp False o(1) by (simp add: upt_conv_Cons)
    ultimately show ?thesis using o(2) by blast
  qed
qed

subsection \<open>The hash pass\<close>

definition same_class :: "(byte list \<Rightarrow> byte list) \<Rightarrow> string_view list \<Rightarrow> nat \<Rightarrow> nat \<Rightarrow> bool" where
  "same_class skey values i j \<longleftrightarrow>
     is_na (values ! i) = is_na (values ! j) \<and> (is_na (values ! i) \<or> elem_key skey values i = elem_key skey values j)"

definition home :: "string_view list \<Rightarrow> collator \<Rightarrow> (byte list \<Rightarrow> byte list) \<Rightarrow> index_hash_table \<Rightarrow> nat \<Rightarrow> nat" where
  "home values co skey t i = first_slot t (entry_hash values (computed values co skey i) i)"

text \<open>Every stored index is a present element visited before, and no free slot lies between its home
  and its slot; every visited complete element has a stored element with its key.\<close>

definition table_inv :: "string_view list \<Rightarrow> collator \<Rightarrow> (byte list \<Rightarrow> byte list) \<Rightarrow> nat list \<Rightarrow> index_hash_table \<Rightarrow> bool" where
  "table_inv values co skey done t \<longleftrightarrow>
     table_ok t \<and>
     card {s. s < length (tbl_slots t) \<and> \<not> free t s} \<le> length (filter (\<lambda>i. \<not> is_na (values ! i)) done) \<and>
     (\<forall>s < length (tbl_slots t). \<not> free t s \<longrightarrow>
        nat (table_at t s) \<in> set done \<and> \<not> is_na (values ! nat (table_at t s)) \<and>
        (\<exists>k. walk t (home values co skey t (nat (table_at t s))) k = s \<and>
           (\<forall>j < k. \<not> free t (walk t (home values co skey t (nat (table_at t s))) j)))) \<and>
     (\<forall>i \<in> set done. \<not> is_na (values ! i) \<and> cp_complete (computed values co skey i) \<longrightarrow>
        (\<exists>s < length (tbl_slots t). \<not> free t s \<and> elem_key skey values (nat (table_at t s)) = elem_key skey values i))"

lemma computed_same_key:
  assumes "\<not> is_na (values ! i)" "\<not> is_na (values ! j)" "elem_key skey values i = elem_key skey values j"
  shows "cp_prefix (computed values co skey i) = cp_prefix (computed values co skey j)"
    "cp_complete (computed values co skey i) = cp_complete (computed values co skey j)"
  using assms by (simp_all add: computed_def)

lemma same_entry_key:
  assumes "collator_ok co skey" "\<not> is_na (values ! i)" "\<not> is_na (values ! j)"
  shows "same_entry values (computed values co skey i) (computed values co skey j) \<Longrightarrow> elem_key skey values i = elem_key skey values j"
    "cp_complete (computed values co skey j) \<Longrightarrow> elem_key skey values i = elem_key skey values j \<Longrightarrow>
       same_entry values (computed values co skey i) (computed values co skey j)"
proof -
  assume same: "same_entry values (computed values co skey i) (computed values co skey j)"
  show "elem_key skey values i = elem_key skey values j"
  proof (cases "cp_complete (computed values co skey i)")
    case True
    then have "compare_entries values co (computed values co skey i) (computed values co skey j) = Inr 0"
      using same by (simp add: same_entry_def compare_entries_def split: if_splits)
    then show ?thesis by (simp add: compare_entries_computed [OF assms])
  next
    case False
    then show ?thesis using same same_bytes [of "values ! i" "values ! j"] by (auto simp: same_entry_def elem_key_def Let_def split: if_splits)
  qed
next
  assume "cp_complete (computed values co skey j)" "elem_key skey values i = elem_key skey values j"
  then show "same_entry values (computed values co skey i) (computed values co skey j)"
    using computed_same_key [OF assms(2,3)] by (simp add: same_entry_def)
qed

lemma home_store [simp]: "home values co skey (table_store t s x) i = home values co skey t i"
  by (simp add: home_def first_slot_def)

lemma home_same_key:
  assumes "\<not> is_na (values ! i)" "\<not> is_na (values ! j)" "elem_key skey values i = elem_key skey values j" "cp_complete (computed values co skey j)"
  shows "home values co skey t i = home values co skey t j"
  using assms computed_same_key [OF assms(1-3)] by (simp add: home_def entry_hash_def)

lemma free_store: "s0 < length (tbl_slots t) \<Longrightarrow> free (table_store t s0 (int i)) s \<longleftrightarrow> s \<noteq> s0 \<and> free t s"
  by (auto simp: free_def table_at_def table_store_def nth_list_update)

lemma at_store: "s0 < length (tbl_slots t) \<Longrightarrow> table_at (table_store t s0 x) s = (if s = s0 then x else table_at t s)"
  by (auto simp: table_at_def table_store_def nth_list_update)

lemma table_inv_skip:
  assumes "table_inv values co skey done t"
    and "\<not> is_na (values ! i) \<and> cp_complete (computed values co skey i) \<longrightarrow>
      (\<exists>s < length (tbl_slots t). \<not> free t s \<and> elem_key skey values (nat (table_at t s)) = elem_key skey values i)"
  shows "table_inv values co skey (done @ [i]) t"
  using assms by (auto simp: table_inv_def)

lemma table_inv_insert:
  assumes "table_inv values co skey done t" "\<not> is_na (values ! i)"
    and "free t (walk t (home values co skey t i) e)" "\<forall>k < e. \<not> free t (walk t (home values co skey t i) k)"
  shows "table_inv values co skey (done @ [i]) (table_store t (walk t (home values co skey t i) e) (int i))"
proof -
  let ?s = "walk t (home values co skey t i) e" let ?t = "table_store t ?s (int i)"
  have ok: "table_ok t" using assms(1) by (simp add: table_inv_def)
  then have s: "?s < length (tbl_slots t)" by (rule walk_less)
  have fr: "free ?t x \<longleftrightarrow> x \<noteq> ?s \<and> free t x" for x by (rule free_store [OF s])
  have at: "table_at ?t x = (if x = ?s then int i else table_at t x)" for x by (rule at_store [OF s])
  have "{x. x < length (tbl_slots ?t) \<and> \<not> free ?t x} = insert ?s {x. x < length (tbl_slots t) \<and> \<not> free t x}"
    using s fr by auto
  moreover have "?s \<notin> {x. x < length (tbl_slots t) \<and> \<not> free t x}" using assms(3) by simp
  ultimately have "card {x. x < length (tbl_slots ?t) \<and> \<not> free ?t x} \<le> length (filter (\<lambda>i. \<not> is_na (values ! i)) (done @ [i]))"
    using assms(1,2) by (simp add: table_inv_def)
  moreover have "nat (table_at ?t x) \<in> set (done @ [i]) \<and> \<not> is_na (values ! nat (table_at ?t x)) \<and>
        (\<exists>k. walk ?t (home values co skey ?t (nat (table_at ?t x))) k = x \<and>
           (\<forall>j < k. \<not> free ?t (walk ?t (home values co skey ?t (nat (table_at ?t x))) j)))"
    if "x < length (tbl_slots ?t)" "\<not> free ?t x" for x
  proof (cases "x = ?s")
    case True
    then have "nat (table_at ?t x) = i" by (simp add: at)
    then show ?thesis using True assms(2,4) fr by auto
  next
    case False
    then have "\<not> free t x" "x < length (tbl_slots t)" "table_at ?t x = table_at t x" using that fr at by auto
    then show ?thesis using assms(1) fr unfolding table_inv_def by (simp del: walk_less) blast
  qed
  moreover have "\<exists>x < length (tbl_slots ?t). \<not> free ?t x \<and> elem_key skey values (nat (table_at ?t x)) = elem_key skey values j"
    if jd: "j \<in> set (done @ [i])" "\<not> is_na (values ! j) \<and> cp_complete (computed values co skey j)" for j
  proof (cases "j = i")
    case True
    then show ?thesis using s by (intro exI [of _ ?s]) (simp add: fr at)
  next
    case False
    then obtain x where "x < length (tbl_slots t)" "\<not> free t x" "elem_key skey values (nat (table_at t x)) = elem_key skey values j"
      using assms(1) jd by (auto simp: table_inv_def)
    moreover from this have "x \<noteq> ?s" using assms(3) by auto
    ultimately show ?thesis by (intro exI [of _ x]) (simp add: fr at)
  qed
  ultimately show ?thesis using ok by (auto simp: table_inv_def [of _ _ _ _ ?t])
qed

text \<open>The walk for a complete element meets an equal entry whenever there is one.\<close>

lemma table_inv_find:
  assumes "table_inv values co skey done t" "collator_ok co skey" "\<not> is_na (values ! i)" "cp_complete (computed values co skey i)"
    and "j \<in> set done" "same_class skey values j i"
    and "free t (walk t (home values co skey t i) e)"
  shows "\<exists>k < e. \<not> free t (walk t (home values co skey t i) k) \<and>
    same_entry values (computed values co skey (nat (table_at t (walk t (home values co skey t i) k)))) (computed values co skey i)"
proof -
  have j: "\<not> is_na (values ! j)" "elem_key skey values j = elem_key skey values i"
    using assms(3,6) by (auto simp: same_class_def)
  then have "cp_complete (computed values co skey j)" using assms(3,4) computed_same_key(2) by metis
  then obtain s where s: "s < length (tbl_slots t)" "\<not> free t s" "elem_key skey values (nat (table_at t s)) = elem_key skey values i"
    using assms(1,5) j by (auto simp: table_inv_def)
  let ?x = "nat (table_at t s)"
  obtain k where x: "\<not> is_na (values ! ?x)" and k: "walk t (home values co skey t ?x) k = s" "\<forall>j < k. \<not> free t (walk t (home values co skey t ?x) j)"
    using assms(1) s(1,2) unfolding table_inv_def by blast
  have h: "home values co skey t ?x = home values co skey t i" by (rule home_same_key [OF x assms(3) s(3) assms(4)])
  have "k < e" using k s(2) assms(7) unfolding h by (metis linorder_neqE_nat)
  moreover have "same_entry values (computed values co skey ?x) (computed values co skey i)"
    by (rule same_entry_key(2) [OF assms(2) x assms(3,4) s(3)])
  ultimately show ?thesis using k(1) s(2) h by auto
qed

text \<open>The marks of the visited elements: right for missing and complete ones, never wrong when set.\<close>

definition marks_ok :: "string_view list \<Rightarrow> collator \<Rightarrow> (byte list \<Rightarrow> byte list) \<Rightarrow> nat list \<Rightarrow> int list \<Rightarrow> bool" where
  "marks_ok values co skey done out \<longleftrightarrow>
     (\<forall>p < length done. out ! (done ! p) \<in> {0, 1} \<and>
        (out ! (done ! p) = 1 \<longrightarrow> (\<exists>j \<in> set (take p done). same_class skey values j (done ! p))) \<and>
        ((is_na (values ! (done ! p)) \<or> cp_complete (computed values co skey (done ! p))) \<and>
           (\<exists>j \<in> set (take p done). same_class skey values j (done ! p)) \<longrightarrow> out ! (done ! p) = 1))"

lemma marks_ok_step:
  assumes "marks_ok values co skey done out" "distinct (done @ [i])" "i < length out" "m \<in> {0, 1}"
    and "m = 1 \<longrightarrow> (\<exists>j \<in> set done. same_class skey values j i)"
    and "(is_na (values ! i) \<or> cp_complete (computed values co skey i)) \<and> (\<exists>j \<in> set done. same_class skey values j i) \<longrightarrow> m = 1"
  shows "marks_ok values co skey (done @ [i]) (out[i := m])"
  unfolding marks_ok_def
proof (intro allI impI)
  fix p assume p: "p < length (done @ [i])"
  show "out[i := m] ! ((done @ [i]) ! p) \<in> {0, 1} \<and>
        (out[i := m] ! ((done @ [i]) ! p) = 1 \<longrightarrow> (\<exists>j \<in> set (take p (done @ [i])). same_class skey values j ((done @ [i]) ! p))) \<and>
        ((is_na (values ! ((done @ [i]) ! p)) \<or> cp_complete (computed values co skey ((done @ [i]) ! p))) \<and>
           (\<exists>j \<in> set (take p (done @ [i])). same_class skey values j ((done @ [i]) ! p)) \<longrightarrow> out[i := m] ! ((done @ [i]) ! p) = 1)"
  proof (cases "p < length done")
    case True
    then have "done ! p \<noteq> i" using assms(2) by auto
    then show ?thesis using True assms(1) by (simp add: marks_ok_def nth_append)
  next
    case False
    then have "p = length done" using p by simp
    then show ?thesis using assms(3-6) by simp
  qed
qed

definition mark_inv :: "string_view list \<Rightarrow> collator \<Rightarrow> (byte list \<Rightarrow> byte list) \<Rightarrow> nat list \<Rightarrow> mark_state \<Rightarrow> bool" where
  "mark_inv values co skey done st \<longleftrightarrow>
     table_inv values co skey done (mk_table st) \<and> marks_ok values co skey done (mk_out st) \<and>
     (mk_missing_seen st \<longleftrightarrow> (\<exists>i \<in> set done. is_na (values ! i))) \<and> length (mk_out st) = length values \<and>
     2 * length (present values) \<le> length (tbl_slots (mk_table st))"

lemma present_bound:
  assumes "distinct (done @ [i])" "set (done @ [i]) \<subseteq> {..<length values}" "\<not> is_na (values ! i)"
  shows "length (filter (\<lambda>i. \<not> is_na (values ! i)) done) < length (present values)"
proof -
  have "card (set (filter (\<lambda>i. \<not> is_na (values ! i)) (done @ [i]))) \<le> card (set (present values))"
    using assms(2) by (intro card_mono) (auto simp: present_def)
  moreover have "distinct (filter (\<lambda>i. \<not> is_na (values ! i)) (done @ [i]))" "distinct (present values)"
    using assms(1) by (auto simp: present_def)
  ultimately show ?thesis using assms(3) by (simp only: distinct_card) simp
qed

lemma table_has_free:
  assumes "table_inv values co skey done t" "length (filter (\<lambda>i. \<not> is_na (values ! i)) done) < length (tbl_slots t)"
  obtains s where "s < length (tbl_slots t)" "free t s"
proof -
  have "\<exists>s < length (tbl_slots t). free t s"
  proof (rule ccontr)
    assume "\<not> (\<exists>s < length (tbl_slots t). free t s)"
    then have "{s. s < length (tbl_slots t) \<and> \<not> free t s} = {..<length (tbl_slots t)}" by auto
    then show False using assms by (simp add: table_inv_def)
  qed
  then show ?thesis using that by blast
qed

lemma mark_step_present:
  assumes co: "collator_ok co skey" and inv: "mark_inv values co skey done st"
    and d: "distinct (done @ [i])" "set (done @ [i]) \<subseteq> {..<length values}" and pres: "\<not> is_na (values ! i)"
  shows "\<exists>st'. mark_step values (map (computed values co skey) [0..<length values]) i st = Some st' \<and> mark_inv values co skey (done @ [i]) st'"
proof -
  let ?t = "mk_table st" and ?key = "computed values co skey i" and ?keys = "map (computed values co skey) [0..<length values]"
  let ?h = "home values co skey ?t i" and ?same = "\<lambda>held. same_entry values (?keys ! nat held) ?key"
  let ?limit = "if cp_complete ?key then None else Some probe_limit"
  have t: "table_inv values co skey done ?t" and cap: "2 * length (present values) \<le> length (tbl_slots ?t)"
    and marks: "marks_ok values co skey done (mk_out st)" and out: "i < length (mk_out st)"
    using inv d(2) by (auto simp: mark_inv_def)
  have ok: "table_ok ?t" using t by (simp add: table_inv_def)
  have h: "?h < length (tbl_slots ?t)" unfolding home_def by (rule slot_bounds(2) [OF ok])
  have "length (filter (\<lambda>i. \<not> is_na (values ! i)) done) < length (tbl_slots ?t)"
    using present_bound [OF d pres] cap by linarith
  then obtain s where s: "s < length (tbl_slots ?t)" "free ?t s" using table_has_free [OF t] by blast
  obtain e where e: "free ?t (walk ?t ?h e)" "\<forall>k < e. \<not> free ?t (walk ?t ?h k)"
    using first_free [OF ok h s] .
  have h0: "walk ?t ?h 0 = ?h" using h by (simp add: walk_def)
  have stored: "nat (table_at ?t (walk ?t ?h k)) \<in> set done" "\<not> is_na (values ! nat (table_at ?t (walk ?t ?h k)))" if "k < e" for k
    using e(2) that t walk_less [OF ok, of ?h k] by (auto simp: table_inv_def)
  have held: "nat (table_at ?t (walk ?t ?h k)) \<in> set done" "\<not> is_na (values ! nat (table_at ?t (walk ?t ?h k)))"
      "?keys ! nat (table_at ?t (walk ?t ?h k)) = computed values co skey (nat (table_at ?t (walk ?t ?h k)))" if "k < e" for k
    using stored [OF that] d(2) by auto
  have step: "mark_step values ?keys i st = Option.bind (probe ?same ?limit (int i) 0 ?h ?t) (\<lambda>(found, table).
      Some (st\<lparr>mk_table := table, mk_out := (mk_out st)[i := (if found then 1 else 0)]\<rparr>))"
    using pres d(2) by (simp add: mark_step_def home_def Let_def)
  have result: "\<exists>st'. mark_step values ?keys i st = Some st' \<and> mark_inv values co skey (done @ [i]) st'"
    if "probe ?same ?limit (int i) 0 ?h ?t = Some (found, table)" "table_inv values co skey (done @ [i]) table"
      "length (tbl_slots table) = length (tbl_slots ?t)" "found \<Longrightarrow> \<exists>j \<in> set done. same_class skey values j i"
      "cp_complete ?key \<Longrightarrow> \<exists>j \<in> set done. same_class skey values j i \<Longrightarrow> found" for found table
    unfolding step using that inv pres marks_ok_step [OF marks d(1) out, of "if found then 1 else 0"] by (auto simp: mark_inv_def)
  consider k where "k < e" "?same (table_at ?t (walk ?t ?h k))" "probe ?same ?limit (int i) 0 ?h ?t = Some (True, ?t)"
    | "probe ?same ?limit (int i) 0 ?h ?t = Some (False, table_store ?t (walk ?t ?h e) (int i))" "\<forall>j < e. \<not> ?same (table_at ?t (walk ?t ?h j))"
    | "\<not> cp_complete ?key" "probe ?same ?limit (int i) 0 ?h ?t = Some (False, ?t)"
    using probe_outcome [OF ok e, of 0 ?same ?limit "int i" 0] unfolding h0 by (auto split: if_splits)
  then show ?thesis
  proof cases
    case 1
    let ?x = "nat (table_at ?t (walk ?t ?h k))"
    have key: "elem_key skey values ?x = elem_key skey values i"
      using 1(1,2) held [OF 1(1)] same_entry_key(1) [OF co held(2) [OF 1(1)] pres] by simp
    then have "same_class skey values ?x i" using held(2) [OF 1(1)] pres by (simp add: same_class_def)
    moreover have "table_inv values co skey (done @ [i]) ?t"
      using key e(2) 1(1) walk_less [OF ok, of ?h k] by (intro table_inv_skip [OF t]) blast
    ultimately show ?thesis using held(1) [OF 1(1)] by (intro result [OF 1(3)]) auto
  next
    case 2
    show ?thesis
    proof (rule result [OF 2(1) table_inv_insert [OF t pres e]])
      assume "cp_complete ?key" "\<exists>j \<in> set done. same_class skey values j i"
      then obtain k where "k < e" "same_entry values (computed values co skey (nat (table_at ?t (walk ?t ?h k)))) ?key"
        using table_inv_find [OF t co pres _ _ _ e(1)] by blast
      then show False using 2(2) held(3) by metis
    qed simp_all
  next
    case 3
    then show ?thesis using table_inv_skip [OF t, of i] by (intro result [OF 3(2)]) auto
  qed
qed

lemma mark_step_missing:
  assumes "mark_inv values co skey done st" "distinct (done @ [i])" "set (done @ [i]) \<subseteq> {..<length values}" "is_na (values ! i)"
  shows "\<exists>st'. mark_step values keys i st = Some st' \<and> mark_inv values co skey (done @ [i]) st'"
proof -
  have "marks_ok values co skey (done @ [i]) ((mk_out st)[i := (if mk_missing_seen st then 1 else 0)])"
    using assms by (intro marks_ok_step) (auto simp: mark_inv_def same_class_def)
  moreover have "table_inv values co skey (done @ [i]) (mk_table st)"
    using assms by (intro table_inv_skip) (auto simp: mark_inv_def)
  ultimately show ?thesis using assms by (simp add: mark_step_def mark_inv_def)
qed

lemma mark_loop_inv:
  assumes "collator_ok co skey" "mark_inv values co skey done st" "distinct (done @ rest)" "set (done @ rest) \<subseteq> {..<length values}"
  shows "\<exists>st'. mark_loop values (map (computed values co skey) [0..<length values]) rest st = Some st' \<and> mark_inv values co skey (done @ rest) st'"
  using assms(2-)
proof (induction rest arbitrary: "done" st)
  case (Cons i rest)
  have "\<exists>st'. mark_step values (map (computed values co skey) [0..<length values]) i st = Some st' \<and> mark_inv values co skey (done @ [i]) st'"
    using Cons.prems mark_step_present [OF assms(1) Cons.prems(1)] mark_step_missing [OF Cons.prems(1)] by (cases "is_na (values ! i)") auto
  then obtain st' where "mark_step values (map (computed values co skey) [0..<length values]) i st = Some st'" "mark_inv values co skey (done @ [i]) st'"
    by blast
  with Cons.IH [OF this(2)] Cons.prems show ?case by simp
qed simp

subsection \<open>Marks\<close>

definition earlier_twin :: "bool \<Rightarrow> (byte list \<Rightarrow> byte list) \<Rightarrow> string_view list \<Rightarrow> nat \<Rightarrow> bool" where
  "earlier_twin from_last skey values i \<longleftrightarrow>
     (\<exists>j < length values. (if from_last then i < j else j < i) \<and> same_class skey values j i)"

definition traversal :: "bool \<Rightarrow> nat \<Rightarrow> nat list" where
  "traversal from_last n = map (\<lambda>step. if from_last then n - 1 - step else step) [0..<n]"

lemma traversal_props:
  "distinct (traversal from_last n)" "set (traversal from_last n) = {..<n}"
proof -
  show "distinct (traversal from_last n)" by (auto simp: traversal_def distinct_map inj_on_def)
  have "i \<in> set (traversal from_last n)" if "i < n" for i
    using that by (auto simp: traversal_def image_iff intro!: bexI [of _ "if from_last then n - 1 - i else i"])
  then show "set (traversal from_last n) = {..<n}" by (auto simp: traversal_def)
qed

lemma traversal_take:
  assumes "p < n"
  shows "set (take p (traversal from_last n)) = {j. j < n \<and> (if from_last then traversal from_last n ! p < j else j < traversal from_last n ! p)}"
proof (cases from_last)
  case True
  have "j \<in> (\<lambda>step. n - 1 - step) ` {..<p}" if "j < n" "n - Suc p < j" for j
    using that assms by (intro image_eqI [of _ _ "n - 1 - j"]) auto
  then show ?thesis using assms True by (auto simp: traversal_def take_map atLeast0LessThan)
qed (use assms in \<open>auto simp: traversal_def take_map\<close>)

lemma marks_ok_traversal:
  assumes "marks_ok values co skey (traversal from_last (length values)) out" "i < length values"
  shows "out ! i \<in> {0, 1}" "out ! i = 1 \<Longrightarrow> earlier_twin from_last skey values i"
    "is_na (values ! i) \<or> cp_complete (computed values co skey i) \<Longrightarrow> earlier_twin from_last skey values i \<Longrightarrow> out ! i = 1"
proof -
  have "i \<in> set (traversal from_last (length values))" using assms(2) by (simp add: traversal_props)
  moreover have "length (traversal from_last (length values)) = length values" by (simp add: traversal_def)
  ultimately obtain p where p: "p < length values" "traversal from_last (length values) ! p = i"
    by (metis in_set_conv_nth)
  have "earlier_twin from_last skey values i \<longleftrightarrow> (\<exists>j \<in> set (take p (traversal from_last (length values))). same_class skey values j i)"
    unfolding earlier_twin_def traversal_take [OF p(1)] p(2) by auto
  moreover have "length (traversal from_last (length values)) = length values" by (simp add: traversal_def)
  ultimately show "out ! i \<in> {0, 1}" "out ! i = 1 \<Longrightarrow> earlier_twin from_last skey values i"
    "is_na (values ! i) \<or> cp_complete (computed values co skey i) \<Longrightarrow> earlier_twin from_last skey values i \<Longrightarrow> out ! i = 1"
    using assms(1) p unfolding marks_ok_def by auto
qed

lemma same_class_equiv:
  "same_class skey values i i" "same_class skey values i j \<Longrightarrow> same_class skey values j i"
  "same_class skey values i j \<Longrightarrow> same_class skey values j k \<Longrightarrow> same_class skey values i k"
  by (auto simp: same_class_def)

lemma first_of_class:
  assumes "earlier_twin from_last skey values i" "i < length values"
  obtains j where "j < length values" "same_class skey values j i" "\<not> earlier_twin from_last skey values j" "if from_last then i < j else j < i"
proof -
  define A where "A = {j. j < length values \<and> same_class skey values j i}"
  let ?j = "if from_last then Max A else Min A"
  obtain j where j: "j \<in> A" "if from_last then i < j else j < i" using assms(1) by (auto simp: earlier_twin_def A_def)
  have A: "finite A" "A \<noteq> {}" using j(1) by (auto simp: A_def)
  have m: "?j \<in> A" "\<And>k. k \<in> A \<Longrightarrow> if from_last then k \<le> ?j else ?j \<le> k"
    using Max_in [OF A] Min_in [OF A] Max_ge [OF A(1)] Min_le [OF A(1)] by auto
  have "\<not> earlier_twin from_last skey values ?j"
  proof
    assume "earlier_twin from_last skey values ?j"
    then obtain k where "k < length values" "if from_last then ?j < k else k < ?j" "same_class skey values k ?j"
      unfolding earlier_twin_def by blast
    moreover from this have "k \<in> A" using m(1) same_class_equiv(3) unfolding A_def by blast
    ultimately show False using m(2) [of k] by (auto split: if_splits)
  qed
  moreover have "if from_last then i < ?j else ?j < i" using m(2) [OF j(1)] j(2) by (auto split: if_splits)
  ultimately show ?thesis using that m(1) unfolding A_def by blast
qed

text \<open>In the sorted rest, an element has an equal one before it exactly when the whole vector has.\<close>

lemma twin_earlier_twin:
  assumes marks: "marks_ok values co skey (traversal from_last (length values)) out"
    and order: "set order = {i. i < length values \<and> \<not> is_na (values ! i) \<and> \<not> cp_complete (computed values co skey i) \<and> out ! i = 0}"
    and sorted: "sorted_wrt (before skey values False) order" and p: "p < length order"
  shows "twin from_last (map (elem_key skey values) order) p \<longleftrightarrow> earlier_twin from_last skey values (order ! p)"
proof
  let ?i = "order ! p"
  have i: "?i < length values" "\<not> is_na (values ! ?i)" "\<not> cp_complete (computed values co skey ?i)"
    using nth_mem [OF p] order by auto
  have pos: "order ! a < order ! b" if "a < b" "b < length order" "elem_key skey values (order ! a) = elem_key skey values (order ! b)" for a b
    using sorted_wrt_nth_less [OF sorted that(1,2)] that(3) by (simp add: before_def)
  {
    assume "twin from_last (map (elem_key skey values) order) p"
    then obtain q where q: "q < length order" "if from_last then p < q else q < p" "elem_key skey values (order ! q) = elem_key skey values ?i"
      using p by (auto simp: twin_def)
    then have "if from_last then ?i < order ! q else order ! q < ?i" using pos p by (auto split: if_splits)
    moreover have "order ! q < length values" "\<not> is_na (values ! (order ! q))" using nth_mem [OF q(1)] order by auto
    ultimately show "earlier_twin from_last skey values ?i" using i q(3) by (auto simp: earlier_twin_def same_class_def)
  next
    assume "earlier_twin from_last skey values ?i"
    then obtain j where j: "j < length values" "same_class skey values j ?i" "\<not> earlier_twin from_last skey values j" "if from_last then ?i < j else j < ?i"
      using first_of_class i(1) by blast
    have key: "\<not> is_na (values ! j)" "elem_key skey values j = elem_key skey values ?i" using j(2) i(2) by (auto simp: same_class_def)
    moreover have "\<not> cp_complete (computed values co skey j)" using key i(2,3) computed_same_key(2) by metis
    moreover have "out ! j = 0" using marks_ok_traversal(1,2) [OF marks j(1)] j(3) by auto
    ultimately have "j \<in> set order" using j(1) order by simp
    then obtain q where q: "q < length order" "order ! q = j" by (auto simp: in_set_conv_nth)
    have "if from_last then p < q else q < p"
    proof -
      have "p \<noteq> q" using j(4) q(2) by (auto split: if_splits)
      moreover have "j < ?i" if "q < p" using pos [OF that p] q(2) key(2) by simp
      moreover have "?i < j" if "p < q" using pos [OF that q(1)] q(2) key(2) by simp
      ultimately show ?thesis using j(4) by (cases from_last; cases p q rule: linorder_cases) (simp_all add: not_less_iff_gr_or_eq)
    qed
    then show "twin from_last (map (elem_key skey values) order) p" using q p key(2) by (auto simp: twin_def)
  }
qed

lemma sorted_elem_keys: "sorted_wrt (before skey values False) order \<Longrightarrow> sorted (map (elem_key skey values) order)"
  unfolding sorted_map by (rule sorted_wrt_mono_rel [of order "before skey values False"]) (auto simp: before_def)

lemma runs_after_sort:
  assumes "collator_ok co skey" "marks_ok values co skey (traversal from_last (length values)) out" "length out = length values"
    and order: "set order = {i. i < length values \<and> \<not> is_na (values ! i) \<and> \<not> cp_complete (computed values co skey i) \<and> out ! i = 0}"
    and sorted: "sorted_wrt (before skey values False) order" "distinct order"
  shows "\<exists>out'. runs_loop values co from_last (map (computed values co skey) order) [1..<length order + 1] 0 out = Inr out' \<and>
    length out' = length values \<and> (\<forall>i < length values. out' ! i = (if earlier_twin from_last skey values i then 1 else 0))"
proof -
  let ?ks = "map (elem_key skey values) order"
  have "\<exists>out'. runs_loop values co from_last (map (computed values co skey) order) [1..<length order + 1] 0 out = Inr out' \<and>
    length out' = length out \<and> (\<forall>p. 0 \<le> p \<and> p < length order \<longrightarrow> out' ! (order ! p) = (if twin from_last ?ks p then 1 else 0)) \<and>
    (\<forall>j. (\<forall>p. 0 \<le> p \<and> p < length order \<longrightarrow> order ! p \<noteq> j) \<longrightarrow> out' ! j = out ! j)"
  proof (cases "order = []")
    case False
    show ?thesis
      by (rule runs_loop_marks [OF assms(1) _ refl sorted_elem_keys [OF sorted(1)] sorted(2)])
        (use False order assms(3) in \<open>auto simp: Suc_le_eq\<close>)
  qed simp
  then obtain out' where o: "runs_loop values co from_last (map (computed values co skey) order) [1..<length order + 1] 0 out = Inr out'"
    "length out' = length values" "\<And>p. p < length order \<Longrightarrow> out' ! (order ! p) = (if twin from_last ?ks p then 1 else 0)"
    "\<And>j. j \<notin> set order \<Longrightarrow> out' ! j = out ! j"
    using assms(3) by (auto simp: in_set_conv_nth)
  have "out' ! i = (if earlier_twin from_last skey values i then 1 else 0)" if i: "i < length values" for i
  proof (cases "i \<in> set order")
    case True
    then obtain p where "p < length order" "order ! p = i" by (auto simp: in_set_conv_nth)
    then show ?thesis using o(3) twin_earlier_twin [OF assms(2) order sorted(1)] by auto
  next
    case False
    then have "is_na (values ! i) \<or> cp_complete (computed values co skey i) \<or> out ! i \<noteq> 0" using order i by auto
    then show ?thesis using marks_ok_traversal [OF assms(2) i] o(4) [OF False] by auto
  qed
  then show ?thesis using o(1,2) by blast
qed

lemma mark_start:
  assumes "table_reset mx (length (present values)) = Inr t" "length out = length values"
  shows "mark_inv values co skey [] \<lparr>mk_table = t, mk_out = out, mk_missing_seen = False\<rparr>"
proof -
  have "free t s" if "s < length (tbl_slots t)" for s
    using table_reset_ok(3) [OF assms(1)] that by (metis free_def nth_replicate table_at_def zero_less_one neg_less_0_iff_less)
  then have "{s. s < length (tbl_slots t) \<and> \<not> free t s} = {}" by auto
  then show ?thesis
    using table_reset_ok(1,2) [OF assms(1)] assms(2) by (auto simp: mark_inv_def table_inv_def marks_ok_def)
qed

lemma mark_duplicates_computed:
  assumes co: "collator_ok co skey" and len: "length out = length values" and mx: "4 * length values \<le> max_size"
  shows "\<exists>out'. mark_collation_duplicates max_size values (length values) from_last co (map (computed values co skey) [0..<length values]) out = Some (Inr (Inr out')) \<and>
    length out' = length values \<and> (\<forall>i < length values. out' ! i = (if earlier_twin from_last skey values i then 1 else 0))"
proof -
  let ?keys = "map (computed values co skey) [0..<length values]" and ?tr = "traversal from_last (length values)"
  have "4 * length (present values) \<le> max_size"
    using mx length_filter_le [of "\<lambda>i. \<not> is_na (values ! i)" "[0..<length values]"] by (simp add: present_def)
  then obtain t where t: "table_reset max_size (length (present values)) = Inr t"
    using grow_capacity_total [of "length (present values)" max_size 0] by (auto simp: table_reset_def)
  obtain st where st: "mark_loop values ?keys ?tr \<lparr>mk_table = t, mk_out = out, mk_missing_seen = False\<rparr> = Some st" "mark_inv values co skey ?tr st"
    using mark_loop_inv [OF co mark_start [OF t len], of ?tr] by (auto simp: traversal_props)
  define sel where "sel = (\<lambda>i. \<not> is_na (values ! i) \<and> \<not> cp_complete (?keys ! i) \<and> mk_out st ! i = 0)"
  have keys: "compact sel (length values) ?keys = map (computed values co skey) (filter sel [0..<length values])"
    by (simp add: compact_filter map_computed_present)
  obtain order where order: "stable_sort (entry_less values co False) (compact sel (length values) ?keys) = Inr (map (computed values co skey) order)"
    "mset order = mset (filter sel [0..<length values])" "sorted_wrt (before skey values False) order"
  proof -
    have "distinct (filter sel [0..<length values])" "\<forall>i \<in> set (filter sel [0..<length values]). \<not> is_na (values ! i)"
      by (simp_all add: sel_def)
    from sort_computed [OF co this, of False] show ?thesis using that unfolding keys by blast
  qed
  have dist: "distinct order" using order(2) by (metis distinct_filter distinct_upt mset_eq_imp_distinct_iff)
  have sel: "sel i \<longleftrightarrow> \<not> is_na (values ! i) \<and> \<not> cp_complete (computed values co skey i) \<and> mk_out st ! i = 0" if "i < length values" for i
    using that by (simp add: sel_def)
  have "set order = set (filter sel [0..<length values])" using order(2) by (metis set_mset_mset)
  also have "\<dots> = {i. i < length values \<and> \<not> is_na (values ! i) \<and> \<not> cp_complete (computed values co skey i) \<and> mk_out st ! i = 0}"
    using sel by (auto simp del: upt_Suc)
  finally have "set order = {i. i < length values \<and> \<not> is_na (values ! i) \<and> \<not> cp_complete (computed values co skey i) \<and> mk_out st ! i = 0}" .
  then obtain out' where "runs_loop values co from_last (map (computed values co skey) order) [1..<length order + 1] 0 (mk_out st) = Inr out'"
    "length out' = length values" "\<forall>i < length values. out' ! i = (if earlier_twin from_last skey values i then 1 else 0)"
    using runs_after_sort [OF co _ _ _ order(3) dist, of from_last "mk_out st"] st(2) unfolding mark_inv_def by blast
  then show ?thesis
    using t st(1) order(1) unfolding sel_def traversal_def present_def
    by (intro exI [of _ out']) (simp add: mark_collation_duplicates_def Let_def del: upt_Suc)
qed

subsection \<open>Properties\<close>

text \<open>A collator that orders by the nonzero bytes, and a vector for it.\<close>

definition demo_key :: "byte list \<Rightarrow> byte list" where
  "demo_key s = filter (\<lambda>b. b \<noteq> 0) s"

definition demo_collator :: collator where
  "demo_collator = \<lparr>co_case_level_on = Inr False, co_sort_key_part = (\<lambda>s. Inr (take prefix_bytes (demo_key s))),
     co_strcoll = (\<lambda>a b. Inr (key_cmp (demo_key a) (demo_key b)))\<rparr>"

definition demo_values :: "string_view list" where
  "demo_values = [view_of 1 Enc_utf8 [98], missing_view, view_of 2 Enc_utf8 [97, 97, 97, 97, 97, 97, 97, 97, 98],
     view_of 3 Enc_utf8 [97, 97, 97, 97, 97, 97, 97, 97, 98], view_of 4 Enc_utf8 [98], missing_view]"

lemma demo_collator_ok: "collator_ok demo_collator demo_key"
  by (auto simp: collator_ok_def demo_collator_def demo_key_def)

lemma demo_values_simps:
  "length demo_values = 6" "\<not> is_na (demo_values ! 0)" "\<not> is_na (demo_values ! 2)"
  by (simp_all add: demo_values_def)

text \<open>Two elements whose entries were computed compare as their sort keys do: deciding by the packed eight-byte
  prefixes, by the completeness flags and by the bytes agrees with the collation.\<close>
lemma compare_entries_is_collation:
  assumes "collator_ok co skey" "length keys = length values" "i < length values" "j < length values"
    and "\<not> is_na (values ! i)" "\<not> is_na (values ! j)"
  shows "bindE (compute_collation_prefixes values 0 (length values) co keys) (\<lambda>ks. compare_entries values co (ks ! i) (ks ! j)) =
    co_strcoll co (sv_bytes (values ! i)) (sv_bytes (values ! j))"
  using assms by (simp add: compute_collation_prefixes_computed compare_entries_computed) (simp add: collator_ok_def elem_key_def)

text \<open>C10. The order built from the computed entries is the permutation of the present elements sorted by collation
  in the requested direction with ties by source index; the missing elements are listed in ascending order.\<close>
theorem build_collation_order_sorts:
  assumes "collator_ok co skey" "length keys = length values"
  shows "\<exists>ks order. bindE (compute_collation_prefixes values 0 (length values) co keys) (build_collation_order values (length values) decreasing co) =
      Inr (ks, order, missing_indices values) \<and>
    mset order = mset (present values) \<and> sorted_wrt (before skey values decreasing) order"
  unfolding compute_all [OF assms] bindE_simps using build_order_computed [OF assms(1), of "values" decreasing] by blast

theorem build_collation_order_sorts_witness:
  "\<exists>ks order. bindE (compute_collation_prefixes demo_values 0 (length demo_values) demo_collator (replicate 6 \<lparr>cp_prefix = 0, cp_index = 0, cp_complete = False\<rparr>))
      (build_collation_order demo_values (length demo_values) True demo_collator) = Inr (ks, order, missing_indices demo_values) \<and>
    mset order = mset (present demo_values) \<and> sorted_wrt (before demo_key demo_values True) order"
  by (rule build_collation_order_sorts [OF demo_collator_ok]) (simp add: demo_values_simps)

text \<open>The minimum rank of a present element is one more than the number of present elements that collate before
  it; the slots of missing elements are not written.\<close>
lemma collation_ranks_are_minimum:
  assumes "collator_ok co skey" "length keys = length values" "length out = length values"
  shows "\<exists>out'. bindE (compute_collation_prefixes values 0 (length values) co keys) (\<lambda>keys.
      bindE (build_collation_order values (length values) False co keys) (\<lambda>(ks, order, missing).
        assign_min_collation_ranks values co ks (length ks) out)) = Inr out' \<and>
    length out' = length values \<and>
    (\<forall>i < length values. out' ! i = (if is_na (values ! i) then out ! i
       else 1 + int (length (filter (\<lambda>j. elem_key skey values j < elem_key skey values i) (present values)))))"
proof -
  obtain order where b: "build_collation_order values (length values) False co (map (computed values co skey) [0..<length values]) =
      Inr (map (computed values co skey) order, order, missing_indices values)"
    "mset order = mset (present values)" "sorted_wrt (before skey values False) order"
    using build_order_computed [OF assms(1)] by blast
  have set: "set order = set (present values)" using b(2) by (metis set_mset_mset)
  have dist: "distinct order" using b(2) by (metis distinct_filter distinct_upt mset_eq_imp_distinct_iff present_def)
  let ?ks = "map (elem_key skey values) order"
  have "\<exists>out'. ranks_loop values co (map (computed values co skey) order) [0..<length order] 1 out = Inr out' \<and>
    length out' = length out \<and> (\<forall>p. 0 \<le> p \<and> p < length order \<longrightarrow> out' ! (order ! p) = 1 + int (length (filter (\<lambda>k. k < ?ks ! p) ?ks))) \<and>
    (\<forall>i. (\<forall>p. 0 \<le> p \<and> p < length order \<longrightarrow> order ! p \<noteq> i) \<longrightarrow> out' ! i = out ! i)"
    by (rule ranks_loop_ranks [OF assms(1) _ refl sorted_elem_keys [OF b(3)] dist]) (auto simp: set present_def assms(3))
  then obtain out' where o: "ranks_loop values co (map (computed values co skey) order) [0..<length order] 1 out = Inr out'"
    "length out' = length out" "\<And>p. p < length order \<Longrightarrow> out' ! (order ! p) = 1 + int (length (filter (\<lambda>k. k < ?ks ! p) ?ks))"
    "\<And>i. i \<notin> set order \<Longrightarrow> out' ! i = out ! i"
    by (auto simp: in_set_conv_nth)
  have "out' ! i = 1 + int (length (filter (\<lambda>j. elem_key skey values j < elem_key skey values i) (present values)))" if "i \<in> set order" for i
  proof -
    obtain p where "p < length order" "order ! p = i" using \<open>i \<in> set order\<close> by (auto simp: in_set_conv_nth)
    moreover have "length (filter (\<lambda>j. elem_key skey values j < elem_key skey values i) order) = length (filter (\<lambda>j. elem_key skey values j < elem_key skey values i) (present values))"
      using b(2) by (metis mset_filter size_mset)
    ultimately show ?thesis using o(3) [of p] by (simp add: filter_map comp_def)
  qed
  then show ?thesis
    using assms o(1,2,4) b(1) set
    by (intro exI [of _ out']) (auto simp: compute_all assign_min_collation_ranks_def present_def)
qed

text \<open>C2. An element is marked as a duplicate exactly when an element visited before it in the requested direction is
  missing too or collates equal, although the first pass samples bytes, gives up after eight mismatches and leaves the
  rest to a sort. Every probe ends and the table has room.\<close>
theorem collation_duplicates_exact:
  assumes "collator_ok co skey" "length keys = length values" "length out = length values" "4 * length values \<le> max_size"
  shows "\<exists>ks out'. compute_collation_prefixes values 0 (length values) co keys = Inr ks \<and>
    mark_collation_duplicates max_size values (length values) from_last co ks out = Some (Inr (Inr out')) \<and>
    length out' = length values \<and> (\<forall>i < length values. out' ! i = (if earlier_twin from_last skey values i then 1 else 0))"
  unfolding compute_all [OF assms(1,2)] using mark_duplicates_computed [OF assms(1,3,4), of from_last] by blast

theorem collation_duplicates_exact_witness:
  "\<exists>ks out'. compute_collation_prefixes demo_values 0 6 demo_collator (replicate 6 \<lparr>cp_prefix = 0, cp_index = 0, cp_complete = False\<rparr>) = Inr ks \<and>
    mark_collation_duplicates 64 demo_values 6 False demo_collator ks (replicate 6 0) = Some (Inr (Inr out')) \<and>
    out' ! 0 = 0 \<and> out' ! 1 = 0 \<and> out' ! 5 = 1"
proof -
  have "\<not> earlier_twin False demo_key demo_values 0" by (simp add: earlier_twin_def)
  moreover have "\<not> earlier_twin False demo_key demo_values 1" by (auto simp: earlier_twin_def same_class_def demo_values_def missing_view_def less_Suc_eq numeral_eq_Suc)
  moreover have "earlier_twin False demo_key demo_values 5" by (auto simp: earlier_twin_def same_class_def demo_values_def missing_view_def intro!: exI [of _ 1])
  ultimately show ?thesis
    using collation_duplicates_exact [OF demo_collator_ok, of "replicate 6 \<lparr>cp_prefix = 0, cp_index = 0, cp_complete = False\<rparr>" demo_values "replicate 6 0" 64 False]
    by (simp add: demo_values_simps) force
qed

end
