(* ===== verification/Boundary.thy ===== *)
theory Boundary
  imports Utf8_View
begin

text \<open>
  The owner of a break iterator of \<^verbatim>\<open>src/shared/boundary_iterator.h\<close> and
  \<^verbatim>\<open>boundary_iterator.cpp\<close>. ICU is a parameter: how iterators and texts are opened, and the
  boundaries of a text with their rule status, which an opened iterator walks with a
  cursor. The lemmas show that walking forwards with \<open>next\<close> yields the segments whose end has
  no skipped status, and walking backwards from the end yields the same ones reversed.
\<close>

definition UBRK_DONE :: int where "UBRK_DONE = - 1"

definition U_FAILURE :: "int \<Rightarrow> bool" where "U_FAILURE status \<longleftrightarrow> status > 0"

definition U_ILLEGAL_ARGUMENT_ERROR :: int where "U_ILLEGAL_ARGUMENT_ERROR = 1"

definition U_MEMORY_ALLOCATION_ERROR :: int where "U_MEMORY_ALLOCATION_ERROR = 7"

definition U_USING_DEFAULT_WARNING :: int where "U_USING_DEFAULT_WARNING = - 127"

definition UBRK_WORD :: int where "UBRK_WORD = 1"

text \<open>The boundaries of a text, ascending from its start, each with its rule status.\<close>

type_synonym break_rules = "byte list \<Rightarrow> (int \<times> int) list"

record ubrk =
  ub_rules :: break_rules
  ub_marks :: "(int \<times> int) list"
  ub_at :: nat

definition ubrk_first :: "ubrk \<Rightarrow> int \<times> ubrk" where
  "ubrk_first u = (fst (ub_marks u ! 0), u\<lparr>ub_at := 0\<rparr>)"

definition ubrk_last :: "ubrk \<Rightarrow> int \<times> ubrk" where
  "ubrk_last u = (fst (last (ub_marks u)), u\<lparr>ub_at := length (ub_marks u) - 1\<rparr>)"

definition ubrk_next :: "ubrk \<Rightarrow> int \<times> ubrk" where
  "ubrk_next u = (if ub_at u + 1 < length (ub_marks u) then (fst (ub_marks u ! (ub_at u + 1)), u\<lparr>ub_at := ub_at u + 1\<rparr>) else (UBRK_DONE, u))"

definition ubrk_previous :: "ubrk \<Rightarrow> int \<times> ubrk" where
  "ubrk_previous u = (if ub_at u > 0 then (fst (ub_marks u ! (ub_at u - 1)), u\<lparr>ub_at := ub_at u - 1\<rparr>) else (UBRK_DONE, u))"

definition ubrk_getRuleStatus :: "ubrk \<Rightarrow> int" where
  "ubrk_getRuleStatus u = snd (ub_marks u ! ub_at u)"

text \<open>What is used of ICU to open iterators and texts; a null handle is \<open>None\<close> or \<open>False\<close>.\<close>

record icu_brk =
  ib_rules_bogus :: "byte list \<Rightarrow> bool"
  ib_open_rules :: "byte list \<Rightarrow> int \<times> break_rules option"
  ib_open :: "int \<Rightarrow> string option \<Rightarrow> int \<times> break_rules option"
  ib_valid_locale :: "break_rules \<Rightarrow> string option"
  ib_open_text :: "byte list \<Rightarrow> int \<times> bool"
  ib_set_text :: "byte list \<Rightarrow> int"
  ib_default_locale :: "string option"

record boundary_options =
  bo_locale :: "string option"
  bo_rules :: "byte list option"
  bo_rules_length :: int
  bo_type :: int
  bo_skip_rules :: "int list option"
  bo_skip_size :: nat
  bo_custom_rules :: bool

record boundary_iterator =
  bi_iterator :: "ubrk option"
  bi_skip_rules :: "int list option"
  bi_skip_size :: nat
  bi_position :: int

definition BoundaryIterator :: boundary_iterator where
  "BoundaryIterator = \<lparr>bi_iterator = None, bi_skip_rules = None, bi_skip_size = 0, bi_position = UBRK_DONE\<rparr>"

definition bi_close :: "boundary_iterator \<Rightarrow> boundary_iterator" where
  "bi_close it = it\<lparr>bi_iterator := None, bi_skip_rules := None, bi_skip_size := 0, bi_position := UBRK_DONE\<rparr>"

definition bi_reset :: "icu_brk \<Rightarrow> boundary_options \<Rightarrow> boundary_iterator \<Rightarrow> boundary_iterator \<times> int \<times> bool" where
  "bi_reset icu options it =
     (let it = bi_close it in
      if bo_skip_size options mod 2 \<noteq> 0 \<or> bo_skip_size options > 0 \<and> bo_skip_rules options = None \<or>
         bo_custom_rules options \<and> (bo_rules options = None \<or> bo_rules_length options \<le> 0)
      then (it, U_ILLEGAL_ARGUMENT_ERROR, False)
      else
        let rules = take (nat (bo_rules_length options)) (the (bo_rules options)) in
        if bo_custom_rules options \<and> ib_rules_bogus icu rules then (it, U_MEMORY_ALLOCATION_ERROR, False)
        else
          let (status, opened) = (if bo_custom_rules options then ib_open_rules icu rules else ib_open icu (bo_type options) (bo_locale options)) in
          case opened of
            None \<Rightarrow> (it, if U_FAILURE status then status else U_MEMORY_ALLOCATION_ERROR, False)
          | Some brk \<Rightarrow>
              if U_FAILURE status then (it, status, False)
              else
                let root_fallback = status = U_USING_DEFAULT_WARNING \<and> bo_locale options \<noteq> None \<and> ib_valid_locale icu brk = Some ''root''
                in (it\<lparr>bi_iterator := Some \<lparr>ub_rules = brk, ub_marks = brk [], ub_at = 0\<rparr>,
                      bi_skip_rules := bo_skip_rules options, bi_skip_size := bo_skip_size options\<rparr>, status, root_fallback))"

definition bi_set_text :: "icu_brk \<Rightarrow> string_view \<Rightarrow> boundary_iterator \<Rightarrow> boundary_iterator \<times> int" where
  "bi_set_text icu source it =
     (case bi_iterator it of
        None \<Rightarrow> (it, U_ILLEGAL_ARGUMENT_ERROR)
      | Some u \<Rightarrow>
          if is_na source \<or> sv_len source < 0 \<or> sv_ptr source = NullPtr \<and> sv_len source \<noteq> 0 \<or>
             sv_enc source \<notin> {Enc_ascii, Enc_utf8, Enc_ascii_or_utf8}
          then (it, U_ILLEGAL_ARGUMENT_ERROR)
          else
            let data = sv_bytes source; (status, opened) = ib_open_text icu data in
            if U_FAILURE status \<or> \<not> opened then (it, if U_FAILURE status then status else U_MEMORY_ALLOCATION_ERROR)
            else
              let status = ib_set_text icu data in
              if U_FAILURE status then (it\<lparr>bi_position := UBRK_DONE\<rparr>, status)
              else (it\<lparr>bi_iterator := Some (u\<lparr>ub_marks := ub_rules u data, ub_at := 0\<rparr>), bi_position := 0\<rparr>, status))"

definition bi_first :: "boundary_iterator \<Rightarrow> boundary_iterator" where
  "bi_first it =
     (case bi_iterator it of
        None \<Rightarrow> it\<lparr>bi_position := UBRK_DONE\<rparr>
      | Some u \<Rightarrow> let (p, u) = ubrk_first u in it\<lparr>bi_iterator := Some u, bi_position := p\<rparr>)"

definition bi_last :: "boundary_iterator \<Rightarrow> boundary_iterator" where
  "bi_last it =
     (case bi_iterator it of
        None \<Rightarrow> it\<lparr>bi_position := UBRK_DONE\<rparr>
      | Some u \<Rightarrow> let u = snd (ubrk_first u); (p, u) = ubrk_last u in it\<lparr>bi_iterator := Some u, bi_position := p\<rparr>)"

fun skip_pairs :: "int \<Rightarrow> int list \<Rightarrow> bool" where
  "skip_pairs rule (a # b # rules) = (if rule \<ge> a \<and> rule < b then True else skip_pairs rule rules)"
| "skip_pairs rule rules = False"

definition bi_skip :: "boundary_iterator \<Rightarrow> ubrk \<Rightarrow> bool" where
  "bi_skip it u =
     (if bi_skip_size it = 0 then False
      else skip_pairs (ubrk_getRuleStatus u) (take (bi_skip_size it) (the (bi_skip_rules it))))"

function next_loop :: "boundary_iterator \<Rightarrow> ubrk \<Rightarrow> int \<Rightarrow> (int \<times> int) option \<times> boundary_iterator" where
  "next_loop it u start =
     (let (e, u') = ubrk_next u in
      if e = UBRK_DONE then (None, it\<lparr>bi_iterator := Some u', bi_position := UBRK_DONE\<rparr>)
      else if \<not> bi_skip it u' then (Some (start, e), it\<lparr>bi_iterator := Some u', bi_position := e\<rparr>)
      else next_loop it u' e)"
  by pat_completeness auto
termination
  by (relation "measure (\<lambda>(it, u, start). length (ub_marks u) - ub_at u)") (auto simp: ubrk_next_def split: if_splits)

declare next_loop.simps [simp del]

definition bi_next :: "boundary_iterator \<Rightarrow> (int \<times> int) option \<times> boundary_iterator" where
  "bi_next it =
     (case bi_iterator it of
        None \<Rightarrow> (None, it)
      | Some u \<Rightarrow> if bi_position it = UBRK_DONE then (None, it) else next_loop it u (bi_position it))"

function previous_loop :: "boundary_iterator \<Rightarrow> ubrk \<Rightarrow> int \<Rightarrow> (int \<times> int) option \<times> boundary_iterator" where
  "previous_loop it u position =
     (let (p, u') = ubrk_previous u in
      if \<not> bi_skip it u then
        if p = UBRK_DONE then (None, it\<lparr>bi_iterator := Some u', bi_position := UBRK_DONE\<rparr>)
        else (Some (p, position), it\<lparr>bi_iterator := Some u', bi_position := p\<rparr>)
      else if p \<noteq> UBRK_DONE then previous_loop it u' p
      else (None, it\<lparr>bi_iterator := Some u', bi_position := UBRK_DONE\<rparr>))"
  by pat_completeness auto
termination
  by (relation "measure (\<lambda>(it, u, position). ub_at u)") (auto simp: ubrk_previous_def split: if_splits)

declare previous_loop.simps [simp del]

definition bi_previous :: "boundary_iterator \<Rightarrow> (int \<times> int) option \<times> boundary_iterator" where
  "bi_previous it =
     (case bi_iterator it of
        None \<Rightarrow> (None, it)
      | Some u \<Rightarrow> if bi_position it = UBRK_DONE then (None, it) else previous_loop it u (bi_position it))"

definition rest_marks :: "boundary_iterator \<Rightarrow> nat" where
  "rest_marks it = (case bi_iterator it of None \<Rightarrow> 0 | Some u \<Rightarrow> length (ub_marks u) - ub_at u)"

lemma next_loop_progress: "next_loop it u start = (Some r, it') \<Longrightarrow> rest_marks it' < length (ub_marks u) - ub_at u"
proof (induction it u start rule: next_loop.induct)
  case (1 it u start)
  show ?case
  proof (cases "ub_at u + 1 < length (ub_marks u)")
    case True
    have "length (ub_marks u) - Suc (ub_at u) < length (ub_marks u) - ub_at u" using True by simp
    then show ?thesis using 1 True
      by (auto simp: next_loop.simps [of it u] ubrk_next_def rest_marks_def Let_def split: if_splits intro: order_less_trans)
  next
    case False
    then show ?thesis using 1(2) by (simp add: next_loop.simps [of it u] ubrk_next_def)
  qed
qed

lemma bi_next_progress: "bi_next it = (Some r, it') \<Longrightarrow> rest_marks it' < rest_marks it"
  by (auto simp: bi_next_def rest_marks_def [of it] split: option.splits if_splits dest: next_loop_progress)

text \<open>The loop \<open>while (next(range))\<close> of the callers, with the ranges it sees.\<close>

function drain_next :: "boundary_iterator \<Rightarrow> (int \<times> int) list \<times> boundary_iterator" where
  "drain_next it =
     (case bi_next it of
        (None, it) \<Rightarrow> ([], it)
      | (Some r, it) \<Rightarrow> let (rs, it) = drain_next it in (r # rs, it))"
  by pat_completeness auto
termination by (relation "measure rest_marks") (auto intro: bi_next_progress [OF sym])

declare drain_next.simps [simp del]

definition bi_count :: "icu_brk \<Rightarrow> string_view \<Rightarrow> boundary_iterator \<Rightarrow> int \<times> int \<times> boundary_iterator" where
  "bi_count icu source it =
     (let (it, status) = bi_set_text icu source it in
      if U_FAILURE status then (0, status, it)
      else let (rs, it) = drain_next (bi_first it) in (int (length rs), status, it))"

subsection \<open>The ASCII shortcuts\<close>

text \<open>A C string is read up to its terminating zero.\<close>

definition cchar :: "string \<Rightarrow> nat \<Rightarrow> char" where
  "cchar s i = (if i < length s then s ! i else CHR 0x00)"

definition boundary_ascii_word_first :: "icu_brk \<Rightarrow> boundary_options \<Rightarrow> bool" where
  "boundary_ascii_word_first icu options =
     (if bo_custom_rules options \<or> bo_type options \<noteq> UBRK_WORD \<or> bo_skip_size options \<noteq> 0 then False
      else
        case (case bo_locale options of None \<Rightarrow> ib_default_locale icu | Some l \<Rightarrow> Some l) of
          None \<Rightarrow> False
        | Some locl \<Rightarrow>
            if (cchar locl 0 = CHR ''C'' \<or> cchar locl 0 = CHR ''c'') \<and> (cchar locl 1 = CHR 0x00 \<or> cchar locl 1 = CHR ''.'') then True
            else if cchar locl 0 = CHR 0x00 then True
            else if locl = ''root'' then True
            else if cchar locl 0 \<noteq> CHR ''e'' \<or> cchar locl 1 \<noteq> CHR ''n'' then False
            else if cchar locl 2 \<noteq> CHR 0x00 \<and> cchar locl 2 \<noteq> CHR ''_'' \<and> cchar locl 2 \<noteq> CHR ''-'' then False
            else \<not> list_ex (\<lambda>c. c = CHR ''@'') (drop 2 locl))"

fun letter_run :: "byte list \<Rightarrow> nat \<Rightarrow> nat" where
  "letter_run [] position = position"
| "letter_run (b # bs) position =
     (if \<not> (0x41 \<le> b \<and> b \<le> 0x5a \<or> 0x61 \<le> b \<and> b \<le> 0x7a) then position else letter_run bs (position + 1))"

definition boundary_ascii_initial_word :: "byte list option \<Rightarrow> int \<Rightarrow> nat option" where
  "boundary_ascii_initial_word val len =
     (case val of
        None \<Rightarrow> None
      | Some bytes \<Rightarrow>
          if len \<le> 0 then None
          else
            let position = letter_run (take (nat len) bytes) 0 in
            if position = 0 then None
            else if position < nat len \<and> bytes ! position \<noteq> 0x20 \<and> (bytes ! position < 0x09 \<or> bytes ! position > 0x0d) then None
            else Some position)"

subsection \<open>Walking\<close>

fun segments :: "(int \<Rightarrow> bool) \<Rightarrow> (int \<times> int) list \<Rightarrow> (int \<times> int) list" where
  "segments sk (m # m' # ms) = (if sk (snd m') then [] else [(fst m, fst m')]) @ segments sk (m' # ms)"
| "segments sk ms = []"

text \<open>Which rule statuses the options skip.\<close>

definition skipped :: "boundary_iterator \<Rightarrow> int \<Rightarrow> bool" where
  "skipped it rule \<longleftrightarrow> bi_skip_size it \<noteq> 0 \<and> skip_pairs rule (take (bi_skip_size it) (the (bi_skip_rules it)))"

definition marks_valid :: "(int \<times> int) list \<Rightarrow> bool" where
  "marks_valid ms \<longleftrightarrow> ms \<noteq> [] \<and> (\<forall>m \<in> set ms. 0 \<le> fst m)"

lemma bi_skip_skipped: "bi_skip it u = skipped it (snd (ub_marks u ! ub_at u))"
  by (simp add: bi_skip_def skipped_def ubrk_getRuleStatus_def)

lemma skipped_update [simp]: "skipped (it\<lparr>bi_iterator := u, bi_position := p\<rparr>) = skipped it"
  by (simp add: skipped_def fun_eq_iff)

lemma segments_step:
  "k + 1 < length ms \<Longrightarrow> segments sk (drop k ms) =
    (if sk (snd (ms ! (k + 1))) then [] else [(fst (ms ! k), fst (ms ! (k + 1)))]) @ segments sk (drop (k + 1) ms)"
  by (simp add: Cons_nth_drop_Suc [symmetric] Suc_lessD)

lemma segments_end: "length ms \<le> k + 1 \<Longrightarrow> segments sk (drop k ms) = []"
  by (cases "(sk, drop k ms)" rule: segments.cases) (auto dest!: arg_cong [of _ _ length])

lemma marks_valid_nth: "marks_valid ms \<Longrightarrow> k < length ms \<Longrightarrow> fst (ms ! k) \<noteq> UBRK_DONE"
  using nth_mem [of k ms] unfolding marks_valid_def UBRK_DONE_def by (metis neg_0_le_iff_le not_one_le_zero)

lemma next_loop_segments:
  assumes "marks_valid (ub_marks u)" "ub_at u < length (ub_marks u)" "start = fst (ub_marks u ! ub_at u)"
  shows "case segments (skipped it) (drop (ub_at u) (ub_marks u)) of
      [] \<Rightarrow> \<exists>u'. next_loop it u start = (None, it\<lparr>bi_iterator := Some u', bi_position := UBRK_DONE\<rparr>)
    | r # rs \<Rightarrow> \<exists>k. ub_at u < k \<and> k < length (ub_marks u) \<and> rs = segments (skipped it) (drop k (ub_marks u)) \<and>
        next_loop it u start = (Some r, it\<lparr>bi_iterator := Some (u\<lparr>ub_at := k\<rparr>), bi_position := fst (ub_marks u ! k)\<rparr>)"
  using assms
proof (induction it u start rule: next_loop.induct)
  case (1 it u start)
  show ?case
  proof (cases "ub_at u + 1 < length (ub_marks u)")
    case True
    let ?u = "u\<lparr>ub_at := ub_at u + 1\<rparr>"
    have e: "ubrk_next u = (fst (ub_marks u ! (ub_at u + 1)), ?u)" using True by (simp add: ubrk_next_def)
    have nd: "fst (ub_marks u ! (ub_at u + 1)) \<noteq> UBRK_DONE"
      by (rule marks_valid_nth [OF 1(2) True])
    show ?thesis
    proof (cases "bi_skip it ?u")
      case sk: True
      then have "skipped it (snd (ub_marks u ! (ub_at u + 1)))" by (simp add: bi_skip_skipped)
      moreover have "next_loop it u start = next_loop it ?u (fst (ub_marks u ! (ub_at u + 1)))"
        using sk nd by (simp add: next_loop.simps [of it u start] e)
      moreover note 1(1) [OF e [symmetric] refl nd] sk
      ultimately show ?thesis
        using 1(2) True by (simp add: segments_step [OF True] split: list.splits) (metis Suc_lessD)
    next
      case False
      then have "\<not> skipped it (snd (ub_marks u ! (ub_at u + 1)))" by (simp add: bi_skip_skipped)
      then show ?thesis using False nd True 1(4)
        by (auto simp: next_loop.simps [of it u] e segments_step [OF True] intro!: exI [of _ "ub_at u + 1"])
    qed
  next
    case False
    then show ?thesis by (auto simp: segments_end next_loop.simps [of it u] ubrk_next_def)
  qed
qed

lemma drain_next_segments:
  assumes "bi_iterator it = Some u" "marks_valid (ub_marks u)" "ub_at u < length (ub_marks u)" "bi_position it = fst (ub_marks u ! ub_at u)"
  shows "fst (drain_next it) = segments (skipped it) (drop (ub_at u) (ub_marks u))"
  using assms
proof (induction "rest_marks it" arbitrary: it u rule: less_induct)
  case less
  have "bi_position it \<noteq> UBRK_DONE"
    unfolding less.prems(4) by (rule marks_valid_nth [OF less.prems(2,3)])
  then have nxt: "bi_next it = next_loop it u (bi_position it)" using less.prems by (simp add: bi_next_def)
  note seg = next_loop_segments [OF less.prems(2,3,4), of it]
  show ?case
  proof (cases "segments (skipped it) (drop (ub_at u) (ub_marks u))")
    case Nil
    then obtain u' where "bi_next it = (None, it\<lparr>bi_iterator := Some u', bi_position := UBRK_DONE\<rparr>)" using seg nxt by auto
    then show ?thesis using Nil by (simp add: drain_next.simps [of it])
  next
    case (Cons r rs)
    then obtain k where k: "k < length (ub_marks u)" "rs = segments (skipped it) (drop k (ub_marks u))"
      "bi_next it = (Some r, it\<lparr>bi_iterator := Some (u\<lparr>ub_at := k\<rparr>), bi_position := fst (ub_marks u ! k)\<rparr>)"
      using seg nxt by auto
    let ?it = "it\<lparr>bi_iterator := Some (u\<lparr>ub_at := k\<rparr>), bi_position := fst (ub_marks u ! k)\<rparr>"
    have "fst (drain_next ?it) = segments (skipped ?it) (drop k (ub_marks u))"
      using less.hyps [OF bi_next_progress [OF k(3)], of "u\<lparr>ub_at := k\<rparr>"] less.prems(2) k(1) by simp
    then show ?thesis using k Cons by (simp add: drain_next.simps [of it] Let_def case_prod_beta)
  qed
qed

lemma drain_first:
  assumes "bi_iterator it = Some u" "marks_valid (ub_marks u)"
  shows "fst (drain_next (bi_first it)) = segments (skipped it) (ub_marks u)"
proof -
  have ne: "ub_marks u \<noteq> []" using assms(2) by (simp add: marks_valid_def)
  have "fst (drain_next (bi_first it)) = segments (skipped (bi_first it)) (drop 0 (ub_marks u))"
    using assms ne drain_next_segments [of "bi_first it" "u\<lparr>ub_at := 0\<rparr>"] by (simp add: bi_first_def ubrk_first_def)
  moreover have "skipped (bi_first it) = skipped it" using assms(1) by (simp add: bi_first_def ubrk_first_def)
  ultimately show ?thesis by simp
qed

text \<open>The ends of the segments are boundaries, in order.\<close>

lemma segments_ends:
  "set (map snd (segments sk ms)) \<subseteq> set (map fst (tl ms))"
  "sorted_wrt (<) (map fst ms) \<Longrightarrow> sorted_wrt (<) (map snd (segments sk ms))"
proof -
  show sub: "set (map snd (segments sk ms)) \<subseteq> set (map fst (tl ms))" for sk ms
    by (induction sk ms rule: segments.induct) (auto split: if_splits)
  show "sorted_wrt (<) (map fst ms) \<Longrightarrow> sorted_wrt (<) (map snd (segments sk ms))"
  proof (induction sk ms rule: segments.induct)
    case (1 sk m m' ms)
    then have "\<forall>y \<in> set (map fst ms). fst m' < y" by auto
    then have "\<forall>y \<in> set (map snd (segments sk (m' # ms))). fst m' < y" using sub [of sk "m' # ms"] by (metis list.sel(3) subsetD)
    then show ?case using 1 by auto
  qed auto
qed

lemma previous_loop_progress:
  "previous_loop it u position = (Some r, it') \<Longrightarrow> \<exists>u'. bi_iterator it' = Some u' \<and> ub_at u' < ub_at u"
proof (induction it u position rule: previous_loop.induct)
  case (1 it u position)
  show ?case
  proof (cases "ub_at u > 0")
    case True
    then show ?thesis using 1
      by (auto simp: previous_loop.simps [of it u] ubrk_previous_def Let_def split: if_splits) (metis Suc_pred less_SucI)
  next
    case False
    then show ?thesis using 1(2) by (auto simp: previous_loop.simps [of it u] ubrk_previous_def Let_def split: if_splits)
  qed
qed

lemma bi_previous_progress:
  "bi_previous it = (Some r, it') \<Longrightarrow> (case bi_iterator it' of None \<Rightarrow> 0 | Some u \<Rightarrow> ub_at u) < (case bi_iterator it of None \<Rightarrow> 0 | Some u \<Rightarrow> ub_at u)"
  by (auto simp: bi_previous_def split: option.splits if_splits dest!: previous_loop_progress)

function drain_previous :: "boundary_iterator \<Rightarrow> (int \<times> int) list \<times> boundary_iterator" where
  "drain_previous it =
     (case bi_previous it of
        (None, it) \<Rightarrow> ([], it)
      | (Some r, it) \<Rightarrow> let (rs, it) = drain_previous it in (r # rs, it))"
  by pat_completeness auto
termination
  by (relation "measure (\<lambda>it. case bi_iterator it of None \<Rightarrow> 0 | Some u \<Rightarrow> ub_at u)") (auto intro: bi_previous_progress [OF sym])

declare drain_previous.simps [simp del]

lemma segments_snoc:
  "segments sk (ms @ [m, m']) = segments sk (ms @ [m]) @ (if sk (snd m') then [] else [(fst m, fst m')])"
  by (induction sk "ms @ [m]" arbitrary: ms rule: segments.induct) (auto simp: Cons_eq_append_conv)

lemma segments_take:
  assumes "0 < k" "k < length ms"
  shows "segments sk (take (Suc k) ms) =
    segments sk (take k ms) @ (if sk (snd (ms ! k)) then [] else [(fst (ms ! (k - 1)), fst (ms ! k))])"
proof -
  have "take (Suc k) ms = take (k - 1) ms @ [ms ! (k - 1), ms ! k]" "take k ms = take (k - 1) ms @ [ms ! (k - 1)]"
    using assms take_Suc_conv_app_nth [of k ms] take_Suc_conv_app_nth [of "k - 1" ms] by simp_all
  then show ?thesis by (simp add: segments_snoc)
qed

lemma segments_single: "segments sk (take (Suc 0) ms) = []"
  by (cases ms) auto

lemma previous_loop_segments:
  assumes "marks_valid (ub_marks u)" "ub_at u < length (ub_marks u)" "position = fst (ub_marks u ! ub_at u)"
  shows "case rev (segments (skipped it) (take (Suc (ub_at u)) (ub_marks u))) of
      [] \<Rightarrow> \<exists>u'. previous_loop it u position = (None, it\<lparr>bi_iterator := Some u', bi_position := UBRK_DONE\<rparr>)
    | r # rs \<Rightarrow> \<exists>k. k < ub_at u \<and> rs = rev (segments (skipped it) (take (Suc k) (ub_marks u))) \<and>
        previous_loop it u position = (Some r, it\<lparr>bi_iterator := Some (u\<lparr>ub_at := k\<rparr>), bi_position := fst (ub_marks u ! k)\<rparr>)"
  using assms
proof (induction it u position rule: previous_loop.induct)
  case (1 it u position)
  show ?case
  proof (cases "ub_at u > 0")
    case True
    let ?u = "u\<lparr>ub_at := ub_at u - 1\<rparr>"
    have e: "ubrk_previous u = (fst (ub_marks u ! (ub_at u - 1)), ?u)" using True by (simp add: ubrk_previous_def)
    have nd: "fst (ub_marks u ! (ub_at u - 1)) \<noteq> UBRK_DONE" by (rule marks_valid_nth [OF 1(2)]) (use 1(3) in simp)
    show ?thesis
    proof (cases "bi_skip it u")
      case sk: True
      then have "segments (skipped it) (take (Suc (ub_at u)) (ub_marks u)) = segments (skipped it) (take (ub_at u) (ub_marks u))"
        using segments_take [OF True 1(3)] by (simp add: bi_skip_skipped)
      moreover have "previous_loop it u position = previous_loop it ?u (fst (ub_marks u ! (ub_at u - 1)))"
        using sk nd by (simp add: previous_loop.simps [of it u position] e)
      moreover have "case rev (segments (skipped it) (take (Suc (ub_at ?u)) (ub_marks ?u))) of
          [] \<Rightarrow> \<exists>u'. previous_loop it ?u (fst (ub_marks u ! (ub_at u - 1))) = (None, it\<lparr>bi_iterator := Some u', bi_position := UBRK_DONE\<rparr>)
        | r # rs \<Rightarrow> \<exists>k. k < ub_at ?u \<and> rs = rev (segments (skipped it) (take (Suc k) (ub_marks ?u))) \<and>
            previous_loop it ?u (fst (ub_marks u ! (ub_at u - 1))) = (Some r, it\<lparr>bi_iterator := Some (?u\<lparr>ub_at := k\<rparr>), bi_position := fst (ub_marks ?u ! k)\<rparr>)"
        using 1(1) [OF e [symmetric] refl _ nd] sk 1(2,3) by simp
      ultimately show ?thesis using True by (auto split: list.splits) (blast intro: order_less_le_trans [OF _ diff_le_self])
    next
      case False
      then have "\<not> skipped it (snd (ub_marks u ! ub_at u))" by (simp add: bi_skip_skipped)
      then show ?thesis using False nd True 1(4)
        by (auto simp: previous_loop.simps [of it u] e segments_take [OF True 1(3)] intro!: exI [of _ "ub_at u - 1"])
    qed
  next
    case False
    then show ?thesis by (auto simp: segments_single previous_loop.simps [of it u] ubrk_previous_def)
  qed
qed

lemma drain_previous_segments:
  assumes "bi_iterator it = Some u" "marks_valid (ub_marks u)" "ub_at u < length (ub_marks u)" "bi_position it = fst (ub_marks u ! ub_at u)"
  shows "fst (drain_previous it) = rev (segments (skipped it) (take (Suc (ub_at u)) (ub_marks u)))"
  using assms
proof (induction "ub_at u" arbitrary: it u rule: less_induct)
  case less
  have "bi_position it \<noteq> UBRK_DONE"
    unfolding less.prems(4) by (rule marks_valid_nth [OF less.prems(2,3)])
  then have nxt: "bi_previous it = previous_loop it u (bi_position it)" using less.prems by (simp add: bi_previous_def)
  note seg = previous_loop_segments [OF less.prems(2,3,4), of it]
  show ?case
  proof (cases "rev (segments (skipped it) (take (Suc (ub_at u)) (ub_marks u)))")
    case Nil
    then obtain u' where "bi_previous it = (None, it\<lparr>bi_iterator := Some u', bi_position := UBRK_DONE\<rparr>)" using seg nxt by auto
    then show ?thesis using Nil by (simp add: drain_previous.simps [of it])
  next
    case (Cons r rs)
    then obtain k where k: "k < ub_at u" "rs = rev (segments (skipped it) (take (Suc k) (ub_marks u)))"
      "bi_previous it = (Some r, it\<lparr>bi_iterator := Some (u\<lparr>ub_at := k\<rparr>), bi_position := fst (ub_marks u ! k)\<rparr>)"
      using seg nxt by auto
    let ?it = "it\<lparr>bi_iterator := Some (u\<lparr>ub_at := k\<rparr>), bi_position := fst (ub_marks u ! k)\<rparr>"
    have "fst (drain_previous ?it) = rev (segments (skipped ?it) (take (Suc k) (ub_marks u)))"
      using less.hyps [of "u\<lparr>ub_at := k\<rparr>" ?it] less.prems(2,3) k(1) by simp
    then show ?thesis using k Cons by (simp add: drain_previous.simps [of it] Let_def case_prod_beta)
  qed
qed

text \<open>C34. From the first boundary, \<open>next\<close> yields exactly the segments whose end does not have a skipped rule status, in
  order, and from the last boundary \<open>previous\<close> yields the same segments backwards.\<close>
theorem boundary_walks_mirror:
  assumes "bi_iterator it = Some u" "marks_valid (ub_marks u)"
  shows "fst (drain_next (bi_first it)) = segments (skipped it) (ub_marks u) \<and>
    fst (drain_previous (bi_last it)) = rev (segments (skipped it) (ub_marks u))"
proof -
  have ne: "ub_marks u \<noteq> []" using assms(2) by (simp add: marks_valid_def)
  have "fst (drain_previous (bi_last it)) = rev (segments (skipped (bi_last it)) (take (Suc (length (ub_marks u) - 1)) (ub_marks u)))"
    using assms ne drain_previous_segments [of "bi_last it" "u\<lparr>ub_at := length (ub_marks u) - 1\<rparr>"]
    by (simp add: bi_last_def ubrk_first_def ubrk_last_def last_conv_nth)
  moreover have "skipped (bi_last it) = skipped it"
    using assms(1) by (simp add: bi_last_def ubrk_first_def ubrk_last_def)
  ultimately show ?thesis using drain_first [OF assms] ne by simp
qed

theorem boundary_walks_mirror_witness:
  "fst (drain_previous (bi_last \<lparr>bi_iterator = Some \<lparr>ub_rules = (\<lambda>t. []), ub_marks = [(0, 0), (2, 100), (3, 0), (5, 100)], ub_at = 1\<rparr>,
      bi_skip_rules = Some [0, 100], bi_skip_size = 2, bi_position = 2\<rparr>)) = [(3, 5), (0, 2)]"
  using boundary_walks_mirror [of "\<lparr>bi_iterator = Some \<lparr>ub_rules = (\<lambda>t. []), ub_marks = [(0, 0), (2, 100), (3, 0), (5, 100)], ub_at = 1\<rparr>,
      bi_skip_rules = Some [0, 100], bi_skip_size = 2, bi_position = 2\<rparr>"]
  by (simp add: marks_valid_def skipped_def)

end
