(* ===== verification/Wrap_Layout.thy ===== *)
theory Wrap_Layout
  imports Prelude
begin

text \<open>
  The two line-breaking strategies of \<^verbatim>\<open>src/shared/wrap.cpp\<close> on the measured words of a
  record: \<open>Engine::fits_one_line\<close>, \<open>Engine::greedy\<close> and \<open>Engine::dynamic\<close>. A word has a width
  with and without its trailing space; a line of words \<open>i\<close> to \<open>j\<close> takes the prefix, the full
  widths of all words but the last and the trimmed width of the last.

  The greedy breaks give the fewest lines, and the dynamic programme the least total cost. A
  \<open>double\<close> is a type with the operations of the code; \<open>cost_arith\<close> states what the proofs use
  of it, which holds of IEEE arithmetic without NaN: addition is monotone, and need not be
  associative. \<open>std::pow\<close> with the exponent of the options is a parameter.
\<close>

subsection \<open>The code\<close>

definition fits_one_line :: "nat list \<Rightarrow> nat list \<Rightarrow> int \<Rightarrow> int \<Rightarrow> bool" where
  "fits_one_line widths_orig widths_trim width first_width =
     (let measured = foldl (\<lambda>measured w. measured + int w) first_width widths_orig;
          measured = measured - int (last widths_orig - last widths_trim)
      in measured \<le> width)"

fun greedy_loop :: "nat list \<Rightarrow> nat list \<Rightarrow> int \<Rightarrow> int \<Rightarrow> nat list \<Rightarrow> int \<Rightarrow> nat list \<Rightarrow> nat list" where
  "greedy_loop widths_orig widths_trim width later_width [] current wrap_after = wrap_after"
| "greedy_loop widths_orig widths_trim width later_width (i # idx) current wrap_after =
     (if current + int (widths_trim ! i) > width then
        greedy_loop widths_orig widths_trim width later_width idx (later_width + int (widths_orig ! i)) (wrap_after @ [i - 1])
      else greedy_loop widths_orig widths_trim width later_width idx (current + int (widths_orig ! i)) wrap_after)"

definition greedy :: "nat list \<Rightarrow> nat list \<Rightarrow> int \<Rightarrow> int \<Rightarrow> int \<Rightarrow> nat list" where
  "greedy widths_orig widths_trim width first_width later_width =
     greedy_loop widths_orig widths_trim width later_width [1..<length widths_orig] (first_width + int (widths_orig ! 0)) []"

definition wrap_index :: "nat \<Rightarrow> nat \<Rightarrow> nat \<Rightarrow> nat" where
  "wrap_index n i j = i * n + j"

definition cost_step ::
  "nat list \<Rightarrow> nat list \<Rightarrow> int \<Rightarrow> int \<Rightarrow> int \<Rightarrow> (int \<Rightarrow> 'd::{linorder, zero, one, uminus}) \<Rightarrow> nat \<Rightarrow> nat \<Rightarrow> 'd list \<times> int \<Rightarrow> 'd list \<times> int" where
  "cost_step widths_orig widths_trim width first_width later_width pw i j = (\<lambda>(cost, sum).
     let n = length widths_orig in
     if j > i \<and> cost ! wrap_index n i (j - 1) < 0 then (cost[wrap_index n i j := - 1], sum)
     else
       let sum = (if j > i then sum - int (widths_trim ! (j - 1)) + int (widths_orig ! (j - 1)) else sum);
           sum = sum + int (widths_trim ! j);
           remaining = width - sum;
           remaining = remaining - (if i = 0 then first_width else later_width);
           c = (if j = n - 1 then (if j = i \<or> remaining \<ge> 0 then 0 else - 1)
                else if j = i then (if remaining < 0 then 0 else pw remaining)
                else (if remaining < 0 then - 1 else pw remaining))
       in (cost[wrap_index n i j := c], sum))"

definition fill_cost ::
  "nat list \<Rightarrow> nat list \<Rightarrow> int \<Rightarrow> int \<Rightarrow> int \<Rightarrow> (int \<Rightarrow> 'd::{linorder, zero, one, uminus}) \<Rightarrow> 'd list \<Rightarrow> 'd list" where
  "fill_cost widths_orig widths_trim width first_width later_width pw cost =
     fold (\<lambda>i cost. fst (fold (cost_step widths_orig widths_trim width first_width later_width pw i) [i..<length widths_orig] (cost, 0)))
       [0..<length widths_orig] cost"

text \<open>The scan \<open>while (i <= j)\<close> for the first word after which the rest fits a line.\<close>

function scan_break :: "nat \<Rightarrow> 'd::{linorder, zero} list \<Rightarrow> nat \<Rightarrow> nat \<Rightarrow> nat" where
  "scan_break n cost j i =
     (if i \<le> j then if cost ! wrap_index n (i + 1) j \<ge> 0 then i else scan_break n cost j (i + 1) else i)"
  by pat_completeness auto
termination by (relation "measure (\<lambda>(n, cost, j, i). Suc j - i)") auto

declare scan_break.simps [simp del]

definition best_step :: "nat \<Rightarrow> 'd::{linorder, plus, zero} list \<Rightarrow> 'd list \<Rightarrow> nat \<Rightarrow> nat \<Rightarrow> 'd \<times> nat \<Rightarrow> 'd \<times> nat" where
  "best_step n cost best j k = (\<lambda>(b, i).
     if cost ! wrap_index n (k + 1) j < 0 then (b, i)
     else let candidate = best ! k + cost ! wrap_index n (k + 1) j
          in if candidate < b then (candidate, k) else (b, i))"

definition column_step ::
  "nat \<Rightarrow> 'd::{linorder, plus, zero} list \<Rightarrow> nat \<Rightarrow> 'd list \<times> nat list \<Rightarrow> 'd list \<times> nat list" where
  "column_step n cost j = (\<lambda>(best, breaks).
     if cost ! wrap_index n 0 j \<ge> 0 then (best[j := cost ! wrap_index n 0 j], breaks)
     else
       let i = scan_break n cost j 0;
           (b, i) = fold (best_step n cost best j) [i + 1..<j] (best ! i + cost ! wrap_index n (i + 1) j, i);
           breaks = fold (\<lambda>k breaks. breaks[wrap_index n k j := breaks ! wrap_index n k i]) [0..<i] breaks;
           breaks = breaks[wrap_index n i j := 1]
       in (best[j := b], breaks))"

definition vec_resize :: "'d::zero list \<Rightarrow> nat \<Rightarrow> 'd list" where
  "vec_resize xs n = take n xs @ replicate (n - length xs) 0"

text \<open>\<open>max_cost\<close> and \<open>max_breaks\<close> are the limits of the two vectors; \<open>cost\<close> and \<open>best\<close> are their
  contents before the call, which the resizing keeps.\<close>

definition dynamic ::
  "nat \<Rightarrow> nat \<Rightarrow> nat list \<Rightarrow> nat list \<Rightarrow> int \<Rightarrow> (int \<Rightarrow> 'd::{linorder, plus, zero, one, uminus}) \<Rightarrow> int \<Rightarrow> int \<Rightarrow> 'd list \<Rightarrow> 'd list \<Rightarrow> nat list result" where
  "dynamic max_cost max_breaks widths_orig widths_trim width pw first_width later_width cost best =
     (let words = length widths_orig in
      if words \<noteq> 0 \<and> words > SIZE_MAX div words then Inl (Length_error ''word-wrap matrix is too large'')
      else
        let matrix_size = words * words in
        if matrix_size > max_cost \<or> matrix_size > max_breaks then Inl (Length_error ''word-wrap matrix is too large'')
        else
          let cost = fill_cost widths_orig widths_trim width first_width later_width pw (vec_resize cost matrix_size);
              (best, breaks) = fold (column_step words cost) [0..<words] (vec_resize best words, replicate matrix_size 0)
          in Inr (filter (\<lambda>i. breaks ! wrap_index words i (words - 1) \<noteq> 0) [0..<words]))"

subsection \<open>Layouts\<close>

text \<open>A layout of the words up to \<open>j\<close> is given by the words it breaks after, in descending order.\<close>

fun layout :: "(nat \<Rightarrow> nat \<Rightarrow> bool) \<Rightarrow> nat list \<Rightarrow> nat \<Rightarrow> bool" where
  "layout F [] j = F 0 j"
| "layout F (k # ks) j = (k < j \<and> F (k + 1) j \<and> layout F ks k)"

fun layout_cost :: "(nat \<Rightarrow> nat \<Rightarrow> 'd::plus) \<Rightarrow> nat list \<Rightarrow> nat \<Rightarrow> 'd" where
  "layout_cost C [] j = C 0 j"
| "layout_cost C (k # ks) j = layout_cost C ks k + C (k + 1) j"

definition line_width :: "nat list \<Rightarrow> nat list \<Rightarrow> int \<Rightarrow> int \<Rightarrow> nat \<Rightarrow> nat \<Rightarrow> int" where
  "line_width wo wt first later i j =
     (if i = 0 then first else later) + int (sum_list (map ((!) wo) [i..<j])) + int (wt ! j)"

definition line_fits :: "nat list \<Rightarrow> nat list \<Rightarrow> int \<Rightarrow> int \<Rightarrow> int \<Rightarrow> nat \<Rightarrow> nat \<Rightarrow> bool" where
  "line_fits wo wt width first later i j \<longleftrightarrow> i = j \<or> line_width wo wt first later i j \<le> width"

definition widths_ok :: "nat list \<Rightarrow> nat list \<Rightarrow> bool" where
  "widths_ok wo wt \<longleftrightarrow> length wt = length wo \<and> (\<forall>i < length wo. wt ! i \<le> wo ! i)"

lemma line_width_Suc:
  "i \<le> j \<Longrightarrow> line_width wo wt first later i (Suc j) = line_width wo wt first later i j - int (wt ! j) + int (wo ! j) + int (wt ! Suc j)"
  by (simp add: line_width_def)

lemma line_width_mono:
  assumes "widths_ok wo wt" "i \<le> j" "j \<le> k" "k < length wo"
  shows "line_width wo wt first later i j \<le> line_width wo wt first later i k"
  using assms(3,4)
proof (induction k rule: dec_induct)
  case (step k)
  then have "wt ! k \<le> wo ! k" using assms(1) by (simp add: widths_ok_def)
  then show ?case using step assms(2) by (simp add: line_width_Suc)
qed simp

lemma line_width_antimono:
  assumes "i \<le> i'" "i' \<le> j" "i = 0 \<Longrightarrow> i' = 0"
  shows "line_width wo wt first later i' j \<le> line_width wo wt first later i j"
proof -
  have "[i..<j] = [i..<i'] @ [i'..<j]" using assms(1,2) by (metis le_add_diff_inverse upt_add_eq_append)
  then show ?thesis using assms(1,3) by (auto simp: line_width_def)
qed

subsection \<open>Greedy\<close>

text \<open>Where the last line of a layout starts.\<close>

fun line_start :: "nat list \<Rightarrow> nat" where
  "line_start [] = 0"
| "line_start (k # ks) = k + 1"

lemma layout_last: "layout F ks j \<Longrightarrow> F (line_start ks) j \<and> line_start ks \<le> j"
  by (cases ks) auto

definition greedy_inv :: "nat list \<Rightarrow> nat list \<Rightarrow> int \<Rightarrow> int \<Rightarrow> int \<Rightarrow> nat \<Rightarrow> nat list \<Rightarrow> bool" where
  "greedy_inv wo wt width first later j after \<longleftrightarrow>
     layout (line_fits wo wt width first later) (rev after) j \<and>
     (\<forall>ks. layout (line_fits wo wt width first later) ks j \<longrightarrow>
        length after \<le> length ks \<and> (length ks = length after \<longrightarrow> line_start ks \<le> line_start (rev after)))"

text \<open>A layout up to the next word continues the last line or opens a new one.\<close>

lemma layout_Suc:
  assumes "widths_ok wo wt" "Suc j < length wo" "layout (line_fits wo wt width first later) ks (Suc j)"
  obtains "layout (line_fits wo wt width first later) ks j" "line_width wo wt first later (line_start ks) (Suc j) \<le> width"
  | ks' where "ks = j # ks'" "layout (line_fits wo wt width first later) ks' j"
proof -
  let ?F = "line_fits wo wt width first later"
  have shrink: "?F i j" if "?F i (Suc j)" "i \<le> j" for i
    using that line_width_mono [OF assms(1), of i j "Suc j" first later] assms(2) by (auto simp: line_fits_def)
  show ?thesis
  proof (cases ks)
    case Nil
    then have "?F 0 (Suc j)" using assms(3) by simp
    then show ?thesis using that(1) shrink [of 0] Nil by (simp add: line_fits_def)
  next
    case (Cons k ks')
    then have k: "k < Suc j" "?F (k + 1) (Suc j)" "layout ?F ks' k" using assms(3) by auto
    show ?thesis
    proof (cases "k = j")
      case True
      then show ?thesis using that(2) Cons k by auto
    next
      case False
      then have "layout ?F ks j" using Cons k shrink [of "k + 1"] by auto
      moreover have "line_width wo wt first later (line_start ks) (Suc j) \<le> width" using Cons k False by (auto simp: line_fits_def)
      ultimately show ?thesis using that(1) by blast
    qed
  qed
qed

lemma greedy_inv_Suc:
  fixes wo wt after :: "nat list" and width first later :: int
  assumes ok: "widths_ok wo wt" "Suc j < length wo" and inv: "greedy_inv wo wt width first later j after"
  defines "wide \<equiv> line_width wo wt first later (line_start (rev after)) (Suc j) > width"
  shows "greedy_inv wo wt width first later (Suc j) (if wide then after @ [j] else after)"
proof -
  let ?F = "line_fits wo wt width first later" and ?after = "if wide then after @ [j] else after"
  have lay: "layout ?F (rev after) j" and least: "\<And>ks. layout ?F ks j \<Longrightarrow>
      length after \<le> length ks \<and> (length ks = length after \<longrightarrow> line_start ks \<le> line_start (rev after))"
    using inv by (auto simp: greedy_inv_def)
  have "layout ?F (rev ?after) (Suc j)"
  proof (cases wide)
    case True
    then show ?thesis using lay by (simp add: line_fits_def)
  next
    case False
    then have "?F (line_start (rev after)) (Suc j)" by (simp add: line_fits_def wide_def)
    then show ?thesis using False lay by (cases "rev after") auto
  qed
  moreover have "length ?after \<le> length ks \<and> (length ks = length ?after \<longrightarrow> line_start ks \<le> line_start (rev ?after))"
    if "layout ?F ks (Suc j)" for ks
    using ok(1) ok(2) that
  proof (cases rule: layout_Suc)
    case 1
    show ?thesis
    proof (cases "wide \<and> length ks = length after")
      case True
      then have "line_start ks \<le> line_start (rev after)" using least [OF 1(1)] by blast
      moreover have "line_start ks = 0 \<Longrightarrow> line_start (rev after) = 0" using True by (cases ks) auto
      ultimately have "line_width wo wt first later (line_start (rev after)) (Suc j) \<le> width"
        using line_width_antimono [of "line_start ks" "line_start (rev after)" "Suc j" wo wt first later] layout_last [OF lay] 1(2) by linarith
      then show ?thesis using True by (simp add: wide_def)
    next
      case False
      then show ?thesis using least [OF 1(1)] layout_last [OF 1(1)] by (auto simp: le_Suc_eq)
    qed
  next
    case (2 ks')
    then show ?thesis using least [OF 2(2)] by auto
  qed
  ultimately show ?thesis by (simp add: greedy_inv_def)
qed

lemma greedy_loop_inv:
  assumes "widths_ok wo wt" "j < length wo" "greedy_inv wo wt width first later j after"
    and "current = line_width wo wt first later (line_start (rev after)) j - int (wt ! j) + int (wo ! j)"
  shows "greedy_inv wo wt width first later (length wo - 1) (greedy_loop wo wt width later [Suc j..<length wo] current after)"
  using assms(2-)
proof (induction "length wo - Suc j" arbitrary: j current after)
  case 0
  then have "j = length wo - 1" by simp
  then show ?case using 0 by simp
next
  case (Suc d)
  then have j: "Suc j < length wo" by simp
  let ?wide = "line_width wo wt first later (line_start (rev after)) (Suc j) > width"
  have start: "line_start (rev after) \<le> j" using Suc.prems(2) layout_last by (auto simp: greedy_inv_def)
  have cur: "current + int (wt ! Suc j) = line_width wo wt first later (line_start (rev after)) (Suc j)"
    using Suc.prems(3) start by (simp add: line_width_Suc)
  have inv: "greedy_inv wo wt width first later (Suc j) (if ?wide then after @ [j] else after)"
    by (rule greedy_inv_Suc [OF assms(1) j Suc.prems(2)])
  have next_cur: "(if ?wide then later + int (wo ! Suc j) else current + int (wo ! Suc j)) =
      line_width wo wt first later (line_start (rev (if ?wide then after @ [j] else after))) (Suc j) - int (wt ! Suc j) + int (wo ! Suc j)"
    using cur by (auto simp: line_width_def)
  have d: "d = length wo - Suc (Suc j)" using Suc.hyps(2) by simp
  from Suc.hyps(1) [OF d j inv next_cur] show ?case using j cur by (simp add: upt_conv_Cons split: if_splits)
qed

lemma greedy_result:
  assumes "widths_ok wo wt" "wo \<noteq> []"
  shows "greedy_inv wo wt width first later (length wo - 1) (greedy wo wt width first later)"
proof -
  have "layout F ks 0 \<Longrightarrow> ks = []" for F ks by (cases ks) auto
  then have "greedy_inv wo wt width first later 0 []"
    by (fastforce simp: greedy_inv_def line_fits_def)
  from greedy_loop_inv [OF assms(1) _ this, of "first + int (wo ! 0)"]
  show ?thesis using assms(2) by (simp add: greedy_def line_width_def)
qed

text \<open>C33. The greedy strategy lays out the words in lines that fit the width or hold one word only, and no such
  layout has fewer lines.\<close>
theorem greedy_fewest_lines:
  assumes "widths_ok widths_orig widths_trim" "widths_orig \<noteq> []"
  shows "layout (line_fits widths_orig widths_trim width first_width later_width)
      (rev (greedy widths_orig widths_trim width first_width later_width)) (length widths_orig - 1) \<and>
    (\<forall>ks. layout (line_fits widths_orig widths_trim width first_width later_width) ks (length widths_orig - 1) \<longrightarrow>
      length (greedy widths_orig widths_trim width first_width later_width) \<le> length ks)"
  using greedy_result [OF assms] by (simp add: greedy_inv_def)

theorem greedy_fewest_lines_witness:
  "layout (line_fits [4, 4, 4] [3, 3, 3] 8 0 0) (rev (greedy [4, 4, 4] [3, 3, 3] 8 0 0)) 2 \<and> greedy [4, 4, 4] [3, 3, 3] 8 0 0 = [1]"
  using greedy_fewest_lines [of "[4, 4, 4]" "[3, 3, 3]" 8 0 0]
  by (simp add: widths_ok_def greedy_def upt_rec less_Suc_eq numeral_eq_Suc)

subsection \<open>The cost matrix\<close>

definition cost_arith :: "(int \<Rightarrow> 'd::{linorder, plus, zero, one, uminus}) \<Rightarrow> bool" where
  "cost_arith pw \<longleftrightarrow>
     (- 1 :: 'd) < 0 \<and> (\<forall>r s. 0 \<le> r \<and> r \<le> s \<longrightarrow> 0 \<le> pw r \<and> pw r \<le> pw s) \<and>
     (\<forall>a b c :: 'd. a \<le> b \<longrightarrow> a + c \<le> b + c) \<and> (\<forall>a c :: 'd. 0 \<le> a \<and> 0 \<le> c \<longrightarrow> a \<le> a + c)"

definition line_cost :: "nat list \<Rightarrow> nat list \<Rightarrow> int \<Rightarrow> int \<Rightarrow> int \<Rightarrow> (int \<Rightarrow> 'd::{linorder, zero, one, uminus}) \<Rightarrow> nat \<Rightarrow> nat \<Rightarrow> 'd" where
  "line_cost wo wt width first later pw i j =
     (let remaining = width - line_width wo wt first later i j in
      if j = length wo - 1 then (if i = j \<or> remaining \<ge> 0 then 0 else - 1)
      else if remaining < 0 then (if i = j then 0 else - 1)
      else pw remaining)"

lemma wrap_index_less: "i < n \<Longrightarrow> j < n \<Longrightarrow> wrap_index n i j < n * n"
proof -
  assume "i < n" "j < n"
  then have "i * n + j < (i + 1) * n" by simp
  also have "\<dots> \<le> n * n" using \<open>i < n\<close> by (intro mult_le_mono1) simp
  finally show ?thesis by (simp add: wrap_index_def)
qed

lemma wrap_index_eq:
  assumes "j < n" "j' < n"
  shows "wrap_index n i j = wrap_index n i' j' \<longleftrightarrow> i = i' \<and> j = j'"
proof
  assume eq: "wrap_index n i j = wrap_index n i' j'"
  then have "(i * n + j) div n = (i' * n + j') div n" "(i * n + j) mod n = (i' * n + j') mod n" by (simp_all add: wrap_index_def)
  then show "i = i' \<and> j = j'" using assms by simp
qed simp

lemma cost_arithD:
  assumes "cost_arith (pw :: int \<Rightarrow> 'd::{linorder, plus, zero, one, uminus})"
  shows "(- 1 :: 'd) < 0" "0 \<le> r \<Longrightarrow> 0 \<le> pw r" "0 \<le> r \<Longrightarrow> r \<le> s \<Longrightarrow> pw r \<le> pw s"
    "a \<le> b \<Longrightarrow> a + c \<le> b + (c :: 'd)" "0 \<le> a \<Longrightarrow> 0 \<le> c \<Longrightarrow> a \<le> a + (c :: 'd)"
  using assms unfolding cost_arith_def by blast+

lemma line_cost_neg:
  assumes "cost_arith (pw :: int \<Rightarrow> 'd::{linorder, plus, zero, one, uminus})"
  shows "line_cost wo wt width first later pw i j < 0 \<longleftrightarrow> i \<noteq> j \<and> line_width wo wt first later i j > width"
proof -
  have "(- 1 :: 'd) < 0" "0 \<le> width - line_width wo wt first later i j \<Longrightarrow> 0 \<le> pw (width - line_width wo wt first later i j)"
    by (rule cost_arithD [OF assms], rule cost_arithD(2) [OF assms])
  then show ?thesis by (auto simp: line_cost_def Let_def not_less)
qed

lemma cost_row:
  assumes ok: "widths_ok wo wt" and ar: "cost_arith (pw :: int \<Rightarrow> 'd::{linorder, plus, zero, one, uminus})"
    and len: "length cost = length wo * length wo" and m: "i \<le> m" "m \<le> length wo"
  shows "case fold (cost_step wo wt width first later pw i) [i..<m] (cost, 0) of (cost', tot) \<Rightarrow>
    length cost' = length cost \<and>
    (\<forall>j. i \<le> j \<and> j < m \<longrightarrow> cost' ! wrap_index (length wo) i j = line_cost wo wt width first later pw i j) \<and>
    (\<forall>i' j. j < length wo \<and> (i' \<noteq> i \<or> j < i \<or> m \<le> j) \<longrightarrow> cost' ! wrap_index (length wo) i' j = cost ! wrap_index (length wo) i' j) \<and>
    (if m = i then tot = 0
     else line_cost wo wt width first later pw i (m - 1) \<ge> 0 \<longrightarrow> tot = line_width wo wt first later i (m - 1) - (if i = 0 then first else later))"
  using m
proof (induction m rule: dec_induct)
  case (step m)
  let ?n = "length wo" and ?C = "line_cost wo wt width first later pw"
  obtain c tot where f: "fold (cost_step wo wt width first later pw i) [i..<m] (cost, 0) = (c, tot)" by force
  have m: "m < ?n" using step.prems by simp
  have i: "i < ?n" using step.hyps(1) m by simp
  have prem: "m \<le> ?n" using m by simp
  note IH = step.IH [OF prem, unfolded f prod.case]
  have lenc: "length c = length cost" using IH by blast
  have row: "\<And>j. i \<le> j \<Longrightarrow> j < m \<Longrightarrow> c ! wrap_index ?n i j = ?C i j" using IH by blast
  have other: "\<And>i' j. j < ?n \<Longrightarrow> i' \<noteq> i \<or> j < i \<or> m \<le> j \<Longrightarrow> c ! wrap_index ?n i' j = cost ! wrap_index ?n i' j" using IH by blast
  have sums: "m = i \<Longrightarrow> tot = 0" "m \<noteq> i \<Longrightarrow> ?C i (m - 1) \<ge> 0 \<Longrightarrow> tot = line_width wo wt first later i (m - 1) - (if i = 0 then first else later)"
    using IH by (auto split: if_splits)
  obtain v tot' where cs: "cost_step wo wt width first later pw i m (c, tot) = (c[wrap_index ?n i m := v], tot')"
    and v: "v = ?C i m" and s': "?C i m \<ge> 0 \<longrightarrow> tot' = line_width wo wt first later i m - (if i = 0 then first else later)"
  proof (cases "m > i \<and> c ! wrap_index ?n i (m - 1) < 0")
    case True
    then have "?C i (m - 1) < 0" using row [of "m - 1"] by fastforce
    then have "i \<noteq> m - 1" "line_width wo wt first later i (m - 1) > width" by (simp_all add: line_cost_neg [OF ar])
    then have "line_width wo wt first later i m > width"
      using line_width_mono [OF ok, of i "m - 1" m first later] m True by fastforce
    then have "?C i m = - 1" "\<not> ?C i m \<ge> 0" using True cost_arithD(1) [OF ar] by (auto simp: line_cost_def Let_def)
    moreover have "cost_step wo wt width first later pw i m (c, tot) = (c[wrap_index ?n i m := - 1], tot)"
      using True by (simp add: cost_step_def Let_def)
    ultimately show ?thesis using that by metis
  next
    case False
    define tot' where "tot' = (if m > i then tot - int (wt ! (m - 1)) + int (wo ! (m - 1)) else tot) + int (wt ! m)"
    have tot: "tot' = line_width wo wt first later i m - (if i = 0 then first else later)"
    proof (cases "m = i")
      case True
      then show ?thesis using sums(1) by (simp add: tot'_def line_width_def)
    next
      case neq: False
      then have im: "i < m" using step.hyps(1) by simp
      then have "?C i (m - 1) \<ge> 0" using False row [of "m - 1"] by fastforce
      then have "tot = line_width wo wt first later i (m - 1) - (if i = 0 then first else later)" using sums(2) neq by blast
      then show ?thesis using im line_width_Suc [of i "m - 1" wo wt first later] by (simp add: tot'_def)
    qed
    have rem: "width - tot' - (if i = 0 then first else later) = width - line_width wo wt first later i m" using tot by simp
    have "cost_step wo wt width first later pw i m (c, tot) =
        (c[wrap_index ?n i m := (let remaining = width - tot' - (if i = 0 then first else later) in
           if m = ?n - 1 then (if m = i \<or> remaining \<ge> 0 then 0 else - 1)
           else if m = i then (if remaining < 0 then 0 else pw remaining)
           else (if remaining < 0 then - 1 else pw remaining))], tot')"
      unfolding cost_step_def prod.case Let_def tot'_def by (subst if_not_P [OF False]) (rule refl)
    then show ?thesis by (rule that) (auto simp: rem line_cost_def Let_def tot)
  qed
  have eq: "fold (cost_step wo wt width first later pw i) [i..<Suc m] (cost, 0) = (c[wrap_index ?n i m := v], tot')"
    using step.hyps(1) f cs by simp
  have bound: "wrap_index ?n i m < length c" using wrap_index_less [OF i m] lenc len by simp
  show ?case
    unfolding eq prod.case
  proof (intro conjI allI impI)
    show "length (c[wrap_index ?n i m := v]) = length cost" using lenc by simp
  next
    fix j assume "i \<le> j \<and> j < Suc m"
    then show "c[wrap_index ?n i m := v] ! wrap_index ?n i j = ?C i j"
      using row [of j] bound v m by (cases "j = m") (auto simp: wrap_index_eq)
  next
    fix i' j assume "j < ?n \<and> (i' \<noteq> i \<or> j < i \<or> Suc m \<le> j)"
    then show "c[wrap_index ?n i m := v] ! wrap_index ?n i' j = cost ! wrap_index ?n i' j"
      using other [of j i'] m step.hyps(1) by (subst nth_list_update_neq) (auto simp: wrap_index_eq)
  next
    show "if Suc m = i then tot' = 0
      else ?C i (Suc m - 1) \<ge> 0 \<longrightarrow> tot' = line_width wo wt first later i (Suc m - 1) - (if i = 0 then first else later)"
      using s' step.hyps(1) by simp
  qed
qed auto

lemma fill_cost_line_cost:
  assumes ok: "widths_ok wo wt" and ar: "cost_arith (pw :: int \<Rightarrow> 'd::{linorder, plus, zero, one, uminus})"
    and len: "length cost = length wo * length wo"
  shows "length (fill_cost wo wt width first later pw cost) = length wo * length wo"
    "i \<le> j \<Longrightarrow> j < length wo \<Longrightarrow> fill_cost wo wt width first later pw cost ! wrap_index (length wo) i j = line_cost wo wt width first later pw i j"
proof -
  let ?row = "\<lambda>i cost. fst (fold (cost_step wo wt width first later pw i) [i..<length wo] (cost, 0))"
  have "length (fold ?row [0..<m] cost) = length cost \<and>
      (\<forall>i j. i < m \<and> i \<le> j \<and> j < length wo \<longrightarrow> fold ?row [0..<m] cost ! wrap_index (length wo) i j = line_cost wo wt width first later pw i j)"
    if "m \<le> length wo" for m
    using that
  proof (induction m)
    case (Suc m)
    let ?c = "fold ?row [0..<m] cost"
    have c: "length ?c = length wo * length wo" "m \<le> length wo" using Suc len by auto
    obtain c' tot where f: "fold (cost_step wo wt width first later pw m) [m..<length wo] (?c, 0) = (c', tot)" by force
    have "fold ?row [0..<Suc m] cost = c'" using f by simp
    moreover note cost_row [OF ok ar c order_refl, of width first later, unfolded f prod.case]
    ultimately show ?case using Suc by (auto simp: less_Suc_eq)
  qed simp
  then show "length (fill_cost wo wt width first later pw cost) = length wo * length wo"
    "i \<le> j \<Longrightarrow> j < length wo \<Longrightarrow> fill_cost wo wt width first later pw cost ! wrap_index (length wo) i j = line_cost wo wt width first later pw i j"
    unfolding fill_cost_def using len by auto
qed

subsection \<open>The dynamic programme\<close>

definition breaks_of :: "nat \<Rightarrow> nat list \<Rightarrow> nat \<Rightarrow> nat list" where
  "breaks_of n breaks j = filter (\<lambda>k. breaks ! wrap_index n k j \<noteq> 0) [0..<j]"

definition column_ok :: "nat \<Rightarrow> (nat \<Rightarrow> nat \<Rightarrow> 'd::{linorder, plus, zero}) \<Rightarrow> 'd list \<Rightarrow> nat list \<Rightarrow> nat \<Rightarrow> bool" where
  "column_ok n C best breaks j \<longleftrightarrow>
     layout (\<lambda>i j. 0 \<le> C i j) (rev (breaks_of n breaks j)) j \<and>
     layout_cost C (rev (breaks_of n breaks j)) j = best ! j \<and>
     (\<forall>ks. layout (\<lambda>i j. 0 \<le> C i j) ks j \<longrightarrow> best ! j \<le> layout_cost C ks j) \<and>
     (\<forall>k. j \<le> k \<and> k < n \<longrightarrow> breaks ! wrap_index n k j = 0)"

definition columns_inv :: "nat \<Rightarrow> (nat \<Rightarrow> nat \<Rightarrow> 'd::{linorder, plus, zero}) \<Rightarrow> nat \<Rightarrow> 'd list \<times> nat list \<Rightarrow> bool" where
  "columns_inv n C J = (\<lambda>(best, breaks).
     length best = n \<and> length breaks = n * n \<and> (\<forall>j < J. column_ok n C best breaks j) \<and>
     (\<forall>j k. J \<le> j \<and> j < n \<and> k < n \<longrightarrow> breaks ! wrap_index n k j = 0))"

lemma scan_break_first:
  assumes "k < j" "i \<le> k" "cost ! wrap_index n (k + 1) j \<ge> 0"
  shows "scan_break n cost j i \<le> k \<and> i \<le> scan_break n cost j i \<and> cost ! wrap_index n (scan_break n cost j i + 1) j \<ge> 0 \<and>
    (\<forall>l. i \<le> l \<and> l < scan_break n cost j i \<longrightarrow> cost ! wrap_index n (l + 1) j < 0)"
  using assms(2)
proof (induction "k - i" arbitrary: i)
  case 0
  then have "i = k" by simp
  then show ?case using assms(1,3) by (auto simp: scan_break.simps)
next
  case (Suc d)
  show ?case
  proof (cases "cost ! wrap_index n (i + 1) j \<ge> 0")
    case True
    then show ?thesis using Suc.prems assms(1) by (auto simp: scan_break.simps [of n cost j i])
  next
    case False
    have "scan_break n cost j i = scan_break n cost j (i + 1)" using False Suc.prems assms(1) by (simp add: scan_break.simps [of n cost j i])
    moreover have "d = k - (i + 1)" "i + 1 \<le> k" using Suc.hyps(2) by auto
    note Suc.hyps(1) [OF this]
    ultimately show ?thesis using False by (metis Suc_eq_plus1 Suc_leD Suc_leI le_neq_implies_less linorder_not_le)
  qed
qed

lemma best_fold:
  assumes "i0 < m" "cost ! wrap_index n (i0 + 1) j \<ge> 0"
  shows "case fold (best_step n cost best j) [i0 + 1..<m] (best ! i0 + cost ! wrap_index n (i0 + 1) j, i0) of (b, i) \<Rightarrow>
    i0 \<le> i \<and> i < m \<and> cost ! wrap_index n (i + 1) j \<ge> 0 \<and> b = best ! i + cost ! wrap_index n (i + 1) j \<and>
    (\<forall>k. i0 \<le> k \<and> k < m \<and> cost ! wrap_index n (k + 1) j \<ge> 0 \<longrightarrow> b \<le> best ! k + cost ! wrap_index n (k + 1) j)"
  using assms(1)
proof (induction m)
  case (Suc m)
  show ?case
  proof (cases "i0 = m")
    case True
    then show ?thesis using assms(2) by (auto simp: le_less_Suc_eq)
  next
    case False
    then have m: "i0 < m" using Suc.prems by simp
    obtain b i where f: "fold (best_step n cost best j) [i0 + 1..<m] (best ! i0 + cost ! wrap_index n (i0 + 1) j, i0) = (b, i)" by force
    have ih: "i0 \<le> i" "i < m" "cost ! wrap_index n (i + 1) j \<ge> 0" "b = best ! i + cost ! wrap_index n (i + 1) j"
      "\<And>k. i0 \<le> k \<Longrightarrow> k < m \<Longrightarrow> cost ! wrap_index n (k + 1) j \<ge> 0 \<Longrightarrow> b \<le> best ! k + cost ! wrap_index n (k + 1) j"
      using Suc.IH [OF m, unfolded f prod.case] by blast+
    have eq: "fold (best_step n cost best j) [i0 + 1..<Suc m] (best ! i0 + cost ! wrap_index n (i0 + 1) j, i0) = best_step n cost best j m (b, i)"
      using f m by simp
    show ?thesis unfolding eq using ih m
      by (auto simp: best_step_def Let_def less_Suc_eq not_less intro: order_trans less_imp_le)
  qed
qed simp

lemma copy_column:
  assumes "i < j" "j < n" "length breaks = n * n" "m \<le> i"
  shows "length (fold (\<lambda>k breaks. breaks[wrap_index n k j := breaks ! wrap_index n k i]) [0..<m] breaks) = n * n \<and>
    (\<forall>k j'. k < n \<and> j' < n \<longrightarrow> fold (\<lambda>k breaks. breaks[wrap_index n k j := breaks ! wrap_index n k i]) [0..<m] breaks ! wrap_index n k j' =
      (if j' = j \<and> k < m then breaks ! wrap_index n k i else breaks ! wrap_index n k j'))"
  using assms(4)
proof (induction m)
  case (Suc m)
  let ?b = "fold (\<lambda>k breaks. breaks[wrap_index n k j := breaks ! wrap_index n k i]) [0..<m] breaks"
  have ih: "length ?b = n * n" "\<And>k j'. k < n \<Longrightarrow> j' < n \<Longrightarrow> ?b ! wrap_index n k j' = (if j' = j \<and> k < m then breaks ! wrap_index n k i else breaks ! wrap_index n k j')"
    using Suc by auto
  have m: "m < n" "i < n" using Suc.prems assms(1,2) by auto
  have "?b[wrap_index n m j := ?b ! wrap_index n m i] ! wrap_index n k j' =
      (if j' = j \<and> k < Suc m then breaks ! wrap_index n k i else breaks ! wrap_index n k j')" if "k < n" "j' < n" for k j'
    using that ih m assms(1,2) wrap_index_less [OF m(1) assms(2)]
    by (cases "k = m \<and> j' = j") (auto simp: wrap_index_eq nth_list_update less_Suc_eq)
  then show ?case using ih(1) by simp
qed (use assms(3) in simp)

lemma first_line_cost:
  assumes ar: "cost_arith (pw :: int \<Rightarrow> 'd::{linorder, plus, zero, one, uminus})"
    and "layout (\<lambda>i j. (0::'d) \<le> C i j) ks j"
  shows "\<exists>k \<le> j. 0 \<le> C 0 k \<and> C 0 k \<le> layout_cost C ks j \<and> 0 \<le> layout_cost C ks j"
  using assms(2)
proof (induction ks arbitrary: j)
  case (Cons l ks)
  then obtain k where k: "k \<le> l" "0 \<le> C 0 k" "C 0 k \<le> layout_cost C ks l" "0 \<le> layout_cost C ks l" by auto
  have "layout_cost C ks l \<le> layout_cost C ks l + C (l + 1) j" using cost_arithD(5) [OF ar k(4)] Cons.prems by auto
  then show ?case using k Cons.prems by (intro exI [of _ k]) auto
qed auto

text \<open>A prefix that fits the first line is best left whole.\<close>

lemma first_line_mono:
  assumes ok: "widths_ok wo wt" and ar: "cost_arith (pw :: int \<Rightarrow> 'd::{linorder, plus, zero, one, uminus})"
    and "k \<le> j" "j < length wo" "0 \<le> line_cost wo wt width first later pw 0 j" "0 \<le> line_cost wo wt width first later pw 0 k"
  shows "line_cost wo wt width first later pw 0 j \<le> line_cost wo wt width first later pw 0 k"
proof (cases "k = j")
  case False
  have fits: "line_width wo wt first later 0 j \<le> width"
    using assms(3,5) False line_cost_neg [OF ar, of wo wt width first later 0 j] by fastforce
  have le: "line_width wo wt first later 0 k \<le> line_width wo wt first later 0 j" by (rule line_width_mono [OF ok _ assms(3,4)]) simp
  show ?thesis
  proof (cases "j = length wo - 1")
    case True
    then show ?thesis using fits assms(6) by (simp add: line_cost_def Let_def)
  next
    case no: False
    have "pw (width - line_width wo wt first later 0 j) \<le> pw (width - line_width wo wt first later 0 k)"
      using fits le by (intro cost_arithD(3) [OF ar]) auto
    moreover have "k \<noteq> length wo - 1" using False assms(3,4) by simp
    ultimately show ?thesis using fits le no by (simp add: line_cost_def Let_def)
  qed
qed simp

lemma breaks_of_cong:
  assumes "\<And>k. k < j \<Longrightarrow> breaks ! wrap_index n k j = breaks' ! wrap_index n k j"
  shows "breaks_of n breaks j = breaks_of n breaks' j"
  unfolding breaks_of_def using assms by (intro filter_cong) auto

lemma column_step_whole:
  assumes ok: "widths_ok wo wt" and ar: "cost_arith (pw :: int \<Rightarrow> 'd::{linorder, plus, zero, one, uminus})"
    and C: "C = line_cost wo wt width first later pw" and n: "n = length wo"
    and inv: "columns_inv n C j (best, breaks)" and j: "j < n" and whole: "0 \<le> C 0 j"
  shows "columns_inv n C (Suc j) (best[j := C 0 j], breaks)"
proof -
  have zero: "\<And>j' k. j \<le> j' \<Longrightarrow> j' < n \<Longrightarrow> k < n \<Longrightarrow> breaks ! wrap_index n k j' = 0" and len: "length best = n"
    using inv by (auto simp: columns_inv_def)
  have "C 0 j \<le> layout_cost C ks j" if lay: "layout (\<lambda>i j. 0 \<le> C i j) ks j" for ks
  proof -
    obtain k where "k \<le> j" "0 \<le> C 0 k" "C 0 k \<le> layout_cost C ks j" using first_line_cost [OF ar lay] by blast
    moreover from this have "C 0 j \<le> C 0 k" using first_line_mono [OF ok ar, of k j width first later] j n whole C by simp
    ultimately show ?thesis by simp
  qed
  moreover have "breaks_of n breaks j = []" using zero j by (auto simp: breaks_of_def filter_empty_conv)
  ultimately have "column_ok n C (best[j := C 0 j]) breaks j" using whole zero j len by (simp add: column_ok_def)
  moreover have "column_ok n C (best[j := C 0 j]) breaks j'" if "j' < j" for j'
    using inv that by (simp add: columns_inv_def column_ok_def)
  ultimately show ?thesis using inv by (auto simp: columns_inv_def less_Suc_eq)
qed

lemma column_step_break:
  assumes ar: "cost_arith (pw :: int \<Rightarrow> 'd::{linorder, plus, zero, one, uminus})"
    and inv: "columns_inv n C j (best, breaks)" and j: "j < n" and whole: "\<not> (0::'d) \<le> C 0 j"
    and i: "i < j" "0 \<le> C (i + 1) j" and least: "\<And>k. k < j \<Longrightarrow> 0 \<le> C (k + 1) j \<Longrightarrow> best ! i + C (i + 1) j \<le> best ! k + C (k + 1) j"
  defines "breaks' \<equiv> (fold (\<lambda>k breaks. breaks[wrap_index n k j := breaks ! wrap_index n k i]) [0..<i] breaks)[wrap_index n i j := 1]"
  shows "columns_inv n C (Suc j) (best[j := best ! i + C (i + 1) j], breaks')"
proof -
  have zero: "\<And>j' k. j \<le> j' \<Longrightarrow> j' < n \<Longrightarrow> k < n \<Longrightarrow> breaks ! wrap_index n k j' = 0" and len: "length best = n" "length breaks = n * n"
    and cols: "\<And>j'. j' < j \<Longrightarrow> column_ok n C best breaks j'"
    using inv by (auto simp: columns_inv_def)
  have i': "i < n" using i(1) j by simp
  note copy = copy_column [OF i(1) j len(2) order_refl]
  have len': "length breaks' = n * n" using copy by (simp add: breaks'_def)
  have entry: "breaks' ! wrap_index n k j' =
      (if j' = j then if k < i then breaks ! wrap_index n k i else if k = i then 1 else breaks ! wrap_index n k j else breaks ! wrap_index n k j')"
    if "k < n" "j' < n" for k j'
    using that copy j wrap_index_less [OF i' j] by (auto simp: breaks'_def nth_list_update wrap_index_eq)
  have old: "breaks_of n breaks' j' = breaks_of n breaks j'" if "j' < j" for j'
    using that j entry by (intro breaks_of_cong) auto
  have "[0..<j] = [0..<i] @ i # [Suc i..<j]" using i(1) upt_add_eq_append [of 0 i "j - i"] by (simp add: upt_conv_Cons)
  moreover have "filter (\<lambda>k. breaks' ! wrap_index n k j \<noteq> 0) [0..<i] = breaks_of n breaks i"
    unfolding breaks_of_def using entry j i' by (intro filter_cong) auto
  moreover have "filter (\<lambda>k. breaks' ! wrap_index n k j \<noteq> 0) [Suc i..<j] = []"
    using entry j zero by (auto simp: filter_empty_conv)
  ultimately have new: "breaks_of n breaks' j = breaks_of n breaks i @ [i]"
    using entry [OF i' j] by (simp add: breaks_of_def)
  have ci: "layout (\<lambda>i j. 0 \<le> C i j) (rev (breaks_of n breaks i)) i" "layout_cost C (rev (breaks_of n breaks i)) i = best ! i"
    using cols [OF i(1)] by (auto simp: column_ok_def)
  have min: "best ! i + C (i + 1) j \<le> layout_cost C ks j" if lay: "layout (\<lambda>i j. 0 \<le> C i j) ks j" for ks
  proof (cases ks)
    case Nil
    then show ?thesis using lay whole by simp
  next
    case (Cons k ks')
    then have k: "k < j" "0 \<le> C (k + 1) j" "layout (\<lambda>i j. 0 \<le> C i j) ks' k" using lay by auto
    have "best ! k \<le> layout_cost C ks' k" using cols [OF k(1)] k(3) by (auto simp: column_ok_def)
    from cost_arithD(4) [OF ar this, of "C (k + 1) j"] least [OF k(1,2)] show ?thesis using Cons by simp
  qed
  have "column_ok n C (best[j := best ! i + C (i + 1) j]) breaks' j"
    unfolding column_ok_def using new ci i min j len zero entry by auto
  moreover have "column_ok n C (best[j := best ! i + C (i + 1) j]) breaks' j'" if "j' < j" for j'
    using cols [OF that] old [OF that] that j entry by (auto simp: column_ok_def)
  ultimately show ?thesis using len len' zero entry j by (auto simp: columns_inv_def less_Suc_eq)
qed

lemma column_step_inv:
  assumes ok: "widths_ok wo wt" and ar: "cost_arith (pw :: int \<Rightarrow> 'd::{linorder, plus, zero, one, uminus})"
    and C: "C = line_cost wo wt width first later pw" and n: "n = length wo" and j: "j < n"
    and cost: "\<And>i j. i \<le> j \<Longrightarrow> j < n \<Longrightarrow> cost ! wrap_index n i j = C i j"
    and inv: "columns_inv n C j (best, breaks)"
  shows "columns_inv n C (Suc j) (column_step n cost j (best, breaks))"
proof (cases "0 \<le> C 0 j")
  case True
  then show ?thesis
    using column_step_whole [OF ok ar C n inv j True] cost [of 0 j] j by (simp add: column_step_def)
next
  case False
  have single: "0 \<le> C j j" using line_cost_neg [OF ar, of wo wt width first later j j] by (simp add: C not_less)
  then have pos: "0 < j" using False by (cases j) auto
  have cst: "cost ! wrap_index n (k + 1) j = C (k + 1) j" if "k < j" for k using cost [of "k + 1" j] that j by simp
  let ?i0 = "scan_break n cost j 0"
  have "cost ! wrap_index n (j - 1 + 1) j \<ge> 0" using single cst [of "j - 1"] pos by simp
  with scan_break_first [of "j - 1" j 0 cost n] pos
  have i0: "?i0 < j" "cost ! wrap_index n (?i0 + 1) j \<ge> 0" "\<And>l. l < ?i0 \<Longrightarrow> cost ! wrap_index n (l + 1) j < 0" by auto
  obtain b i where f: "fold (best_step n cost best j) [?i0 + 1..<j] (best ! ?i0 + cost ! wrap_index n (?i0 + 1) j, ?i0) = (b, i)" by force
  note bf = best_fold [OF i0(1,2), of best, unfolded f prod.case]
  have i: "i < j" "0 \<le> C (i + 1) j" "b = best ! i + C (i + 1) j" using bf cst by auto
  have "best ! i + C (i + 1) j \<le> best ! k + C (k + 1) j" if "k < j" "0 \<le> C (k + 1) j" for k
  proof -
    have "\<not> k < ?i0" using i0(3) [of k] that cst [of k] by auto
    then have "b \<le> best ! k + cost ! wrap_index n (k + 1) j" using bf that cst [of k] by (metis not_less)
    then show ?thesis using cst [OF that(1)] i(3) by simp
  qed
  from column_step_break [OF ar inv j False i(1,2) this] show ?thesis
    using False cost [of 0 j] j f i(3) by (simp add: column_step_def Let_def)
qed

lemma columns_fold:
  assumes ok: "widths_ok wo wt" and ar: "cost_arith (pw :: int \<Rightarrow> 'd::{linorder, plus, zero, one, uminus})"
    and C: "C = line_cost wo wt width first later pw" and n: "n = length wo"
    and cost: "\<And>i j. i \<le> j \<Longrightarrow> j < n \<Longrightarrow> cost ! wrap_index n i j = C i j" and len: "length best = n"
  shows "m \<le> n \<Longrightarrow> columns_inv n C m (fold (column_step n cost) [0..<m] (best, replicate (n * n) 0))"
proof (induction m)
  case 0
  then show ?case using len by (auto simp: columns_inv_def wrap_index_less)
next
  case (Suc m)
  obtain b br where f: "fold (column_step n cost) [0..<m] (best, replicate (n * n) 0) = (b, br)" by force
  have "columns_inv n C m (b, br)" using Suc f by simp
  from column_step_inv [OF ok ar C n _ cost this] Suc.prems show ?case by (simp add: f)
qed

lemma dynamic_result:
  assumes "widths_ok widths_orig widths_trim" "widths_orig \<noteq> []"
    and "cost_arith (pw :: int \<Rightarrow> 'd::{linorder, plus, zero, one, uminus})"
    and "length widths_orig * length widths_orig \<le> min SIZE_MAX (min max_cost max_breaks)"
  shows "\<exists>wrap_after. dynamic max_cost max_breaks widths_orig widths_trim width pw first_width later_width cost best = Inr wrap_after \<and>
    layout (line_fits widths_orig widths_trim width first_width later_width) (rev wrap_after) (length widths_orig - 1) \<and>
    (\<forall>ks. layout (line_fits widths_orig widths_trim width first_width later_width) ks (length widths_orig - 1) \<longrightarrow>
      layout_cost (line_cost widths_orig widths_trim width first_width later_width pw) (rev wrap_after) (length widths_orig - 1) \<le>
      layout_cost (line_cost widths_orig widths_trim width first_width later_width pw) ks (length widths_orig - 1))"
proof -
  let ?n = "length widths_orig" and ?C = "line_cost widths_orig widths_trim width first_width later_width pw"
  let ?cost = "fill_cost widths_orig widths_trim width first_width later_width pw (vec_resize cost (?n * ?n))"
  have pos: "0 < ?n" using assms(2) by simp
  have len: "length (vec_resize cost (?n * ?n)) = ?n * ?n" "length (vec_resize best ?n) = ?n" by (auto simp: vec_resize_def)
  obtain b br where f: "fold (column_step ?n ?cost) [0..<?n] (vec_resize best ?n, replicate (?n * ?n) 0) = (b, br)" by force
  have "columns_inv ?n ?C ?n (b, br)"
    using columns_fold [OF assms(1,3) refl refl fill_cost_line_cost(2) [OF assms(1,3) len(1)] len(2), of ?n width first_width later_width]
    unfolding f by simp
  then have col: "column_ok ?n ?C b br (?n - 1)" using pos by (simp add: columns_inv_def)
  have "?n \<le> SIZE_MAX div ?n" using assms(4) pos by (simp add: less_eq_div_iff_mult_less_eq)
  then have "dynamic max_cost max_breaks widths_orig widths_trim width pw first_width later_width cost best =
      Inr (filter (\<lambda>i. br ! wrap_index ?n i (?n - 1) \<noteq> 0) [0..<?n])"
    using assms(4) f by (simp add: dynamic_def Let_def)
  moreover have "[0..<?n] = [0..<?n - 1] @ [?n - 1]" using pos by (metis Suc_pred' upt_Suc_append le0)
  then have "filter (\<lambda>i. br ! wrap_index ?n i (?n - 1) \<noteq> 0) [0..<?n] = breaks_of ?n br (?n - 1)"
    using col pos by (simp add: breaks_of_def column_ok_def)
  moreover have "(\<lambda>i j. 0 \<le> ?C i j) = line_fits widths_orig widths_trim width first_width later_width"
    using line_cost_neg [OF assms(3), of widths_orig widths_trim width first_width later_width] by (auto simp: line_fits_def fun_eq_iff simp flip: not_less)
  ultimately show ?thesis using col by (auto simp: column_ok_def)
qed

text \<open>C1. The dynamic programme returns a layout whose total cost, summed line by line, is the least of all layouts
  in which every line of several words fits; it fails only when the matrix does not fit its vectors. The costs of
  earlier records left in the vectors do not matter.\<close>
theorem dynamic_least_cost:
  assumes "widths_ok widths_orig widths_trim" "widths_orig \<noteq> []"
    and "cost_arith (pw :: int \<Rightarrow> 'd::{linorder, plus, zero, one, uminus})"
    and "length widths_orig * length widths_orig \<le> min SIZE_MAX (min max_cost max_breaks)"
  shows "\<exists>wrap_after. dynamic max_cost max_breaks widths_orig widths_trim width pw first_width later_width cost best = Inr wrap_after \<and>
    layout (line_fits widths_orig widths_trim width first_width later_width) (rev wrap_after) (length widths_orig - 1) \<and>
    (\<forall>ks. layout (line_fits widths_orig widths_trim width first_width later_width) ks (length widths_orig - 1) \<longrightarrow>
      layout_cost (line_cost widths_orig widths_trim width first_width later_width pw) (rev wrap_after) (length widths_orig - 1) \<le>
      layout_cost (line_cost widths_orig widths_trim width first_width later_width pw) ks (length widths_orig - 1))"
  by (rule dynamic_result [OF assms])

theorem dynamic_least_cost_witness:
  "\<exists>wrap_after. dynamic 100 100 [4, 3, 6, 3] [3, 2, 5, 3] 8 (\<lambda>r. r * r) 0 0 [] [] = Inr wrap_after \<and>
    layout (line_fits [4, 3, 6, 3] [3, 2, 5, 3] 8 0 0) (rev wrap_after) 3"
proof -
  have "cost_arith (\<lambda>r :: int. r * r)" by (auto simp: cost_arith_def intro: mult_mono)
  moreover have "(16::nat) \<le> SIZE_MAX" by (simp add: SIZE_MAX_def)
  moreover have "widths_ok [4, 3, 6, 3] [3, 2, 5, 3]" by (simp add: widths_ok_def less_Suc_eq numeral_eq_Suc)
  ultimately show ?thesis
    using dynamic_least_cost [of "[4, 3, 6, 3]" "[3, 2, 5, 3]" "\<lambda>r :: int. r * r" 100 100 8 0 0 "[]" "[]"] by (auto simp: numeral_3_eq_3)
qed

end
