(* ===== verification/Wrap.thy ===== *)
theory Wrap
  imports Boundary Wrap_Layout
begin

unbundle bit_operations_syntax

text \<open>
  The word wrapping engine of \<^verbatim>\<open>src/shared/wrap.h\<close> and \<^verbatim>\<open>wrap.cpp\<close>: display widths, line
  prefixes, the preparation of a record, its cutting into measured words, the plan that
  chooses the breaks and the lines it yields. The character properties, the break iterator
  and the normalizer of ICU are parameters. \<open>record_data_\<close> is kept as the bytes it points to
  up to \<open>record_length_\<close>; the loops \<open>while (next(range))\<close> take the ranges from \<open>drain_next\<close>,
  since a failing word ends them and the next \<open>set_text\<close> starts the iterator afresh.

  The lemmas show that the widths of the words are those of their code points and what the layout
  theory assumes, that every planned line is part of the record and fits the width unless it holds
  one word, the line of the ASCII shortcut included, and that the size and the text of the joined lines agree.
\<close>

subsection \<open>Widths\<close>

record uprops =
  u_charType :: "int \<Rightarrow> nat"
  u_eastAsianWidth :: "int \<Rightarrow> int"
  u_hangulType :: "int \<Rightarrow> int"
  u_emojiModifier :: "int \<Rightarrow> bool"
  u_emojiPresentation :: "int \<Rightarrow> bool"
  u_whiteSpace :: "int \<Rightarrow> bool"

definition gc_mask :: "nat \<Rightarrow> int" where "gc_mask t = push_bit t 1"

definition bad_utf8_msg :: string where
  "bad_utf8_msg = ''invalid UTF-8 byte sequence detected; try calling ci_enc_toutf8()''"

definition wrap_has_bom :: "byte list \<Rightarrow> nat \<Rightarrow> bool" where
  "wrap_has_bom data len \<longleftrightarrow> 3 \<le> len \<and> data ! 0 = 0xef \<and> data ! 1 = 0xbb \<and> data ! 2 = 0xbf"

definition bytes_are_ascii :: "byte list \<Rightarrow> nat \<Rightarrow> bool" where
  "bytes_are_ascii data len = list_all (\<lambda>b. \<not> b \<ge> 0x80) (take len data)"

definition ascii_char_width :: "int \<Rightarrow> int" where
  "ascii_char_width v = (if v \<ge> 0x20 \<and> v \<noteq> 0x7f then 1 else 0)"

definition character_width :: "uprops \<Rightarrow> int \<Rightarrow> int" where
  "character_width p v =
     (if v \<ge> 0 \<and> v \<le> 0x7f then ascii_char_width v
      else
        let category = gc_mask (u_charType p v); east_asian = u_eastAsianWidth p v in
        if v = 0x00ad then 1
        else if v = 0x200b then 0
        else if category AND (gc_mask 6 OR gc_mask 7 OR gc_mask 16 OR gc_mask 15) \<noteq> 0 then 0
        else
          let hangul = u_hangulType p v in
          if hangul = 2 \<or> hangul = 3 then 0
          else if v \<ge> 0xfe00 \<and> v \<le> 0xfe0f then 0
          else if u_emojiModifier p v then 0
          else if east_asian = 3 \<or> east_asian = 5 then 2
          else if category AND gc_mask 27 \<noteq> 0 then 2
          else if east_asian = 0 \<and> u_emojiPresentation p v then 2
          else 1)"

definition character_width_with_context :: "uprops \<Rightarrow> int \<Rightarrow> int \<Rightarrow> bool \<Rightarrow> int \<times> bool" where
  "character_width_with_context p v previous reset =
     (let (previous, reset) = (if reset then (0, False) else (previous, reset)) in
      if previous = 0x200d \<and>
         (u_emojiModifier p v \<or> u_emojiPresentation p v \<or> v = 0x2640 \<or> v = 0x2642 \<or> v = 0x26a7 \<or> v = 0x2695 \<or> v = 0x2696 \<or>
          v = 0x1f5e8 \<or> v = 0x1f32b \<or> v = 0x2708 \<or> v = 0x2764 \<or> v = 0x2744 \<or> v = 0x2620)
      then (0, reset)
      else if previous \<ge> 0x1f1e6 \<and> previous \<le> 0x1f1ff \<and> v \<ge> 0x1f1e6 \<and> v \<le> 0x1f1ff then (0, True)
      else (character_width p v, reset))"

lemma U8_NEXT_after: "i < fst (U8_NEXT s i n)"
  by (simp add: U8_NEXT_fst U8_FWD_1_gt)

lemma U8_NEXT_eq_gt: "(j, c) = U8_NEXT s i n \<Longrightarrow> i < j"
  using U8_NEXT_after [of i s n] by (metis fst_conv)

lemma U8_NEXT_eq_le: "i < n \<Longrightarrow> (j, c) = U8_NEXT s i n \<Longrightarrow> j \<le> n"
  using U8_FWD_1_le [of i n s] U8_NEXT_fst [of s i n] by (metis fst_conv)

function cp_count_loop :: "byte list \<Rightarrow> nat \<Rightarrow> nat \<Rightarrow> int \<Rightarrow> int result" where
  "cp_count_loop data len cursor count =
     (if cursor < len then
        let (cursor', c) = U8_NEXT data cursor len in
        if c < 0 then Inl (Runtime_error bad_utf8_msg) else cp_count_loop data len cursor' (count + 1)
      else Inr count)"
  by pat_completeness auto
termination by (relation "measure (\<lambda>(data, len, cursor, count). len - cursor)") (auto dest: U8_NEXT_eq_gt)

definition code_point_count :: "byte list \<Rightarrow> nat \<Rightarrow> int result" where
  "code_point_count data len = cp_count_loop data len 0 0"

function width_loop :: "uprops \<Rightarrow> byte list \<Rightarrow> nat \<Rightarrow> nat \<Rightarrow> int \<Rightarrow> bool \<Rightarrow> int \<Rightarrow> int result" where
  "width_loop p data len cursor current reset width =
     (if cursor < len then
        let previous = current; b = data ! cursor in
        if b < 0x80 then width_loop p data len (cursor + 1) (uint b) False (width + ascii_char_width (uint b))
        else
          let (cursor', current) = U8_NEXT data cursor len in
          if current < 0 then Inl (Runtime_error bad_utf8_msg)
          else
            let (w, reset) = character_width_with_context p current previous reset
            in width_loop p data len cursor' current reset (width + w)
      else Inr width)"
  by pat_completeness auto
termination
  by (relation "measure (\<lambda>(p, data, len, cursor, current, reset, width). len - cursor)") (auto dest: U8_NEXT_eq_gt)

declare cp_count_loop.simps [simp del] width_loop.simps [simp del]

definition string_width :: "uprops \<Rightarrow> byte list \<Rightarrow> nat \<Rightarrow> int result" where
  "string_width p data len = width_loop p data len 0 0 True 0"

definition checked_sum :: "nat \<Rightarrow> nat \<Rightarrow> nat result" where
  "checked_sum left right =
     (let mx = nat INT_MAX in
      if left > mx \<or> right > mx - left then Inl (Length_error ''wrapped string exceeds R's string length limit'') else Inr (left + right))"

subsection \<open>Line prefixes\<close>

record line_start_rec =
  ls_bytes :: "byte list"
  ls_count :: int
  ls_width :: int
  ls_ascii :: bool
  ls_missing :: bool

definition LineStart :: line_start_rec where
  "LineStart = \<lparr>ls_bytes = [], ls_count = 0, ls_width = 0, ls_ascii = False, ls_missing = True\<rparr>"

definition linestart_reset :: "uprops \<Rightarrow> string_view \<Rightarrow> int \<Rightarrow> line_start_rec result" where
  "linestart_reset p source spaces =
     (if spaces < 0 then Inl (Invalid_argument ''negative wrap indentation'')
      else if is_na source then Inr LineStart
      else if sv_len source < 0 \<or> sv_ptr source = NullPtr \<and> sv_len source \<noteq> 0 then
        Inl (Invalid_argument ''invalid wrap prefix string view'')
      else if sv_enc source \<notin> {Enc_ascii, Enc_utf8, Enc_ascii_or_utf8} then
        Inl (Invalid_argument ''wrap prefix is not normalized UTF-8'')
      else
        let data = ptr_bytes (sv_ptr source); len = nat (sv_len source) in
        bindE (checked_sum len (nat spaces)) (\<lambda>output_size.
          let ascii = sv_enc source = Enc_ascii \<or> sv_enc source = Enc_ascii_or_utf8 \<and> bytes_are_ascii data len in
          bindE (if ascii then Inr (int len) else code_point_count data len) (\<lambda>count.
            bindE (string_width p data len) (\<lambda>width.
              Inr \<lparr>ls_bytes = take len data @ replicate (nat spaces) 0x20, ls_count = count + spaces, ls_width = width + spaces,
                   ls_ascii = ascii, ls_missing = False\<rparr>))))"

subsection \<open>The engine\<close>

record 'd wrap_options =
  wr_locale :: "string option"
  wr_width :: int
  wr_exponent :: 'd
  wr_whitespace_only :: bool
  wr_use_length :: bool
  wr_normalize :: bool

text \<open>What the engine uses of ICU besides character properties: the break iterator, the statuses of
  building the two frozen sets, and the NFC instance as a function on bytes.\<close>

record wrap_icu =
  wi_props :: uprops
  wi_brk :: icu_brk
  wi_linebreaks_status :: int
  wi_whitespaces_status :: int
  wi_sets_bogus :: bool
  wi_nfc :: "int \<times> (byte list \<Rightarrow> int \<times> byte list) option"

record 'd engine =
  en_iterator :: boundary_iterator
  en_sets_ready :: bool
  en_normalizer :: "(byte list \<Rightarrow> int \<times> byte list) option"
  en_end_orig :: "nat list"
  en_widths_orig :: "nat list"
  en_widths_trim :: "nat list"
  en_end_trim :: "nat list"
  en_wrap_after :: "nat list"
  en_cost :: "'d list"
  en_best :: "'d list"
  en_options :: "'d wrap_options"
  en_record :: "byte list"
  en_direct_end :: int
  en_line_count :: int
  en_record_ascii :: bool
  en_passthrough :: bool

definition is_linebreak :: "int \<Rightarrow> bool" where
  "is_linebreak c \<longleftrightarrow> 0x0a \<le> c \<and> c \<le> 0x0d \<or> c = 0x85 \<or> c = 0x2028 \<or> c = 0x2029"

definition clear_words :: "'d engine \<Rightarrow> 'd engine" where
  "clear_words en = en\<lparr>en_end_orig := [], en_widths_orig := [], en_widths_trim := [], en_end_trim := [], en_wrap_after := []\<rparr>"

definition UBRK_LINE :: int where "UBRK_LINE = 2"

definition engine_reset :: "wrap_icu \<Rightarrow> 'd wrap_options \<Rightarrow> 'd engine \<Rightarrow> 'd engine \<times> int \<times> bool" where
  "engine_reset icu options en =
     (let en = en\<lparr>en_options := options, en_normalizer := None, en_record := [], en_direct_end := - 1, en_line_count := 0,
                   en_record_ascii := True, en_passthrough := False\<rparr>;
          en = clear_words en;
          (it, status, root_fallback) = bi_reset (wi_brk icu) \<lparr>bo_locale = wr_locale options, bo_rules = None, bo_rules_length = 0,
            bo_type = UBRK_LINE, bo_skip_rules = None, bo_skip_size = 0, bo_custom_rules = False\<rparr> (en_iterator en);
          en = en\<lparr>en_iterator := it\<rparr>
      in
      if U_FAILURE status then (en, status, root_fallback)
      else if \<not> en_sets_ready en \<and> U_FAILURE (wi_linebreaks_status icu) then (en, wi_linebreaks_status icu, root_fallback)
      else if \<not> en_sets_ready en \<and> U_FAILURE (wi_whitespaces_status icu) then (en, wi_whitespaces_status icu, root_fallback)
      else if \<not> en_sets_ready en \<and> wi_sets_bogus icu then (en, U_MEMORY_ALLOCATION_ERROR, root_fallback)
      else
        let en = en\<lparr>en_sets_ready := True\<rparr> in
        if wr_normalize options then
          let (status, norm) = wi_nfc icu;
              en = en\<lparr>en_normalizer := norm\<rparr>;
              status = (if norm = None \<and> \<not> U_FAILURE status then U_MEMORY_ALLOCATION_ERROR else status)
          in if U_FAILURE status then (en, status, root_fallback) else (en, 0, root_fallback)
        else (en, 0, root_fallback))"

text \<open>The leading byte order marks: at most three are skipped.\<close>

fun skip_boms :: "nat \<Rightarrow> byte list \<Rightarrow> nat \<Rightarrow> nat \<Rightarrow> bool \<Rightarrow> nat \<times> bool" where
  "skip_boms 0 input len cursor field_start = (cursor, field_start)"
| "skip_boms (Suc stages) input len cursor field_start =
     (if wrap_has_bom (drop cursor input) (len - cursor) then skip_boms stages input len (cursor + 3) False else (cursor, field_start))"

function prepare_loop :: "byte list \<Rightarrow> nat \<Rightarrow> nat \<Rightarrow> bool \<Rightarrow> bool \<Rightarrow> byte list \<Rightarrow> byte list result" where
  "prepare_loop input len cursor field_start in_space_run prepared =
     (if cursor < len then
        if field_start \<and> wrap_has_bom (drop cursor input) (len - cursor) then
          prepare_loop input len (cursor + 3) False in_space_run prepared
        else
          let (cursor', c) = U8_NEXT input cursor len in
          if c < 0 then Inl (Runtime_error bad_utf8_msg)
          else if is_linebreak c then
            prepare_loop input len (if c = 0x0d \<and> cursor' < len \<and> input ! cursor' = 0x0a then cursor' + 1 else cursor') True True
              (if \<not> in_space_run then prepared @ [0x20] else prepared)
          else if c = 0x20 \<or> c = 0x09 then
            prepare_loop input len cursor' False True (if \<not> in_space_run then prepared @ [0x20] else prepared)
          else prepare_loop input len cursor' False False (prepared @ slice input cursor cursor')
      else Inr prepared)"
  by pat_completeness auto
termination
  by (relation "measure (\<lambda>(input, len, cursor, field_start, in_space_run, prepared). len - cursor)") (auto dest: U8_NEXT_eq_gt)

declare prepare_loop.simps [simp del]

function trim_begin :: "uprops \<Rightarrow> byte list \<Rightarrow> nat \<Rightarrow> nat \<Rightarrow> nat" where
  "trim_begin p s len b =
     (if b < len then
        let (b', c) = U8_NEXT s b len in if \<not> u_whiteSpace p c then b else trim_begin p s len b'
      else b)"
  by pat_completeness auto
termination by (relation "measure (\<lambda>(p, s, len, b). len - b)") (auto dest: U8_NEXT_eq_gt)

lemma U8_PREV_less: "0 < i \<Longrightarrow> (j, c) = U8_PREV s 0 i \<Longrightarrow> j < i"
proof -
  assume i: "0 < i" and eq: "(j, c) = U8_PREV s 0 i"
  have "utf8_back1SafeBody s 0 k \<le> k" for k by (simp add: utf8_back1SafeBody_def Let_def)
  from this [of "i - 1"] have "U8_BACK_1 s 0 i < i" using i by (auto simp: U8_BACK_1_def Let_def)
  then show ?thesis using eq U8_PREV_fst [of s 0 i] by (metis fst_conv)
qed

function trim_end :: "uprops \<Rightarrow> byte list \<Rightarrow> nat \<Rightarrow> nat \<Rightarrow> nat" where
  "trim_end p s b e =
     (if e > b then
        let (e', c) = U8_PREV s 0 e in if \<not> u_whiteSpace p c then e else trim_end p s b e'
      else e)"
  by pat_completeness auto
termination by (relation "measure (\<lambda>(p, s, b, e). e)") (auto dest: U8_PREV_less [rotated])

declare trim_begin.simps [simp del] trim_end.simps [simp del]

text \<open>The record and its ASCII mark, or the status of the normalizer.\<close>

definition finish_record :: "(byte list \<Rightarrow> int \<times> byte list) \<Rightarrow> byte list \<Rightarrow> 'd engine \<Rightarrow> (int \<times> 'd engine) result" where
  "finish_record nfc trimmed en =
     (if bytes_are_ascii trimmed (length trimmed) then Inr (0, en\<lparr>en_record := trimmed, en_record_ascii := True\<rparr>)
      else
        let (status, normalized) = nfc trimmed in
        if U_FAILURE status then Inr (status, en)
        else if int (length normalized) > INT_MAX then Inl (Length_error ''normalized string exceeds R's string length limit'')
        else
          let data = (if wrap_has_bom normalized (length normalized) then drop 3 normalized else normalized)
          in Inr (0, en\<lparr>en_record := data, en_record_ascii := bytes_are_ascii data (length data)\<rparr>))"

definition prepare_record :: "uprops \<Rightarrow> string_view \<Rightarrow> 'd engine \<Rightarrow> (int \<times> 'd engine) result" where
  "prepare_record p source en =
     (if is_na source then Inl (Invalid_argument ''cannot wrap a missing string'')
      else if sv_len source < 0 \<or> sv_ptr source = NullPtr \<and> sv_len source \<noteq> 0 then Inl (Invalid_argument ''invalid wrap input string view'')
      else if sv_enc source \<notin> {Enc_ascii, Enc_utf8, Enc_ascii_or_utf8} then Inl (Invalid_argument ''wrap input is not normalized UTF-8'')
      else
        let input = sv_bytes source; len = length input in
        if \<not> wr_normalize (en_options en) then
          Inr (0, en\<lparr>en_record := input,
            en_record_ascii := sv_enc source = Enc_ascii \<or> sv_enc source = Enc_ascii_or_utf8 \<and> bytes_are_ascii input len\<rparr>)
        else
          case en_normalizer en of
            None \<Rightarrow> Inl (Logic_error ''wrap normalizer has not been initialized'')
          | Some nfc \<Rightarrow>
              let (cursor, field_start) = skip_boms 3 input len 0 True in
              bindE (prepare_loop input len cursor field_start False []) (\<lambda>prepared.
                let b = trim_begin p prepared (length prepared) 0;
                    e = trim_end p prepared b (length prepared);
                    trimmed = slice prepared b e
                in finish_record nfc trimmed en))"

text \<open>The state of \<open>ascii_fits\<close> in its loop: the width so far, the width of the last byte, whether it is
  a space, the flag and the code point of \<open>character_width_with_context\<close>.\<close>

fun ascii_fits_loop :: "uprops \<Rightarrow> bool \<Rightarrow> byte list \<Rightarrow> int \<Rightarrow> int \<Rightarrow> bool \<Rightarrow> bool \<Rightarrow> int \<Rightarrow> (int \<times> int \<times> bool) option result" where
  "ascii_fits_loop p use_length [] measured last_width last_whitespace reset current = Inr (Some (measured, last_width, last_whitespace))"
| "ascii_fits_loop p use_length (b # bs) measured last_width last_whitespace reset current =
     (if b \<ge> 0x80 then Inr None
      else if b \<ge> 0x0a \<and> b \<le> 0x0d then Inl (Runtime_error ''newline character found in a string'')
      else
        let previous = current; current = uint b;
            (last_width, reset) = (if use_length then (1, reset) else character_width_with_context p current previous reset)
        in ascii_fits_loop p use_length bs (measured + last_width) last_width (u_whiteSpace p current) reset current)"

definition ascii_fits :: "uprops \<Rightarrow> 'd engine \<Rightarrow> int \<Rightarrow> nat option result" where
  "ascii_fits p en first_width =
     (if length (en_record en) \<le> 0 then Inr None
      else
        bindE (ascii_fits_loop p (wr_use_length (en_options en)) (en_record en) 0 0 False True 0) (\<lambda>r.
          case r of
            None \<Rightarrow> Inr None
          | Some (measured, last_width, last_whitespace) \<Rightarrow>
              let output_end = length (en_record en) - (if last_whitespace then 1 else 0);
                  trimmed = measured - (if last_whitespace then last_width else 0)
              in Inr (if first_width + trimmed \<le> wr_width (en_options en) then Some output_end else None)))"

text \<open>The measures of \<open>add_word\<close>; the widths are 32-bit unsigned numbers.\<close>

record word_measure =
  wm_width_orig :: nat
  wm_width_trim :: nat
  wm_count_orig :: int
  wm_count_trim :: int
  wm_end_trim :: nat

function add_word_loop :: "uprops \<Rightarrow> byte list \<Rightarrow> nat \<Rightarrow> nat \<Rightarrow> int \<Rightarrow> bool \<Rightarrow> word_measure \<Rightarrow> word_measure result" where
  "add_word_loop p data e cursor current reset m =
     (if cursor < e then
        let previous_byte = cursor; previous = current; (cursor', current) = U8_NEXT data cursor e in
        if current < 0 then Inl (Runtime_error bad_utf8_msg)
        else if is_linebreak current then Inl (Runtime_error ''newline character found in a string'')
        else
          let (w, reset) = character_width_with_context p current previous reset;
              m = m\<lparr>wm_width_orig := nat ((int (wm_width_orig m) + w) mod 2 ^ 32), wm_count_orig := wm_count_orig m + 1\<rparr>
          in
          if u_whiteSpace p current then
            let (w, reset) = character_width_with_context p current previous reset
            in add_word_loop p data e cursor' current reset
                 (m\<lparr>wm_width_trim := nat (w mod 2 ^ 32), wm_count_trim := 1, wm_end_trim := previous_byte\<rparr>)
          else add_word_loop p data e cursor' current reset (m\<lparr>wm_width_trim := 0, wm_count_trim := 0, wm_end_trim := cursor'\<rparr>)
      else Inr m)"
  by pat_completeness auto
termination
  by (relation "measure (\<lambda>(p, data, e, cursor, current, reset, m). e - cursor)") (auto dest: U8_NEXT_eq_gt)

declare add_word_loop.simps [simp del]

definition add_word :: "uprops \<Rightarrow> nat \<Rightarrow> nat \<Rightarrow> 'd engine \<Rightarrow> 'd engine result" where
  "add_word p b e en =
     bindE (add_word_loop p (en_record en) e b 0 True
         \<lparr>wm_width_orig = 0, wm_width_trim = 0, wm_count_orig = 0, wm_count_trim = 0, wm_end_trim = b\<rparr>) (\<lambda>m.
       Inr (en\<lparr>en_end_orig := en_end_orig en @ [e],
               en_widths_orig := en_widths_orig en @ [if wr_use_length (en_options en) then nat (wm_count_orig m mod 2 ^ 32) else wm_width_orig m],
               en_widths_trim := en_widths_trim en @ [if wr_use_length (en_options en) then nat ((wm_count_orig m - wm_count_trim m) mod 2 ^ 32)
                  else nat ((int (wm_width_orig m) - int (wm_width_trim m)) mod 2 ^ 32)],
               en_end_trim := en_end_trim en @ [wm_end_trim m]\<rparr>))"

fun words_loop :: "uprops \<Rightarrow> (int \<times> int) list \<Rightarrow> nat \<Rightarrow> 'd engine \<Rightarrow> 'd engine result" where
  "words_loop p [] previous_end en = Inr en"
| "words_loop p ((s, m) # ranges) previous_end en =
     (let accepted =
        (if wr_whitespace_only (en_options en) then
           if m > 0 \<and> m < int (length (en_record en)) then u_whiteSpace p (U8_GET (en_record en) 0 (nat (m - 1)) (length (en_record en)))
           else True
         else True)
      in if accepted \<and> m > 0 then bindE (add_word p previous_end (nat m) en) (words_loop p ranges (nat m))
         else words_loop p ranges previous_end en)"

definition choose_breaks ::
  "nat \<Rightarrow> nat \<Rightarrow> (int \<Rightarrow> 'd \<Rightarrow> 'd::{linorder, plus, zero, one, uminus}) \<Rightarrow> int \<Rightarrow> int \<Rightarrow> 'd engine \<Rightarrow> nat list result" where
  "choose_breaks max_cost max_breaks pow first_width later_width en =
     (let options = en_options en in
      if \<not> fits_one_line (en_widths_orig en) (en_widths_trim en) (wr_width options) first_width then
        if wr_exponent options \<le> 0 then
          Inr (greedy (en_widths_orig en) (en_widths_trim en) (wr_width options) first_width later_width)
        else dynamic max_cost max_breaks (en_widths_orig en) (en_widths_trim en) (wr_width options)
          (\<lambda>r. pow r (wr_exponent options)) first_width later_width (en_cost en) (en_best en)
      else Inr [])"

text \<open>The plan: the limits of the two vectors of \<open>dynamic\<close> and \<open>std::pow\<close> on a converted width are
  parameters. The status is returned with the engine.\<close>

definition plan ::
  "wrap_icu \<Rightarrow> nat \<Rightarrow> nat \<Rightarrow> (int \<Rightarrow> 'd \<Rightarrow> 'd::{linorder, plus, zero, one, uminus}) \<Rightarrow> string_view \<Rightarrow> line_start_rec \<Rightarrow> line_start_rec \<Rightarrow> 'd engine \<Rightarrow> (int \<times> 'd engine) result" where
  "plan icu max_cost max_breaks pow source first later en =
     (if ls_missing first \<or> ls_missing later then Inl (Invalid_argument ''missing wrap line start'')
      else
        let en = (clear_words en)\<lparr>en_direct_end := - 1, en_line_count := 0, en_passthrough := False\<rparr> in
        bindE (prepare_record (wi_props icu) source en) (\<lambda>(prepared, en).
        if U_FAILURE prepared then Inr (prepared, en)
        else
          let options = en_options en;
              first_width = (if wr_use_length options then ls_count first else ls_width first);
              later_width = (if wr_use_length options then ls_count later else ls_width later)
          in
          bindE (ascii_fits (wi_props icu) en first_width) (\<lambda>fit.
          case fit of
            Some ascii_end \<Rightarrow> Inr (0, en\<lparr>en_direct_end := int ascii_end, en_line_count := 1\<rparr>)
          | None \<Rightarrow>
              let (it, status) = bi_set_text (wi_brk icu)
                    (view_of 1 (if en_record_ascii en then Enc_ascii else Enc_utf8) (en_record en)) (en_iterator en);
                  en = en\<lparr>en_iterator := it\<rparr>
              in
              if U_FAILURE status then Inr (status, en)
              else
                let (ranges, it) = drain_next (bi_first it); en = en\<lparr>en_iterator := it\<rparr> in
                bindE (words_loop (wi_props icu) ranges 0 en) (\<lambda>en.
                if en_end_orig en = [] then Inr (0, en\<lparr>en_passthrough := True, en_line_count := 1\<rparr>)
                else
                  bindE (choose_breaks max_cost max_breaks pow first_width later_width en) (\<lambda>wrap_after.
                    let en = en\<lparr>en_wrap_after := wrap_after\<rparr> in
                    if int (length wrap_after) \<ge> INT_MAX then Inl (Length_error ''word-wrap result has too many lines'')
                    else Inr (0, en\<lparr>en_line_count := int (length wrap_after) + 1\<rparr>))))))"

subsection \<open>Lines\<close>

record wrap_line =
  ln_prefix :: "byte list"
  ln_body :: "byte list"
  ln_size :: nat
  ln_ascii :: bool

definition wrap_line_at :: "int \<Rightarrow> line_start_rec \<Rightarrow> line_start_rec \<Rightarrow> bool \<Rightarrow> 'd engine \<Rightarrow> wrap_line result" where
  "wrap_line_at index first later classify_ascii en =
     (if index < 0 \<or> index \<ge> en_line_count en then Inl (Out_of_range ''wrapped line index is out of range'')
      else if en_passthrough en then
        Inr \<lparr>ln_prefix = [], ln_body = en_record en, ln_size = length (en_record en), ln_ascii = classify_ascii \<and> en_record_ascii en\<rparr>
      else
        let start = (if index = 0 then first else later);
            (b, e) = (if en_direct_end en < 0 then
              (if index > 0 then en_end_orig en ! (en_wrap_after en ! nat (index - 1)) else 0,
               if nat index < length (en_wrap_after en) then en_end_trim en ! (en_wrap_after en ! nat index) else last (en_end_trim en))
              else (0, nat (en_direct_end en)));
            body = slice (en_record en) b e
        in bindE (checked_sum (length (ls_bytes start)) (size_cast (int e - int b))) (\<lambda>output_size.
             let body_ascii = classify_ascii \<and> (en_record_ascii en \<or> bytes_are_ascii body (e - b))
             in Inr \<lparr>ln_prefix = ls_bytes start, ln_body = body, ln_size = output_size, ln_ascii = classify_ascii \<and> ls_ascii start \<and> body_ascii\<rparr>))"

fun joined_loop :: "int list \<Rightarrow> line_start_rec \<Rightarrow> line_start_rec \<Rightarrow> bool \<Rightarrow> 'd engine \<Rightarrow> nat \<Rightarrow> bool \<Rightarrow> (nat \<times> bool) result" where
  "joined_loop [] first later classify_ascii en sz ascii = Inr (sz, ascii)"
| "joined_loop (i # idx) first later classify_ascii en sz ascii =
     bindE (wrap_line_at i first later classify_ascii en) (\<lambda>current.
       bindE (checked_sum sz (ln_size current)) (\<lambda>sz.
         joined_loop idx first later classify_ascii en sz (ascii \<and> ln_ascii current)))"

definition joined :: "line_start_rec \<Rightarrow> line_start_rec \<Rightarrow> bool \<Rightarrow> 'd engine \<Rightarrow> (nat \<times> bool) result" where
  "joined first later classify_ascii en =
     (if en_line_count en \<le> 0 then Inl (Logic_error ''wrapped record has not been planned'')
      else joined_loop (map int [0..<nat (en_line_count en)]) first later classify_ascii en (nat (en_line_count en - 1)) True)"

definition write_line :: "wrap_line \<Rightarrow> byte list \<Rightarrow> nat \<Rightarrow> byte list" where
  "write_line ln dest off =
     (let dest = (if length (ln_prefix ln) > 0 then memcpy_at dest off (ln_prefix ln) (length (ln_prefix ln)) else dest)
      in if length (ln_body ln) > 0 then memcpy_at dest (off + length (ln_prefix ln)) (ln_body ln) (length (ln_body ln)) else dest)"

fun write_joined_loop :: "int list \<Rightarrow> line_start_rec \<Rightarrow> line_start_rec \<Rightarrow> 'd engine \<Rightarrow> byte list \<Rightarrow> nat \<Rightarrow> byte list result" where
  "write_joined_loop [] first later en dest position = Inr dest"
| "write_joined_loop (i # idx) first later en dest position =
     (let (dest, position) = (if i > 0 then (dest[position := 0x0a], position + 1) else (dest, position)) in
      bindE (wrap_line_at i first later False en) (\<lambda>current.
        let dest = (if ln_size current > 0 then write_line current dest position else dest)
        in write_joined_loop idx first later en dest (position + ln_size current)))"

definition write_joined :: "byte list \<Rightarrow> line_start_rec \<Rightarrow> line_start_rec \<Rightarrow> 'd engine \<Rightarrow> byte list result" where
  "write_joined dest first later en = write_joined_loop (map int [0..<nat (en_line_count en)]) first later en dest 0"

subsection \<open>Words\<close>

text \<open>White space is neither an emoji nor a regional indicator, as the Unicode character database has it.\<close>

definition spaces_plain :: "uprops \<Rightarrow> bool" where
  "spaces_plain p \<longleftrightarrow> (\<forall>v. u_whiteSpace p v \<longrightarrow> \<not> u_emojiModifier p v \<and> \<not> u_emojiPresentation p v \<and> v \<le> 0x3000 \<and>
     v \<notin> {0x2640, 0x2642, 0x26a7, 0x2695, 0x2696, 0x2708, 0x2764, 0x2744, 0x2620})"

lemma character_width_range: "character_width p v \<in> {0, 1, 2}"
  by (simp add: character_width_def ascii_char_width_def Let_def)

lemma context_width_range: "fst (character_width_with_context p v u r) \<in> {0, 1, 2}"
  using character_width_range [of p v] by (auto simp: character_width_with_context_def split: if_splits)

text \<open>The second measuring of a space agrees with the first.\<close>

lemma context_width_space:
  assumes "spaces_plain p" "u_whiteSpace p v"
  shows "fst (character_width_with_context p v u r) = character_width p v"
proof -
  have "\<not> u_emojiModifier p v" "\<not> u_emojiPresentation p v" "v \<le> 0x3000"
    "v \<notin> {0x2640, 0x2642, 0x26a7, 0x2695, 0x2696, 0x2708, 0x2764, 0x2744, 0x2620}"
    using assms unfolding spaces_plain_def by blast+
  then show ?thesis by (auto simp: character_width_with_context_def)
qed

lemma context_reset_space:
  assumes "spaces_plain p" "u_whiteSpace p v"
  shows "\<not> snd (character_width_with_context p v u r)"
  using assms by (auto simp: spaces_plain_def character_width_with_context_def)

text \<open>The reference for the measures: the code points of a part of the record, and the display width or the
  number of a list of code points.\<close>

function record_points :: "byte list \<Rightarrow> nat \<Rightarrow> nat \<Rightarrow> nat \<Rightarrow> int list" where
  "record_points data e b t =
     (if b < t then let (b', c) = U8_NEXT data b e in c # record_points data e b' t else [])"
  by pat_completeness auto
termination by (relation "measure (\<lambda>(data, e, b, t). t - b)") (auto dest: U8_NEXT_eq_gt)

declare record_points.simps [simp del]

fun points_width :: "uprops \<Rightarrow> bool \<Rightarrow> int \<Rightarrow> bool \<Rightarrow> int list \<Rightarrow> int" where
  "points_width p use_length previous reset [] = 0"
| "points_width p use_length previous reset (c # cs) =
     (let (w, reset) = character_width_with_context p c previous reset
      in (if use_length then 1 else w) + points_width p use_length c reset cs)"

lemma record_points_empty [simp]: "t \<le> b \<Longrightarrow> record_points data e b t = []"
  by (simp add: record_points.simps [of data e b t])

lemma record_points_step: "b < t \<Longrightarrow> U8_NEXT data b e = (b', c) \<Longrightarrow> record_points data e b t = c # record_points data e b' t"
  by (simp add: record_points.simps [of data e b t])

lemma points_width_length: "points_width p True previous reset cs = int (length cs)"
  by (induction cs arbitrary: previous reset) (auto simp: case_prod_beta)

definition measure_ok :: "nat \<Rightarrow> nat \<Rightarrow> word_measure \<Rightarrow> bool" where
  "measure_ok b cursor m \<longleftrightarrow>
     wm_width_orig m \<le> 2 * (cursor - b) \<and> wm_width_trim m \<le> wm_width_orig m \<and>
     0 \<le> wm_count_trim m \<and> wm_count_trim m \<le> wm_count_orig m \<and> wm_count_orig m \<le> int (cursor - b) \<and>
     b \<le> wm_end_trim m \<and> wm_end_trim m \<le> cursor"

lemma measure_ok_step:
  assumes "measure_ok b cursor m" "b \<le> cursor" "cursor < cursor'" "int cursor' \<le> INT_MAX" "0 \<le> w" "w \<le> 2"
  defines "m1 \<equiv> m\<lparr>wm_width_orig := nat ((int (wm_width_orig m) + w) mod 2 ^ 32), wm_count_orig := wm_count_orig m + 1\<rparr>"
  shows "measure_ok b cursor' (m1\<lparr>wm_width_trim := nat (w mod 2 ^ 32), wm_count_trim := 1, wm_end_trim := cursor\<rparr>)"
    "measure_ok b cursor' (m1\<lparr>wm_width_trim := 0, wm_count_trim := 0, wm_end_trim := cursor'\<rparr>)"
proof -
  have "int (wm_width_orig m) + w \<le> 2 * int (cursor' - b)" using assms(1-6) by (auto simp: measure_ok_def)
  moreover have "2 * int (cursor' - b) < 2 ^ 32" using assms(4) by (simp add: INT_MAX_def)
  ultimately have "(int (wm_width_orig m) + w) mod 2 ^ 32 = int (wm_width_orig m) + w" "w mod 2 ^ 32 = w"
    using assms(5,6) by (auto intro!: mod_pos_pos_trivial)
  then show "measure_ok b cursor' (m1\<lparr>wm_width_trim := nat (w mod 2 ^ 32), wm_count_trim := 1, wm_end_trim := cursor\<rparr>)"
    "measure_ok b cursor' (m1\<lparr>wm_width_trim := 0, wm_count_trim := 0, wm_end_trim := cursor'\<rparr>)"
    using assms(1-6) by (auto simp: measure_ok_def m1_def)
qed

lemma add_word_loop_ok:
  assumes "spaces_plain p" "int e \<le> INT_MAX"
    and "b \<le> cursor" "cursor \<le> e" "measure_ok b cursor m" "add_word_loop p data e cursor current reset m = Inr m'"
  shows "measure_ok b e m'"
  using assms
proof (induction "e - cursor" arbitrary: cursor current reset m rule: less_induct)
  case less
  show ?case
  proof (cases "cursor < e")
    case True
    obtain cursor' c where nx: "U8_NEXT data cursor e = (cursor', c)" by force
    have cur: "cursor < cursor'" "cursor' \<le> e" using U8_NEXT_eq_gt [OF nx [symmetric]] U8_NEXT_eq_le [OF True nx [symmetric]] by auto
    then have lt: "e - cursor' < e - cursor" "b \<le> cursor'" "int cursor' \<le> INT_MAX" using True less.prems(2,3) by auto
    obtain w r where w: "character_width_with_context p c current reset = (w, r)" by force
    obtain w2 r2 where w2: "character_width_with_context p c current r = (w2, r2)" by force
    have wr: "0 \<le> w" "w \<le> 2" using context_width_range [of p c current reset] w by auto
    note st = measure_ok_step [OF less.prems(5,3) cur(1) lt(3) wr]
    note ih = less.hyps [OF lt(1) less.prems(1,2) lt(2) cur(2)]
    show ?thesis
    proof (cases "u_whiteSpace p c")
      case ws: True
      then have "w2 = w" using context_width_space [OF less.prems(1) ws] w w2 by (metis fst_conv)
      then show ?thesis using less.prems(6) True ws ih [OF st(1)]
        by (auto simp: add_word_loop.simps [of p data e cursor] nx w w2 Let_def split: if_splits)
    next
      case False
      then show ?thesis using less.prems(6) True ih [OF st(2)]
        by (auto simp: add_word_loop.simps [of p data e cursor] nx w Let_def split: if_splits)
    qed
  next
    case False
    then show ?thesis using less.prems by (simp add: add_word_loop.simps [of p data e])
  qed
qed

text \<open>What the loop measures from \<open>cursor\<close> on: the whole part, and the part before a white space at its end.\<close>

definition measures :: "uprops \<Rightarrow> byte list \<Rightarrow> nat \<Rightarrow> nat \<Rightarrow> int \<Rightarrow> bool \<Rightarrow> word_measure \<Rightarrow> word_measure \<Rightarrow> bool" where
  "measures p data e cursor current reset m m' \<longleftrightarrow>
     (let cs = record_points data e cursor e; ct = record_points data e cursor (wm_end_trim m') in
      cursor \<le> wm_end_trim m' \<and>
      record_points data e (wm_end_trim m') e = (if cs \<noteq> [] \<and> u_whiteSpace p (last cs) then [last cs] else []) \<and>
      int (wm_width_orig m') = int (wm_width_orig m) + points_width p False current reset cs \<and>
      wm_count_orig m' = wm_count_orig m + int (length cs) \<and>
      int (wm_width_orig m') - int (wm_width_trim m') = int (wm_width_orig m) + points_width p False current reset ct \<and>
      wm_count_orig m' - wm_count_trim m' = wm_count_orig m + int (length ct))"

lemma add_word_loop_measures:
  assumes "spaces_plain p" "int e \<le> INT_MAX"
    and "b \<le> cursor" "cursor < e" "measure_ok b cursor m" "add_word_loop p data e cursor current reset m = Inr m'"
  shows "measures p data e cursor current reset m m'"
  using assms
proof (induction "e - cursor" arbitrary: cursor current reset m rule: less_induct)
  case less
  obtain cursor' c where nx: "U8_NEXT data cursor e = (cursor', c)" by force
  have cur: "cursor < cursor'" "cursor' \<le> e"
    using U8_NEXT_eq_gt [OF nx [symmetric]] U8_NEXT_eq_le [OF less.prems(4) nx [symmetric]] by auto
  then have lt: "e - cursor' < e - cursor" "b \<le> cursor'" "int cursor' \<le> INT_MAX" using less.prems(2-4) by auto
  obtain w r where w: "character_width_with_context p c current reset = (w, r)" by force
  have wr: "0 \<le> w" "w \<le> 2" using context_width_range [of p c current reset] w by auto
  have "int (wm_width_orig m) + w < 2 ^ 32" using less.prems(2-5) wr by (auto simp: measure_ok_def INT_MAX_def)
  then have nomod: "(int (wm_width_orig m) + w) mod 2 ^ 32 = int (wm_width_orig m) + w" "w mod 2 ^ 32 = w"
    using wr by (auto intro!: mod_pos_pos_trivial)
  define m1 where "m1 = m\<lparr>wm_width_orig := nat ((int (wm_width_orig m) + w) mod 2 ^ 32), wm_count_orig := wm_count_orig m + 1\<rparr>"
  define m2 where "m2 = (if u_whiteSpace p c then m1\<lparr>wm_width_trim := nat (w mod 2 ^ 32), wm_count_trim := 1, wm_end_trim := cursor\<rparr>
     else m1\<lparr>wm_width_trim := 0, wm_count_trim := 0, wm_end_trim := cursor'\<rparr>)"
  have ok: "measure_ok b cursor' m2"
    using measure_ok_step [OF less.prems(5,3) cur(1) lt(3) wr] by (simp add: m1_def m2_def)
  have step: "add_word_loop p data e cursor' c r m2 = Inr m'"
  proof (cases "u_whiteSpace p c")
    case True
    then have "character_width_with_context p c current r = (w, r)"
      using context_width_space [OF less.prems(1) True, of current] context_reset_space [OF less.prems(1) True, of current]
        arg_cong [OF w, of fst] arg_cong [OF w, of snd] by (intro prod_eqI) auto
    then show ?thesis using less.prems(4,6) True
      by (auto simp: add_word_loop.simps [of p data e cursor] nx w Let_def m1_def m2_def split: if_splits)
  next
    case False
    then show ?thesis using less.prems(4,6)
      by (auto simp: add_word_loop.simps [of p data e cursor] nx w Let_def m1_def m2_def split: if_splits)
  qed
  have m2: "int (wm_width_orig m2) = int (wm_width_orig m) + w" "wm_count_orig m2 = wm_count_orig m + 1"
    using nomod wr by (simp_all add: m1_def m2_def)
  note points = record_points_step [OF _ nx]
  show ?case
  proof (cases "cursor' < e")
    case True
    have ih: "measures p data e cursor' c r m2 m'" by (rule less.hyps [OF lt(1) less.prems(1,2) lt(2) True ok step])
    then have "cursor < wm_end_trim m'" using cur by (auto simp: measures_def Let_def)
    then show ?thesis using ih cur points [of e] points [of "wm_end_trim m'"] True w m2 record_points_step [OF True]
      by (cases "U8_NEXT data cursor' e") (auto simp: measures_def Let_def)
  next
    case False
    then have "m' = m2" "cursor' = e" using step cur by (simp_all add: add_word_loop.simps [of p data e])
    then show ?thesis using cur points [of e] w m2 nomod wr by (auto simp: measures_def m2_def m1_def)
  qed
qed

text \<open>The words cut so far: their ends ascend, each trimmed end lies in its word, and the widths fit the layout theory.\<close>

definition words_ok :: "'d engine \<Rightarrow> bool" where
  "words_ok en \<longleftrightarrow>
     widths_ok (en_widths_orig en) (en_widths_trim en) \<and> length (en_widths_orig en) = length (en_end_orig en) \<and>
     length (en_end_trim en) = length (en_end_orig en) \<and> sorted (en_end_orig en) \<and>
     (\<forall>k < length (en_end_orig en). (if k = 0 then 0 else en_end_orig en ! (k - 1)) \<le> en_end_trim en ! k \<and>
        en_end_trim en ! k \<le> en_end_orig en ! k \<and> en_end_orig en ! k \<le> length (en_record en))"

definition last_end :: "'d engine \<Rightarrow> nat" where
  "last_end en = (if en_end_orig en = [] then 0 else last (en_end_orig en))"

lemma words_ok_updates [simp]:
  "words_ok (en\<lparr>en_iterator := it\<rparr>) = words_ok en" "words_ok (en\<lparr>en_direct_end := d\<rparr>) = words_ok en"
  "words_ok (en\<lparr>en_line_count := c\<rparr>) = words_ok en" "words_ok (en\<lparr>en_passthrough := b\<rparr>) = words_ok en"
  "words_ok (en\<lparr>en_wrap_after := a\<rparr>) = words_ok en" "last_end (en\<lparr>en_iterator := it\<rparr>) = last_end en"
  by (simp_all add: words_ok_def last_end_def)

text \<open>The width of a part of the record in the unit of the options; \<open>words_measured\<close>: each word has its own width, with
  and without one white space at its end, and its trimmed end stands before that white space.\<close>

definition part_width :: "uprops \<Rightarrow> 'd engine \<Rightarrow> nat \<Rightarrow> nat \<Rightarrow> nat \<Rightarrow> int" where
  "part_width p en e b t = points_width p (wr_use_length (en_options en)) 0 True (record_points (en_record en) e b t)"

definition trailing_space :: "uprops \<Rightarrow> int list \<Rightarrow> int list" where
  "trailing_space p cs = (if cs \<noteq> [] \<and> u_whiteSpace p (last cs) then [last cs] else [])"

definition word_begin :: "'d engine \<Rightarrow> nat \<Rightarrow> nat" where
  "word_begin en k = (if k = 0 then 0 else en_end_orig en ! (k - 1))"

definition words_measured :: "uprops \<Rightarrow> 'd engine \<Rightarrow> bool" where
  "words_measured p en \<longleftrightarrow> (\<forall>k < length (en_end_orig en).
     let b = word_begin en k; e = en_end_orig en ! k; t = en_end_trim en ! k in
     int (en_widths_orig en ! k) = part_width p en e b e \<and> int (en_widths_trim en ! k) = part_width p en e b t \<and>
     record_points (en_record en) e t e = trailing_space p (record_points (en_record en) e b e))"

lemma words_measured_updates [simp]:
  "words_measured p (en\<lparr>en_iterator := it\<rparr>) = words_measured p en" "words_measured p (en\<lparr>en_direct_end := d\<rparr>) = words_measured p en"
  "words_measured p (en\<lparr>en_line_count := c\<rparr>) = words_measured p en" "words_measured p (en\<lparr>en_passthrough := b\<rparr>) = words_measured p en"
  "words_measured p (en\<lparr>en_wrap_after := a\<rparr>) = words_measured p en"
  by (simp_all add: words_measured_def part_width_def word_begin_def)

lemma words_measured_snoc:
  assumes "words_ok en" "words_measured p en"
    and "int x = part_width p en e (last_end en) e" "int y = part_width p en e (last_end en) t"
    and "record_points (en_record en) e t e = trailing_space p (record_points (en_record en) e (last_end en) e)"
  shows "words_measured p (en\<lparr>en_end_orig := en_end_orig en @ [e], en_widths_orig := en_widths_orig en @ [x],
    en_widths_trim := en_widths_trim en @ [y], en_end_trim := en_end_trim en @ [t]\<rparr>)" (is "words_measured p ?en'")
  unfolding words_measured_def
proof (intro allI impI)
  let ?n = "length (en_end_orig en)"
  have len: "length (en_widths_orig en) = ?n" "length (en_widths_trim en) = ?n" "length (en_end_trim en) = ?n"
    using assms(1) by (simp_all add: words_ok_def widths_ok_def)
  fix k assume k: "k < length (en_end_orig ?en')"
  have pw: "part_width p ?en' = part_width p en" by (simp add: part_width_def fun_eq_iff)
  show "let b = word_begin ?en' k; e = en_end_orig ?en' ! k; t = en_end_trim ?en' ! k in
     int (en_widths_orig ?en' ! k) = part_width p ?en' e b e \<and> int (en_widths_trim ?en' ! k) = part_width p ?en' e b t \<and>
     record_points (en_record ?en') e t e = trailing_space p (record_points (en_record ?en') e b e)"
  proof (cases "k = ?n")
    case True
    have "word_begin ?en' k = last_end en" unfolding True by (simp add: word_begin_def last_end_def last_conv_nth nth_append)
    then show ?thesis using assms(3-5) True len pw by (simp add: nth_append)
  next
    case False
    then have less: "k < ?n" using k by simp
    then have "word_begin ?en' k = word_begin en k" by (auto simp: word_begin_def nth_append)
    moreover have "en_end_orig ?en' ! k = en_end_orig en ! k" "en_end_trim ?en' ! k = en_end_trim en ! k"
      "en_widths_orig ?en' ! k = en_widths_orig en ! k" "en_widths_trim ?en' ! k = en_widths_trim en ! k"
      using less len by (simp_all add: nth_append)
    ultimately show ?thesis using assms(2) less by (simp add: words_measured_def Let_def pw)
  qed
qed

lemma words_ok_snoc:
  assumes "words_ok en" "last_end en \<le> t" "t \<le> e" "e \<le> length (en_record en)" "y \<le> x"
  shows "words_ok (en\<lparr>en_end_orig := en_end_orig en @ [e], en_widths_orig := en_widths_orig en @ [x],
    en_widths_trim := en_widths_trim en @ [y], en_end_trim := en_end_trim en @ [t]\<rparr>)"
proof -
  let ?n = "length (en_end_orig en)"
  have len: "length (en_widths_orig en) = ?n" "length (en_widths_trim en) = ?n" "length (en_end_trim en) = ?n"
    using assms(1) by (simp_all add: words_ok_def widths_ok_def)
  have last: "(if ?n = 0 then 0 else en_end_orig en ! (?n - 1)) = last_end en"
    by (simp add: last_end_def last_conv_nth)
  have widths: "widths_ok (en_widths_orig en @ [x]) (en_widths_trim en @ [y])"
    using assms(1,5) len by (auto simp: words_ok_def widths_ok_def nth_append less_Suc_eq)
  have below: "\<forall>z \<in> set (en_end_orig en). z \<le> e"
  proof
    fix z assume z: "z \<in> set (en_end_orig en)"
    then obtain k where k: "k < ?n" "en_end_orig en ! k = z" by (auto simp: in_set_conv_nth)
    then have "z \<le> en_end_orig en ! (?n - 1)" using assms(1) sorted_nth_mono [of "en_end_orig en" k "?n - 1"] by (auto simp: words_ok_def)
    then show "z \<le> e" using last k(1) assms(2,3) by (auto split: if_splits)
  qed
  have ends: "(if k = 0 then 0 else (en_end_orig en @ [e]) ! (k - 1)) \<le> (en_end_trim en @ [t]) ! k \<and>
      (en_end_trim en @ [t]) ! k \<le> (en_end_orig en @ [e]) ! k \<and> (en_end_orig en @ [e]) ! k \<le> length (en_record en)" if "k < Suc ?n" for k
  proof (cases "k = ?n")
    case True
    then show ?thesis using last len assms(2-4) by (auto simp: nth_append split: if_splits)
  next
    case False
    then have "k < ?n" using that by simp
    then show ?thesis using assms(1) len by (auto simp: words_ok_def nth_append)
  qed
  have "\<forall>k < Suc ?n. (if k = 0 then 0 else (en_end_orig en @ [e]) ! (k - 1)) \<le> (en_end_trim en @ [t]) ! k \<and>
      (en_end_trim en @ [t]) ! k \<le> (en_end_orig en @ [e]) ! k \<and> (en_end_orig en @ [e]) ! k \<le> length (en_record en)"
    using ends by blast
  moreover from this have "\<forall>k > 0. k < Suc ?n \<longrightarrow> (en_end_orig en @ [e]) ! (k - Suc 0) \<le> (en_end_trim en @ [t]) ! k"
    by (metis One_nat_def less_numeral_extra(3))
  ultimately show ?thesis using assms(1) len widths below by (simp add: words_ok_def sorted_append)
qed

lemma add_word_ok:
  assumes "words_ok en" "spaces_plain p" "int (length (en_record en)) \<le> INT_MAX" "last_end en \<le> e" "e \<le> length (en_record en)"
    and "add_word p (last_end en) e en = Inr en'"
  shows "words_ok en' \<and> last_end en' = e \<and> en_record en' = en_record en \<and> en_options en' = en_options en \<and> en_end_orig en' \<noteq> [] \<and>
    en_direct_end en' = en_direct_end en \<and> en_passthrough en' = en_passthrough en \<and> en_record_ascii en' = en_record_ascii en"
proof -
  obtain m where m: "add_word_loop p (en_record en) e (last_end en) 0 True
      \<lparr>wm_width_orig = 0, wm_width_trim = 0, wm_count_orig = 0, wm_count_trim = 0, wm_end_trim = last_end en\<rparr> = Inr m"
    and en': "en' = en\<lparr>en_end_orig := en_end_orig en @ [e],
               en_widths_orig := en_widths_orig en @ [if wr_use_length (en_options en) then nat (wm_count_orig m mod 2 ^ 32) else wm_width_orig m],
               en_widths_trim := en_widths_trim en @ [if wr_use_length (en_options en) then nat ((wm_count_orig m - wm_count_trim m) mod 2 ^ 32)
                  else nat ((int (wm_width_orig m) - int (wm_width_trim m)) mod 2 ^ 32)],
               en_end_trim := en_end_trim en @ [wm_end_trim m]\<rparr>"
    using assms(6) unfolding add_word_def bindE_eq_Inr by blast
  have "int e \<le> INT_MAX" using assms(3,5) by simp
  then have ok: "measure_ok (last_end en) e m"
    using assms(4) by (intro add_word_loop_ok [OF assms(2) _ order_refl _ _ m]) (auto simp: measure_ok_def)
  have bound: "int (e - last_end en) * 2 < 2 ^ 32" using assms(3,5) by (simp add: INT_MAX_def)
  have small: "int (wm_width_orig m) < 2 ^ 32" "wm_count_orig m < 2 ^ 32" using ok bound by (auto simp: measure_ok_def)
  have "(if wr_use_length (en_options en) then nat ((wm_count_orig m - wm_count_trim m) mod 2 ^ 32)
      else nat ((int (wm_width_orig m) - int (wm_width_trim m)) mod 2 ^ 32)) \<le>
    (if wr_use_length (en_options en) then nat (wm_count_orig m mod 2 ^ 32) else wm_width_orig m)"
    using ok small by (auto simp: measure_ok_def mod_pos_pos_trivial)
  moreover have "last_end en \<le> wm_end_trim m" "wm_end_trim m \<le> e" using ok by (auto simp: measure_ok_def)
  ultimately show ?thesis using words_ok_snoc [OF assms(1) _ _ assms(5)] unfolding en' by (simp add: last_end_def)
qed

lemma add_word_measured:
  assumes "words_ok en" "words_measured p en" "spaces_plain p" "int (length (en_record en)) \<le> INT_MAX" "last_end en < e" "e \<le> length (en_record en)"
    and "add_word p (last_end en) e en = Inr en'"
  shows "words_measured p en'"
proof -
  let ?m0 = "\<lparr>wm_width_orig = 0, wm_width_trim = 0, wm_count_orig = 0, wm_count_trim = 0, wm_end_trim = last_end en\<rparr>"
  obtain m where m: "add_word_loop p (en_record en) e (last_end en) 0 True ?m0 = Inr m"
    and en': "en' = en\<lparr>en_end_orig := en_end_orig en @ [e],
               en_widths_orig := en_widths_orig en @ [if wr_use_length (en_options en) then nat (wm_count_orig m mod 2 ^ 32) else wm_width_orig m],
               en_widths_trim := en_widths_trim en @ [if wr_use_length (en_options en) then nat ((wm_count_orig m - wm_count_trim m) mod 2 ^ 32)
                  else nat ((int (wm_width_orig m) - int (wm_width_trim m)) mod 2 ^ 32)],
               en_end_trim := en_end_trim en @ [wm_end_trim m]\<rparr>"
    using assms(7) unfolding add_word_def bindE_eq_Inr by blast
  have int_e: "int e \<le> INT_MAX" using assms(4,6) by simp
  have ok0: "measure_ok (last_end en) (last_end en) ?m0" by (simp add: measure_ok_def)
  have ok: "measure_ok (last_end en) e m"
    using assms(5) by (intro add_word_loop_ok [OF assms(3) int_e order_refl _ ok0 m]) simp
  note ms = add_word_loop_measures [OF assms(3) int_e order_refl assms(5) ok0 m, unfolded measures_def Let_def]
  have bound: "int (e - last_end en) * 2 < 2 ^ 32" using assms(4,6) by (simp add: INT_MAX_def)
  have mods: "wm_count_orig m mod 2 ^ 32 = wm_count_orig m" "(wm_count_orig m - wm_count_trim m) mod 2 ^ 32 = wm_count_orig m - wm_count_trim m"
    "(int (wm_width_orig m) - int (wm_width_trim m)) mod 2 ^ 32 = int (wm_width_orig m) - int (wm_width_trim m)"
    using ok bound by (auto simp: measure_ok_def intro!: mod_pos_pos_trivial)
  show ?thesis
    unfolding en' mods using ms ok
    by (intro words_measured_snoc [OF assms(1,2)])
      (auto simp: part_width_def points_width_length trailing_space_def measure_ok_def)
qed

lemma words_loop_ok:
  assumes "words_ok en" "spaces_plain p" "int (length (en_record en)) \<le> INT_MAX"
    and "sorted_wrt (<) (map snd ranges)" "\<forall>r \<in> set ranges. int (last_end en) \<le> snd r \<and> snd r \<le> int (length (en_record en))"
    and "words_loop p ranges (last_end en) en = Inr en'"
  shows "words_ok en' \<and> en_record en' = en_record en \<and> en_options en' = en_options en \<and>
    en_direct_end en' = en_direct_end en \<and> en_passthrough en' = en_passthrough en \<and> en_record_ascii en' = en_record_ascii en"
  using assms
proof (induction ranges arbitrary: en)
  case (Cons r ranges)
  obtain s m where r: "r = (s, m)" by force
  show ?case
  proof (cases "words_loop p (r # ranges) (last_end en) en = words_loop p ranges (last_end en) en")
    case True
    then show ?thesis using Cons by simp
  next
    case False
    then obtain en1 where en1: "add_word p (last_end en) (nat m) en = Inr en1" "words_loop p ranges (nat m) en1 = Inr en'"
      using Cons.prems(6) unfolding r by (auto simp: Let_def bindE_eq_Inr split: if_splits)
    have m: "int (last_end en) \<le> m" "m \<le> int (length (en_record en))" using Cons.prems(5) r by auto
    then have "last_end en \<le> nat m" "nat m \<le> length (en_record en)" by auto
    from add_word_ok [OF Cons.prems(1-3) this en1(1)]
    have a: "words_ok en1" "last_end en1 = nat m" "en_record en1 = en_record en" "en_options en1 = en_options en"
      "en_direct_end en1 = en_direct_end en" "en_passthrough en1 = en_passthrough en" "en_record_ascii en1 = en_record_ascii en" by auto
    have "\<forall>r \<in> set ranges. int (last_end en1) \<le> snd r \<and> snd r \<le> int (length (en_record en1))"
      using Cons.prems(4,5) a(2,3) m(1) r by force
    then show ?thesis using Cons.IH [of en1] Cons.prems(2-4) a en1(2) by simp
  qed
qed simp

lemma words_loop_measured:
  assumes "words_ok en" "words_measured p en" "spaces_plain p" "int (length (en_record en)) \<le> INT_MAX"
    and "sorted_wrt (<) (map snd ranges)" "\<forall>r \<in> set ranges. (0 < snd r \<longrightarrow> int (last_end en) < snd r) \<and> snd r \<le> int (length (en_record en))"
    and "words_loop p ranges (last_end en) en = Inr en'"
  shows "words_measured p en'"
  using assms
proof (induction ranges arbitrary: en)
  case (Cons r ranges)
  obtain s m where r: "r = (s, m)" by force
  show ?case
  proof (cases "words_loop p (r # ranges) (last_end en) en = words_loop p ranges (last_end en) en")
    case True
    then show ?thesis using Cons by simp
  next
    case False
    then obtain en1 where en1: "add_word p (last_end en) (nat m) en = Inr en1" "words_loop p ranges (nat m) en1 = Inr en'" "0 < m"
      using Cons.prems(7) unfolding r by (auto simp: Let_def bindE_eq_Inr split: if_splits)
    have m: "last_end en < nat m" "nat m \<le> length (en_record en)" using Cons.prems(6) en1(3) r by auto
    note a = add_word_ok [OF Cons.prems(1,3,4) less_imp_le [OF m(1)] m(2) en1(1)]
    have "\<forall>r \<in> set ranges. (0 < snd r \<longrightarrow> int (last_end en1) < snd r) \<and> snd r \<le> int (length (en_record en1))"
      using Cons.prems(5,6) a en1(3) r by force
    then show ?thesis
      using Cons.IH [of en1] Cons.prems(3-5) a en1(2) add_word_measured [OF Cons.prems(1-4) m en1(1)] by simp
  qed
qed simp

subsection \<open>Plans\<close>

lemma prepare_loop_length:
  assumes "prepare_loop input len cursor fs sp prepared = Inr out" "len \<le> length input"
  shows "length out \<le> length prepared + (len - cursor)"
  using assms
proof (induction "len - cursor" arbitrary: cursor fs sp prepared rule: less_induct)
  case less
  show ?case
  proof (cases "cursor < len")
    case True
    obtain cursor' c where nx: "U8_NEXT input cursor len = (cursor', c)" by force
    have cur: "cursor < cursor'" "cursor' \<le> len" using U8_NEXT_eq_gt [OF nx [symmetric]] U8_NEXT_eq_le [OF True nx [symmetric]] by auto
    have IH: "length out \<le> length prepared' + (len - k)" if "cursor < k" "prepare_loop input len k fs' sp' prepared' = Inr out" for k fs' sp' prepared'
      using less.hyps [OF _ that(2) less.prems(2)] that(1) True by (meson diff_less_mono2)
    have sl: "length (slice input cursor cursor') = cursor' - cursor" using cur(2) less.prems(2) by simp
    note unf = less.prems(1) [unfolded prepare_loop.simps [of input len cursor] nx]
    show ?thesis using unf True cur sl by (auto simp: Let_def split: if_splits dest!: IH [rotated])
  next
    case False
    then show ?thesis using less.prems by (simp add: prepare_loop.simps [of input len cursor])
  qed
qed

lemma prepare_record_ok:
  assumes "prepare_record p source en = Inr (st, en1)" "sv_len source \<le> INT_MAX" "\<not> U_FAILURE st"
  shows "\<exists>rec asc. en1 = en\<lparr>en_record := rec, en_record_ascii := asc\<rparr> \<and> int (length rec) \<le> INT_MAX"
proof -
  have len: "int (length (sv_bytes source)) \<le> INT_MAX" using assms(2) by (auto simp: sv_bytes_def INT_MAX_def)
  show ?thesis
  proof (cases "wr_normalize (en_options en)")
    case False
    then show ?thesis using assms(1) len by (auto simp: prepare_record_def Let_def split: if_splits)
  next
    case True
    then obtain nfc cursor fs prepared where p: "en_normalizer en = Some nfc" "skip_boms 3 (sv_bytes source) (length (sv_bytes source)) 0 True = (cursor, fs)"
      "prepare_loop (sv_bytes source) (length (sv_bytes source)) cursor fs False [] = Inr prepared"
      using assms(1) by (auto simp: prepare_record_def Let_def bindE_eq_Inr split: if_splits option.splits prod.splits)
    define trimmed where "trimmed = slice prepared (trim_begin p prepared (length prepared) 0) (trim_end p prepared (trim_begin p prepared (length prepared) 0) (length prepared))"
    have "length trimmed \<le> length prepared" by (simp add: trimmed_def slice_def)
    moreover have "length prepared \<le> length (sv_bytes source)" using prepare_loop_length [OF p(3)] by simp
    ultimately have tl: "int (length trimmed) \<le> INT_MAX" using len by simp
    have "finish_record nfc trimmed en = Inr (st, en1)"
      using assms(1) True p by (auto simp: prepare_record_def Let_def trimmed_def split: if_splits)
    then show ?thesis using assms(3) tl by (auto simp: finish_record_def Let_def split: if_splits prod.splits)
  qed
qed

text \<open>The ASCII shortcut measures the record as the reference does.\<close>

lemma record_points_ascii:
  assumes "\<forall>b \<in> set data. b < 0x80" "t \<le> length data"
  shows "record_points data e b t = map uint (slice data b t)"
proof (induction "t - b" arbitrary: b)
  case (Suc n)
  then have b: "b < t" by simp
  have "data ! b < 0x80" using assms b by simp
  then have "U8_NEXT data b e = (b + 1, uint (data ! b))" by (intro U8_NEXT_single) (simp add: U8_IS_SINGLE_iff)
  moreover have "slice data b t = data ! b # slice data (b + 1) t"
    using b assms(2) by (simp add: slice_def Cons_nth_drop_Suc [of b data, symmetric] take_Cons' del: Cons_nth_drop_Suc)
  ultimately show ?case using record_points_step [OF b] Suc.hyps(1) [of "b + 1"] Suc.hyps(2) by simp
qed (simp add: slice_def)

lemma ascii_fits_loop_measures:
  assumes "ascii_fits_loop p ul bs m lw ws reset cur = Inr (Some (m', lw', ws'))"
  shows "(\<forall>b \<in> set bs. b < 0x80) \<and> m' = m + points_width p ul cur reset (map uint bs) \<and>
    (bs \<noteq> [] \<longrightarrow> ws' = u_whiteSpace p (uint (last bs)) \<and> m' - lw' = m + points_width p ul cur reset (map uint (butlast bs)))"
  using assms
proof (induction bs arbitrary: m lw ws reset cur)
  case (Cons b bs)
  obtain w r where w: "character_width_with_context p (uint b) cur reset = (w, r)" by force
  have "\<exists>m1 lw1 r1. ascii_fits_loop p ul bs m1 lw1 (u_whiteSpace p (uint b)) r1 (uint b) = Inr (Some (m', lw', ws')) \<and>
      b < 0x80 \<and> lw1 = (if ul then 1 else w) \<and> m1 = m + lw1 \<and> (\<not> ul \<longrightarrow> r1 = r)"
    using Cons.prems w by (cases ul) (auto simp: Let_def not_le split: if_splits)
  then obtain r1 where st: "ascii_fits_loop p ul bs (m + (if ul then 1 else w)) (if ul then 1 else w) (u_whiteSpace p (uint b)) r1 (uint b) =
      Inr (Some (m', lw', ws'))" "b < 0x80" "\<not> ul \<longrightarrow> r1 = r" by blast
  have same: "points_width p ul (uint b) r1 xs = points_width p ul (uint b) r xs" for xs
    using st(3) by (cases ul) (simp_all add: points_width_length)
  show ?case
  proof (cases "bs = []")
    case True
    then show ?thesis using st w by auto
  next
    case False
    then show ?thesis using Cons.IH [OF st(1)] st(2) w same by (auto simp: Let_def)
  qed
qed simp

lemma ascii_fits_measures:
  assumes "ascii_fits p en fw = Inr (Some e)"
  shows "e \<le> length (en_record en)" "fw + part_width p en (length (en_record en)) 0 e \<le> wr_width (en_options en)"
    "map uint (drop e (en_record en)) = trailing_space p (map uint (en_record en))"
proof -
  let ?r = "en_record en"
  obtain m lw ws where loop: "ascii_fits_loop p (wr_use_length (en_options en)) ?r 0 0 False True 0 = Inr (Some (m, lw, ws))"
    and ne: "?r \<noteq> []" and e: "e = length ?r - (if ws then 1 else 0)" and fit: "fw + (m - (if ws then lw else 0)) \<le> wr_width (en_options en)"
  proof (cases "ascii_fits_loop p (wr_use_length (en_options en)) ?r 0 0 False True 0")
    case (Inr x)
    then show ?thesis using assms that
      by (cases x) (auto simp: ascii_fits_def Let_def split: if_split_asm)
  qed (use assms in \<open>simp add: ascii_fits_def split: if_split_asm\<close>)
  note ms = ascii_fits_loop_measures [OF loop]
  show le: "e \<le> length ?r" using e by simp
  have "slice ?r 0 e = (if ws then butlast ?r else ?r)" unfolding e by (simp add: slice_def butlast_conv_take)
  then have "part_width p en (length ?r) 0 e = m - (if ws then lw else 0)"
    using ms ne record_points_ascii [OF _ le] by (simp add: part_width_def)
  then show "fw + part_width p en (length ?r) 0 e \<le> wr_width (en_options en)" using fit by simp
  have "drop (length ?r - 1) ?r = [last ?r]" using ne by (metis append_butlast_last_id append_eq_conv_conj length_butlast)
  then show "map uint (drop e ?r) = trailing_space p (map uint ?r)"
    unfolding e using ms ne by (simp add: trailing_space_def last_map)
qed

lemma foldl_widths: "foldl (\<lambda>measured w. measured + int w) a ws = a + int (sum_list ws)"
  by (induction ws arbitrary: a) auto

lemma fits_one_line_fits:
  assumes "widths_ok wo wt" "wo \<noteq> []" "fits_one_line wo wt width first"
  shows "line_fits wo wt width first later 0 (length wo - 1)"
proof -
  have len: "length wt = length wo" "wt ! (length wo - 1) \<le> wo ! (length wo - 1)" using assms(1,2) by (auto simp: widths_ok_def)
  have "map ((!) wo) [0..<length wo - 1] @ [wo ! (length wo - 1)] = wo"
  proof (rule nth_equalityI)
    fix i assume "i < length (map ((!) wo) [0..<length wo - 1] @ [wo ! (length wo - 1)])"
    then have "i < length wo - 1 \<or> i = length wo - 1" by auto
    then show "(map ((!) wo) [0..<length wo - 1] @ [wo ! (length wo - 1)]) ! i = wo ! i" by (auto simp: nth_append)
  qed (use assms(2) in simp)
  from arg_cong [OF this, of sum_list]
  have "sum_list wo = sum_list (map ((!) wo) [0..<length wo - 1]) + wo ! (length wo - 1)" by simp
  moreover have "last wo = wo ! (length wo - 1)" "last wt = wt ! (length wo - 1)" using assms(2) len(1) by (metis last_conv_nth length_0_conv)+
  ultimately show ?thesis
    using assms(3) len(2) by (auto simp: fits_one_line_def line_fits_def line_width_def foldl_widths Let_def)
qed

lemma dynamic_bounds:
  assumes "dynamic max_cost max_breaks wo wt width pw first later cost best = Inr after"
  shows "length wo * length wo \<le> min SIZE_MAX (min max_cost max_breaks)"
proof (cases "wo = []")
  case False
  then have "length wo \<le> SIZE_MAX div length wo" "\<not> length wo * length wo > max_cost" "\<not> length wo * length wo > max_breaks"
    using assms by (auto simp: dynamic_def Let_def split: if_splits)
  moreover from this(1) have "length wo * length wo \<le> SIZE_MAX" using False by (simp add: less_eq_div_iff_mult_less_eq)
  ultimately show ?thesis by simp
qed simp

text \<open>The boundaries ICU reports for a text ascend within it.\<close>

definition text_marks_ok :: "byte list \<Rightarrow> (int \<times> int) list \<Rightarrow> bool" where
  "text_marks_ok t ms \<longleftrightarrow> marks_valid ms \<and> sorted_wrt (<) (map fst ms) \<and> (\<forall>m \<in> set ms. fst m \<le> int (length t))"

definition breaker_ok :: "'d engine \<Rightarrow> bool" where
  "breaker_ok en \<longleftrightarrow> (case bi_iterator (en_iterator en) of None \<Rightarrow> True | Some u \<Rightarrow> \<forall>t. text_marks_ok t (ub_rules u t))"

definition start_width :: "'d engine \<Rightarrow> line_start_rec \<Rightarrow> int" where
  "start_width en ls = (if wr_use_length (en_options en) then ls_count ls else ls_width ls)"

text \<open>A planned engine: one whole record, one direct line, or a layout of the words. The direct line is the record
  without a white space at its end, and its width with the prefix is within the limit; in a layout the words have their
  measured widths, and the words of every line but a single one fit with the prefix.\<close>

definition planned :: "uprops \<Rightarrow> line_start_rec \<Rightarrow> line_start_rec \<Rightarrow> 'd engine \<Rightarrow> bool" where
  "planned p first later en \<longleftrightarrow> words_ok en \<and> words_measured p en \<and> int (length (en_record en)) \<le> INT_MAX \<and>
     (en_passthrough en \<and> en_line_count en = 1 \<and> en_end_orig en = [] \<or>
      \<not> en_passthrough en \<and> en_direct_end en \<ge> 0 \<and> en_line_count en = 1 \<and> nat (en_direct_end en) \<le> length (en_record en) \<and>
      start_width en first + part_width p en (length (en_record en)) 0 (nat (en_direct_end en)) \<le> wr_width (en_options en) \<and>
      map uint (drop (nat (en_direct_end en)) (en_record en)) = trailing_space p (map uint (en_record en)) \<or>
      \<not> en_passthrough en \<and> en_direct_end en = - 1 \<and> en_end_orig en \<noteq> [] \<and>
      en_line_count en = int (length (en_wrap_after en)) + 1 \<and>
      layout (line_fits (en_widths_orig en) (en_widths_trim en) (wr_width (en_options en)) (start_width en first) (start_width en later))
        (rev (en_wrap_after en)) (length (en_widths_orig en) - 1))"

lemma plan_breaks:
  assumes ok: "words_ok en" "en_end_orig en \<noteq> []" and ar: "\<not> wr_exponent (en_options en) \<le> 0 \<Longrightarrow> cost_arith (\<lambda>r. pow r (wr_exponent (en_options en)))"
    and eq: "choose_breaks max_cost max_breaks pow fw lw en = Inr after"
  shows "layout (line_fits (en_widths_orig en) (en_widths_trim en) (wr_width (en_options en)) fw lw) (rev after) (length (en_widths_orig en) - 1)"
proof -
  have w: "widths_ok (en_widths_orig en) (en_widths_trim en)" "en_widths_orig en \<noteq> []" using ok by (auto simp: words_ok_def)
  show ?thesis
  proof (cases "fits_one_line (en_widths_orig en) (en_widths_trim en) (wr_width (en_options en)) fw")
    case True
    then show ?thesis using eq fits_one_line_fits [OF w True] by (simp add: choose_breaks_def)
  next
    case no: False
    show ?thesis
    proof (cases "wr_exponent (en_options en) \<le> 0")
      case True
      then show ?thesis using eq no greedy_result [OF w, of "wr_width (en_options en)" fw lw] by (auto simp: greedy_inv_def choose_breaks_def)
    next
      case False
      then have "dynamic max_cost max_breaks (en_widths_orig en) (en_widths_trim en) (wr_width (en_options en))
          (\<lambda>r. pow r (wr_exponent (en_options en))) fw lw (en_cost en) (en_best en) = Inr after" using eq no by (simp add: choose_breaks_def Let_def)
      from dynamic_result [OF w ar [OF False] dynamic_bounds [OF this], of "wr_width (en_options en)" fw lw "en_cost en" "en_best en"] this
      show ?thesis by auto
    qed
  qed
qed

lemma plan_planned:
  assumes hyp: "spaces_plain (wi_props icu)" "breaker_ok en" "sv_len source \<le> INT_MAX"
      "\<not> wr_exponent (en_options en) \<le> 0 \<Longrightarrow> cost_arith (\<lambda>r. pow r (wr_exponent (en_options en)))"
    and plan: "plan icu max_cost max_breaks pow source first later en = Inr (st, en')" "\<not> U_FAILURE st"
  shows "planned (wi_props icu) first later en'"
proof -
  let ?en0 = "(clear_words en)\<lparr>en_direct_end := - 1, en_line_count := 0, en_passthrough := False\<rparr>"
  obtain st1 en1 where prep: "prepare_record (wi_props icu) source ?en0 = Inr (st1, en1)" and st1: "\<not> U_FAILURE st1"
    using plan by (auto simp: plan_def Let_def bindE_eq_Inr split: if_splits prod.splits)
  obtain rec asc where en1: "en1 = ?en0\<lparr>en_record := rec, en_record_ascii := asc\<rparr>" and len: "int (length rec) \<le> INT_MAX"
    using prepare_record_ok [OF prep hyp(3) st1] by blast
  have opt: "en_options en1 = en_options en" "en_iterator en1 = en_iterator en" by (simp_all add: en1 clear_words_def)
  have words: "words_ok en1" "last_end en1 = 0" by (simp_all add: en1 clear_words_def words_ok_def widths_ok_def last_end_def)
  have measured: "words_measured (wi_props icu) en1" by (simp add: en1 clear_words_def words_measured_def)
  note pl = plan(1) [unfolded plan_def Let_def prep bindE_simps prod.case]
  obtain fit where fit: "ascii_fits (wi_props icu) en1 (start_width en1 first) = Inr fit"
    using pl st1 by (auto simp: bindE_eq_Inr start_width_def split: if_splits)
  show ?thesis
  proof (cases fit)
    case (Some e)
    then have "en' = en1\<lparr>en_direct_end := int e, en_line_count := 1\<rparr>"
      using pl st1 fit by (auto simp: start_width_def split: if_splits)
    moreover have "int (length (en_record en1)) \<le> INT_MAX" "\<not> en_passthrough en1" using len by (simp_all add: en1)
    ultimately show ?thesis using ascii_fits_measures [OF fit [unfolded Some]] words measured
      by (simp add: planned_def part_width_def start_width_def)
  next
    case None
    obtain it st2 where it: "bi_set_text (wi_brk icu) (view_of 1 (if en_record_ascii en1 then Enc_ascii else Enc_utf8) (en_record en1)) (en_iterator en1) = (it, st2)"
      by force
    note pl2 = pl [folded start_width_def, unfolded fit bindE_simps None option.case it prod.case]
    have st2: "\<not> U_FAILURE st2" using pl2 plan(2) st1 by (auto split: if_splits)
    from it st2 opt(2) obtain u where u: "bi_iterator (en_iterator en) = Some u"
      "it = (en_iterator en)\<lparr>bi_iterator := Some (u\<lparr>ub_marks := ub_rules u (en_record en1), ub_at := 0\<rparr>), bi_position := 0\<rparr>"
      by (auto simp: bi_set_text_def Let_def U_FAILURE_def U_ILLEGAL_ARGUMENT_ERROR_def U_MEMORY_ALLOCATION_ERROR_def split: option.splits if_splits prod.splits)
    let ?ms = "ub_rules u (en_record en1)"
    have ms: "marks_valid ?ms" "sorted_wrt (<) (map fst ?ms)" "\<forall>m \<in> set ?ms. fst m \<le> int (length (en_record en1))"
      using hyp(2) u(1) by (auto simp: breaker_ok_def text_marks_ok_def)
    obtain ranges it3 where dr: "drain_next (bi_first it) = (ranges, it3)" by force
    have ranges: "ranges = segments (skipped it) ?ms" using drain_first [of it "u\<lparr>ub_marks := ?ms, ub_at := 0\<rparr>"] u(2) ms(1) dr by simp
    have sub: "r \<in> set ranges \<Longrightarrow> \<exists>m \<in> set ?ms. fst m = snd r" for r
      using segments_ends(1) [of "skipped it" ?ms] unfolding ranges by (cases ?ms) force+
    let ?en3 = "en1\<lparr>en_iterator := it3\<rparr>"
    obtain en4 where en4: "words_loop (wi_props icu) ranges 0 ?en3 = Inr en4"
      using pl2 st1 st2 dr by (auto simp: bindE_eq_Inr split: if_splits)
    have "words_ok ?en3" "last_end ?en3 = 0" using words by simp_all
    moreover have "\<forall>r \<in> set ranges. int 0 \<le> snd r \<and> snd r \<le> int (length (en_record ?en3))"
      using sub ms(1,3) by (fastforce simp: marks_valid_def)
    ultimately have w4: "words_ok en4 \<and> en_record en4 = rec \<and> en_options en4 = en_options en \<and> en_direct_end en4 = - 1 \<and> \<not> en_passthrough en4"
      using words_loop_ok [OF _ hyp(1) _ _ _ , of ?en3 ranges en4] en4 segments_ends(2) [OF ms(2), of "skipped it"] len opt
      by (simp add: ranges en1)
    have "\<forall>r \<in> set ranges. (0 < snd r \<longrightarrow> int (last_end ?en3) < snd r) \<and> snd r \<le> int (length (en_record ?en3))"
      using sub ms(3) words(2) by fastforce
    then have m4: "words_measured (wi_props icu) en4"
      using words_loop_measured [OF _ _ hyp(1), of ?en3 ranges en4] words measured en4 segments_ends(2) [OF ms(2), of "skipped it"] len
      by (simp add: ranges en1)
    note pl3 = pl2 [unfolded dr prod.case en4 bindE_simps]
    show ?thesis
    proof (cases "en_end_orig en4 = []")
      case True
      then have "en' = en4\<lparr>en_passthrough := True, en_line_count := 1\<rparr>" using pl3 st1 st2 en4 by (auto split: if_splits)
      then show ?thesis using w4 m4 len True by (simp add: planned_def)
    next
      case False
      have sw: "start_width en4 ls = start_width en1 ls" for ls using w4 opt by (simp add: start_width_def)
      obtain after where after: "choose_breaks max_cost max_breaks pow (start_width en1 first) (start_width en1 later) en4 = Inr after"
        "en' = en4\<lparr>en_wrap_after := after, en_line_count := int (length after) + 1\<rparr>"
        using pl3 st1 st2 False en4 by (auto simp: bindE_eq_Inr split: if_splits)
      have "layout (line_fits (en_widths_orig en4) (en_widths_trim en4) (wr_width (en_options en4)) (start_width en1 first) (start_width en1 later))
          (rev after) (length (en_widths_orig en4) - 1)"
        by (rule plan_breaks [OF _ False _ after(1)]) (use w4 hyp(4) in auto)
      then show ?thesis using w4 m4 len False sw unfolding after(2) by (simp add: planned_def start_width_def)
    qed
  qed
qed

subsection \<open>Lines of a plan\<close>

lemma layout_breaks: "layout F ks j \<Longrightarrow> sorted_wrt (>) ks \<and> (\<forall>k \<in> set ks. k < j)"
  by (induction ks arbitrary: j) fastforce+

text \<open>The byte range of a line in the record.\<close>

definition line_range :: "'d engine \<Rightarrow> nat \<Rightarrow> nat \<times> nat" where
  "line_range en i =
     (if en_passthrough en then (0, length (en_record en))
      else if en_direct_end en < 0 then
        (if i > 0 then en_end_orig en ! (en_wrap_after en ! (i - 1)) else 0,
         if i < length (en_wrap_after en) then en_end_trim en ! (en_wrap_after en ! i) else last (en_end_trim en))
      else (0, nat (en_direct_end en)))"

definition line_text :: "line_start_rec \<Rightarrow> line_start_rec \<Rightarrow> 'd engine \<Rightarrow> nat \<Rightarrow> byte list" where
  "line_text first later en i =
     (if en_passthrough en then en_record en
      else ls_bytes (if i = 0 then first else later) @ slice (en_record en) (fst (line_range en i)) (snd (line_range en i)))"

lemma planned_range:
  assumes "planned p first later en" "i < nat (en_line_count en)"
  shows "fst (line_range en i) \<le> snd (line_range en i)" "snd (line_range en i) \<le> length (en_record en)"
proof -
  have "fst (line_range en i) \<le> snd (line_range en i) \<and> snd (line_range en i) \<le> length (en_record en)"
  proof (cases "en_passthrough en \<or> en_direct_end en \<ge> 0")
    case True
    then show ?thesis using assms(1) by (auto simp: planned_def line_range_def)
  next
    case False
    let ?n = "length (en_end_orig en)" and ?a = "en_wrap_after en"
    have ok: "words_ok en" and ne: "en_end_orig en \<noteq> []" and cnt: "en_line_count en = int (length ?a) + 1"
      and lay: "sorted_wrt (>) (rev ?a)" "\<forall>k \<in> set ?a. k < ?n - 1"
      using assms(1) False layout_breaks by (auto simp: planned_def words_ok_def)
    have lens: "length (en_end_trim en) = ?n" "sorted (en_end_orig en)"
      and ends: "\<And>k. k < ?n \<Longrightarrow> (if k = 0 then 0 else en_end_orig en ! (k - 1)) \<le> en_end_trim en ! k \<and> en_end_trim en ! k \<le> length (en_record en)"
      using ok by (auto simp: words_ok_def intro: order_trans)
    define e where "e = (if i < length ?a then ?a ! i else ?n - 1)"
    have "?a ! i < ?n" if "i < length ?a" using lay(2) nth_mem [OF that] by fastforce
    then have e: "e < ?n" using ne by (simp add: e_def)
    have "last (en_end_trim en) = en_end_trim en ! (?n - 1)" using ne lens(1) by (metis last_conv_nth length_0_conv)
    then have e2: "snd (line_range en i) = en_end_trim en ! e" using False by (auto simp: e_def line_range_def)
    have "fst (line_range en i) \<le> en_end_trim en ! e"
    proof (cases "i > 0")
      case True
      have il: "i - 1 < length ?a" using assms(2) cnt True by auto
      have "?a ! (i - 1) < e"
      proof (cases "i < length ?a")
        case lt: True
        have "sorted_wrt (<) ?a" using lay(1) by (simp add: sorted_wrt_rev)
        then show ?thesis using lt True by (auto simp: e_def sorted_wrt_nth_less)
      next
        case False
        then show ?thesis using lay(2) nth_mem [OF il] by (auto simp: e_def)
      qed
      then have "en_end_orig en ! (?a ! (i - 1)) \<le> en_end_orig en ! (e - 1)" using e by (intro sorted_nth_mono [OF lens(2)]) auto
      moreover have "0 < e" using \<open>?a ! (i - 1) < e\<close> by simp
      ultimately show ?thesis using ends [OF e] True \<open>\<not> (en_passthrough en \<or> en_direct_end en \<ge> 0)\<close> by (auto simp: line_range_def)
    next
      case z: False
      then show ?thesis using False by (simp add: line_range_def)
    qed
    then show ?thesis using ends [OF e] e2 by auto
  qed
  then show "fst (line_range en i) \<le> snd (line_range en i)" "snd (line_range en i) \<le> length (en_record en)" by auto
qed

lemma line_at_text:
  assumes "planned p first later en" "i < nat (en_line_count en)" "wrap_line_at (int i) first later cl en = Inr ln"
  shows "ln_prefix ln @ ln_body ln = line_text first later en i" "ln_size ln = length (line_text first later en i)"
proof -
  obtain b e where be: "line_range en i = (b, e)" by force
  have r: "b \<le> e" "e \<le> length (en_record en)" using planned_range [OF assms(1,2)] be by auto
  have "int e - int b \<le> INT_MAX" using r assms(1) by (simp add: planned_def)
  then have sz: "size_cast (int e - int b) = e - b" using r by (simp add: nat_diff_distrib)
  have "ln_prefix ln @ ln_body ln = line_text first later en i \<and> ln_size ln = length (line_text first later en i)"
  proof (cases "en_passthrough en")
    case True
    then show ?thesis using assms(2,3) by (auto simp: wrap_line_at_def line_text_def split: if_splits)
  next
    case False
    then have "(if en_direct_end en < 0 then
              (if int i > 0 then en_end_orig en ! (en_wrap_after en ! nat (int i - 1)) else 0,
               if nat (int i) < length (en_wrap_after en) then en_end_trim en ! (en_wrap_after en ! nat (int i)) else last (en_end_trim en))
              else (0, nat (en_direct_end en))) = (b, e)"
      using be by (simp add: line_range_def nat_diff_distrib split: if_splits)
    then have "checked_sum (length (ls_bytes (if i = 0 then first else later))) (e - b) = Inr (ln_size ln)"
      "ln_prefix ln = ls_bytes (if i = 0 then first else later)" "ln_body ln = slice (en_record en) b e"
      using assms(2,3) False sz by (auto simp: wrap_line_at_def Let_def bindE_eq_Inr split: if_splits)
    then show ?thesis using False be r by (auto simp: line_text_def checked_sum_def Let_def split: if_splits)
  qed
  then show "ln_prefix ln @ ln_body ln = line_text first later en i" "ln_size ln = length (line_text first later en i)" by auto
qed

lemma line_at_unclassified: "wrap_line_at i first later cl en = Inr ln \<Longrightarrow> \<exists>ln'. wrap_line_at i first later False en = Inr ln'"
  by (auto simp: wrap_line_at_def Let_def bindE_eq_Inr split: if_splits prod.splits)

lemma joined_loop_size:
  assumes "joined_loop idx first later cl en sz asc = Inr (sz', asc')"
    and "planned p first later en" "idx = map int [i..<nat (en_line_count en)]"
  shows "sz' = sz + sum_list (map (\<lambda>k. length (line_text first later en k)) [i..<nat (en_line_count en)]) \<and>
    (\<forall>k. i \<le> k \<and> k < nat (en_line_count en) \<longrightarrow> (\<exists>ln. wrap_line_at (int k) first later False en = Inr ln))"
  using assms
proof (induction idx arbitrary: i sz asc)
  case Nil
  then show ?case by auto
next
  case (Cons j idx)
  then have i: "i < nat (en_line_count en)" "j = int i" "idx = map int [Suc i..<nat (en_line_count en)]"
    by (auto simp: upt_conv_Cons map_eq_Cons_conv Cons_eq_map_conv upt_eq_Cons_conv)
  obtain ln where ln: "wrap_line_at (int i) first later cl en = Inr ln" "joined_loop idx first later cl en (sz + ln_size ln) (asc \<and> ln_ascii ln) = Inr (sz', asc')"
    using Cons.prems(1) i(2) by (auto simp: bindE_eq_Inr checked_sum_def Let_def split: if_splits)
  note IH = Cons.IH [OF ln(2) Cons.prems(2) i(3)]
  have "ln_size ln = length (line_text first later en i)" by (rule line_at_text(2) [OF Cons.prems(2) i(1) ln(1)])
  moreover have "\<exists>ln. wrap_line_at (int k) first later False en = Inr ln" if "i \<le> k" "k < nat (en_line_count en)" for k
    using that IH line_at_unclassified [OF ln(1)] by (cases "k = i") auto
  ultimately show ?case using IH i(1) by (auto simp: upt_conv_Cons)
qed

lemma filled_put: "filled buf0 used txt buf \<Longrightarrow> used < length buf0 \<Longrightarrow> filled buf0 (Suc used) (txt @ [x]) (buf[used := x])"
  by (auto simp: filled_def list_update_append Cons_nth_drop_Suc [symmetric])

lemma filled_write_line:
  assumes "filled buf0 used txt buf" "used + length (ln_prefix ln @ ln_body ln) \<le> length buf0"
  shows "filled buf0 (used + length (ln_prefix ln @ ln_body ln)) (txt @ ln_prefix ln @ ln_body ln) (write_line ln buf used)"
proof -
  have "filled buf0 (used + length (ln_prefix ln)) (txt @ ln_prefix ln) (memcpy_at buf used (ln_prefix ln) (length (ln_prefix ln)))"
    using filled_memcpy [OF assms(1), of "length (ln_prefix ln)" "ln_prefix ln"] assms(2) by simp
  from filled_memcpy [OF this, of "length (ln_body ln)" "ln_body ln"] show ?thesis
    using assms(2) by (auto simp: write_line_def Let_def add.assoc)
qed

lemma write_joined_loop_text:
  assumes "planned p first later en" "idx = map int [i..<nat (en_line_count en)]"
    and "\<forall>k. i \<le> k \<and> k < nat (en_line_count en) \<longrightarrow> (\<exists>ln. wrap_line_at (int k) first later False en = Inr ln)"
    and "filled buf0 used pre buf"
    and "length buf0 = used + length (concat (map (\<lambda>k. (if k > 0 then [0x0a] else []) @ line_text first later en k) [i..<nat (en_line_count en)]))"
  shows "write_joined_loop idx first later en buf used =
    Inr (pre @ concat (map (\<lambda>k. (if k > 0 then [0x0a] else []) @ line_text first later en k) [i..<nat (en_line_count en)]))"
  using assms(2-)
proof (induction idx arbitrary: i used pre buf)
  case Nil
  then show ?case by (auto simp: filled_def)
next
  case (Cons j idx)
  then have i: "i < nat (en_line_count en)" "j = int i" "idx = map int [Suc i..<nat (en_line_count en)]"
    by (auto simp: upt_conv_Cons Cons_eq_map_conv upt_eq_Cons_conv)
  obtain ln where ln: "wrap_line_at (int i) first later False en = Inr ln" using Cons.prems(2) i(1) by auto
  note tx = line_at_text [OF assms(1) i(1) ln]
  define used1 buf1 pre1 where "used1 = (if i > 0 then Suc used else used)" "buf1 = (if i > 0 then buf[used := 0x0a] else buf)"
    "pre1 = (if i > 0 then pre @ [0x0a] else pre)"
  have len: "length buf0 = used1 + length (line_text first later en i) +
      length (concat (map (\<lambda>k. (if k > 0 then [0x0a] else []) @ line_text first later en k) [Suc i..<nat (en_line_count en)]))"
    using Cons.prems(4) i(1) by (auto simp: upt_conv_Cons used1_buf1_pre1_def)
  have f1: "filled buf0 used1 pre1 buf1"
    using Cons.prems(3) filled_put [OF Cons.prems(3), of "0x0a"] len by (auto simp: used1_buf1_pre1_def split: if_splits)
  have f2: "filled buf0 (used1 + ln_size ln) (pre1 @ line_text first later en i) (if ln_size ln > 0 then write_line ln buf1 used1 else buf1)"
    using filled_write_line [OF f1, of ln] f1 len tx by (auto simp: filled_def)
  have step: "write_joined_loop (j # idx) first later en buf used =
      write_joined_loop idx first later en (if ln_size ln > 0 then write_line ln buf1 used1 else buf1) (used1 + ln_size ln)"
    using i(2) ln by (simp add: used1_buf1_pre1_def Let_def)
  show ?case
    unfolding step using Cons.IH [OF i(3) _ f2] Cons.prems(2) len tx(2) i(1)
    by (auto simp: upt_conv_Cons used1_buf1_pre1_def)
qed

lemma concat_join_lines:
  "0 < n \<Longrightarrow> concat (map (\<lambda>k. (if k > 0 then [0x0a] else []) @ f k) [0..<n]) = join_with [0x0a] (map f [0..<n])"
proof (induction n)
  case (Suc n)
  then show ?case by (cases "n = 0") (auto simp: join_with_snoc)
qed simp

lemma joined_write_joined:
  assumes "planned p first later en" "joined first later cl en = Inr (sz, asc)" "length dest = sz"
  shows "write_joined dest first later en = Inr (join_with [0x0a] (map (line_text first later en) [0..<nat (en_line_count en)]))"
proof -
  let ?n = "nat (en_line_count en)"
  have pos: "0 < ?n" and jl: "joined_loop (map int [0..<?n]) first later cl en (nat (en_line_count en - 1)) True = Inr (sz, asc)"
    using assms(2) by (auto simp: joined_def split: if_splits)
  note js = joined_loop_size [OF jl assms(1) refl]
  have eq: "concat (map (\<lambda>k. (if k > 0 then [0x0a] else []) @ line_text first later en k) [0..<?n]) = join_with [0x0a] (map (line_text first later en) [0..<?n])"
    by (rule concat_join_lines [OF pos])
  have "sz = length (join_with [0x0a] (map (line_text first later en) [0..<?n]))"
    using js by (simp add: length_join_with comp_def nat_diff_distrib)
  then show ?thesis
    using write_joined_loop_text [OF assms(1) refl, of 0 dest 0 "[]" dest] js assms(3)
    unfolding write_joined_def eq by simp
qed

lemma planned_order:
  assumes "planned p first later en" "Suc i < nat (en_line_count en)"
  shows "snd (line_range en i) \<le> fst (line_range en (Suc i))"
proof -
  have p: "\<not> en_passthrough en" "en_direct_end en = - 1" "words_ok en" "i < length (en_wrap_after en)"
    and lay: "\<forall>k \<in> set (en_wrap_after en). k < length (en_end_orig en) - 1"
    using assms layout_breaks by (auto simp: planned_def words_ok_def)
  have "en_wrap_after en ! i < length (en_end_orig en)" using lay nth_mem [OF p(4)] by fastforce
  then show ?thesis using p by (auto simp: line_range_def words_ok_def)
qed

subsection \<open>Properties\<close>

text \<open>C9. A plan that succeeds cuts the record into lines in order: the byte ranges of the lines lie in the record and do not
  overlap. The one line of the ASCII shortcut is the record without a white space at its end, and its width with the prefix is
  within the limit. In a layout every word has the width of its own code points, with and without a white space at its
  end, and the words of every line fit the width with its prefix unless the line is one word. A record without words
  stays whole. This covers the preparation, the shortcut, the cutting into words and both strategies.\<close>
theorem wrap_plan_lines:
  assumes "spaces_plain (wi_props icu)" "breaker_ok en" "sv_len source \<le> INT_MAX"
    and "\<not> wr_exponent (en_options en) \<le> 0 \<Longrightarrow> cost_arith (\<lambda>r. pow r (wr_exponent (en_options en)))"
    and "plan icu max_cost max_breaks pow source first later en = Inr (st, en')" "\<not> U_FAILURE st"
  shows "planned (wi_props icu) first later en' \<and>
    (\<forall>i < nat (en_line_count en'). fst (line_range en' i) \<le> snd (line_range en' i) \<and> snd (line_range en' i) \<le> length (en_record en')) \<and>
    (\<forall>i. Suc i < nat (en_line_count en') \<longrightarrow> snd (line_range en' i) \<le> fst (line_range en' (Suc i)))"
proof -
  have p: "planned (wi_props icu) first later en'" by (rule plan_planned [OF assms])
  show ?thesis using p planned_range [OF p] planned_order [OF p] by blast
qed

text \<open>After a successful plan, when the size of the joined lines is computed, writing into a buffer of that size returns
  the prefixed lines joined by line feeds; the size is exact and no line of the second pass fails.\<close>
lemma wrap_joined_exact:
  assumes "spaces_plain (wi_props icu)" "breaker_ok en" "sv_len source \<le> INT_MAX"
    and "\<not> wr_exponent (en_options en) \<le> 0 \<Longrightarrow> cost_arith (\<lambda>r. pow r (wr_exponent (en_options en)))"
    and "plan icu max_cost max_breaks pow source first later en = Inr (st, en')" "\<not> U_FAILURE st"
    and "joined first later classify_ascii en' = Inr (sz, ascii)" "length dest = sz"
  shows "write_joined dest first later en' = Inr (join_with [0x0a] (map (line_text first later en') [0..<nat (en_line_count en')]))"
  by (rule joined_write_joined [OF plan_planned [OF assms(1-6)] assms(7,8)])

definition demo_props :: uprops where
  "demo_props = \<lparr>u_charType = (\<lambda>v. 5), u_eastAsianWidth = (\<lambda>v. 0), u_hangulType = (\<lambda>v. 0), u_emojiModifier = (\<lambda>v. False),
     u_emojiPresentation = (\<lambda>v. False), u_whiteSpace = (\<lambda>v. v = 0x20)\<rparr>"

text \<open>A break iterator with a boundary behind every third byte and at the end.\<close>

definition demo_rules :: break_rules where
  "demo_rules t = map (\<lambda>k. (int k, 0)) (filter (\<lambda>k. k mod 3 = 0 \<or> k = length t) [0..<length t + 1])"

definition demo_icu :: wrap_icu where
  "demo_icu = \<lparr>wi_props = demo_props, wi_brk = \<lparr>ib_rules_bogus = (\<lambda>r. False), ib_open_rules = (\<lambda>r. (0, Some demo_rules)),
     ib_open = (\<lambda>t l. (0, Some demo_rules)), ib_valid_locale = (\<lambda>r. None), ib_open_text = (\<lambda>t. (0, True)), ib_set_text = (\<lambda>t. 0),
     ib_default_locale = None\<rparr>, wi_linebreaks_status = 0, wi_whitespaces_status = 0, wi_sets_bogus = False, wi_nfc = (0, Some (\<lambda>t. (0, t)))\<rparr>"

definition demo_engine :: "int engine" where
  "demo_engine = \<lparr>en_iterator = \<lparr>bi_iterator = Some \<lparr>ub_rules = demo_rules, ub_marks = [(0, 0)], ub_at = 0\<rparr>, bi_skip_rules = None,
       bi_skip_size = 0, bi_position = 0\<rparr>,
     en_sets_ready = True, en_normalizer = None, en_end_orig = [], en_widths_orig = [], en_widths_trim = [], en_end_trim = [],
     en_wrap_after = [], en_cost = [], en_best = [],
     en_options = \<lparr>wr_locale = None, wr_width = 4, wr_exponent = 2, wr_whitespace_only = False, wr_use_length = False, wr_normalize = False\<rparr>,
     en_record = [], en_direct_end = - 1, en_line_count = 0, en_record_ascii = True, en_passthrough = False\<rparr>"

definition demo_start :: line_start_rec where
  "demo_start = \<lparr>ls_bytes = [0x3e], ls_count = 1, ls_width = 1, ls_ascii = True, ls_missing = False\<rparr>"

definition demo_source :: string_view where
  "demo_source = view_of 1 Enc_ascii [0x61, 0x62, 0x20]"

definition demo_planned :: "int engine" where
  "demo_planned = demo_engine\<lparr>en_record := [0x61, 0x62, 0x20], en_direct_end := 2, en_line_count := 1\<rparr>"

lemma demo_plan: "plan demo_icu 100 100 (\<lambda>r e. r ^ nat e) demo_source demo_start demo_start demo_engine = Inr (0, demo_planned)"
proof -
  have prep: "prepare_record demo_props demo_source ((clear_words demo_engine)\<lparr>en_direct_end := - 1, en_line_count := 0, en_passthrough := False\<rparr>) =
      Inr (0, demo_engine\<lparr>en_record := [0x61, 0x62, 0x20]\<rparr>)"
    by (simp add: prepare_record_def demo_source_def demo_engine_def clear_words_def view_of_def sv_bytes_def)
  have fit: "ascii_fits demo_props (demo_engine\<lparr>en_record := [0x61, 0x62, 0x20]\<rparr>) 1 = Inr (Some 2)"
    by (simp add: ascii_fits_def demo_engine_def demo_props_def character_width_with_context_def character_width_def ascii_char_width_def Let_def)
  have "wi_props demo_icu = demo_props" by (simp add: demo_icu_def)
  then show ?thesis
    unfolding plan_def Let_def
    by (simp add: prep fit demo_start_def U_FAILURE_def demo_planned_def)
qed

lemma demo_hypotheses:
  "spaces_plain (wi_props demo_icu)" "breaker_ok demo_engine" "sv_len demo_source \<le> INT_MAX"
  "cost_arith (\<lambda>r :: int. r ^ nat 2)"
proof -
  show "spaces_plain (wi_props demo_icu)" by (simp add: spaces_plain_def demo_icu_def demo_props_def)
  show "sv_len demo_source \<le> INT_MAX" by (simp add: demo_source_def view_of_def INT_MAX_def)
  show "cost_arith (\<lambda>r :: int. r ^ nat 2)" by (auto simp: cost_arith_def power_mono)
  have "text_marks_ok t (demo_rules t)" for t
  proof -
    have "0 \<in> set (filter (\<lambda>k. k mod 3 = 0 \<or> k = length t) [0..<length t + 1])" by simp
    then have "filter (\<lambda>k. k mod 3 = 0 \<or> k = length t) [0..<length t + 1] \<noteq> []" by force
    then have "demo_rules t \<noteq> []" unfolding demo_rules_def by (rule contrapos_nn) (simp only: map_is_Nil_conv)
    moreover have "sorted_wrt (<) (map fst (demo_rules t))"
    proof -
      have "sorted_wrt (<) (filter (\<lambda>k. k mod 3 = 0 \<or> k = length t) [0..<length t + 1])" by (rule sorted_wrt_filter [OF sorted_wrt_upt])
      then show ?thesis by (simp add: demo_rules_def comp_def sorted_wrt_map del: upt_Suc)
    qed
    ultimately show ?thesis by (auto simp: text_marks_ok_def marks_valid_def demo_rules_def simp del: upt_Suc)
  qed
  then show "breaker_ok demo_engine" by (simp add: breaker_ok_def demo_engine_def)
qed

theorem wrap_plan_lines_witness:
  "planned demo_props demo_start demo_start demo_planned \<and> snd (line_range demo_planned 0) \<le> length (en_record demo_planned)"
proof -
  have "en_line_count demo_planned = 1" "wr_exponent (en_options demo_engine) = 2" "wi_props demo_icu = demo_props"
    by (simp_all add: demo_planned_def demo_engine_def demo_icu_def)
  then show ?thesis using wrap_plan_lines [OF demo_hypotheses(1-3) _ demo_plan] demo_hypotheses(4) by (simp add: U_FAILURE_def)
qed

end
