(* ===== verification/Case_Map.thy ===== *)
theory Case_Map
  imports Boundary
begin

text \<open>
  Case mapping: \<^verbatim>\<open>src/shared/case_mapper.cpp\<close> (lower and upper case) and
  \<^verbatim>\<open>title_case.cpp\<close>. Both prepare an input, map pure ASCII themselves and leave the rest to
  ICU's case maps, which are parameters: a call gets a capacity and returns a status, the
  length of the whole result and the bytes it wrote. \<open>icu_maps\<close> is the documented contract
  of these calls. The lemmas show that the retry with a larger buffer returns the whole
  mapped text whatever the reused buffer held, and what the ASCII loops compute.
\<close>

datatype case_map_mode = Lower | Upper

record case_map_input =
  cmi_data :: cptr
  cmi_length :: int
  cmi_ascii :: bool

type_synonym icu_call = "nat \<Rightarrow> byte list \<Rightarrow> int \<times> int \<times> byte list"

record ucasemap =
  ucm_locale :: "string option"
  ucm_lower :: icu_call
  ucm_upper :: icu_call
  ucm_title :: icu_call

record case_mapper =
  cm_casemap :: "ucasemap option"
  cm_locale :: "string option"
  cm_mode :: case_map_mode
  cm_simple_ascii :: bool
  cm_output :: "byte list"

definition cm_empty :: cptr where "cm_empty = Ptr 0 [0]"

definition cm_is_ascii :: "byte list \<Rightarrow> int \<Rightarrow> bool" where
  "cm_is_ascii data len = list_all (\<lambda>b. \<not> b \<ge> 0x80) (take (nat len) data)"

definition is_turkic_locale :: "string option \<Rightarrow> bool" where
  "is_turkic_locale locl =
     (case locl of
        None \<Rightarrow> False
      | Some l \<Rightarrow>
          if cchar l 0 = CHR 0x00 \<or> cchar l 1 = CHR 0x00 then False
          else
            let delimiter = cchar l 2 = CHR 0x00 \<or> cchar l 2 = CHR ''_'' \<or> cchar l 2 = CHR ''-'' \<or> cchar l 2 = CHR ''@'' in
            delimiter \<and> (cchar l 0 = CHR ''t'' \<and> cchar l 1 = CHR ''r'' \<or> cchar l 0 = CHR ''a'' \<and> cchar l 1 = CHR ''z''))"

definition case_call :: "ucasemap \<Rightarrow> case_map_mode \<Rightarrow> icu_call" where
  "case_call casemap mode = (if mode = Lower then ucm_lower casemap else ucm_upper casemap)"

definition CaseMapper :: case_mapper where
  "CaseMapper = \<lparr>cm_casemap = None, cm_locale = None, cm_mode = Lower, cm_simple_ascii = True, cm_output = []\<rparr>"

definition cm_close :: "case_mapper \<Rightarrow> case_mapper" where
  "cm_close cm = cm\<lparr>cm_casemap := None\<rparr>"

definition cm_reset :: "string option \<Rightarrow> case_map_mode \<Rightarrow> case_mapper \<Rightarrow> case_mapper" where
  "cm_reset locl mode cm = (cm_close cm)\<lparr>cm_locale := locl, cm_mode := mode, cm_simple_ascii := \<not> is_turkic_locale locl\<rparr>"

text \<open>The body of the two \<open>prepare_impl\<close> functions, which differ in the word their messages use and in
  whether an unmarked input is scanned; without a converter only UTF-8 is accepted.\<close>

definition prepare_impl :: "string \<Rightarrow> bool \<Rightarrow> string_view \<Rightarrow> native_to_utf8 option \<Rightarrow> case_map_input result" where
  "prepare_impl word scan source converter =
     (if is_na source then Inl (Invalid_argument (''cannot '' @ word @ '' a missing string''))
      else if sv_len source < 0 \<or> sv_ptr source = NullPtr \<and> sv_len source \<noteq> 0 then
        Inl (Invalid_argument (''invalid '' @ word @ '' input string view''))
      else
        let data = (if sv_ptr source = NullPtr then cm_empty else sv_ptr source);
            len = sv_len source;
            not_utf8 = Inl (Invalid_argument (word @ '' input was not prepared as UTF-8''));
            finish = (\<lambda>data len strip_bom ascii ascii_known.
              let (data, len) = (if strip_bom then (ptr_add data 3, len - 3) else (data, len));
                  data = (if len = 0 then cm_empty else data);
                  ascii = (if \<not> ascii_known \<and> scan then cm_is_ascii (ptr_bytes data) len else ascii)
              in Inr \<lparr>cmi_data = data, cmi_length = len, cmi_ascii = ascii\<rparr>)
        in
        case sv_enc source of
          Enc_ascii \<Rightarrow> finish data len False True True
        | Enc_utf8 \<Rightarrow> finish data len (has_bom data len) False True
        | Enc_ascii_or_utf8 \<Rightarrow> finish data len (has_bom data len) False False
        | Enc_latin1 \<Rightarrow>
            (case converter of
               None \<Rightarrow> not_utf8
             | Some conv \<Rightarrow>
                 bindE (conv_latin1 conv (sv_bytes source)) (\<lambda>converted. finish (bv_ptr converted) (bv_len converted) False False False))
        | Enc_native \<Rightarrow>
            (case converter of
               None \<Rightarrow> not_utf8
             | Some conv \<Rightarrow>
                 let native_bom = has_bom data len in
                 bindE (conv_native conv (sv_bytes source)) (\<lambda>converted.
                   finish (bv_ptr converted) (bv_len converted) (native_bom \<and> has_bom (bv_ptr converted) (bv_len converted)) False False))
        | Enc_bytes \<Rightarrow> Inl (Runtime_error ''bytes encoding is not supported by this function'')
        | Enc_missing \<Rightarrow> Inl (Invalid_argument (''non-missing '' @ word @ '' input has NA encoding''))
        | Enc_unknown \<Rightarrow> Inl (Invalid_argument (''unknown '' @ word @ '' input encoding'')))"

definition cm_prepare :: "native_to_utf8 \<Rightarrow> string_view \<Rightarrow> case_map_input result" where
  "cm_prepare conv source = prepare_impl ''case-map'' True source (Some conv)"

definition cm_prepare_utf8 :: "string_view \<Rightarrow> case_map_input result" where
  "cm_prepare_utf8 source = prepare_impl ''case-map'' True source None"

definition cm_has_ascii_fast_path :: "case_mapper \<Rightarrow> case_map_input \<Rightarrow> bool" where
  "cm_has_ascii_fast_path cm inp \<longleftrightarrow> cm_simple_ascii cm \<and> cmi_ascii inp"

fun map_ascii_loop :: "case_map_mode \<Rightarrow> byte list \<Rightarrow> byte list \<Rightarrow> bool \<Rightarrow> byte list \<times> bool" where
  "map_ascii_loop mode [] out changed = (out, changed)"
| "map_ascii_loop Upper (b # bs) out changed =
     (if 0x61 \<le> b \<and> b \<le> 0x7a then map_ascii_loop Upper bs (out @ [b - 0x20]) True else map_ascii_loop Upper bs (out @ [b]) changed)"
| "map_ascii_loop Lower (b # bs) out changed =
     (if 0x41 \<le> b \<and> b \<le> 0x5a then map_ascii_loop Lower bs (out @ [b + 0x20]) True else map_ascii_loop Lower bs (out @ [b]) changed)"

definition cm_map_ascii :: "case_mapper \<Rightarrow> case_map_input \<Rightarrow> byte list \<times> bool" where
  "cm_map_ascii cm inp = map_ascii_loop (cm_mode cm) (take (nat (cmi_length inp)) (ptr_bytes (cmi_data inp))) [] False"

definition cm_open :: "(string option \<Rightarrow> int \<times> ucasemap option) \<Rightarrow> case_mapper \<Rightarrow> bool \<times> int \<times> case_mapper" where
  "cm_open icu_open cm =
     (case cm_casemap cm of
        Some c \<Rightarrow> (True, 0, cm)
      | None \<Rightarrow>
          let (status, opened) = icu_open (cm_locale cm) in
          case opened of
            None \<Rightarrow> (False, if U_FAILURE status then status else U_MEMORY_ALLOCATION_ERROR, cm_close cm)
          | Some c \<Rightarrow>
              if U_FAILURE status then (False, status, cm_close cm) else (True, status, cm\<lparr>cm_casemap := Some c\<rparr>))"

definition grow :: "byte list \<Rightarrow> nat \<Rightarrow> byte list" where
  "grow buf n = (if length buf < n then buf @ replicate (n - length buf) 0 else buf)"

text \<open>The call and its retry of the two \<open>map_icu\<close> functions: the length of the result, or \<open>None\<close> where they
  return the missing view, the status and the buffer.\<close>

definition map_with_retry :: "icu_call \<Rightarrow> byte list \<Rightarrow> byte list \<Rightarrow> int option \<times> int \<times> byte list" where
  "map_with_retry call buf input =
     (let buf = grow buf (length input + 10);
          capacity = min (length buf) (nat INT_MAX);
          (status, output_length, written) = call capacity input;
          buf = memcpy_at buf 0 written (length written)
      in
      if U_FAILURE status then
        if output_length < 0 then (None, status, buf)
        else
          let buf = grow buf (nat output_length);
              capacity = min (length buf) (nat INT_MAX);
              (status, output_length, written) = call capacity input;
              buf = memcpy_at buf 0 written (length written)
          in if U_FAILURE status then (None, status, buf) else (Some output_length, status, buf)
      else (Some output_length, status, buf))"

text \<open>\<open>addr\<close> is the address of the buffer.\<close>

definition cm_map_icu ::
  "nat \<Rightarrow> (string option \<Rightarrow> int \<times> ucasemap option) \<Rightarrow> case_mapper \<Rightarrow> case_map_input \<Rightarrow> string_view \<times> int \<times> case_mapper" where
  "cm_map_icu addr icu_open cm inp =
     (let (ok, status, cm) = cm_open icu_open cm in
      if \<not> ok then (missing_view, status, cm)
      else
        let casemap = the (cm_casemap cm);
            (r, status, buf) = map_with_retry (case_call casemap (cm_mode cm)) (cm_output cm)
              (take (nat (cmi_length inp)) (ptr_bytes (cmi_data inp)));
            cm = cm\<lparr>cm_output := buf\<rparr>
        in
        case r of
          None \<Rightarrow> (missing_view, status, cm)
        | Some output_length \<Rightarrow>
            let data = (if output_length = 0 then cm_empty else Ptr addr buf);
                output_ascii = cmi_ascii inp \<and> \<not> is_turkic_locale (ucm_locale casemap) \<or> cm_is_ascii (ptr_bytes data) output_length
            in (StringView data output_length (if output_ascii then Enc_ascii else Enc_utf8), status, cm))"

subsection \<open>Title case\<close>

record title_options =
  to_locale :: "string option"
  to_rules :: "byte list"
  to_rules_length :: int
  to_type :: int
  to_custom_rules :: bool
  to_has_skip_rules :: bool

record title_mapper =
  tm_casemap :: "ucasemap option"
  tm_ascii_fast_path :: bool
  tm_turkic :: bool
  tm_output :: "byte list"

definition TitleCaseMapper :: title_mapper where
  "TitleCaseMapper = \<lparr>tm_casemap = None, tm_ascii_fast_path = False, tm_turkic = False, tm_output = []\<rparr>"

definition is_title_locale :: "string option \<Rightarrow> bool" where
  "is_title_locale locl =
     (case locl of
        None \<Rightarrow> False
      | Some l \<Rightarrow>
          if (cchar l 0 = CHR ''C'' \<or> cchar l 0 = CHR ''c'') \<and> (cchar l 1 = CHR 0x00 \<or> cchar l 1 = CHR ''.'') then True
          else if cchar l 0 = CHR 0x00 then True
          else if l = ''root'' then True
          else if cchar l 0 \<noteq> CHR ''e'' \<or> cchar l 1 \<noteq> CHR ''n'' then False
          else if cchar l 2 \<noteq> CHR 0x00 \<and> cchar l 2 \<noteq> CHR ''_'' \<and> cchar l 2 \<noteq> CHR ''-'' then False
          else \<not> list_ex (\<lambda>c. c = CHR ''@'') (drop 2 l))"

definition ascii_letter :: "byte \<Rightarrow> bool" where
  "ascii_letter b \<longleftrightarrow> 0x41 \<le> b \<and> b \<le> 0x5a \<or> 0x61 \<le> b \<and> b \<le> 0x7a"

definition title_byte_ok :: "byte list \<Rightarrow> nat \<Rightarrow> bool" where
  "title_byte_ok s i =
     (let b = s ! i in
      if b \<ge> 0x80 then False
      else if ascii_letter b then True
      else
        let whitespace = b = 0x20 \<or> b \<ge> 0x09 \<and> b \<le> 0x0d;
            punctuation = b \<ge> 0x21 \<and> b \<le> 0x2f \<or> b \<ge> 0x3a \<and> b \<le> 0x40 \<or> b \<ge> 0x5b \<and> b \<le> 0x60 \<or> b \<ge> 0x7b \<and> b \<le> 0x7e
        in
        if \<not> whitespace \<and> \<not> punctuation \<or> b = 0x27 \<or> b = 0x5f then False
        else \<not> (b = 0x2e \<and> i > 0 \<and> i + 1 < length s \<and> ascii_letter (s ! (i - 1)) \<and> ascii_letter (s ! (i + 1))))"

definition ascii_title_eligible :: "case_map_input \<Rightarrow> bool" where
  "ascii_title_eligible inp =
     (let s = take (nat (cmi_length inp)) (ptr_bytes (cmi_data inp)) in list_all (title_byte_ok s) [0..<length s])"

definition tm_close :: "title_mapper \<Rightarrow> title_mapper" where
  "tm_close tm = tm\<lparr>tm_casemap := None, tm_ascii_fast_path := False, tm_turkic := False\<rparr>"

text \<open>\<open>set_status\<close> is the status of handing the break iterator to the case map.\<close>

definition tm_reset ::
  "(string option \<Rightarrow> int \<times> ucasemap option) \<Rightarrow> icu_brk \<Rightarrow> int \<Rightarrow> title_options \<Rightarrow> title_mapper \<Rightarrow> title_mapper \<times> int \<times> bool" where
  "tm_reset icu_open icu set_status options tm =
     (let tm = tm_close tm; (status, casemap) = icu_open (to_locale options) in
      case casemap of
        None \<Rightarrow> (tm, if U_FAILURE status then status else U_MEMORY_ALLOCATION_ERROR, False)
      | Some c \<Rightarrow>
          if U_FAILURE status then (tm, status, False)
          else
            let rules = take (nat (to_rules_length options)) (to_rules options) in
            if to_custom_rules options \<and> ib_rules_bogus icu rules then (tm, U_MEMORY_ALLOCATION_ERROR, False)
            else
              let (status, opened) = (if to_custom_rules options then ib_open_rules icu rules else ib_open icu (to_type options) (to_locale options)) in
              case opened of
                None \<Rightarrow> (tm, if U_FAILURE status then status else U_MEMORY_ALLOCATION_ERROR, False)
              | Some brk \<Rightarrow>
                  if U_FAILURE status then (tm, status, False)
                  else
                    let root_fallback = status = U_USING_DEFAULT_WARNING \<and> to_locale options \<noteq> None \<and> ib_valid_locale icu brk = Some ''root'' in
                    if U_FAILURE set_status then (tm, set_status, root_fallback)
                    else
                      (tm\<lparr>tm_casemap := Some c,
                          tm_ascii_fast_path := \<not> to_custom_rules options \<and> \<not> to_has_skip_rules options \<and> to_type options = UBRK_WORD \<and>
                            is_title_locale (ucm_locale c),
                          tm_turkic := is_turkic_locale (ucm_locale c)\<rparr>, 0, root_fallback))"

definition tm_prepare :: "native_to_utf8 \<Rightarrow> string_view \<Rightarrow> title_mapper \<Rightarrow> case_map_input result" where
  "tm_prepare conv source tm = prepare_impl ''titlecase'' (\<not> tm_ascii_fast_path tm) source (Some conv)"

definition tm_prepare_utf8 :: "string_view \<Rightarrow> title_mapper \<Rightarrow> case_map_input result" where
  "tm_prepare_utf8 source tm = prepare_impl ''titlecase'' (\<not> tm_ascii_fast_path tm) source None"

definition tm_has_ascii_fast_path :: "title_mapper \<Rightarrow> case_map_input \<Rightarrow> bool" where
  "tm_has_ascii_fast_path tm inp \<longleftrightarrow> tm_ascii_fast_path tm \<and> ascii_title_eligible inp"

fun title_ascii_loop :: "byte list \<Rightarrow> bool \<Rightarrow> byte list \<Rightarrow> byte list" where
  "title_ascii_loop [] word_start out = out"
| "title_ascii_loop (b # bs) word_start out =
     (if b \<ge> 0x41 \<and> b \<le> 0x5a then title_ascii_loop bs False (out @ [if \<not> word_start then b + 0x20 else b])
      else if b \<ge> 0x61 \<and> b \<le> 0x7a then title_ascii_loop bs False (out @ [if word_start then b - 0x20 else b])
      else title_ascii_loop bs True (out @ [b]))"

definition tm_map_ascii :: "case_map_input \<Rightarrow> byte list" where
  "tm_map_ascii inp = title_ascii_loop (take (nat (cmi_length inp)) (ptr_bytes (cmi_data inp))) True []"

definition tm_map_icu :: "nat \<Rightarrow> title_mapper \<Rightarrow> case_map_input \<Rightarrow> (string_view \<times> int \<times> title_mapper) result" where
  "tm_map_icu addr tm inp =
     (case tm_casemap tm of
        None \<Rightarrow> Inl (Logic_error ''titlecase mapper has not been initialized'')
      | Some casemap \<Rightarrow>
          let (r, status, buf) = map_with_retry (ucm_title casemap) (tm_output tm) (take (nat (cmi_length inp)) (ptr_bytes (cmi_data inp)));
              tm = tm\<lparr>tm_output := buf\<rparr>
          in
          case r of
            None \<Rightarrow> Inr (missing_view, status, tm)
          | Some output_length \<Rightarrow>
              let output_ascii = cmi_ascii inp \<and> \<not> tm_turkic tm \<or> cm_is_ascii buf output_length
              in Inr (StringView (Ptr addr buf) output_length (if output_ascii then Enc_ascii else Enc_utf8), status, tm))"

subsection \<open>The retry\<close>

text \<open>ICU's contract for \<open>ucasemap_utf8ToLower\<close> and its siblings: the whole length is returned in any case, the bytes
  that fit are written, and the status fails exactly when they do not fit.\<close>

definition icu_maps :: "icu_call \<Rightarrow> (byte list \<Rightarrow> byte list) \<Rightarrow> bool" where
  "icu_maps call f \<longleftrightarrow> (\<forall>capacity s. \<exists>status. call capacity s = (status, int (length (f s)), take capacity (f s)) \<and>
     (U_FAILURE status \<longleftrightarrow> length (f s) > capacity))"

lemma grow_length [simp]: "length (grow buf n) = max (length buf) n"
  by (simp add: grow_def)

lemma map_with_retry_exact:
  assumes "icu_maps call f" "int (length (f input)) \<le> INT_MAX"
  shows "\<exists>status buf'. map_with_retry call buf input = (Some (int (length (f input))), status, buf') \<and> \<not> U_FAILURE status \<and>
    take (length (f input)) buf' = f input \<and> length (f input) \<le> length buf'"
proof -
  let ?t = "f input" and ?b1 = "grow buf (length input + 10)"
  let ?c1 = "min (length ?b1) (nat INT_MAX)"
  obtain s1 where c1: "call ?c1 input = (s1, int (length ?t), take ?c1 ?t)" "U_FAILURE s1 \<longleftrightarrow> length ?t > ?c1"
    using assms(1) unfolding icu_maps_def by blast
  have fits: "take (length ?t) (memcpy_at b 0 ?t (length ?t)) = ?t" "length ?t \<le> length (memcpy_at b 0 ?t (length ?t))"
    if "length ?t \<le> length b" for b
    using take_memcpy_at [of 0 "length ?t" b ?t] that by simp_all
  show ?thesis
  proof (cases "U_FAILURE s1")
    case False
    then have le: "length ?t \<le> ?c1" using c1(2) by (simp only: not_less)
    then have "map_with_retry call buf input = (Some (int (length ?t)), s1, memcpy_at ?b1 0 ?t (length ?t))"
      using c1(1) False unfolding map_with_retry_def Let_def by simp
    then show ?thesis using fits [of ?b1] le False by auto
  next
    case True
    define b2 where "b2 = grow (memcpy_at ?b1 0 (take ?c1 ?t) (length (take ?c1 ?t))) (length ?t)"
    let ?c2 = "min (length b2) (nat INT_MAX)"
    obtain s2 where c2: "call ?c2 input = (s2, int (length ?t), take ?c2 ?t)" "U_FAILURE s2 \<longleftrightarrow> length ?t > ?c2"
      using assms(1) unfolding icu_maps_def by blast
    have le: "length ?t \<le> length b2" "length ?t \<le> ?c2" using assms(2) by (auto simp: b2_def)
    then have "map_with_retry call buf input = (Some (int (length ?t)), s2, memcpy_at b2 0 ?t (length ?t))"
      using c1(1) c2 True unfolding map_with_retry_def Let_def by (simp add: b2_def)
    then show ?thesis using fits [OF le(1)] le(2) c2(2) by auto
  qed
qed

subsection \<open>What the mappers return\<close>

definition ascii_text :: "byte list \<Rightarrow> bool" where
  "ascii_text s \<longleftrightarrow> list_all (\<lambda>b. b < 0x80) s"

definition cmi_bytes :: "case_map_input \<Rightarrow> byte list" where
  "cmi_bytes inp = take (nat (cmi_length inp)) (ptr_bytes (cmi_data inp))"

lemma cm_is_ascii_text: "cm_is_ascii buf n = ascii_text (take (nat n) buf)"
  by (simp add: cm_is_ascii_def ascii_text_def not_le)

text \<open>The two encodings of a mapped text agree with its bytes once the known flag does.\<close>

lemma mapped_encoding:
  assumes "take n buf = t" "known \<Longrightarrow> ascii_text t"
  shows "(if known \<or> cm_is_ascii buf (int n) then Enc_ascii else Enc_utf8) = (if ascii_text t then Enc_ascii else Enc_utf8)"
  using assms by (auto simp: cm_is_ascii_text)

lemma cm_open_ready:
  assumes "cm_casemap cm = Some c \<or> cm_casemap cm = None \<and> icu_open (cm_locale cm) = (st, Some c) \<and> \<not> U_FAILURE st"
  shows "\<exists>st. cm_open icu_open cm = (True, st, cm\<lparr>cm_casemap := Some c\<rparr>)"
  using assms by (auto simp: cm_open_def)

text \<open>C35. \<open>CaseMapper::map_icu\<close> returns the whole text ICU maps the input to, also where the
  first call ran out of room, whatever an earlier element left in the reused buffer; the
  status is no failure, and the returned view is marked as ASCII exactly when its bytes are.
  ICU's calls are parameters: they obey the contract \<open>icu_maps\<close>, and outside the Turkic
  locales map ASCII to ASCII.
\<close>

theorem case_map_icu_exact:
  assumes "cm_casemap cm = Some c \<or> cm_casemap cm = None \<and> icu_open (cm_locale cm) = (st, Some c) \<and> \<not> U_FAILURE st"
    and "icu_maps (case_call c (cm_mode cm)) f"
    and "int (length (f (cmi_bytes inp))) \<le> INT_MAX"
    and "cmi_ascii inp \<Longrightarrow> \<not> is_turkic_locale (ucm_locale c) \<Longrightarrow> ascii_text (f (cmi_bytes inp))"
  shows "\<exists>v status cm'. cm_map_icu addr icu_open cm inp = (v, status, cm') \<and> \<not> U_FAILURE status \<and> \<not> is_na v \<and>
    sv_bytes v = f (cmi_bytes inp) \<and> sv_enc v = (if ascii_text (f (cmi_bytes inp)) then Enc_ascii else Enc_utf8) \<and>
    cm_casemap cm' = Some c"
proof -
  let ?t = "f (cmi_bytes inp)"
  obtain status buf where r: "map_with_retry (case_call c (cm_mode cm)) (cm_output cm) (cmi_bytes inp) = (Some (int (length ?t)), status, buf)"
    and ok: "\<not> U_FAILURE status" "take (length ?t) buf = ?t"
    using map_with_retry_exact [OF assms(2,3)] by blast
  obtain st' where opn: "cm_open icu_open cm = (True, st', cm\<lparr>cm_casemap := Some c\<rparr>)"
    using cm_open_ready [of cm c icu_open st] assms(1) by blast
  let ?d = "if int (length ?t) = 0 then cm_empty else Ptr addr buf"
  have d: "take (length ?t) (ptr_bytes ?d) = ?t" using ok(2) by (auto simp: cm_empty_def)
  have "(if cmi_ascii inp \<and> \<not> is_turkic_locale (ucm_locale c) \<or> cm_is_ascii (ptr_bytes ?d) (int (length ?t)) then Enc_ascii else Enc_utf8)
      = (if ascii_text ?t then Enc_ascii else Enc_utf8)"
    by (rule mapped_encoding [OF d]) (use assms(4) in blast)
  then have "cm_map_icu addr icu_open cm inp =
      (StringView ?d (int (length ?t)) (if ascii_text ?t then Enc_ascii else Enc_utf8), status, cm\<lparr>cm_casemap := Some c, cm_output := buf\<rparr>)"
    using r unfolding cm_map_icu_def opn cmi_bytes_def by (simp add: Let_def)
  then show ?thesis using ok(1) d by (simp add: sv_bytes_def StringView_def is_na_def cm_empty_def)
qed

text \<open>A case map that writes its input twenty times needs the second call.\<close>

definition twenty_call :: icu_call where
  "twenty_call capacity s =
     (let t = concat (replicate 20 s) in (if length t > capacity then 15 else 0, int (length t), take capacity t))"

definition twenty_map :: ucasemap where
  "twenty_map = \<lparr>ucm_locale = Some ''en'', ucm_lower = twenty_call, ucm_upper = twenty_call, ucm_title = twenty_call\<rparr>"

lemma twenty_call_maps: "icu_maps twenty_call (\<lambda>s. concat (replicate 20 s))"
  by (auto simp: icu_maps_def twenty_call_def Let_def U_FAILURE_def)

theorem case_map_icu_exact_witness:
  "\<exists>v status cm'. cm_map_icu 8 (\<lambda>locl. (0, Some twenty_map)) CaseMapper \<lparr>cmi_data = Ptr 4 [0x61], cmi_length = 1, cmi_ascii = True\<rparr> = (v, status, cm') \<and>
     \<not> U_FAILURE status \<and> sv_bytes v = replicate 20 0x61 \<and> sv_enc v = Enc_ascii"
proof -
  let ?i = "\<lparr>cmi_data = Ptr 4 [0x61], cmi_length = 1, cmi_ascii = True\<rparr>"
  have bytes: "concat (replicate 20 (cmi_bytes ?i)) = replicate 20 0x61" by (simp add: cmi_bytes_def numeral_eq_Suc)
  have maps: "icu_maps (case_call twenty_map (cm_mode CaseMapper)) (\<lambda>s. concat (replicate 20 s))"
    using twenty_call_maps by (simp add: case_call_def twenty_map_def)
  have ascii: "ascii_text (replicate 20 0x61)" by (simp add: ascii_text_def list_all_iff)
  show ?thesis
    using case_map_icu_exact [of CaseMapper twenty_map "\<lambda>locl. (0, Some twenty_map)" 0 "\<lambda>s. concat (replicate 20 s)" ?i 8, OF _ maps]
    unfolding bytes using ascii by (auto simp: CaseMapper_def U_FAILURE_def INT_MAX_def)
qed

subsection \<open>The ASCII loops\<close>

definition case_byte :: "case_map_mode \<Rightarrow> byte \<Rightarrow> byte" where
  "case_byte mode b =
     (if mode = Upper \<and> 0x61 \<le> b \<and> b \<le> 0x7a then b - 0x20 else if mode = Lower \<and> 0x41 \<le> b \<and> b \<le> 0x5a then b + 0x20 else b)"

lemma case_byte_changes: "case_byte mode b \<noteq> b \<longleftrightarrow> (if mode = Upper then 0x61 \<le> b \<and> b \<le> 0x7a else 0x41 \<le> b \<and> b \<le> 0x5a)"
  by (cases mode) (simp_all add: case_byte_def)

lemma map_ascii_loop_map:
  "map_ascii_loop mode bs out changed = (out @ map (case_byte mode) bs, changed \<or> map (case_byte mode) bs \<noteq> bs)"
proof (induction mode bs out changed rule: map_ascii_loop.induct)
  case (2 b bs out changed)
  then show ?case using case_byte_changes [of Upper b] by (auto simp: case_byte_def)
next
  case (3 b bs out changed)
  then show ?case using case_byte_changes [of Lower b] by (auto simp: case_byte_def)
qed simp

text \<open>The ASCII fast path of \<open>CaseMapper::map_ascii\<close> writes the input with every letter in the
  requested case and all other bytes kept, and its result tells exactly whether any byte
  differs from the input, which is what lets the caller keep the source string.
\<close>

lemma case_map_ascii_exact:
  "cm_map_ascii cm inp = (map (case_byte (cm_mode cm)) (cmi_bytes inp), map (case_byte (cm_mode cm)) (cmi_bytes inp) \<noteq> cmi_bytes inp)"
  by (simp add: cm_map_ascii_def cmi_bytes_def map_ascii_loop_map)

text \<open>The reference for title case: a letter is a capital where no letter stands before it.\<close>

definition title_at :: "byte list \<Rightarrow> nat \<Rightarrow> byte" where
  "title_at s i =
     (if ascii_letter (s ! i) then case_byte (if i = 0 \<or> \<not> ascii_letter (s ! (i - 1)) then Upper else Lower) (s ! i) else s ! i)"

lemma title_ascii_loop_step:
  "title_ascii_loop (b # bs) start out =
     title_ascii_loop bs (\<not> ascii_letter b) (out @ [if ascii_letter b then case_byte (if start then Upper else Lower) b else b])"
proof -
  have apart: "b \<le> 0x5a \<Longrightarrow> \<not> 0x61 \<le> b" using order_trans [of "0x61" b "0x5a"] by auto
  consider (upper) "0x41 \<le> b" "b \<le> 0x5a" | (lower) "0x61 \<le> b" "b \<le> 0x7a"
    | (other) "(0x41 \<le> b \<and> b \<le> 0x5a) = False" "(0x61 \<le> b \<and> b \<le> 0x7a) = False" by blast
  then show ?thesis
  proof cases
    case upper
    then show ?thesis using apart by (simp add: ascii_letter_def case_byte_def)
  next
    case lower
    then have "(b \<le> 0x5a) = False" using apart by blast
    with lower show ?thesis by (simp add: ascii_letter_def case_byte_def)
  next
    case other
    show ?thesis unfolding title_ascii_loop.simps ascii_letter_def case_byte_def other by simp
  qed
qed

lemma title_ascii_loop_rest:
  "i \<le> length s \<Longrightarrow>
   title_ascii_loop (drop i s) (i = 0 \<or> \<not> ascii_letter (s ! (i - 1))) (map (title_at s) [0..<i]) = map (title_at s) [0..<length s]"
proof (induction "length s - i" arbitrary: i)
  case (Suc n)
  then have i: "i < length s" by simp
  have "title_ascii_loop (drop (Suc i) s) (Suc i = 0 \<or> \<not> ascii_letter (s ! (Suc i - 1))) (map (title_at s) [0..<Suc i])
      = map (title_at s) [0..<length s]"
    by (rule Suc.hyps(1)) (use Suc i in auto)
  then show ?case
    unfolding Cons_nth_drop_Suc [OF i, symmetric] title_ascii_loop_step by (simp add: title_at_def)
qed simp

text \<open>The ASCII fast path of \<open>TitleCaseMapper::map_ascii\<close> makes exactly the letters that no
  letter stands before capitals, all other letters small, and keeps every other byte.
\<close>

lemma title_map_ascii_exact:
  "tm_map_ascii inp = map (title_at (cmi_bytes inp)) [0..<length (cmi_bytes inp)]"
  using title_ascii_loop_rest [of 0 "cmi_bytes inp"] by (simp add: tm_map_ascii_def cmi_bytes_def)

end
