(* ===== verification/Utf16.thy ===== *)
theory Utf16
  imports Byte_Search
begin

text \<open>
  UTF-16 as the search kernels use it: the macros of ICU's \<^verbatim>\<open>unicode/utf16.h\<close> that skip one
  or several code points and build surrogate pairs, and the code units of a UTF-8 string. The
  macros interpret \<open>cp_walk\<close>, the interface of the UTF-8 macros. The lemmas relate the two
  encodings of one string: the code points \<open>U8_NEXT\<close> reads are Unicode scalar values, a
  supplementary one takes four bytes and two code units, and the boundaries \<open>U16_FWD_1\<close> finds
  in the code units are those of the code points \<open>U8_FWD_1\<close> finds in the bytes.
\<close>

unbundle bit_operations_syntax

type_synonym uchar = "16 word"

definition U16_IS_LEAD :: "uchar \<Rightarrow> bool" where
  "U16_IS_LEAD c \<longleftrightarrow> c AND 0xfc00 = 0xd800"

definition U16_IS_TRAIL :: "uchar \<Rightarrow> bool" where
  "U16_IS_TRAIL c \<longleftrightarrow> c AND 0xfc00 = 0xdc00"

definition U16_LEAD :: "int \<Rightarrow> uchar" where
  "U16_LEAD supplementary = word_of_int (drop_bit 10 supplementary + 0xd7c0)"

definition U16_TRAIL :: "int \<Rightarrow> uchar" where
  "U16_TRAIL supplementary = word_of_int ((supplementary AND 0x3ff) OR 0xdc00)"

definition U16_FWD_1 :: "uchar list \<Rightarrow> nat \<Rightarrow> nat \<Rightarrow> nat" where
  "U16_FWD_1 s i len =
     (if U16_IS_LEAD (s ! i) \<and> i + 1 \<noteq> len \<and> U16_IS_TRAIL (s ! (i + 1)) then i + 2 else i + 1)"

definition U16_BACK_1 :: "uchar list \<Rightarrow> nat \<Rightarrow> nat \<Rightarrow> nat" where
  "U16_BACK_1 s start i =
     (let i = i - 1 in if U16_IS_TRAIL (s ! i) \<and> i > start \<and> U16_IS_LEAD (s ! (i - 1)) then i - 1 else i)"

text \<open>The loops of \<open>U16_FWD_N\<close> and \<open>U16_BACK_N\<close>, whose count is an \<open>int32_t\<close>.\<close>

definition U16_FWD_N :: "uchar list \<Rightarrow> nat \<Rightarrow> nat \<Rightarrow> int \<Rightarrow> nat" where
  "U16_FWD_N s i len n = fwd_steps (\<lambda>i. U16_FWD_1 s i len) len (nat n) i"

definition U16_BACK_N :: "uchar list \<Rightarrow> nat \<Rightarrow> int \<Rightarrow> nat" where
  "U16_BACK_N s i n = back_steps (U16_BACK_1 s 0) (nat n) i"

subsection \<open>Both directions agree\<close>

lemma lead_trail_apart: "U16_IS_LEAD c \<Longrightarrow> \<not> U16_IS_TRAIL c"
  by (simp add: U16_IS_LEAD_def U16_IS_TRAIL_def)

interpretation u16f: cp_forward "\<lambda>i. U16_FWD_1 s i n" n for s n
  by unfold_locales (auto simp: U16_FWD_1_def)

lemma u16_boundary_no_pair:
  assumes "cp_pos (\<lambda>i. U16_FWD_1 s i n) n k = Suc i" "Suc i < n" "U16_IS_LEAD (s ! i)"
  shows "\<not> U16_IS_TRAIL (s ! Suc i)"
proof (cases k)
  case (Suc m)
  let ?p = "cp_pos (\<lambda>i. U16_FWD_1 s i n) n m"
  have less: "?p < n" using u16f.cp_pos_mono_Suc [of s n m] assms(1,2) Suc by (simp del: cp_pos.simps)
  then have step: "U16_FWD_1 s ?p n = Suc i" using assms(1) Suc by simp
  show ?thesis
  proof (cases "?p = i")
    case True
    with step assms(2,3) show ?thesis by (auto simp: U16_FWD_1_def split: if_splits)
  next
    case False
    with step have "Suc ?p = i" "U16_IS_TRAIL (s ! i)" by (auto simp: U16_FWD_1_def split: if_splits)
    with assms(3) lead_trail_apart show ?thesis by blast
  qed
qed (use assms(1) in simp)

interpretation u16: cp_walk "\<lambda>i. U16_FWD_1 s i n" n "U16_BACK_1 s 0" for s n
proof unfold_locales
  fix k
  let ?p = "cp_pos (\<lambda>i. U16_FWD_1 s i n) n k"
  assume less: "?p < n"
  have no_pair: "\<not> (U16_IS_LEAD (s ! (?p - 1)) \<and> U16_IS_TRAIL (s ! ?p))" if "0 < ?p"
    using u16_boundary_no_pair [of s n k "?p - 1"] that less by auto
  have "cp_pos (\<lambda>i. U16_FWD_1 s i n) n (Suc k) = U16_FWD_1 s ?p n" using less by simp
  then show "U16_BACK_1 s 0 (cp_pos (\<lambda>i. U16_FWD_1 s i n) n (Suc k)) = ?p"
    using no_pair lead_trail_apart by (auto simp: U16_FWD_1_def U16_BACK_1_def Let_def)
qed

subsection \<open>The code points of UTF-8 are scalar values\<close>

definition scalar_value_ok :: "int \<Rightarrow> bool" where
  "scalar_value_ok c \<longleftrightarrow> 0 \<le> c \<and> c < 0xd800 \<or> 0xe000 \<le> c \<and> c \<le> 0x10ffff"

lemma or_low:
  assumes "0 \<le> y" "y < 2 ^ n"
  shows "push_bit n x OR y = x * 2 ^ n + (y::int)"
proof -
  have "take_bit n y = y" using assms by (simp add: take_bit_int_eq_self)
  then have "\<not> (n \<le> m \<and> bit y m)" for m by (metis bit_take_bit_iff not_less)
  then have "push_bit n x AND y = 0" by (auto simp: bit_eq_iff bit_simps)
  then show ?thesis by (simp add: disjunctive_add_eq_or [symmetric] push_bit_eq_mult)
qed

lemma or_low6: "0 \<le> y \<Longrightarrow> y < 64 \<Longrightarrow> push_bit 6 x OR y = x * 64 + (y::int)"
  using or_low [of y 6 x] by simp

lemma trail_bits: "U8_IS_TRAIL t \<Longrightarrow> uint (t AND 0x3f) = uint t - 0x80 \<and> 0x80 \<le> uint t \<and> uint t < 0xc0"
proof -
  have "\<forall>t::byte. 0x80 \<le> t \<and> t \<le> 0xbf \<longrightarrow> uint (t AND 0x3f) = uint t - 0x80"
    unfolding byte_range_all by code_simp
  moreover assume "U8_IS_TRAIL t"
  ultimately show ?thesis by (auto simp: U8_IS_TRAIL_iff word_le_def word_less_def)
qed

lemma lead2_bits: "U8_IS_LEAD b \<Longrightarrow> b < 0xe0 \<Longrightarrow> uint (b AND 0x1f) = uint b - 0xc0 \<and> 0xc2 \<le> uint b \<and> uint b < 0xe0"
proof -
  have "\<forall>b::byte. 0xc2 \<le> b \<and> b \<le> 0xdf \<longrightarrow> uint (b AND 0x1f) = uint b - 0xc0"
    unfolding byte_range_all by code_simp
  moreover assume "U8_IS_LEAD b" "b < 0xe0"
  ultimately show ?thesis by (auto simp: U8_IS_LEAD_iff word_le_def word_less_def)
qed

lemma lead3_bits: "0xe0 \<le> b \<Longrightarrow> b < 0xf0 \<Longrightarrow> uint (b AND 0xf) = uint b - 0xe0 \<and> 0xe0 \<le> uint b \<and> uint b < 0xf0"
  for b :: byte
proof -
  have "\<forall>b::byte. 0xe0 \<le> b \<and> b \<le> 0xef \<longrightarrow> uint (b AND 0xf) = uint b - 0xe0"
    unfolding byte_range_all by code_simp
  moreover assume "0xe0 \<le> b" "b < 0xf0"
  ultimately show ?thesis by (auto simp: word_le_def word_less_def)
qed

lemma lead4_bits: "0xf0 \<le> b \<Longrightarrow> b \<le> 0xf4 \<Longrightarrow> uint (b - 0xf0) = uint b - 0xf0 \<and> 0xf0 \<le> uint b \<and> uint b \<le> 0xf4"
  for b :: byte
proof -
  have "\<forall>b::byte. 0xf0 \<le> b \<and> b \<le> 0xf4 \<longrightarrow> uint (b - 0xf0) = uint b - 0xf0"
    unfolding byte_range_all by code_simp
  moreover assume "0xf0 \<le> b" "b \<le> 0xf4"
  ultimately show ?thesis by (auto simp: word_le_def)
qed

lemma last_trail_value:
  assumes "u8_last_trail s i c = (j, v)" "0 \<le> c"
  shows "v = -1 \<or> j = Suc i \<and> (\<exists>t. 0 \<le> t \<and> t < 64 \<and> v = c * 64 + t)"
proof (cases "U8_IS_TRAIL (s ! i)")
  case True
  have "uint (s ! i - 0x80) = uint (s ! i) - 0x80" "0x80 \<le> uint (s ! i)" "uint (s ! i) < 0xc0"
    using trail_bits [OF True] by (simp_all add: trail_mask [OF True])
  then show ?thesis using assms True or_low6 [of "uint (s ! i) - 0x80" c]
    by (auto simp: u8_last_trail_def Let_def trail_minus intro!: exI [of _ "uint (s ! i) - 0x80"])
next
  case False
  then show ?thesis using assms by (auto simp: u8_last_trail_def Let_def trail_minus U_SENTINEL_def)
qed

lemma uint_numeralD: "uint (b::byte) = numeral k \<Longrightarrow> b = numeral k"
  by (metis word_of_int_uint word_of_int_numeral)

lemma lead3_values:
  "0xe0 \<le> b \<Longrightarrow> b < 0xf0 \<Longrightarrow> 0x80 \<le> t \<Longrightarrow> t < 0xc0 \<Longrightarrow> b = 0xed \<longrightarrow> t < 0xa0 \<Longrightarrow>
   0 \<le> (b - 0xe0) * 64 + (t - 0x80) \<and> (b - 0xe0) * 64 + (t - 0x80) < 0x360 \<or>
   0x380 \<le> (b - 0xe0) * 64 + (t - 0x80) \<and> (b - 0xe0) * 64 + (t - 0x80) < (0x400::int)"
  by presburger

lemma lead4_values:
  "0xf0 \<le> b \<Longrightarrow> b \<le> 0xf4 \<Longrightarrow> 0x80 \<le> t \<Longrightarrow> t < 0xc0 \<Longrightarrow> b = 0xf0 \<longrightarrow> 0x90 \<le> t \<Longrightarrow> b = 0xf4 \<longrightarrow> t < 0x90 \<Longrightarrow>
   0x10 \<le> (b - 0xf0) * 64 + (t - 0x80) \<and> (b - 0xf0) * 64 + (t - 0x80) < (0x110::int)"
  by presburger

lemma U8_NEXT_scalar:
  assumes "U8_NEXT s i n = (j, c)"
  shows "c = -1 \<or> scalar_value_ok c \<and> (0xffff < c \<longrightarrow> j = i + 4)"
proof -
  let ?b = "s ! i" and ?t = "s ! (i + 1)"
  consider (single) "U8_IS_SINGLE ?b" | (illegal) "\<not> U8_IS_SINGLE ?b" "\<not> U8_IS_LEAD ?b \<or> i + 1 = n"
    | (two) "U8_IS_LEAD ?b" "?b < 0xe0" "i + 1 \<noteq> n"
    | (three) "U8_IS_LEAD ?b" "0xe0 \<le> ?b" "?b < 0xf0" "i + 1 \<noteq> n"
    | (four) "U8_IS_LEAD ?b" "0xf0 \<le> ?b" "i + 1 \<noteq> n"
    by (metis not_less)
  then show ?thesis
  proof cases
    case single
    then have "uint ?b < 0x80" by (simp add: U8_IS_SINGLE_iff word_less_def)
    then show ?thesis using assms single by (auto simp: U8_NEXT_single scalar_value_ok_def)
  next
    case illegal
    then show ?thesis using assms by (simp add: U8_NEXT_illegal U_SENTINEL_def)
  next
    case two
    note b = lead2_bits [OF two(1,2)]
    have "u8_last_trail s (i + 1) (uint ?b - 0xc0) = (j, c)" using assms b by (simp add: U8_NEXT_2 [OF two])
    from last_trail_value [OF this] b show ?thesis by (auto simp: scalar_value_ok_def)
  next
    case three
    show ?thesis
    proof (cases "t1_ok ?b ?t \<and> i + 2 \<noteq> n")
      case True
      have b: "?b \<le> 0xef" using three(3) by (simp add: word_le_nat_alt word_less_nat_alt)
      have "U8_IS_VALID_LEAD3_AND_T1 ?b ?t" using True three by (simp add: t1_ok_def)
      then have t: "U8_IS_TRAIL ?t" "?b = 0xe0 \<longrightarrow> 0xa0 \<le> ?t" "?b = 0xed \<longrightarrow> ?t < 0xa0"
        using valid_lead3_iff [OF three(2) b] by blast+
      note bits = trail_bits [OF t(1)] lead3_bits [OF three(2,3)]
      have rng: "uint ?b = 0xe0 \<Longrightarrow> 0xa0 \<le> uint ?t" "uint ?b = 0xed \<Longrightarrow> uint ?t < 0xa0"
        using t by (auto dest!: uint_numeralD simp: word_le_def word_less_def)
      define v where "v = (uint ?b - 0xe0) * 64 + (uint ?t - 0x80)"
      have v: "0 \<le> v \<and> v < 0x360 \<or> 0x380 \<le> v \<and> v < 0x400"
        using bits rng(2) unfolding v_def by (intro lead3_values) auto
      have "u8_last_trail s (i + 2) v = (j, c)"
        using assms True bits or_low6 [of "uint ?t - 0x80" "uint ?b - 0xe0"] by (simp add: U8_NEXT_3 [OF three] v_def)
      from last_trail_value [OF this] v show ?thesis by (auto simp: scalar_value_ok_def)
    qed (use assms in \<open>auto simp: U8_NEXT_3 [OF three] U_SENTINEL_def split: if_splits\<close>)
  next
    case four
    show ?thesis
    proof (cases "t1_ok ?b ?t \<and> i + 2 \<noteq> n \<and> U8_IS_TRAIL (s ! (i + 2)) \<and> i + 3 \<noteq> n")
      case True
      have b: "?b \<le> 0xf4" using four(1) by (simp add: U8_IS_LEAD_iff)
      have nb: "\<not> ?b < 0xe0" "\<not> ?b < 0xf0" using four(2) by (auto simp: word_le_nat_alt word_less_nat_alt)
      have "U8_IS_VALID_LEAD4_AND_T1 ?b ?t" using True nb by (simp add: t1_ok_def)
      then have t: "U8_IS_TRAIL ?t" "?b = 0xf0 \<longrightarrow> 0x90 \<le> ?t" "?b = 0xf4 \<longrightarrow> ?t < 0x90"
        using valid_lead4_iff [OF four(2) b] by blast+
      note bits = trail_bits [OF t(1)] trail_bits [of "s ! (i + 2)"] lead4_bits [OF four(2) b]
      have rng: "uint ?b = 0xf0 \<Longrightarrow> 0x90 \<le> uint ?t" "uint ?b = 0xf4 \<Longrightarrow> uint ?t < 0x90"
        using t by (auto dest!: uint_numeralD simp: word_le_def word_less_def)
      define u where "u = uint (s ! (i + 2)) - 0x80"
      have u: "0 \<le> u" "u < 64" "uint (s ! (i + 2) - 0x80) = u"
        using True bits(2) by (simp_all add: u_def trail_mask)
      define v where "v = (uint ?b - 0xf0) * 64 + (uint ?t - 0x80)"
      have v: "0x10 \<le> v" "v < 0x110" "push_bit 6 (uint (?b - 0xf0)) OR uint (?t AND 0x3f) = v"
        using bits rng lead4_values [of "uint ?b" "uint ?t"] or_low6 [of "uint ?t - 0x80" "uint ?b - 0xf0"]
        unfolding v_def by simp_all
      have "u8_last_trail s (i + 3) (v * 64 + u) = (j, c)"
        using assms True u v or_low6 [of u v] by (simp add: U8_NEXT_4 [OF four])
      from last_trail_value [OF this] u(1,2) v(1,2) show ?thesis by (auto simp: scalar_value_ok_def)
    qed (use assms in \<open>auto simp: U8_NEXT_4 [OF four] U_SENTINEL_def split: if_splits\<close>)
  qed
qed

subsection \<open>Surrogates\<close>

lemma and_fc00:
  assumes "0 \<le> x" "x < 0x10000"
  shows "x AND 0xfc00 = 1024 * (x div (1024::int))"
proof -
  have "x AND 0xfc00 = x AND push_bit 10 (mask 6)" by (simp add: mask_eq_exp_minus_1)
  also have "\<dots> = push_bit 10 (drop_bit 10 x AND mask 6)" by (auto simp: bit_eq_iff bit_simps)
  also have "drop_bit 10 x AND mask 6 = x div 1024"
    using assms by (simp add: take_bit_eq_mask [symmetric] drop_bit_eq_div take_bit_int_eq_self)
  finally show ?thesis by (simp add: push_bit_eq_mult)
qed

lemma u16_class:
  "U16_IS_LEAD w \<longleftrightarrow> 0xd800 \<le> uint w \<and> uint w < 0xdc00"
  "U16_IS_TRAIL w \<longleftrightarrow> 0xdc00 \<le> uint w \<and> uint w < 0xe000"
proof -
  have "uint (w AND 0xfc00) = 1024 * (uint w div 1024)"
    using and_fc00 [of "uint w"] uint_lt2p [of w] by (simp add: uint_and)
  then show "U16_IS_LEAD w \<longleftrightarrow> 0xd800 \<le> uint w \<and> uint w < 0xdc00"
    "U16_IS_TRAIL w \<longleftrightarrow> 0xdc00 \<le> uint w \<and> uint w < 0xe000"
    unfolding U16_IS_LEAD_def U16_IS_TRAIL_def word_uint_eq_iff by auto
qed

definition u16_units :: "int \<Rightarrow> uchar list" where
  "u16_units c = (if c \<le> 0xffff then [word_of_int c] else [U16_LEAD c, U16_TRAIL c])"

lemma bmp_unit:
  assumes "scalar_value_ok c" "c \<le> 0xffff"
  shows "\<not> U16_IS_LEAD (word_of_int c)" "\<not> U16_IS_TRAIL (word_of_int c)"
proof -
  have "uint (word_of_int c :: uchar) = c"
    using assms by (auto simp: uint_word_of_int scalar_value_ok_def)
  then show "\<not> U16_IS_LEAD (word_of_int c)" "\<not> U16_IS_TRAIL (word_of_int c)"
    using assms by (auto simp: u16_class scalar_value_ok_def)
qed

lemma supplementary_units:
  assumes "scalar_value_ok c" "0xffff < c"
  shows "U16_IS_LEAD (U16_LEAD c)" "U16_IS_TRAIL (U16_TRAIL c)"
proof -
  have "uint (U16_LEAD c) = c div 1024 + 0xd7c0"
    using assms by (simp only: U16_LEAD_def uint_word_of_int drop_bit_eq_div) (auto simp: scalar_value_ok_def)
  then show "U16_IS_LEAD (U16_LEAD c)" using assms by (auto simp: u16_class scalar_value_ok_def)
  have "c AND 0x3ff = c mod 1024" using take_bit_eq_mask [of 10 c] by (simp add: mask_eq_exp_minus_1 take_bit_eq_mod)
  then have "(c AND 0x3ff) OR 0xdc00 = c mod 1024 + 0xdc00"
    using or_low [of "c mod 1024" 10 55] by (simp add: or.commute)
  then have "uint (U16_TRAIL c) = c mod 1024 + 0xdc00"
    by (simp only: U16_TRAIL_def uint_word_of_int) simp
  then show "U16_IS_TRAIL (U16_TRAIL c)" by (simp add: u16_class)
qed

subsection \<open>The code units of a UTF-8 string\<close>

text \<open>The code point at index \<open>k\<close> as \<open>U8_NEXT\<close> reads it, negative where the bytes are ill-formed, and as
  \<open>U8_NEXT_OR_FFFD\<close> does.\<close>

definition u8_cp :: "byte list \<Rightarrow> nat \<Rightarrow> int" where
  "u8_cp s k = snd (U8_NEXT s (u8_pos s k) (length s))"

definition U8_NEXT_OR_FFFD :: "byte list \<Rightarrow> nat \<Rightarrow> nat \<Rightarrow> nat \<times> int" where
  "U8_NEXT_OR_FFFD s i len = (let (i, c) = U8_NEXT s i len in (i, if c < 0 then 0xfffd else c))"

definition cp_units :: "byte list \<Rightarrow> nat \<Rightarrow> uchar list" where
  "cp_units s k = u16_units (if u8_cp s k < 0 then 0xfffd else u8_cp s k)"

definition u16_text :: "byte list \<Rightarrow> uchar list" where
  "u16_text s = concat (map (cp_units s) [0..<u8_count s])"

definition u16_at :: "byte list \<Rightarrow> nat \<Rightarrow> nat" where
  "u16_at s k = length (concat (map (cp_units s) [0..<min k (u8_count s)]))"

lemma cp_units_cases:
  obtains (bmp) c where "cp_units s k = [c]" "\<not> U16_IS_LEAD c" "\<not> U16_IS_TRAIL c"
  | (pair) a b where "cp_units s k = [a, b]" "U16_IS_LEAD a" "U16_IS_TRAIL b" "0xffff < u8_cp s k"
proof -
  let ?c = "if u8_cp s k < 0 then 0xfffd else u8_cp s k"
  have ok: "scalar_value_ok ?c"
    using U8_NEXT_scalar [of s "u8_pos s k" "length s"] by (auto simp: u8_cp_def scalar_value_ok_def prod_eq_iff)
  show ?thesis
  proof (cases "?c \<le> 0xffff")
    case True
    then show ?thesis using bmp_unit [OF ok True] by (intro bmp) (simp_all add: cp_units_def u16_units_def)
  next
    case False
    then show ?thesis using supplementary_units [OF ok] False
      by (intro pair) (auto simp: cp_units_def u16_units_def split: if_splits)
  qed
qed

lemma u16_at_simps:
  "u16_at s 0 = 0" "u16_at s (u8_count s) = length (u16_text s)"
  "k < u8_count s \<Longrightarrow> u16_at s (Suc k) = u16_at s k + length (cp_units s k)"
  by (simp_all add: u16_at_def u16_text_def min_def)

lemma u16_text_split:
  assumes "k < u8_count s"
  shows "\<exists>pre post. u16_text s = pre @ cp_units s k @ post \<and> length pre = u16_at s k"
proof -
  have "[0..<u8_count s] = [0..<k] @ k # [Suc k..<u8_count s]"
    using assms by (metis upt_add_eq_append le_add_diff_inverse less_imp_le upt_conv_Cons zero_le)
  then have "u16_text s = concat (map (cp_units s) [0..<k]) @ cp_units s k @ concat (map (cp_units s) [Suc k..<u8_count s])"
    by (simp add: u16_text_def)
  moreover have "length (concat (map (cp_units s) [0..<k])) = u16_at s k" using assms by (simp add: u16_at_def min_def)
  ultimately show ?thesis by blast
qed

lemma u16_fwd_step:
  assumes "k < u8_count s"
  shows "u16_at s k < length (u16_text s)"
    and "U16_FWD_1 (u16_text s) (u16_at s k) (length (u16_text s)) = u16_at s (Suc k)"
proof -
  obtain pre post where eq: "u16_text s = pre @ cp_units s k @ post" and len: "length pre = u16_at s k"
    using u16_text_split [OF assms] by blast
  show "u16_at s k < length (u16_text s)"
    by (cases s k rule: cp_units_cases) (simp_all add: eq flip: len)
  show "U16_FWD_1 (u16_text s) (u16_at s k) (length (u16_text s)) = u16_at s (Suc k)"
    by (cases s k rule: cp_units_cases)
      (simp_all add: eq nth_append U16_FWD_1_def u16_at_simps(3) [OF assms] flip: len)
qed

lemma u16_boundaries:
  "k \<le> u8_count s \<Longrightarrow> cp_pos (\<lambda>i. U16_FWD_1 (u16_text s) i (length (u16_text s))) (length (u16_text s)) k = u16_at s k"
  by (induction k) (simp_all add: u16_at_simps u16_fwd_step)

lemma u16_count: "cp_count (\<lambda>i. U16_FWD_1 (u16_text s) i (length (u16_text s))) (length (u16_text s)) = u8_count s"
proof (rule antisym)
  let ?n = "length (u16_text s)"
  show "cp_count (\<lambda>i. U16_FWD_1 (u16_text s) i ?n) ?n \<le> u8_count s"
    using u16f.cp_pos_eq_n_iff [of "u16_text s" ?n "u8_count s"] u16_boundaries [of "u8_count s" s]
    by (simp add: u16_at_simps)
  show "u8_count s \<le> cp_count (\<lambda>i. U16_FWD_1 (u16_text s) i ?n) ?n"
  proof (rule ccontr)
    assume "\<not> ?thesis"
    then have less: "cp_count (\<lambda>i. U16_FWD_1 (u16_text s) i ?n) ?n < u8_count s" by simp
    have "u16_at s (cp_count (\<lambda>i. U16_FWD_1 (u16_text s) i ?n) ?n) = ?n"
      using u16_boundaries [of "cp_count (\<lambda>i. U16_FWD_1 (u16_text s) i ?n) ?n" s] u16f.cp_pos_count [of "u16_text s" ?n] less
      by simp
    with u16_fwd_step(1) [OF less] show False by simp
  qed
qed

text \<open>A code point has at most as many code units as bytes.\<close>

lemma cp_units_le:
  assumes "k < u8_count s"
  shows "length (cp_units s k) \<le> u8_pos s (Suc k) - u8_pos s k"
proof -
  note step = u8_pos_step [OF assms]
  have next_pos: "U8_NEXT s (u8_pos s k) (length s) = (u8_pos s (Suc k), u8_cp s k)"
    using step(2) by (simp add: u8_cp_def prod_eq_iff U8_NEXT_fst)
  have gt: "u8_pos s k < u8_pos s (Suc k)" using U8_FWD_1_gt [of "u8_pos s k" s "length s"] step(2) by simp
  show ?thesis
  proof (cases s k rule: cp_units_cases)
    case bmp
    then show ?thesis using gt by simp
  next
    case pair
    then show ?thesis using U8_NEXT_scalar [OF next_pos] by auto
  qed
qed

lemma u16_at_le: "k \<le> u8_count s \<Longrightarrow> u16_at s k \<le> u8_pos s k"
proof (induction k)
  case (Suc k)
  then have "u16_at s k \<le> u8_pos s k" "u16_at s (Suc k) = u16_at s k + length (cp_units s k)"
    "length (cp_units s k) \<le> u8_pos s (Suc k) - u8_pos s k" "u8_pos s k \<le> u8_pos s (Suc k)"
    by (simp_all add: u16_at_simps cp_units_le u8_pos_bounds(5))
  then show ?case by linarith
qed (simp add: u16_at_simps)

end
