(* ===== verification/Class_Search.thy ===== *)
theory Class_Search
  imports Utf16 Replacement
begin

text \<open>
  Character classes: the owner of compiled sets (\<^verbatim>\<open>src/shared/character_class.cpp\<close>) and the
  search for the code points of a class (\<^verbatim>\<open>character_class_search.cpp\<close>). A set of ICU is its
  membership test and its bogus mark; compiling a pattern is a parameter that returns a status
  and a set. The lemmas show that the ranges found cover exactly the code points of the class,
  merged or one by one, and that they can be handed to the replacement writer.
\<close>

record unicode_set =
  us_contains :: "int \<Rightarrow> bool"
  us_bogus :: bool

definition UnicodeSet :: unicode_set where
  "UnicodeSet = \<lparr>us_contains = (\<lambda>c. False), us_bogus = False\<rparr>"

definition setToBogus :: unicode_set where
  "setToBogus = \<lparr>us_contains = (\<lambda>c. False), us_bogus = True\<rparr>"

definition complement :: "unicode_set \<Rightarrow> unicode_set" where
  "complement u = u\<lparr>us_contains := (\<lambda>c. 0 \<le> c \<and> c \<le> 0x10ffff \<and> \<not> us_contains u c)\<rparr>"

type_synonym apply_pattern = "byte list \<Rightarrow> int \<times> unicode_set"

text \<open>The loop of \<open>CharacterClassSet::reset\<close>: the status and the values.\<close>

fun class_reset_loop :: "apply_pattern \<Rightarrow> bool \<Rightarrow> string_view list \<Rightarrow> nat \<Rightarrow> unicode_set list \<Rightarrow> int \<times> unicode_set list" where
  "class_reset_loop apply_pattern negate [] i class_values = (0, class_values)"
| "class_reset_loop apply_pattern negate (pattern # patterns) i class_values =
     (if is_na pattern then class_reset_loop apply_pattern negate patterns (i + 1) (class_values[i := setToBogus])
      else
        let (status, value) = apply_pattern (sv_bytes pattern) in
        if status > 0 then (status, class_values[i := value])
        else class_reset_loop apply_pattern negate patterns (i + 1) (class_values[i := if negate then complement value else value]))"

definition class_reset :: "apply_pattern \<Rightarrow> string_view list \<Rightarrow> bool \<Rightarrow> int \<times> unicode_set list" where
  "class_reset apply_pattern patterns negate =
     class_reset_loop apply_pattern negate patterns 0 (replicate (length patterns) UnicodeSet)"

definition class_is_na :: "unicode_set list \<Rightarrow> nat \<Rightarrow> bool" where
  "class_is_na class_values index = us_bogus (class_values ! (index mod length class_values))"

definition class_get :: "unicode_set list \<Rightarrow> nat \<Rightarrow> unicode_set" where
  "class_get class_values index = class_values ! (index mod length class_values)"

text \<open>A successful reset compiles every pattern, keeps missing ones as bogus sets and recycles them by index.\<close>

lemma class_reset_loop_ok:
  assumes "class_reset_loop ap negate ps i vs = (0, vs')" "length vs = i + length ps"
  shows "length vs' = length vs \<and> take i vs' = take i vs \<and> (\<forall>j<length ps. vs' ! (i + j) =
    (if is_na (ps ! j) then setToBogus
     else if negate then complement (snd (ap (sv_bytes (ps ! j)))) else snd (ap (sv_bytes (ps ! j)))))"
  using assms
proof (induction ps arbitrary: i vs)
  case (Cons p ps)
  define v where "v = (if is_na p then setToBogus else if negate then complement (snd (ap (sv_bytes p))) else snd (ap (sv_bytes p)))"
  have run: "class_reset_loop ap negate ps (i + 1) (vs[i := v]) = (0, vs')"
    using Cons.prems(1) by (auto simp: v_def split: if_splits prod.splits)
  have IH: "length vs' = length vs \<and> take (i + 1) vs' = take (i + 1) (vs[i := v]) \<and> (\<forall>j<length ps. vs' ! (i + 1 + j) =
    (if is_na (ps ! j) then setToBogus
     else if negate then complement (snd (ap (sv_bytes (ps ! j)))) else snd (ap (sv_bytes (ps ! j)))))"
    using Cons.IH [OF run] Cons.prems(2) by simp
  have "take i (take (i + 1) vs') = take i (take (i + 1) (vs[i := v]))" "take (i + 1) vs' ! i = take (i + 1) (vs[i := v]) ! i"
    using IH by simp_all
  then have "take i vs' = take i vs" "vs' ! i = v" using Cons.prems(2) by (simp_all add: min_def)
  then show ?case using IH by (auto simp: v_def nth_Cons split: nat.split)
qed simp

subsection \<open>The search\<close>

definition add_range :: "bool \<Rightarrow> byte_range list \<Rightarrow> byte_range \<Rightarrow> byte_range list" where
  "add_range merge out r =
     (if merge \<and> length out > 0 \<and> rg_end (last out) = rg_start r then butlast out @ [(last out)\<lparr>rg_end := rg_end r\<rparr>]
      else out @ [r])"

function class_loop ::
  "byte list \<Rightarrow> nat \<Rightarrow> unicode_set \<Rightarrow> bool \<Rightarrow> nat \<Rightarrow> nat \<Rightarrow> byte_range list \<Rightarrow> (nat \<times> byte_range list) result" where
  "class_loop s len pattern merge cursor matched_bytes out =
     (if cursor < len then
        let start = cursor; (cursor, code_point) = U8_NEXT s cursor len in
        if code_point < 0 then
          Inl (Runtime_error ''invalid UTF-8 byte sequence detected; try calling ci_enc_toutf8()'')
        else if \<not> us_contains pattern code_point then class_loop s len pattern merge cursor matched_bytes out
        else
          let width = cursor - start in
          if width > SIZE_MAX - matched_bytes then Inl (Length_error ''character class matched byte count overflow'')
          else class_loop s len pattern merge cursor (matched_bytes + width)
                 (add_range merge out \<lparr>rg_start = int start, rg_end = int cursor\<rparr>)
      else Inr (matched_bytes, out))"
  by pat_completeness auto
termination
proof (relation "measure (\<lambda>(s, len, pattern, merge, cursor, matched_bytes, out). len - cursor)")
  fix s :: "byte list" and len cursor y and x and xa xb :: nat
  show "wf (measure (\<lambda>(s :: byte list, len, pattern :: unicode_set, merge :: bool, cursor, matched_bytes :: nat, out :: byte_range list). len - cursor))"
    by simp
qed (use U8_NEXT_fst U8_FWD_1_gt in \<open>auto simp: prod_eq_iff intro!: diff_less_mono2\<close>)

declare class_loop.simps [simp del]

definition find_character_class_ranges :: "string_view \<Rightarrow> unicode_set \<Rightarrow> bool \<Rightarrow> (nat \<times> byte_range list) result" where
  "find_character_class_ranges input pattern merge =
     (if is_na input then Inl (Invalid_argument ''character class search requires non-missing input'')
      else if sv_len input < 0 then Inl (Invalid_argument ''character class search input has negative length'')
      else if sv_ptr input = NullPtr then Inl (Invalid_argument ''character class search input data is null'')
      else if sv_enc input \<noteq> Enc_ascii \<and> sv_enc input \<noteq> Enc_utf8 \<and> sv_enc input \<noteq> Enc_ascii_or_utf8 then
        Inl (Invalid_argument ''character class search requires normalized UTF-8 input'')
      else if sv_len input = 0 then Inr (0, [])
      else class_loop (ptr_bytes (sv_ptr input)) (nat (sv_len input)) pattern merge 0 0 [])"

subsection \<open>The ranges\<close>

definition ill_formed :: "byte list \<Rightarrow> nat \<Rightarrow> bool" where
  "ill_formed s k = list_ex (\<lambda>j. u8_cp s j < 0) [k..<u8_count s]"

definition cp_range :: "byte list \<Rightarrow> nat \<Rightarrow> byte_range" where
  "cp_range s k = \<lparr>rg_start = int (u8_pos s k), rg_end = int (u8_pos s (Suc k))\<rparr>"

definition class_hits :: "unicode_set \<Rightarrow> byte list \<Rightarrow> nat \<Rightarrow> nat list" where
  "class_hits pattern s k = filter (\<lambda>k. us_contains pattern (u8_cp s k)) [k..<u8_count s]"

lemma class_hits_step:
  "k < u8_count s \<Longrightarrow> class_hits pattern s k =
     (if us_contains pattern (u8_cp s k) then k # class_hits pattern s (Suc k) else class_hits pattern s (Suc k))"
  by (simp add: class_hits_def upt_conv_Cons)

definition cp_width :: "byte list \<Rightarrow> nat \<Rightarrow> nat" where
  "cp_width s k = u8_pos s (Suc k) - u8_pos s k"

lemma class_loop_from:
  assumes "n \<le> length s" "n \<le> SIZE_MAX" "k \<le> u8_count (take n s)" "m \<le> u8_pos (take n s) k"
  shows "class_loop s n pattern merge (u8_pos (take n s) k) m out =
    (if ill_formed (take n s) k
     then Inl (Runtime_error ''invalid UTF-8 byte sequence detected; try calling ci_enc_toutf8()'')
     else Inr (m + sum_list (map (cp_width (take n s)) (class_hits pattern (take n s) k)),
               foldl (add_range merge) out (map (cp_range (take n s)) (class_hits pattern (take n s) k))))"
  using assms(3,4)
proof (induction "u8_count (take n s) - k" arbitrary: k m out)
  case 0
  then have "u8_pos (take n s) k = n" using u8_pos_bounds(3) [of "take n s"] assms(1) by simp
  with 0 show ?case by (subst class_loop.simps) (auto simp: class_hits_def ill_formed_def)
next
  case (Suc d)
  let ?t = "take n s"
  have len: "length ?t = n" using assms(1) by simp
  have k: "k < u8_count ?t" using Suc.hyps(2) by simp
  note step = u8_pos_step [OF k, unfolded len]
  have le: "u8_pos ?t k \<le> u8_pos ?t (Suc k)" "u8_pos ?t (Suc k) \<le> n"
    using u8_pos_bounds(5) [of k "Suc k" ?t] u8_pos_bounds(1) [of ?t "Suc k"] len by simp_all
  have "U8_NEXT s (u8_pos ?t k) n = U8_NEXT ?t (u8_pos ?t k) n"
    using step(1) by (simp add: U8_NEXT_take)
  then have read: "U8_NEXT s (u8_pos ?t k) n = (u8_pos ?t (Suc k), u8_cp ?t k)"
    using step(2) len by (simp add: u8_cp_def prod_eq_iff U8_NEXT_fst)
  have bad: "ill_formed ?t k \<longleftrightarrow> u8_cp ?t k < 0 \<or> ill_formed ?t (Suc k)"
    using k by (simp add: ill_formed_def upt_conv_Cons)
  have IH: "m' \<le> u8_pos ?t (Suc k) \<Longrightarrow> class_loop s n pattern merge (u8_pos ?t (Suc k)) m' out' =
    (if ill_formed ?t (Suc k)
     then Inl (Runtime_error ''invalid UTF-8 byte sequence detected; try calling ci_enc_toutf8()'')
     else Inr (m' + sum_list (map (cp_width ?t) (class_hits pattern ?t (Suc k))),
               foldl (add_range merge) out' (map (cp_range ?t) (class_hits pattern ?t (Suc k)))))" for m' out'
    using Suc.hyps k by (intro Suc.hyps(1)) simp_all
  have fits: "\<not> SIZE_MAX - m < cp_width ?t k" "m + cp_width ?t k \<le> u8_pos ?t (Suc k)"
    using le Suc.prems assms(2) by (simp_all add: cp_width_def)
  note hits = class_hits_step [OF k, of pattern]
  show ?case
  proof (cases "u8_cp ?t k < 0")
    case True
    then show ?thesis using step(1) by (subst class_loop.simps) (auto simp: read bad)
  next
    case valid: False
    show ?thesis
    proof (cases "us_contains pattern (u8_cp ?t k)")
      case True
      then have "class_loop s n pattern merge (u8_pos ?t k) m out =
        class_loop s n pattern merge (u8_pos ?t (Suc k)) (m + cp_width ?t k) (add_range merge out (cp_range ?t k))"
        using step(1) valid fits(1)
        by (subst class_loop.simps) (simp add: read Let_def cp_width_def cp_range_def)
      then show ?thesis using True valid by (simp add: IH [OF fits(2)] bad hits add.assoc)
    next
      case False
      then have "class_loop s n pattern merge (u8_pos ?t k) m out = class_loop s n pattern merge (u8_pos ?t (Suc k)) m out"
        using step(1) valid by (subst class_loop.simps) (simp add: read Let_def)
      then show ?thesis using False valid IH [of m out] le(1) Suc.prems by (simp add: bad hits)
    qed
  qed
qed

text \<open>Byte \<open>b\<close> lies in a range; the byte belongs to one of the code points \<open>ks\<close>.\<close>

definition covers :: "byte_range list \<Rightarrow> nat \<Rightarrow> bool" where
  "covers rs b \<longleftrightarrow> (\<exists>r\<in>set rs. rg_start r \<le> int b \<and> int b < rg_end r)"

definition in_cps :: "byte list \<Rightarrow> nat set \<Rightarrow> nat \<Rightarrow> bool" where
  "in_cps s K b \<longleftrightarrow> (\<exists>k\<in>K. u8_pos s k \<le> b \<and> b < u8_pos s (Suc k))"

lemma covers_simps [simp]:
  "\<not> covers [] b" "covers (r # rs) b \<longleftrightarrow> rg_start r \<le> int b \<and> int b < rg_end r \<or> covers rs b"
  "covers (rs @ ts) b \<longleftrightarrow> covers rs b \<or> covers ts b"
  by (auto simp: covers_def)

lemma ranges_valid_snoc:
  "ranges_valid len prev (rs @ [r]) \<longleftrightarrow> ranges_valid (rg_start r) prev rs \<and> rg_start r < rg_end r \<and> rg_end r \<le> len"
  by (induction rs arbitrary: prev) (auto dest: ranges_valid_le)

lemma ranges_valid_mono: "ranges_valid len prev rs \<Longrightarrow> len \<le> len' \<Longrightarrow> ranges_valid len' prev rs"
  by (induction rs arbitrary: prev) auto

lemma matched_append [simp]: "matched (rs @ ts) = matched rs + matched ts"
  by (simp add: matched_def)

text \<open>One more code point behind all ranges: what they cover, that they stay valid, what they add up to, and,
  when merging, that no two of them touch.\<close>

lemma add_range_ok:
  assumes "ranges_valid (rg_start r) 0 rs" "rg_start r < rg_end r"
    and "merge \<longrightarrow> sorted_wrt (\<lambda>a b. rg_end a < rg_start b) rs"
  shows "covers (add_range merge rs r) b \<longleftrightarrow> covers rs b \<or> rg_start r \<le> int b \<and> int b < rg_end r"
    and "ranges_valid (rg_end r) 0 (add_range merge rs r)"
    and "matched (add_range merge rs r) = matched rs + nat (rg_end r - rg_start r)"
    and "merge \<longrightarrow> sorted_wrt (\<lambda>a b. rg_end a < rg_start b) (add_range merge rs r)"
proof -
  show "covers (add_range merge rs r) b \<longleftrightarrow> covers rs b \<or> rg_start r \<le> int b \<and> int b < rg_end r"
    using assms by (cases rs rule: rev_cases) (auto simp: add_range_def ranges_valid_snoc)
  show "ranges_valid (rg_end r) 0 (add_range merge rs r)"
  proof (cases "merge \<and> length rs > 0 \<and> rg_end (last rs) = rg_start r")
    case True
    then show ?thesis using assms by (cases rs rule: rev_cases) (auto simp: add_range_def ranges_valid_snoc)
  next
    case False
    then show ?thesis using assms(1,2) unfolding add_range_def by (simp only: if_False ranges_valid_snoc) simp
  qed
  show "matched (add_range merge rs r) = matched rs + nat (rg_end r - rg_start r)"
    using assms by (cases rs rule: rev_cases) (auto simp: add_range_def ranges_valid_snoc)
  show "merge \<longrightarrow> sorted_wrt (\<lambda>a b. rg_end a < rg_start b) (add_range merge rs r)"
  proof (cases rs rule: rev_cases)
    case (snoc ys y)
    have "\<forall>x\<in>set ys. rg_end x < rg_start r" if merge
      using assms that snoc by (fastforce simp: ranges_valid_snoc sorted_wrt_append)
    then show ?thesis using assms snoc by (auto simp: add_range_def ranges_valid_snoc sorted_wrt_append)
  qed (simp add: add_range_def)
qed

lemma class_ranges_ok:
  fixes merge :: bool and s :: "byte list"
  assumes "sorted_wrt (<) ks" "\<forall>k\<in>set ks. k < m" "m \<le> u8_count s"
  defines "rs \<equiv> foldl (add_range merge) [] (map (cp_range s) ks)"
  shows "(\<forall>b. covers rs b \<longleftrightarrow> in_cps s (set ks) b) \<and> ranges_valid (int (u8_pos s m)) 0 rs \<and>
    matched rs = sum_list (map (cp_width s) ks) \<and> (merge \<longrightarrow> sorted_wrt (\<lambda>a b. rg_end a < rg_start b) rs)"
  using assms(1-3) unfolding rs_def
proof (induction ks arbitrary: m rule: rev_induct)
  case Nil
  then show ?case by (simp add: in_cps_def)
next
  case (snoc k ks)
  let ?rs = "foldl (add_range merge) [] (map (cp_range s) ks)"
  have k: "k < m" "sorted_wrt (<) ks" "\<forall>j\<in>set ks. j < k" "k \<le> u8_count s"
    using snoc.prems by (auto simp: sorted_wrt_append)
  note IH = snoc.IH [OF k(2-4)]
  have "u8_pos s k < u8_pos s (Suc k)"
    using u8_pos_step(2) [of k s] U8_FWD_1_gt [of "u8_pos s k" s "length s"] k(1) snoc.prems(3) by simp
  then have r: "rg_start (cp_range s k) < rg_end (cp_range s k)" "rg_start (cp_range s k) = int (u8_pos s k)"
    "nat (rg_end (cp_range s k) - rg_start (cp_range s k)) = cp_width s k"
    by (simp_all add: cp_range_def cp_width_def)
  have valid: "ranges_valid (rg_start (cp_range s k)) 0 ?rs" using IH r(2) by simp
  have sep: "merge \<longrightarrow> sorted_wrt (\<lambda>a b. rg_end a < rg_start b) ?rs" using IH by blast
  note step = add_range_ok [OF valid r(1) sep]
  have "rg_end (cp_range s k) \<le> int (u8_pos s m)"
    using k(1) u8_pos_bounds(5) [of "Suc k" m s] by (simp add: cp_range_def)
  then have "ranges_valid (int (u8_pos s m)) 0 (add_range merge ?rs (cp_range s k))"
    by (rule ranges_valid_mono [OF step(2)])
  moreover have "covers (add_range merge ?rs (cp_range s k)) b \<longleftrightarrow> in_cps s (set (ks @ [k])) b" for b
  proof -
    have "covers ?rs b \<longleftrightarrow> in_cps s (set ks) b" using IH by blast
    then show ?thesis unfolding step(1) by (auto simp: in_cps_def cp_range_def)
  qed
  moreover have "matched (add_range merge ?rs (cp_range s k)) = sum_list (map (cp_width s) (ks @ [k]))"
    using IH r(3) unfolding step(3) by simp
  ultimately show ?case using step(4) by simp
qed

definition class_ranges :: "unicode_set \<Rightarrow> bool \<Rightarrow> byte list \<Rightarrow> byte_range list" where
  "class_ranges pattern merge s = foldl (add_range merge) [] (map (cp_range s) (class_hits pattern s 0))"

lemma foldl_add_range_plain: "foldl (add_range False) out rs = out @ rs"
  by (induction rs arbitrary: out) (simp_all add: add_range_def)

lemma class_ranges_props:
  shows "covers (class_ranges pattern merge s) b \<longleftrightarrow> in_cps s {k. k < u8_count s \<and> us_contains pattern (u8_cp s k)} b"
    and "ranges_valid (int (length s)) 0 (class_ranges pattern merge s)"
    and "matched (class_ranges pattern merge s) = sum_list (map (cp_width s) (class_hits pattern s 0))"
    and "merge \<Longrightarrow> sorted_wrt (\<lambda>a b. rg_end a < rg_start b) (class_ranges pattern merge s)"
proof -
  have hits: "sorted_wrt (<) (class_hits pattern s 0)" "\<forall>k\<in>set (class_hits pattern s 0). k < u8_count s"
    "set (class_hits pattern s 0) = {k. k < u8_count s \<and> us_contains pattern (u8_cp s k)}"
    by (auto simp: class_hits_def sorted_wrt_filter)
  note all = class_ranges_ok [OF hits(1,2) order_refl, of merge, folded class_ranges_def, unfolded hits(3) u8_pos_bounds(3)]
  show "covers (class_ranges pattern merge s) b \<longleftrightarrow> in_cps s {k. k < u8_count s \<and> us_contains pattern (u8_cp s k)} b"
    using all by blast
  show "ranges_valid (int (length s)) 0 (class_ranges pattern merge s)" using all by blast
  show "matched (class_ranges pattern merge s) = sum_list (map (cp_width s) (class_hits pattern s 0))" using all by blast
  show "sorted_wrt (\<lambda>a b. rg_end a < rg_start b) (class_ranges pattern merge s)" if merge using all that by blast
qed

lemma class_search_result:
  assumes "sv_ok input" "utf8_encoding (sv_enc input)"
  shows "find_character_class_ranges input pattern merge =
    (if ill_formed (sv_bytes input) 0
     then Inl (Runtime_error ''invalid UTF-8 byte sequence detected; try calling ci_enc_toutf8()'')
     else Inr (matched (class_ranges pattern merge (sv_bytes input)), class_ranges pattern merge (sv_bytes input)))"
proof (cases "sv_len input = 0")
  case True
  then have "sv_bytes input = []" by (simp add: sv_bytes_def)
  moreover have "u8_count [] = 0" using u8_pos_bounds(4) [of "[]"] by simp
  ultimately show ?thesis
    using assms True
    by (auto simp: find_character_class_ranges_def sv_ok_def utf8_encoding_def class_ranges_def class_hits_def ill_formed_def)
next
  case False
  have fits: "nat (sv_len input) \<le> length (ptr_bytes (sv_ptr input))" "nat (sv_len input) \<le> SIZE_MAX"
    using assms(1) by (auto simp: sv_ok_def SIZE_MAX_def INT_MAX_def)
  show ?thesis
    using assms False class_loop_from [OF fits, of 0 0 pattern merge "[]"]
    by (auto simp: find_character_class_ranges_def sv_ok_def utf8_encoding_def u8_pos_bounds(2) class_ranges_props(3)
        class_ranges_def [symmetric] simp flip: sv_bytes_def)
qed

text \<open>The search for a character class fails exactly on ill-formed UTF-8. Otherwise its ranges
  are ordered, disjoint and inside the subject, cover exactly the bytes of the code points of
  the class, and add up to the returned number of bytes; one by one they are these code
  points, and merged no two of them touch, so that they are the maximal runs.\<close>

lemma class_ranges_exact:
  assumes "sv_ok input" "utf8_encoding (sv_enc input)"
  defines "s \<equiv> sv_bytes input"
  shows "if ill_formed s 0
    then find_character_class_ranges input pattern merge =
      Inl (Runtime_error ''invalid UTF-8 byte sequence detected; try calling ci_enc_toutf8()'')
    else (\<exists>rs. find_character_class_ranges input pattern merge = Inr (matched rs, rs) \<and> ranges_valid (sv_len input) 0 rs \<and>
      (\<forall>b. covers rs b \<longleftrightarrow> in_cps s {k. k < u8_count s \<and> us_contains pattern (u8_cp s k)} b) \<and>
      (if merge then sorted_wrt (\<lambda>a b. rg_end a < rg_start b) rs else rs = map (cp_range s) (class_hits pattern s 0)))"
proof -
  have len: "int (length s) = sv_len input" using assms by (simp add: sv_ok_def)
  have "class_ranges pattern False s = map (cp_range s) (class_hits pattern s 0)"
    by (simp add: class_ranges_def foldl_add_range_plain)
  then show ?thesis
    using class_search_result [OF assms(1,2), of pattern merge, folded s_def]
      class_ranges_props [where s = s and pattern = pattern and merge = merge] len
    by (cases merge) auto
qed

subsection \<open>Removing a class\<close>

lemma covers_from: "ranges_valid len prev rs \<Longrightarrow> covers rs b \<Longrightarrow> prev \<le> int b"
  by (induction rs arbitrary: prev) fastforce+

lemma slice_nth: "q \<le> length s \<Longrightarrow> p \<le> q \<Longrightarrow> slice s p q = map ((!) s) [p..<q]"
  by (rule nth_equalityI) (simp_all add: slice_def)

lemma upt_cut: "p \<le> a \<Longrightarrow> a \<le> b \<Longrightarrow> [p..<b] = [p..<a] @ [a..<b]"
  using upt_add_eq_append [of p a "b - a"] by simp

lemma spliced_removal:
  "ranges_valid (int (length s)) (int p) rs \<Longrightarrow> spliced s [] p rs = map ((!) s) (filter (\<lambda>b. \<not> covers rs b) [p..<length s])"
proof (induction rs arbitrary: p)
  case Nil
  then show ?case using slice_nth [of "length s" s p] by (simp add: slice_def)
next
  case (Cons r rs)
  define a b where "a = nat (rg_start r)" and "b = nat (rg_end r)"
  have rest: "ranges_valid (int (length s)) (int b) rs" and ab: "p \<le> a" "a < b" "b \<le> length s"
    "rg_start r = int a" "rg_end r = int b"
    using Cons.prems ranges_valid_le [of "int (length s)" "rg_end r" rs] by (auto simp: a_def b_def)
  have cut: "[p..<length s] = [p..<a] @ [a..<b] @ [b..<length s]"
    using ab upt_cut [of p a "length s"] upt_cut [of a b "length s"] by simp
  have "filter (\<lambda>i. \<not> covers (r # rs) i) [p..<a] = [p..<a]"
    using ab covers_from [OF rest] by (intro filter_True) fastforce
  moreover have "filter (\<lambda>i. \<not> covers (r # rs) i) [a..<b] = []" using ab by simp
  moreover have "filter (\<lambda>i. \<not> covers (r # rs) i) [b..<length s] = filter (\<lambda>i. \<not> covers rs i) [b..<length s]"
    using ab by (intro filter_cong) auto
  ultimately show ?case
    using Cons.IH [OF rest] ab slice_nth [of a s p] unfolding cut by (simp flip: a_def b_def)
qed

text \<open>The code points outside a set of indices, one after the other.\<close>

definition without_cps :: "byte list \<Rightarrow> (nat \<Rightarrow> bool) \<Rightarrow> byte list" where
  "without_cps s P = concat (map (\<lambda>k. slice s (u8_pos s k) (u8_pos s (Suc k))) (filter (\<lambda>k. \<not> P k) [0..<u8_count s]))"

lemma in_cps_at:
  assumes "k < u8_count s" "u8_pos s k \<le> b" "b < u8_pos s (Suc k)"
  shows "in_cps s {k. k < u8_count s \<and> P k} b \<longleftrightarrow> P k"
proof -
  have same: "j = k" if "u8_pos s j \<le> b" "b < u8_pos s (Suc j)" for j
  proof (rule ccontr)
    assume "j \<noteq> k"
    then have "Suc j \<le> k \<or> Suc k \<le> j" by linarith
    then have "u8_pos s (Suc j) \<le> u8_pos s k \<or> u8_pos s (Suc k) \<le> u8_pos s j" using u8_pos_bounds(5) by blast
    with assms(2,3) that show False by linarith
  qed
  show ?thesis
  proof
    assume "in_cps s {k. k < u8_count s \<and> P k} b"
    then obtain j where "P j" "u8_pos s j \<le> b" "b < u8_pos s (Suc j)" by (auto simp: in_cps_def)
    with same show "P k" by blast
  next
    assume "P k"
    with assms show "in_cps s {k. k < u8_count s \<and> P k} b" unfolding in_cps_def by blast
  qed
qed

lemma without_cps_bytes:
  "m \<le> u8_count s \<Longrightarrow>
   concat (map (\<lambda>k. slice s (u8_pos s k) (u8_pos s (Suc k))) (filter (\<lambda>k. \<not> P k) [0..<m])) =
   map ((!) s) (filter (\<lambda>b. \<not> in_cps s {k. k < u8_count s \<and> P k} b) [0..<u8_pos s m])"
proof (induction m)
  case (Suc m)
  let ?in = "in_cps s {k. k < u8_count s \<and> P k}"
  have m: "m < u8_count s" "u8_pos s m \<le> u8_pos s (Suc m)" "u8_pos s (Suc m) \<le> length s"
    using Suc.prems by (simp_all add: u8_pos_bounds)
  have cut: "[0..<u8_pos s (Suc m)] = [0..<u8_pos s m] @ [u8_pos s m..<u8_pos s (Suc m)]"
    using m(2) by (intro upt_cut) simp_all
  have "filter (\<lambda>b. \<not> ?in b) [u8_pos s m..<u8_pos s (Suc m)] = (if P m then [] else [u8_pos s m..<u8_pos s (Suc m)])"
    using in_cps_at [OF m(1), of _ P] by (auto intro!: filter_False filter_True)
  then show ?case using Suc m slice_nth [OF m(3,2)] unfolding cut by simp
qed (simp add: u8_pos_bounds)

text \<open>C14. Removing a character class end to end: the ranges of the search, merged or not, are accepted by
  the replacement writer, and with an empty replacement it writes the code points outside the
  class in order and nothing else.\<close>

theorem class_removal_exact:
  assumes "sv_ok input" "utf8_encoding (sv_enc input)" "\<not> ill_formed (sv_bytes input) 0"
    and "sv_ok R" "utf8_encoding (sv_enc R)" "sv_len R = 0"
    and "length out = length (without_cps (sv_bytes input) (\<lambda>k. us_contains pattern (u8_cp (sv_bytes input) k)))"
  shows "\<exists>m rs. find_character_class_ranges input pattern merge = Inr (m, rs) \<and>
    write_replacement input rs R (Some out) (length out) =
      Inr (without_cps (sv_bytes input) (\<lambda>k. us_contains pattern (u8_cp (sv_bytes input) k)))"
proof -
  let ?s = "sv_bytes input" and ?rs = "class_ranges pattern merge (sv_bytes input)"
  let ?P = "\<lambda>k. us_contains pattern (u8_cp ?s k)"
  have len: "int (length ?s) = sv_len input" using assms(1) by (simp add: sv_ok_def)
  have int_max: "sv_len input \<le> INT_MAX" using assms(1) by (simp add: sv_ok_def)
  have args: "replacement_args input R" using assms by (simp add: replacement_args_def)
  have R: "sv_bytes R = []" using assms(6) by (simp add: sv_bytes_def)
  have valid: "ranges_valid (sv_len input) 0 ?rs" using class_ranges_props(2) [of ?s] len by simp
  have tx: "spliced ?s (sv_bytes R) 0 ?rs = without_cps ?s ?P"
    using spliced_removal [of ?s 0 ?rs] class_ranges_props(2) [of ?s pattern merge]
      without_cps_bytes [of "u8_count ?s" ?s ?P]
    by (simp add: R without_cps_def class_ranges_props(1) u8_pos_bounds(3))
  have "length (without_cps ?s ?P) \<le> length ?s"
    using length_filter_le [of "\<lambda>b. \<not> in_cps ?s {k. k < u8_count ?s \<and> ?P k} b" "[0..<length ?s]"]
      without_cps_bytes [of "u8_count ?s" ?s ?P]
    by (simp add: without_cps_def u8_pos_bounds(3))
  then have "int (length (without_cps ?s ?P)) \<le> INT_MAX" using len int_max by linarith
  then have "write_replacement input ?rs R (Some out) (length out) = Inr (without_cps ?s ?P)"
    using write_replacement_text [OF args valid, of out] assms(7) by (simp add: tx)
  then show ?thesis using class_search_result [OF assms(1,2), of pattern merge] assms(3) by simp
qed

theorem class_removal_exact_witness:
  "\<exists>m rs. find_character_class_ranges (view_of 4 Enc_utf8 [0x61, 0xc3, 0xa9, 0x62]) (complement (UnicodeSet\<lparr>us_contains := (\<lambda>c. c = 0xe9)\<rparr>)) True = Inr (m, rs) \<and>
     write_replacement (view_of 4 Enc_utf8 [0x61, 0xc3, 0xa9, 0x62]) rs (view_of 9 Enc_ascii []) (Some [0, 0]) 2 = Inr [0xc3, 0xa9]"
proof -
  let ?s = "[0x61, 0xc3, 0xa9, 0x62] :: byte list" and ?P = "complement (UnicodeSet\<lparr>us_contains := (\<lambda>c. c = 0xe9)\<rparr>)"
  have "without_cps ?s (\<lambda>k. us_contains ?P (u8_cp ?s k)) = [0xc3, 0xa9]" "\<not> ill_formed ?s 0" by code_simp+
  then show ?thesis
    using class_removal_exact [of "view_of 4 Enc_utf8 ?s" "view_of 9 Enc_ascii []" "[0, 0]" ?P True]
    by (simp add: utf8_encoding_def INT_MAX_def numeral_2_eq_2)
qed


end
