(* ===== verification/Regex_Search.thy ===== *)
theory Regex_Search
  imports Utf16 Fixed_Search Replacement Case_Map
begin

text \<open>
  Regular expression search (\<^verbatim>\<open>src/shared/regex_search.cpp\<close>): the conversion of UTF-8
  subjects to UTF-16 with a table of byte offsets, the pattern collection, and the matcher with
  its cached subject. ICU's regular expression engine is a parameter: a compiled pattern gives
  for every text the results of successive \<open>find\<close> calls, each the groups of a match or an
  error. The lemmas show that the offset table maps every UTF-16 offset of a match to the byte
  boundary of the same code point, that the cached subject never changes an answer, and what
  the searches and splits return.
\<close>

definition U_INDEX_OUTOFBOUNDS_ERROR :: int where "U_INDEX_OUTOFBOUNDS_ERROR = 8"

definition U_REGEX_INVALID_STATE :: int where "U_REGEX_INVALID_STATE = 66306"

definition vector_resize :: "'a \<Rightarrow> nat \<Rightarrow> 'a list \<Rightarrow> 'a list" where
  "vector_resize x n xs = take n xs @ replicate (n - length xs) x"

lemma length_vector_resize [simp]: "length (vector_resize x n xs) = n"
  by (simp add: vector_resize_def)

subsection \<open>Conversion to UTF-16\<close>

definition regex_checks :: "string_view \<Rightarrow> unit result" where
  "regex_checks source =
     (if sv_len source < 0 \<or> sv_ptr source = NullPtr \<and> sv_len source \<noteq> 0 then
        Inl (Invalid_argument ''invalid regex input string view'')
      else if sv_enc source \<noteq> Enc_ascii \<and> sv_enc source \<noteq> Enc_utf8 \<and> sv_enc source \<noteq> Enc_ascii_or_utf8 then
        Inl (Invalid_argument ''regex input must be normalized to UTF-8'')
      else Inr ())"

text \<open>\<open>from_utf8\<close> is \<open>u_strFromUTF8WithSub\<close> with U+FFFD: the status and the code units.\<close>

definition set_utf16 :: "(byte list \<Rightarrow> int \<times> uchar list) \<Rightarrow> string_view \<Rightarrow> uchar list result" where
  "set_utf16 from_utf8 source =
     bindE (regex_checks source) (\<lambda>_.
       if sv_len source = 0 then Inr []
       else if sv_enc source = Enc_ascii then Inr (map (\<lambda>b. word_of_int (uint b)) (sv_bytes source))
       else
         let (status, units) = from_utf8 (sv_bytes source) in
         if U_FAILURE status then Inl (Runtime_error ''regex UTF-8 conversion failed'') else Inr units)"

definition rx_is_ascii :: "string_view \<Rightarrow> bool" where
  "rx_is_ascii source =
     (if sv_enc source = Enc_ascii then True
      else if sv_enc source \<noteq> Enc_ascii_or_utf8 then False
      else list_all (\<lambda>b. \<not> b > 0x7f) (sv_bytes source))"

text \<open>The loop over the code points: the destination, the offsets and the number of code units written.\<close>

function offsets_loop :: "byte list \<Rightarrow> nat \<Rightarrow> nat \<Rightarrow> uchar list \<Rightarrow> nat list \<Rightarrow> nat \<Rightarrow> uchar list \<times> nat list \<times> nat" where
  "offsets_loop s len source_index destination byte_offsets output_index =
     (if source_index < len then
        let source_begin = source_index; (source_index, code_point) = U8_NEXT_OR_FFFD s source_index len in
        if code_point \<le> 0xffff then
          offsets_loop s len source_index (destination[output_index := word_of_int code_point])
            (byte_offsets[output_index + 1 := source_index]) (output_index + 1)
        else
          offsets_loop s len source_index
            (destination[output_index := U16_LEAD code_point, output_index + 1 := U16_TRAIL code_point])
            (byte_offsets[output_index + 1 := source_begin, output_index + 2 := source_index]) (output_index + 2)
      else (destination, byte_offsets, output_index))"
  by pat_completeness auto
termination
  by (relation "measure (\<lambda>(s, len, source_index, destination, byte_offsets, output_index). len - source_index)")
    (use U8_NEXT_fst U8_FWD_1_gt in \<open>auto simp: U8_NEXT_OR_FFFD_def prod_eq_iff Let_def split: prod.splits intro!: diff_less_mono2\<close>)

declare offsets_loop.simps [simp del]

text \<open>The code units, the offsets and the ASCII flag. \<open>fresh\<close> and \<open>old\<close> are what the buffer of the
  string and the resized vector hold before they are written.\<close>

definition set_utf16_with_offsets ::
  "uchar list \<Rightarrow> nat list \<Rightarrow> string_view \<Rightarrow> (uchar list \<times> nat list \<times> bool) result" where
  "set_utf16_with_offsets fresh old source =
     bindE (regex_checks source) (\<lambda>_.
       let ascii = rx_is_ascii source; n = nat (sv_len source) in
       if sv_len source = 0 then Inr ([], [0], ascii)
       else if ascii then Inr (map (\<lambda>b. word_of_int (uint b)) (sv_bytes source), [], ascii)
       else
         let byte_offsets = (vector_resize 0 (n + 1) old)[0 := 0];
             (destination, byte_offsets, output_index) =
               offsets_loop (ptr_bytes (sv_ptr source)) n 0 (vector_resize 0 n fresh) byte_offsets 0
         in Inr (take output_index destination, take (output_index + 1) byte_offsets, ascii))"

subsection \<open>Positions of ranges\<close>

type_synonym regex_range = "int \<times> int"

definition regex_range_to_positions :: "string_view \<Rightarrow> regex_range \<Rightarrow> bool \<Rightarrow> regex_range" where
  "regex_range_to_positions subject rng return_length =
     (if fst rng < 0 \<or> snd rng < 0 then rng
      else
        let positions = Utf8PositionCursor subject;
            (positions, first) = at_byte positions (fst rng);
            (positions, stop) = at_byte positions (snd rng)
        in (one_based_position first, if return_length then stop - first else stop))"

fun positions_loop :: "bool \<Rightarrow> utf8_position_cursor \<Rightarrow> utf8_position_cursor \<Rightarrow> regex_range list \<Rightarrow> regex_range list" where
  "positions_loop return_length starts ends [] = []"
| "positions_loop return_length starts ends (rng # ranges) =
     (if fst rng < 0 \<or> snd rng < 0 then rng # positions_loop return_length starts ends ranges
      else
        let (starts, first) = at_byte starts (fst rng);
            (ends, stop) = at_byte ends (snd rng)
        in (one_based_position first, if return_length then stop - first else stop) # positions_loop return_length starts ends ranges)"

definition regex_ranges_to_positions :: "string_view \<Rightarrow> regex_range list \<Rightarrow> bool \<Rightarrow> regex_range list" where
  "regex_ranges_to_positions subject ranges return_length =
     positions_loop return_length (Utf8PositionCursor subject) (Utf8PositionCursor subject) ranges"

subsection \<open>The pattern collection\<close>

record regex_patterns =
  rp_values :: "uchar list list"
  rp_missing :: "bool list"

record regex_input =
  ri_identity :: "nat option"
  ri_value :: "uchar list option"
  ri_length :: int
  ri_missing :: bool

definition RegexPatterns :: regex_patterns where
  "RegexPatterns = \<lparr>rp_values = [], rp_missing = []\<rparr>"

definition rp_resize :: "nat \<Rightarrow> regex_patterns \<Rightarrow> regex_patterns" where
  "rp_resize n rp = \<lparr>rp_values = vector_resize [] n (rp_values rp), rp_missing = vector_resize False n (rp_missing rp)\<rparr>"

definition rp_set :: "(byte list \<Rightarrow> int \<times> uchar list) \<Rightarrow> nat \<Rightarrow> string_view \<Rightarrow> regex_patterns \<Rightarrow> regex_patterns result" where
  "rp_set from_utf8 index source rp =
     (if index \<ge> length (rp_values rp) \<or> index \<ge> length (rp_missing rp) then
        Inl (Out_of_range ''regex pattern index out of bounds'')
      else if is_na source then Inr (rp\<lparr>rp_missing := (rp_missing rp)[index := True]\<rparr>)
      else
        bindE (set_utf16 from_utf8 source) (\<lambda>value.
          Inr \<lparr>rp_values = (rp_values rp)[index := value], rp_missing = (rp_missing rp)[index := False]\<rparr>))"

text \<open>\<open>addr\<close> is the address of the values; the identity of a record is the address of its string.\<close>

definition rp_get :: "(nat \<Rightarrow> nat) \<Rightarrow> nat \<Rightarrow> regex_patterns \<Rightarrow> regex_input result" where
  "rp_get addr index rp =
     (if index \<ge> length (rp_values rp) \<or> index \<ge> length (rp_missing rp) then
        Inl (Out_of_range ''regex pattern index out of bounds'')
      else
        let value = rp_values rp ! index in
        Inr \<lparr>ri_identity = Some (addr index), ri_value = Some value, ri_length = int (length value), ri_missing = rp_missing rp ! index\<rparr>)"

definition rp_empty_count :: "regex_patterns \<Rightarrow> int" where
  "rp_empty_count rp = int (length (filter (\<lambda>i. \<not> rp_missing rp ! i \<and> length (rp_values rp ! i) = 0) [0..<length (rp_values rp)]))"

subsection \<open>The engine\<close>

datatype rx_find = Rx_hit "regex_range list" | Rx_fail int

record icu_matcher =
  im_results :: "uchar list \<Rightarrow> rx_find list"
  im_group_count :: nat
  im_input :: "uchar list"
  im_next :: nat
  im_last :: "regex_range list option"

definition im_reset :: "uchar list \<Rightarrow> icu_matcher \<Rightarrow> icu_matcher" where
  "im_reset input m = m\<lparr>im_input := input, im_next := 0, im_last := None\<rparr>"

definition im_find :: "icu_matcher \<Rightarrow> bool \<times> int \<times> icu_matcher" where
  "im_find m =
     (let results = im_results m (im_input m) in
      if im_next m < length results then
        (case results ! im_next m of
           Rx_hit groups \<Rightarrow> (True, 0, m\<lparr>im_next := im_next m + 1, im_last := Some groups\<rparr>)
         | Rx_fail status \<Rightarrow> (False, status, m\<lparr>im_next := im_next m + 1, im_last := None\<rparr>))
      else (False, 0, m\<lparr>im_last := None\<rparr>))"

text \<open>\<open>start(i, status)\<close> and \<open>end(i, status)\<close>: the status and the offset.\<close>

definition im_group :: "icu_matcher \<Rightarrow> nat \<Rightarrow> (regex_range \<Rightarrow> int) \<Rightarrow> int \<times> int" where
  "im_group m i side =
     (case im_last m of
        None \<Rightarrow> (U_REGEX_INVALID_STATE, - 1)
      | Some groups \<Rightarrow> if i < length groups then (0, side (groups ! i)) else (U_INDEX_OUTOFBOUNDS_ERROR, - 1))"

text \<open>What else is used of ICU: compiling, the limits, the conversion and the two replacement calls.\<close>

record icu_regex =
  ir_compile :: "uchar list \<Rightarrow> nat \<Rightarrow> int \<times> icu_matcher option"
  ir_stack_limit :: "int \<Rightarrow> int"
  ir_time_limit :: "int \<Rightarrow> int"
  ir_from_utf8 :: "byte list \<Rightarrow> int \<times> uchar list"
  ir_replace_all :: "icu_matcher \<Rightarrow> uchar list \<Rightarrow> int \<times> uchar list"
  ir_replace_one :: "icu_matcher \<Rightarrow> uchar list \<Rightarrow> int \<times> uchar list"

subsection \<open>The matcher\<close>

record regex_options =
  ro_flags :: nat
  ro_stack_limit :: int
  ro_time_limit :: int

record regex_matcher =
  rm_matcher :: "icu_matcher option"
  rm_pattern_identity :: "nat option"
  rm_options :: regex_options
  rm_subject :: "uchar list"
  rm_subject_identity :: "nat option"
  rm_byte_offsets :: "nat list"
  rm_subject_ascii :: bool
  rm_byte_offsets_valid :: bool

definition RegexMatcher :: "regex_options \<Rightarrow> regex_matcher" where
  "RegexMatcher options =
     \<lparr>rm_matcher = None, rm_pattern_identity = None, rm_options = options, rm_subject = [], rm_subject_identity = None,
      rm_byte_offsets = [], rm_subject_ascii = True, rm_byte_offsets_valid = False\<rparr>"

definition rm_close :: "regex_matcher \<Rightarrow> regex_matcher" where
  "rm_close rm = rm\<lparr>rm_matcher := None, rm_pattern_identity := None\<rparr>"

definition rm_reset_options :: "regex_options \<Rightarrow> regex_matcher \<Rightarrow> regex_matcher" where
  "rm_reset_options options rm =
     (rm_close rm)\<lparr>rm_options := options, rm_subject_identity := None, rm_byte_offsets_valid := False\<rparr>"

text \<open>\<open>bind\<close>: whether it succeeded, the status, whether the pattern failed to compile, and the matcher.\<close>

definition rm_bind :: "icu_regex \<Rightarrow> regex_input \<Rightarrow> regex_matcher \<Rightarrow> bool \<times> int \<times> bool \<times> regex_matcher" where
  "rm_bind ir pattern rm =
     (if ri_missing pattern \<or> ri_length pattern \<le> 0 \<or> ri_value pattern = None \<or> ri_identity pattern = None then
        (False, U_ILLEGAL_ARGUMENT_ERROR, False, rm)
      else if rm_matcher rm = None \<or> rm_pattern_identity rm \<noteq> ri_identity pattern then
        let rm = rm_close rm;
            (status, compiled) = ir_compile ir (the (ri_value pattern)) (ro_flags (rm_options rm))
        in
        if U_FAILURE status \<or> compiled = None then
          (False, if U_FAILURE status then status else U_MEMORY_ALLOCATION_ERROR, True, rm_close rm)
        else
          let status = (if ro_stack_limit (rm_options rm) > 0 then ir_stack_limit ir (ro_stack_limit (rm_options rm)) else status) in
          if ro_stack_limit (rm_options rm) > 0 \<and> U_FAILURE status then (False, status, False, rm_close rm)
          else
            let status = (if ro_time_limit (rm_options rm) > 0 then ir_time_limit ir (ro_time_limit (rm_options rm)) else status) in
            if ro_time_limit (rm_options rm) > 0 \<and> U_FAILURE status then (False, status, False, rm_close rm)
            else (True, status, False, rm\<lparr>rm_matcher := compiled, rm_pattern_identity := ri_identity pattern\<rparr>)
      else (True, 0, False, rm))"

text \<open>The two ways the operations bring a subject in: without and with byte offsets. A conversion that
  throws leaves the identity null.\<close>

definition rx_load :: "icu_regex \<Rightarrow> string_view \<Rightarrow> nat option \<Rightarrow> regex_matcher \<Rightarrow> regex_matcher \<times> unit result" where
  "rx_load ir subject subject_identity rm =
     (if rm_subject_identity rm \<noteq> subject_identity then
        let rm = rm\<lparr>rm_subject_identity := None\<rparr> in
        case set_utf16 (ir_from_utf8 ir) subject of
          Inl e \<Rightarrow> (rm, Inl e)
        | Inr units \<Rightarrow>
            (rm\<lparr>rm_subject := units, rm_subject_identity := subject_identity, rm_byte_offsets_valid := False\<rparr>, Inr ())
      else (rm, Inr ()))"

definition rx_load_offsets :: "string_view \<Rightarrow> nat option \<Rightarrow> regex_matcher \<Rightarrow> regex_matcher \<times> unit result" where
  "rx_load_offsets subject subject_identity rm =
     (if rm_subject_identity rm \<noteq> subject_identity \<or> \<not> rm_byte_offsets_valid rm then
        let rm = rm\<lparr>rm_subject_identity := None, rm_byte_offsets_valid := False\<rparr> in
        case set_utf16_with_offsets (rm_subject rm) (rm_byte_offsets rm) subject of
          Inl e \<Rightarrow> (rm, Inl e)
        | Inr (units, offsets, ascii) \<Rightarrow>
            (rm\<lparr>rm_subject := units, rm_byte_offsets := offsets, rm_subject_ascii := ascii,
                rm_subject_identity := subject_identity, rm_byte_offsets_valid := True\<rparr>, Inr ())
      else (rm, Inr ()))"

definition rx_invalid :: "string_view \<Rightarrow> nat option \<Rightarrow> regex_matcher \<Rightarrow> bool" where
  "rx_invalid subject subject_identity rm \<longleftrightarrow> is_na subject \<or> subject_identity = None \<or> rm_matcher rm = None"

text \<open>The matcher after a search that ended with a status, which closes it where the status is a failure.\<close>

definition rx_done :: "regex_matcher \<Rightarrow> icu_matcher \<Rightarrow> int \<Rightarrow> regex_matcher" where
  "rx_done rm m status = (let rm = rm\<lparr>rm_matcher := Some m\<rparr> in if U_FAILURE status then rm_close rm else rm)"

definition byte_offset :: "regex_matcher \<Rightarrow> int \<Rightarrow> int \<times> int" where
  "byte_offset rm utf16_offset =
     (if rm_subject_ascii rm then (0, utf16_offset)
      else if utf16_offset < 0 \<or> size_cast utf16_offset \<ge> length (rm_byte_offsets rm) then (U_INDEX_OUTOFBOUNDS_ERROR, 0)
      else (0, int (rm_byte_offsets rm ! nat utf16_offset)))"

text \<open>The byte range of the current match: its start, its end and the two offsets, up to the first failure.\<close>

definition match_range :: "regex_matcher \<Rightarrow> icu_matcher \<Rightarrow> int \<times> regex_range" where
  "match_range rm m =
     (let (status, start_utf16) = im_group m 0 fst in
      if U_FAILURE status then (status, (0, 0))
      else
        let (status, start) = byte_offset rm start_utf16 in
        if U_FAILURE status then (status, (0, 0))
        else
          let (status, end_utf16) = im_group m 0 snd in
          if U_FAILURE status then (status, (0, 0))
          else let (status, stop) = byte_offset rm end_utf16 in (status, (start, stop)))"

definition rx_contains :: "icu_regex \<Rightarrow> string_view \<Rightarrow> nat option \<Rightarrow> regex_matcher \<Rightarrow> regex_matcher \<times> (bool \<times> int) result" where
  "rx_contains ir subject subject_identity rm =
     (if rx_invalid subject subject_identity rm then (rm, Inr (False, U_ILLEGAL_ARGUMENT_ERROR))
      else
        case rx_load ir subject subject_identity rm of
          (rm, Inl e) \<Rightarrow> (rm, Inl e)
        | (rm, Inr _) \<Rightarrow>
            let (found, status, m) = im_find (im_reset (rm_subject rm) (the (rm_matcher rm)))
            in (rx_done rm m status, Inr (found, status)))"

definition im_rest :: "icu_matcher \<Rightarrow> nat" where
  "im_rest m = length (im_results m (im_input m)) - im_next m"

lemma im_find_rest:
  assumes "im_find m = (found, status, m')"
  shows "im_rest m' \<le> im_rest m" "found \<Longrightarrow> im_rest m' < im_rest m"
  using assms by (auto simp: im_find_def im_rest_def Let_def split: if_splits rx_find.splits)

function rx_count_loop :: "bool \<Rightarrow> int \<Rightarrow> icu_matcher \<Rightarrow> int \<Rightarrow> int \<times> int \<times> icu_matcher" where
  "rx_count_loop found status m result =
     (if found \<and> \<not> U_FAILURE status then
        if result = INT_MAX then (result, U_INDEX_OUTOFBOUNDS_ERROR, m)
        else let (found, status, m) = im_find m in rx_count_loop found status m (result + 1)
      else (result, status, m))"
  by pat_completeness auto
termination
  by (relation "measure (\<lambda>(found, status, m, result). im_rest m + (if found then 1 else 0))")
    (auto dest!: sym [of _ "im_find _"] dest: im_find_rest)

declare rx_count_loop.simps [simp del]

definition rx_count :: "icu_regex \<Rightarrow> string_view \<Rightarrow> nat option \<Rightarrow> regex_matcher \<Rightarrow> regex_matcher \<times> (int \<times> int) result" where
  "rx_count ir subject subject_identity rm =
     (if rx_invalid subject subject_identity rm then (rm, Inr (0, U_ILLEGAL_ARGUMENT_ERROR))
      else
        case rx_load ir subject subject_identity rm of
          (rm, Inl e) \<Rightarrow> (rm, Inl e)
        | (rm, Inr _) \<Rightarrow>
            let (found, status, m) = im_find (im_reset (rm_subject rm) (the (rm_matcher rm)));
                (result, status, m) = rx_count_loop found status m 0
            in (rx_done rm m status, Inr (result, status)))"

text \<open>\<open>find_first\<close>: whether a match was found, its range and the status.\<close>

definition rx_find_first ::
  "string_view \<Rightarrow> nat option \<Rightarrow> regex_matcher \<Rightarrow> regex_matcher \<times> (regex_range option \<times> int) result" where
  "rx_find_first subject subject_identity rm =
     (if rx_invalid subject subject_identity rm then (rm, Inr (None, U_ILLEGAL_ARGUMENT_ERROR))
      else
        case rx_load_offsets subject subject_identity rm of
          (rm, Inl e) \<Rightarrow> (rm, Inl e)
        | (rm, Inr _) \<Rightarrow>
            let (found, status, m) = im_find (im_reset (rm_subject rm) (the (rm_matcher rm))) in
            if \<not> found \<or> U_FAILURE status then (rx_done rm m status, Inr (None, status))
            else
              let (status, rng) = match_range rm m
              in (rx_done rm m status, Inr (if U_FAILURE status then None else Some rng, status)))"

function rx_all_loop :: "regex_matcher \<Rightarrow> icu_matcher \<Rightarrow> regex_range list \<Rightarrow> icu_matcher \<times> regex_range list \<times> int" where
  "rx_all_loop rm m matches =
     (let (found, status, m) = im_find m in
      if \<not> found \<or> U_FAILURE status then (m, matches, status)
      else
        let (status, rng) = match_range rm m in
        if U_FAILURE status then (m, matches, status) else rx_all_loop rm m (matches @ [rng]))"
  by pat_completeness auto
termination
  by (relation "measure (\<lambda>(rm, m, matches). im_rest m)") (auto dest!: sym [of _ "im_find _"] dest: im_find_rest)

declare rx_all_loop.simps [simp del]

definition rx_find_all ::
  "string_view \<Rightarrow> nat option \<Rightarrow> regex_matcher \<Rightarrow> regex_matcher \<times> (regex_range list \<times> int) result" where
  "rx_find_all subject subject_identity rm =
     (if rx_invalid subject subject_identity rm then (rm, Inr ([], U_ILLEGAL_ARGUMENT_ERROR))
      else
        case rx_load_offsets subject subject_identity rm of
          (rm, Inl e) \<Rightarrow> (rm, Inl e)
        | (rm, Inr _) \<Rightarrow>
            let (m, matches, status) = rx_all_loop rm (im_reset (rm_subject rm) (the (rm_matcher rm))) []
            in (rx_done rm m status, Inr (matches, status)))"

text \<open>The byte range of a capture group, \<open>(- 1, - 1)\<close> for a group that takes no part in the match.\<close>

definition group_range :: "regex_matcher \<Rightarrow> icu_matcher \<Rightarrow> nat \<Rightarrow> int \<times> regex_range" where
  "group_range rm m i =
     (let (status, start_utf16) = im_group m i fst in
      if U_FAILURE status then (status, (- 1, - 1))
      else
        let (status, end_utf16) = im_group m i snd in
        if U_FAILURE status then (status, (- 1, - 1))
        else if start_utf16 < 0 \<or> end_utf16 < 0 then (0, (- 1, - 1))
        else
          let (status, start) = byte_offset rm start_utf16 in
          if U_FAILURE status then (status, (- 1, - 1))
          else let (status, stop) = byte_offset rm end_utf16 in (status, (start, stop)))"

fun first_captures :: "regex_matcher \<Rightarrow> icu_matcher \<Rightarrow> nat list \<Rightarrow> regex_range list \<Rightarrow> int \<times> regex_range list" where
  "first_captures rm m [] captures = (0, captures)"
| "first_captures rm m (i # is) captures =
     (let (status, rng) = group_range rm m (i + 1) in
      if U_FAILURE status then (status, captures) else first_captures rm m is (captures[i := rng]))"

definition rx_find_first_with_captures ::
  "string_view \<Rightarrow> nat option \<Rightarrow> regex_matcher \<Rightarrow> regex_matcher \<times> ((regex_range \<times> regex_range list) option \<times> int) result" where
  "rx_find_first_with_captures subject subject_identity rm =
     (case rx_find_first subject subject_identity rm of
        (rm, Inl e) \<Rightarrow> (rm, Inl e)
      | (rm, Inr (None, status)) \<Rightarrow> (rm, Inr (None, status))
      | (rm, Inr (Some rng, status)) \<Rightarrow>
          let m = the (rm_matcher rm); count = im_group_count m;
              (status, captures) = first_captures rm m [0..<count] (replicate count (0, 0))
          in if U_FAILURE status then (rm_close rm, Inr (None, status)) else (rm, Inr (Some (rng, captures), status)))"

fun column_captures :: "regex_matcher \<Rightarrow> icu_matcher \<Rightarrow> nat list \<Rightarrow> regex_range list list \<Rightarrow> int \<times> regex_range list list" where
  "column_captures rm m [] captures = (0, captures)"
| "column_captures rm m (i # is) captures =
     (let (status, rng) = group_range rm m (i + 1) in
      if U_FAILURE status then (status, captures) else column_captures rm m is (captures[i := captures ! i @ [rng]]))"

function rx_columns_loop ::
  "regex_matcher \<Rightarrow> icu_matcher \<Rightarrow> regex_range list \<Rightarrow> regex_range list list \<Rightarrow> icu_matcher \<times> regex_range list \<times> regex_range list list \<times> int" where
  "rx_columns_loop rm m matches captures =
     (let (found, status, m) = im_find m in
      if \<not> found \<or> U_FAILURE status then (m, matches, captures, status)
      else
        let (status, rng) = match_range rm m in
        if U_FAILURE status then (m, matches, captures, status)
        else
          let (status, captures) = column_captures rm m [0..<length captures] captures in
          if U_FAILURE status then (m, matches @ [rng], captures, status)
          else rx_columns_loop rm m (matches @ [rng]) captures)"
  by pat_completeness auto
termination
  by (relation "measure (\<lambda>(rm, m, matches, captures). im_rest m)") (auto dest!: sym [of _ "im_find _"] dest: im_find_rest)

declare rx_columns_loop.simps [simp del]

definition rx_find_all_with_captures ::
  "string_view \<Rightarrow> nat option \<Rightarrow> regex_matcher \<Rightarrow> regex_matcher \<times> (regex_range list \<times> regex_range list list \<times> int) result" where
  "rx_find_all_with_captures subject subject_identity rm =
     (if rx_invalid subject subject_identity rm then (rm, Inr ([], [], U_ILLEGAL_ARGUMENT_ERROR))
      else
        case rx_load_offsets subject subject_identity rm of
          (rm, Inl e) \<Rightarrow> (rm, Inl e)
        | (rm, Inr _) \<Rightarrow>
            let m = the (rm_matcher rm);
                (m, matches, captures, status) =
                  rx_columns_loop rm (im_reset (rm_subject rm) m) [] (replicate (im_group_count m) [])
            in (rx_done rm m status, Inr (matches, captures, status)))"

function split_default_loop ::
  "regex_matcher \<Rightarrow> icu_matcher \<Rightarrow> regex_range list \<Rightarrow> int \<Rightarrow> icu_matcher \<times> regex_range list \<times> int \<times> int" where
  "split_default_loop rm m flds field_start =
     (let (found, status, m) = im_find m in
      if \<not> found \<or> U_FAILURE status then (m, flds, field_start, status)
      else
        let (status, rng) = match_range rm m in
        if U_FAILURE status then (m, flds, field_start, status)
        else split_default_loop rm m (flds @ [(field_start, fst rng)]) (snd rng))"
  by pat_completeness auto
termination
  by (relation "measure (\<lambda>(rm, m, flds, field_start). im_rest m)") (auto dest!: sym [of _ "im_find _"] dest: im_find_rest)

declare split_default_loop.simps [simp del]

definition rx_split_default ::
  "string_view \<Rightarrow> nat option \<Rightarrow> regex_matcher \<Rightarrow> regex_matcher \<times> (regex_range list \<times> int) result" where
  "rx_split_default subject subject_identity rm =
     (if rx_invalid subject subject_identity rm then (rm, Inr ([], U_ILLEGAL_ARGUMENT_ERROR))
      else
        case rx_load_offsets subject subject_identity rm of
          (rm, Inl e) \<Rightarrow> (rm, Inl e)
        | (rm, Inr _) \<Rightarrow>
            let (m, flds, field_start, status) =
                  split_default_loop rm (im_reset (rm_subject rm) (the (rm_matcher rm))) [] 0
            in (rx_done rm m status, Inr (if U_FAILURE status then flds else flds @ [(field_start, sv_len subject)], status)))"

text \<open>The loop of \<open>split\<close>; what it does with a match is the step of the fixed split.\<close>

function rx_split_loop ::
  "regex_matcher \<Rightarrow> bool \<Rightarrow> int \<Rightarrow> icu_matcher \<Rightarrow> regex_range list \<times> int \<Rightarrow> icu_matcher \<times> (regex_range list \<times> int) \<times> int" where
  "rx_split_loop rm omit_empty search_limit m st =
     (if snd st < search_limit then
        let (found, status, m) = im_find m in
        if \<not> found \<or> U_FAILURE status then (m, st, status)
        else
          let (status, rng) = match_range rm m in
          if U_FAILURE status then (m, st, status)
          else rx_split_loop rm omit_empty search_limit m (split_step omit_empty (fst rng) (snd rng) st)
      else (m, st, 0))"
  by pat_completeness auto
termination
  by (relation "measure (\<lambda>(rm, omit_empty, search_limit, m, st). im_rest m)")
    (auto dest!: sym [of _ "im_find _"] dest: im_find_rest)

declare rx_split_loop.simps [simp del]

definition rx_split ::
  "string_view \<Rightarrow> nat option \<Rightarrow> int \<Rightarrow> bool \<Rightarrow> bool \<Rightarrow> regex_matcher
    \<Rightarrow> regex_matcher \<times> (fixed_split_result \<times> regex_range list \<times> int) result" where
  "rx_split subject subject_identity n omit_empty tokens_only rm =
     (if rx_invalid subject subject_identity rm then (rm, Inr (Split_ok, [], U_ILLEGAL_ARGUMENT_ERROR))
      else if n \<ge> INT_MAX - 1 then (rm, Inr (Limit_too_large, [], 0))
      else if n = 0 then (rm, Inr (Split_ok, [], 0))
      else if n < 0 \<and> \<not> omit_empty \<and> \<not> tokens_only then
        (case rx_split_default subject subject_identity rm of
           (rm, Inl e) \<Rightarrow> (rm, Inl e)
         | (rm, Inr (flds, status)) \<Rightarrow> (rm, Inr (Split_ok, flds, status)))
      else
        case rx_load_offsets subject subject_identity rm of
          (rm, Inl e) \<Rightarrow> (rm, Inl e)
        | (rm, Inr _) \<Rightarrow>
            let (field_limit, search_limit) = split_limits n tokens_only;
                (m, st, status) =
                  rx_split_loop rm omit_empty search_limit (im_reset (rm_subject rm) (the (rm_matcher rm))) ([(0, 0)], 1)
            in (rx_done rm m status,
                Inr (Split_ok,
                     if U_FAILURE status then fst st
                     else split_finish omit_empty tokens_only field_limit (sv_len subject) (fst st), status)))"

text \<open>Replacement. \<open>None\<close> as the result is the missing value; the status comes last.\<close>

datatype regex_replace_mode = Replace_first | Replace_all

definition rx_replace_units ::
  "icu_regex \<Rightarrow> uchar list \<Rightarrow> uchar list option \<Rightarrow> regex_replace_mode \<Rightarrow> uchar list \<Rightarrow> regex_matcher
    \<Rightarrow> regex_matcher \<times> uchar list option \<times> int" where
  "rx_replace_units ir subject replacement mode output0 rm =
     (case rm_matcher rm of
        None \<Rightarrow> (rm, Some output0, U_ILLEGAL_ARGUMENT_ERROR)
      | Some m \<Rightarrow>
          let m = im_reset subject m in
          case replacement of
            None \<Rightarrow>
              let (found, status, m) = im_find m in
              if U_FAILURE status then (rx_done rm m status, Some output0, status)
              else if found then (rx_done rm m status, None, status)
              else (rx_done rm m status, Some subject, status)
          | Some repl \<Rightarrow>
              if mode = Replace_all then
                let (status, replaced) = ir_replace_all ir m repl
                in (rx_done rm m status, Some replaced, status)
              else
                let (found, status, m) = im_find m in
                if U_FAILURE status then (rx_done rm m status, Some output0, status)
                else if \<not> found then (rx_done rm m status, Some subject, status)
                else
                  let (status, replaced) = ir_replace_one ir m repl
                  in (rx_done rm m status, Some replaced, status))"

definition rx_replace ::
  "icu_regex \<Rightarrow> string_view \<Rightarrow> nat option \<Rightarrow> uchar list option \<Rightarrow> regex_replace_mode \<Rightarrow> uchar list \<Rightarrow> regex_matcher
    \<Rightarrow> regex_matcher \<times> (uchar list option \<times> int) result" where
  "rx_replace ir subject subject_identity replacement mode output0 rm =
     (if is_na subject \<or> subject_identity = None then (rm, Inr (Some output0, U_ILLEGAL_ARGUMENT_ERROR))
      else
        case rx_load ir subject subject_identity rm of
          (rm, Inl e) \<Rightarrow> (rm, Inl e)
        | (rm, Inr _) \<Rightarrow>
            let (rm, answer, status) = rx_replace_units ir (rm_subject rm) replacement mode output0 rm
            in (rm, Inr (answer, status)))"

subsection \<open>The offset table\<close>

definition unit_offsets :: "byte list \<Rightarrow> nat \<Rightarrow> nat list" where
  "unit_offsets s k = (if length (cp_units s k) = 1 then [u8_pos s (Suc k)] else [u8_pos s k, u8_pos s (Suc k)])"

definition unit_table :: "byte list \<Rightarrow> nat list" where
  "unit_table s = 0 # concat (map (unit_offsets s) [0..<u8_count s])"

lemma length_unit_offsets [simp]: "length (unit_offsets s k) = length (cp_units s k)"
  by (cases s k rule: cp_units_cases) (simp_all add: unit_offsets_def)

lemma length_offsets_upto: "k \<le> u8_count s \<Longrightarrow> length (concat (map (unit_offsets s) [0..<k])) = u16_at s k"
  by (induction k) (simp_all add: u16_at_simps)

lemma take_update1: "i < length xs \<Longrightarrow> take (Suc i) (xs[i := x]) = take i xs @ [x]"
  by (simp add: take_Suc_conv_app_nth)

lemma take_update2: "Suc i < length xs \<Longrightarrow> take (Suc (Suc i)) (xs[i := x, Suc i := y]) = take i xs @ [x, y]"
  by (simp add: take_Suc_conv_app_nth)

lemma offsets_loop_from:
  assumes "n \<le> length s" "k \<le> u8_count (take n s)" "length dest = n" "length offs = n + 1"
    and "take (u16_at (take n s) k) dest = concat (map (cp_units (take n s)) [0..<k])"
    and "take (u16_at (take n s) k + 1) offs = 0 # concat (map (unit_offsets (take n s)) [0..<k])"
  shows "\<exists>d os. offsets_loop s n (u8_pos (take n s) k) dest offs (u16_at (take n s) k) = (d, os, length (u16_text (take n s))) \<and>
    take (length (u16_text (take n s))) d = u16_text (take n s) \<and>
    take (length (u16_text (take n s)) + 1) os = unit_table (take n s)"
  using assms(2-)
proof (induction "u8_count (take n s) - k" arbitrary: k dest offs)
  case 0
  then have k: "k = u8_count (take n s)" by simp
  then have "u8_pos (take n s) k = n" using u8_pos_bounds(3) [of "take n s"] assms(1) by simp
  then show ?case using 0 k
    by (subst offsets_loop.simps) (simp add: u16_at_simps(2) u16_text_def unit_table_def)
next
  case (Suc d)
  let ?t = "take n s" and ?o = "u16_at (take n s) k"
  have len: "length ?t = n" using assms(1) by simp
  have k: "k < u8_count ?t" using Suc.hyps(2) by simp
  note step = u8_pos_step [OF k, unfolded len]
  have "U8_NEXT s (u8_pos ?t k) n = U8_NEXT ?t (u8_pos ?t k) n" using step(1) by (simp add: U8_NEXT_take)
  then have read: "U8_NEXT_OR_FFFD s (u8_pos ?t k) n = (u8_pos ?t (Suc k), if u8_cp ?t k < 0 then 0xfffd else u8_cp ?t k)"
    using step(2) len by (simp add: U8_NEXT_OR_FFFD_def u8_cp_def case_prod_beta U8_NEXT_fst)
  have room: "?o + length (cp_units ?t k) \<le> n"
    using u16_at_le [of "Suc k" ?t] u16_at_simps(3) [OF k] k u8_pos_bounds(1) [of ?t "Suc k"] len by simp
  define c where "c = (if u8_cp ?t k < 0 then 0xfffd else u8_cp ?t k)"
  have units: "cp_units ?t k = u16_units c" by (simp add: cp_units_def c_def)
  define dest' where "dest' = (if c \<le> 0xffff then dest[?o := word_of_int c] else dest[?o := U16_LEAD c, ?o + 1 := U16_TRAIL c])"
  define offs' where "offs' = (if c \<le> 0xffff then offs[?o + 1 := u8_pos ?t (Suc k)]
    else offs[?o + 1 := u8_pos ?t k, ?o + 2 := u8_pos ?t (Suc k)])"
  have run: "offsets_loop s n (u8_pos ?t k) dest offs ?o = offsets_loop s n (u8_pos ?t (Suc k)) dest' offs' (u16_at ?t (Suc k))"
    using step(1) by (subst offsets_loop.simps)
      (simp add: read u16_at_simps(3) [OF k] units u16_units_def dest'_def offs'_def Let_def flip: c_def)
  have "take (u16_at ?t (Suc k)) dest' = concat (map (cp_units ?t) [0..<Suc k])"
    using Suc.prems(2,4) room take_update1 [of ?o dest] take_update2 [of ?o dest]
    by (simp add: u16_at_simps(3) [OF k] units u16_units_def dest'_def split: if_splits)
  moreover have "take (u16_at ?t (Suc k) + 1) offs' = 0 # concat (map (unit_offsets ?t) [0..<Suc k])"
    using Suc.prems(3,5) room take_update1 [of "Suc ?o" offs] take_update2 [of "Suc ?o" offs]
    by (simp add: u16_at_simps(3) [OF k] units u16_units_def unit_offsets_def offs'_def split: if_splits)
  moreover have "length dest' = n" "length offs' = n + 1" using Suc.prems(2,3) by (simp_all add: dest'_def offs'_def)
  ultimately show ?case unfolding run using k Suc.hyps(2) by (intro Suc.hyps(1)) simp_all
qed

text \<open>What the table holds at every code unit: the byte boundary of the code point behind it, or of the
  code point it is in the middle of.\<close>

lemma unit_table_at:
  assumes "k \<le> u8_count s"
  shows "unit_table s ! u16_at s k = u8_pos s k"
    and "k < u8_count s \<Longrightarrow> length (cp_units s k) = 2 \<Longrightarrow> unit_table s ! (u16_at s k + 1) = u8_pos s k"
    and "length (unit_table s) = length (u16_text s) + 1"
proof -
  have split: "[0..<u8_count s] = [0..<k] @ [k..<u8_count s]" using assms upt_add_eq_append [of 0 k "u8_count s - k"] by simp
  define X where "X = 0 # concat (map (unit_offsets s) [0..<k])"
  have table: "unit_table s = X @ concat (map (unit_offsets s) [k..<u8_count s])"
    by (simp add: unit_table_def split X_def)
  have len: "length X = u16_at s k + 1" "X \<noteq> []" using assms by (simp_all add: length_offsets_upto X_def)
  show "unit_table s ! u16_at s k = u8_pos s k"
  proof (cases k)
    case (Suc j)
    have "last (unit_offsets s j) = u8_pos s (Suc j)" "unit_offsets s j \<noteq> []" by (auto simp: unit_offsets_def)
    then have "last X = u8_pos s k" by (simp add: Suc X_def)
    then show ?thesis using len by (simp add: table nth_append last_conv_nth)
  qed (simp add: u16_at_simps u8_pos_bounds unit_table_def)
  show "unit_table s ! (u16_at s k + 1) = u8_pos s k" if "k < u8_count s" "length (cp_units s k) = 2"
  proof -
    have "unit_offsets s k = [u8_pos s k, u8_pos s (Suc k)]" using that by (simp add: unit_offsets_def)
    then show ?thesis using that len by (simp add: table nth_append upt_conv_Cons)
  qed
  show "length (unit_table s) = length (u16_text s) + 1"
    using length_offsets_upto [of "u8_count s" s] by (simp add: unit_table_def u16_at_simps)
qed

text \<open>For ASCII text the table is the identity, which is why none is built.\<close>

lemma ascii_units:
  assumes "\<forall>b\<in>set s. b < 0x80"
  shows "u8_count s = length s" "u16_text s = map (\<lambda>b. word_of_int (uint b)) s" "i \<le> length s \<Longrightarrow> unit_table s ! i = i"
proof -
  show count: "u8_count s = length s" by (rule ascii_count [OF assms])
  have units: "cp_units s k = [word_of_int (uint (s ! k))]" if "k < length s" for k
  proof -
    have "s ! k < 0x80" using assms that by simp
    then have small: "U8_IS_SINGLE (s ! k)" "uint (s ! k) < 0x80" by (simp_all add: U8_IS_SINGLE_iff word_less_def)
    then have "u8_cp s k = uint (s ! k)" using that by (simp add: u8_cp_def ascii_pos [OF assms] U8_NEXT_single)
    then show ?thesis using small by (simp add: cp_units_def u16_units_def)
  qed
  have "map (cp_units s) [0..<u8_count s] = map (\<lambda>b. [word_of_int (uint b)]) s"
    using count units by (intro nth_equalityI) simp_all
  then show "u16_text s = map (\<lambda>b. word_of_int (uint b)) s" by (simp add: u16_text_def concat_map_singleton)
  have at: "u16_at s k = k" if "k \<le> length s" for k
    using that by (induction k) (simp_all add: u16_at_simps count units)
  show "unit_table s ! i = i" if "i \<le> length s"
    using unit_table_at(1) [of i s] that by (simp add: at count ascii_pos [OF assms])
qed

lemma rx_is_ascii_bytes: "marked_ascii v \<Longrightarrow> rx_is_ascii v \<Longrightarrow> \<forall>b\<in>set (sv_bytes v). b < 0x80"
  by (auto simp: rx_is_ascii_def marked_ascii_def list_all_iff not_less word_less_nat_alt word_le_nat_alt split: if_splits)

lemma regex_checks_ok: "sv_ok v \<Longrightarrow> utf8_encoding (sv_enc v) \<Longrightarrow> regex_checks v = Inr ()"
  by (auto simp: regex_checks_def sv_ok_def utf8_encoding_def)

lemma empty_text [simp]: "u8_count [] = 0" "u16_text [] = []" "unit_table [] = [0]"
  using u8_pos_bounds(4) [of "[]"] by (simp_all add: u16_text_def unit_table_def)

text \<open>The conversion with offsets as a whole, whatever the reused buffers held.\<close>

lemma set_utf16_with_offsets_exact:
  assumes "sv_ok v" "utf8_encoding (sv_enc v)" "marked_ascii v"
  shows "set_utf16_with_offsets fresh old v =
    Inr (u16_text (sv_bytes v), if sv_len v \<noteq> 0 \<and> rx_is_ascii v then [] else unit_table (sv_bytes v), rx_is_ascii v)"
proof -
  consider (empty) "sv_len v = 0" | (ascii) "sv_len v \<noteq> 0" "rx_is_ascii v" | (general) "sv_len v \<noteq> 0" "\<not> rx_is_ascii v" by blast
  then show ?thesis
  proof cases
    case empty
    then have "sv_bytes v = []" by (simp add: sv_bytes_def)
    then show ?thesis using empty by (simp add: set_utf16_with_offsets_def regex_checks_ok [OF assms(1,2)])
  next
    case ascii
    then show ?thesis
      using ascii_units(2) [OF rx_is_ascii_bytes [OF assms(3)]]
      by (simp add: set_utf16_with_offsets_def regex_checks_ok [OF assms(1,2)])
  next
    case general
    define n where "n = nat (sv_len v)"
    define dest offs where "dest = vector_resize 0 n fresh" and "offs = (vector_resize 0 (Suc n) old)[0 := 0]"
    have n: "n \<le> length (ptr_bytes (sv_ptr v))" "take n (ptr_bytes (sv_ptr v)) = sv_bytes v"
      using assms(1) by (simp_all add: n_def sv_ok_def sv_bytes_def)
    have lens: "length dest = n" "length offs = n + 1" by (simp_all add: dest_def offs_def)
    have "take (u16_at (sv_bytes v) 0 + 1) offs = [0]"
      using take_update1 [of 0 "vector_resize 0 (Suc n) old"] by (simp add: u16_at_simps offs_def)
    then obtain d os where
      "offsets_loop (ptr_bytes (sv_ptr v)) n 0 dest offs 0 = (d, os, length (u16_text (sv_bytes v)))"
      "take (length (u16_text (sv_bytes v))) d = u16_text (sv_bytes v)"
      "take (length (u16_text (sv_bytes v)) + 1) os = unit_table (sv_bytes v)"
      using offsets_loop_from [OF n(1), of 0 dest offs, unfolded n(2)] lens by (auto simp: u16_at_simps u8_pos_bounds)
    then show ?thesis
      using general
      by (simp add: set_utf16_with_offsets_def regex_checks_ok [OF assms(1,2)] Let_def flip: n_def dest_def offs_def)
  qed
qed

lemma set_utf16_exact:
  assumes "sv_ok v" "utf8_encoding (sv_enc v)" "marked_ascii v" "\<exists>st. from_utf8 (sv_bytes v) = (st, u16_text (sv_bytes v)) \<and> \<not> U_FAILURE st"
  shows "set_utf16 from_utf8 v = Inr (u16_text (sv_bytes v))"
proof (cases "sv_len v \<noteq> 0 \<and> sv_enc v = Enc_ascii")
  case True
  then have "\<forall>b\<in>set (sv_bytes v). b < 0x80" using assms(3) by (intro rx_is_ascii_bytes) (simp_all add: rx_is_ascii_def)
  from ascii_units(2) [OF this] True show ?thesis by (simp add: set_utf16_def regex_checks_ok [OF assms(1,2)])
next
  case False
  have "sv_len v = 0 \<Longrightarrow> sv_bytes v = []" by (simp add: sv_bytes_def)
  with False assms(4) show ?thesis by (auto simp: set_utf16_def regex_checks_ok [OF assms(1,2)])
qed

subsection \<open>The cached subject\<close>

text \<open>A record a backend hands in is missing, is rejected by the conversion, or is normalized UTF-8.\<close>

definition regex_ready :: "string_view \<Rightarrow> bool" where
  "regex_ready v \<longleftrightarrow> sv_ok v \<and> utf8_encoding (sv_enc v) \<and> marked_ascii v"

definition regex_record :: "string_view \<Rightarrow> bool" where
  "regex_record v \<longleftrightarrow> is_na v \<or> regex_checks v \<noteq> Inr () \<or> regex_ready v"

definition from_utf8_ok :: "(byte list \<Rightarrow> int \<times> uchar list) \<Rightarrow> bool" where
  "from_utf8_ok from_utf8 \<longleftrightarrow> (\<forall>s. \<exists>st. from_utf8 s = (st, u16_text s) \<and> \<not> U_FAILURE st)"

definition cached_table :: "string_view \<Rightarrow> nat list" where
  "cached_table v = (if sv_len v \<noteq> 0 \<and> rx_is_ascii v then [] else unit_table (sv_bytes v))"

text \<open>The cache holds the record its identity names: the code units, and the offsets when they are marked valid.\<close>

definition cache_inv :: "(nat \<Rightarrow> string_view) \<Rightarrow> regex_matcher \<Rightarrow> bool" where
  "cache_inv rec rm \<longleftrightarrow>
     (case rm_subject_identity rm of
        None \<Rightarrow> True
      | Some i \<Rightarrow> regex_ready (rec i) \<and> rm_subject rm = u16_text (sv_bytes (rec i)) \<and>
          (rm_byte_offsets_valid rm \<longrightarrow> rm_byte_offsets rm = cached_table (rec i) \<and> rm_subject_ascii rm = rx_is_ascii (rec i)))"

definition same_engine :: "regex_matcher \<Rightarrow> regex_matcher \<Rightarrow> bool" where
  "same_engine a b \<longleftrightarrow> rm_matcher a = rm_matcher b \<and> rm_pattern_identity a = rm_pattern_identity b \<and> rm_options a = rm_options b"

definition cleared :: "regex_matcher \<Rightarrow> regex_matcher" where
  "cleared rm = rm\<lparr>rm_subject_identity := None, rm_byte_offsets_valid := False\<rparr>"

definition cache_sim :: "(nat \<Rightarrow> string_view) \<Rightarrow> regex_matcher \<Rightarrow> regex_matcher \<Rightarrow> bool" where
  "cache_sim rec a b \<longleftrightarrow> same_engine a b \<and> cache_inv rec a"

lemma regex_ready_simps:
  assumes "regex_ready v"
  shows "set_utf16_with_offsets fresh old v = Inr (u16_text (sv_bytes v), cached_table v, rx_is_ascii v)"
    and "from_utf8_ok f \<Longrightarrow> set_utf16 f v = Inr (u16_text (sv_bytes v))"
  using assms set_utf16_with_offsets_exact [of v] set_utf16_exact [of v f]
  by (simp_all add: regex_ready_def cached_table_def from_utf8_ok_def)

lemma regex_rejects:
  assumes "regex_record v" "\<not> is_na v" "\<not> regex_ready v"
  shows "\<exists>e. \<forall>fresh old f. set_utf16_with_offsets fresh old v = Inl e \<and> set_utf16 f v = Inl e"
  using assms by (cases "regex_checks v") (auto simp: regex_record_def set_utf16_with_offsets_def set_utf16_def)

text \<open>Bringing in a record: with offsets, the loaded matcher does not depend on the cache at all; without, its
  subject does not.\<close>

lemma rx_load_offsets_sim:
  assumes "cache_sim rec a b" "regex_record (rec i)" "\<not> is_na (rec i)"
  shows "(\<exists>rm. rx_load_offsets (rec i) (Some i) a = (rm, Inr ()) \<and> rx_load_offsets (rec i) (Some i) (cleared b) = (rm, Inr ()) \<and>
      cache_inv rec rm) \<or>
    (\<exists>e ra rb. rx_load_offsets (rec i) (Some i) a = (ra, Inl e) \<and> rx_load_offsets (rec i) (Some i) (cleared b) = (rb, Inl e) \<and>
      cache_sim rec ra rb)"
proof (cases "regex_ready (rec i)")
  case True
  note conv = regex_ready_simps(1) [OF True]
  show ?thesis
    using assms(1) True
    by (cases a; cases b; cases "rm_subject_identity a = Some i \<and> rm_byte_offsets_valid a")
      (auto simp: rx_load_offsets_def conv cleared_def cache_sim_def same_engine_def cache_inv_def split: option.splits)
next
  case False
  obtain e where e: "set_utf16_with_offsets fresh old (rec i) = Inl e" for fresh old
    using regex_rejects [OF assms(2,3) False] by blast
  have "rm_subject_identity a \<noteq> Some i" using assms(1) False by (auto simp: cache_sim_def cache_inv_def)
  then show ?thesis
    using assms(1) by (auto simp: rx_load_offsets_def e cleared_def cache_sim_def same_engine_def cache_inv_def)
qed

lemma rx_load_sim:
  assumes "cache_sim rec a b" "regex_record (rec i)" "\<not> is_na (rec i)" "from_utf8_ok (ir_from_utf8 ir)"
  shows "(\<exists>ra rb. rx_load ir (rec i) (Some i) a = (ra, Inr ()) \<and> rx_load ir (rec i) (Some i) (cleared b) = (rb, Inr ()) \<and>
      rm_subject ra = rm_subject rb \<and> cache_sim rec ra rb) \<or>
    (\<exists>e ra rb. rx_load ir (rec i) (Some i) a = (ra, Inl e) \<and> rx_load ir (rec i) (Some i) (cleared b) = (rb, Inl e) \<and>
      cache_sim rec ra rb)"
proof (cases "regex_ready (rec i)")
  case True
  note conv = regex_ready_simps(2) [OF True assms(4)]
  show ?thesis
    using assms(1) True
    by (cases "rm_subject_identity a = Some i")
      (auto simp: rx_load_def conv cleared_def cache_sim_def same_engine_def cache_inv_def split: option.splits)
next
  case False
  obtain e where e: "set_utf16 f (rec i) = Inl e" for f
    using regex_rejects [OF assms(2,3) False] by blast
  have "rm_subject_identity a \<noteq> Some i" using assms(1) False by (auto simp: cache_sim_def cache_inv_def)
  then show ?thesis
    using assms(1) by (auto simp: rx_load_def e cleared_def cache_sim_def same_engine_def cache_inv_def)
qed

lemma cache_sim_simps:
  "cache_inv rec rm \<Longrightarrow> cache_inv rec (rx_done rm m st)" "cache_inv rec rm \<Longrightarrow> cache_inv rec (rm_close rm)"
  "cache_sim rec a b \<Longrightarrow> cache_sim rec (rx_done a m st) (rx_done b m st)"
  "cache_sim rec a b \<Longrightarrow> cache_sim rec (rm_close a) (rm_close b)"
  "cache_sim rec a b \<Longrightarrow> cache_sim rec a (cleared b)"
  "cache_sim rec a b \<Longrightarrow> rx_invalid v i (cleared b) = rx_invalid v i a"
  "cache_inv rec rm \<Longrightarrow> cache_sim rec rm rm"
  "cache_sim rec a b \<Longrightarrow> rm_matcher b = rm_matcher a"
  by (auto simp: cache_inv_def cache_sim_def same_engine_def rx_done_def rm_close_def cleared_def rx_invalid_def Let_def
      split: option.splits)

text \<open>Two runs of one operation, with the cache and with a cleared one, give one answer and stay related.\<close>

definition op_sim :: "(nat \<Rightarrow> string_view) \<Rightarrow> (regex_matcher \<Rightarrow> regex_matcher \<times> 'a) \<Rightarrow> bool" where
  "op_sim rec op \<longleftrightarrow>
     (\<forall>a b. cache_sim rec a b \<longrightarrow> snd (op a) = snd (op (cleared b)) \<and> cache_sim rec (fst (op a)) (fst (op (cleared b))))"

lemma op_simI:
  "(\<And>a b. cache_sim rec a b \<Longrightarrow> snd (op a) = snd (op (cleared b)) \<and> cache_sim rec (fst (op a)) (fst (op (cleared b)))) \<Longrightarrow> op_sim rec op"
  by (simp add: op_sim_def)

lemma offsets_op_sim:
  assumes "regex_record (rec i)" "\<And>rm. cache_inv rec rm \<Longrightarrow> cache_inv rec (fst (F rm))"
  shows "op_sim rec (\<lambda>rm. if rx_invalid (rec i) (Some i) rm then (rm, A)
    else case rx_load_offsets (rec i) (Some i) rm of (rm, Inl e) \<Rightarrow> (rm, Inl e) | (rm, Inr u) \<Rightarrow> F rm)"
proof (rule op_simI, goal_cases)
  case (1 a b)
  show ?case
  proof (cases "rx_invalid (rec i) (Some i) a")
    case True
    then show ?thesis using 1 by (simp add: cache_sim_simps)
  next
    case False
    then have "\<not> is_na (rec i)" by (simp add: rx_invalid_def)
    from rx_load_offsets_sim [where rec = rec and i = i, OF 1 assms(1) this] False 1 assms(2)
    show ?thesis by (auto simp: cache_sim_simps)
  qed
qed

lemma plain_op_sim:
  assumes "regex_record (rec i)" "from_utf8_ok (ir_from_utf8 ir)"
    and "\<And>a b. cache_sim rec a b \<Longrightarrow> rm_subject a = rm_subject b \<Longrightarrow> snd (F a) = snd (F b) \<and> cache_sim rec (fst (F a)) (fst (F b))"
    and "\<And>a b. cache_sim rec a b \<Longrightarrow> bad b = bad a" "\<And>b. bad (cleared b) = bad b" "\<And>a. is_na (rec i) \<Longrightarrow> bad a"
  shows "op_sim rec (\<lambda>rm. if bad rm then (rm, A)
    else case rx_load ir (rec i) (Some i) rm of (rm, Inl e) \<Rightarrow> (rm, Inl e) | (rm, Inr u) \<Rightarrow> F rm)"
proof (rule op_simI, goal_cases)
  case (1 a b)
  show ?case
  proof (cases "bad a")
    case True
    then show ?thesis using 1 assms(4,5) by (simp add: cache_sim_simps)
  next
    case False
    then have "\<not> is_na (rec i)" using assms(6) by blast
    from rx_load_sim [where rec = rec and i = i, OF 1 assms(1) this assms(2)] False 1 assms(3) assms(4) [OF 1] assms(5)
    show ?thesis by fastforce
  qed
qed

lemma contains_sim:
  assumes "regex_record (rec i)" "from_utf8_ok (ir_from_utf8 ir)"
  shows "op_sim rec (rx_contains ir (rec i) (Some i))"
  unfolding rx_contains_def
  by (rule plain_op_sim [where rec = rec and i = i and ir = ir, OF assms])
    (auto simp: cache_sim_simps case_prod_beta Let_def rx_invalid_def cleared_def)

lemma count_sim:
  assumes "regex_record (rec i)" "from_utf8_ok (ir_from_utf8 ir)"
  shows "op_sim rec (rx_count ir (rec i) (Some i))"
  unfolding rx_count_def
  by (rule plain_op_sim [where rec = rec and i = i and ir = ir, OF assms])
    (auto simp: cache_sim_simps case_prod_beta Let_def rx_invalid_def cleared_def)

lemma replace_units_sim:
  assumes "cache_sim rec a b"
  shows "snd (rx_replace_units ir subject replacement mode out a) = snd (rx_replace_units ir subject replacement mode out b) \<and>
    cache_sim rec (fst (rx_replace_units ir subject replacement mode out a)) (fst (rx_replace_units ir subject replacement mode out b))"
  using assms cache_sim_simps(8) [OF assms]
  by (auto simp: rx_replace_units_def cache_sim_simps case_prod_beta Let_def split: option.splits)

lemma replace_sim:
  assumes "regex_record (rec i)" "from_utf8_ok (ir_from_utf8 ir)"
  shows "op_sim rec (rx_replace ir (rec i) (Some i) replacement mode out)"
  unfolding rx_replace_def
  by (rule plain_op_sim [where rec = rec and i = i and ir = ir, OF assms])
    (use replace_units_sim in \<open>auto simp: case_prod_beta Let_def prod_eq_iff\<close>)

lemma find_first_sim: "regex_record (rec i) \<Longrightarrow> op_sim rec (rx_find_first (rec i) (Some i))"
  unfolding rx_find_first_def
  by (rule offsets_op_sim) (simp_all add: cache_sim_simps case_prod_beta Let_def)

lemma find_all_sim: "regex_record (rec i) \<Longrightarrow> op_sim rec (rx_find_all (rec i) (Some i))"
  unfolding rx_find_all_def
  by (rule offsets_op_sim) (simp_all add: cache_sim_simps case_prod_beta Let_def)

lemma find_all_with_captures_sim: "regex_record (rec i) \<Longrightarrow> op_sim rec (rx_find_all_with_captures (rec i) (Some i))"
  unfolding rx_find_all_with_captures_def
  by (rule offsets_op_sim) (simp_all add: cache_sim_simps case_prod_beta Let_def)

lemma split_default_sim: "regex_record (rec i) \<Longrightarrow> op_sim rec (rx_split_default (rec i) (Some i))"
  unfolding rx_split_default_def
  by (rule offsets_op_sim) (simp_all add: cache_sim_simps case_prod_beta Let_def)

lemma split_sim:
  assumes "regex_record (rec i)"
  shows "op_sim rec (rx_split (rec i) (Some i) n omit_empty tokens_only)"
proof -
  have early: "op_sim rec (\<lambda>rm. if rx_invalid (rec i) (Some i) rm then (rm, A) else (rm, B))" for A B :: "(fixed_split_result \<times> regex_range list \<times> int) result"
    by (rule op_simI) (auto simp: cache_sim_simps)
  consider (big) "n \<ge> INT_MAX - 1" | (zero) "\<not> n \<ge> INT_MAX - 1" "n = 0"
    | (plain) "\<not> n \<ge> INT_MAX - 1" "n < 0 \<and> \<not> omit_empty \<and> \<not> tokens_only"
    | (loop) "\<not> n \<ge> INT_MAX - 1" "n \<noteq> 0" "\<not> (n < 0 \<and> \<not> omit_empty \<and> \<not> tokens_only)" by blast
  then show ?thesis
  proof cases
    case big
    show ?thesis unfolding rx_split_def [abs_def] if_P [OF big] by (rule early)
  next
    case zero
    show ?thesis unfolding rx_split_def [abs_def] if_not_P [OF zero(1)] if_P [OF zero(2)] by (rule early)
  next
    case plain
    have "op_sim rec (rx_split_default (rec i) (Some i))" by (rule split_default_sim [where rec = rec and i = i, OF assms])
    moreover have "rx_split (rec i) (Some i) n omit_empty tokens_only rm =
      (if rx_invalid (rec i) (Some i) rm then (rm, Inr (Split_ok, [], U_ILLEGAL_ARGUMENT_ERROR))
       else (fst (rx_split_default (rec i) (Some i) rm),
         case snd (rx_split_default (rec i) (Some i) rm) of Inl e \<Rightarrow> Inl e | Inr (flds, status) \<Rightarrow> Inr (Split_ok, flds, status)))" for rm
      using plain by (auto simp: rx_split_def split: prod.splits sum.splits)
    ultimately show ?thesis by (auto simp: op_sim_def cache_sim_simps)
  next
    case loop
    then show ?thesis
      unfolding rx_split_def [abs_def] if_not_P [OF loop(1)] if_not_P [OF loop(2)] if_not_P [OF loop(3)]
      by (intro offsets_op_sim [where rec = rec and i = i, OF assms]) (simp add: cache_sim_simps case_prod_beta Let_def)
  qed
qed

lemma find_first_same:
  assumes "regex_record (rec i)" "cache_sim rec a b"
  shows "rx_find_first (rec i) (Some i) a = rx_find_first (rec i) (Some i) (cleared b) \<or>
    (\<forall>rng st. snd (rx_find_first (rec i) (Some i) a) \<noteq> Inr (Some rng, st))"
proof (cases "rx_invalid (rec i) (Some i) a")
  case True
  then show ?thesis by (simp add: rx_find_first_def)
next
  case False
  then have "\<not> is_na (rec i)" by (simp add: rx_invalid_def)
  from rx_load_offsets_sim [where rec = rec and i = i, OF assms(2,1) this] False cache_sim_simps(6) [OF assms(2)]
  show ?thesis by (auto simp: rx_find_first_def)
qed

lemma find_first_with_captures_sim:
  assumes "regex_record (rec i)"
  shows "op_sim rec (rx_find_first_with_captures (rec i) (Some i))"
proof (rule op_simI, goal_cases)
  case (1 a b)
  let ?fa = "rx_find_first (rec i) (Some i) a" and ?fb = "rx_find_first (rec i) (Some i) (cleared b)"
  have sim: "snd ?fa = snd ?fb" "cache_sim rec (fst ?fa) (fst ?fb)"
    using find_first_sim [where rec = rec and i = i, OF assms] 1 by (simp_all add: op_sim_def)
  show ?case
  proof (cases "\<exists>rng st. snd ?fa = Inr (Some rng, st)")
    case True
    then obtain rm rng st where fa: "?fa = (rm, Inr (Some rng, st))" by (metis prod.collapse)
    moreover have "?fb = ?fa" using find_first_same [where rec = rec and i = i, OF assms 1] True by auto
    moreover have "cache_inv rec rm" using sim(2) fa by (simp add: cache_sim_def)
    ultimately show ?thesis
      by (simp add: rx_find_first_with_captures_def case_prod_beta Let_def cache_sim_simps)
  next
    case False
    have skip: "rx_find_first_with_captures (rec i) (Some i) rm =
        (fst (rx_find_first (rec i) (Some i) rm),
         case snd (rx_find_first (rec i) (Some i) rm) of Inl e \<Rightarrow> Inl e | Inr (r, st) \<Rightarrow> Inr (None, st))"
      if "\<not> (\<exists>rng st. snd (rx_find_first (rec i) (Some i) rm) = Inr (Some rng, st))" for rm
      using that by (auto simp: rx_find_first_with_captures_def split: prod.splits sum.splits option.splits)
    show ?thesis using False sim skip [of a] skip [of "cleared b"] by simp
  qed
qed

text \<open>A sequence of operations over a fixed set of records, and the same with the cache cleared before each.\<close>

datatype rx_op =
    Op_contains nat | Op_count nat | Op_find_first nat | Op_find_all nat | Op_first_captures nat | Op_all_captures nat
  | Op_split nat int bool bool | Op_replace nat "uchar list option" regex_replace_mode | Op_bind regex_input

datatype rx_answer =
    Ans_contains "(bool \<times> int) result" | Ans_count "(int \<times> int) result"
  | Ans_first "(regex_range option \<times> int) result" | Ans_all "(regex_range list \<times> int) result"
  | Ans_first_captures "((regex_range \<times> regex_range list) option \<times> int) result"
  | Ans_all_captures "(regex_range list \<times> regex_range list list \<times> int) result"
  | Ans_split "(fixed_split_result \<times> regex_range list \<times> int) result" | Ans_replace "(uchar list option \<times> int) result"
  | Ans_bind "bool \<times> int \<times> bool"

fun rx_apply :: "icu_regex \<Rightarrow> (nat \<Rightarrow> string_view) \<Rightarrow> rx_op \<Rightarrow> regex_matcher \<Rightarrow> regex_matcher \<times> rx_answer" where
  "rx_apply ir rec (Op_contains i) rm = map_prod id Ans_contains (rx_contains ir (rec i) (Some i) rm)"
| "rx_apply ir rec (Op_count i) rm = map_prod id Ans_count (rx_count ir (rec i) (Some i) rm)"
| "rx_apply ir rec (Op_find_first i) rm = map_prod id Ans_first (rx_find_first (rec i) (Some i) rm)"
| "rx_apply ir rec (Op_find_all i) rm = map_prod id Ans_all (rx_find_all (rec i) (Some i) rm)"
| "rx_apply ir rec (Op_first_captures i) rm = map_prod id Ans_first_captures (rx_find_first_with_captures (rec i) (Some i) rm)"
| "rx_apply ir rec (Op_all_captures i) rm = map_prod id Ans_all_captures (rx_find_all_with_captures (rec i) (Some i) rm)"
| "rx_apply ir rec (Op_split i n omit_empty tokens_only) rm = map_prod id Ans_split (rx_split (rec i) (Some i) n omit_empty tokens_only rm)"
| "rx_apply ir rec (Op_replace i replacement mode) rm = map_prod id Ans_replace (rx_replace ir (rec i) (Some i) replacement mode [] rm)"
| "rx_apply ir rec (Op_bind pattern) rm =
     (let (ok, status, compile_error, rm) = rm_bind ir pattern rm in (rm, Ans_bind (ok, status, compile_error)))"

fun rx_run :: "(regex_matcher \<Rightarrow> regex_matcher) \<Rightarrow> icu_regex \<Rightarrow> (nat \<Rightarrow> string_view) \<Rightarrow> rx_op list \<Rightarrow> regex_matcher \<Rightarrow> rx_answer list" where
  "rx_run before ir rec [] rm = []"
| "rx_run before ir rec (op # ops) rm = (let (rm, answer) = rx_apply ir rec op (before rm) in answer # rx_run before ir rec ops rm)"

text \<open>Binding reads and writes the engine only.\<close>

lemma rm_bind_engine:
  "\<exists>ok st ce M I. \<forall>rm. rm_matcher rm = M0 \<and> rm_pattern_identity rm = I0 \<and> rm_options rm = opts \<longrightarrow>
     rm_bind ir pattern rm = (ok, st, ce, rm\<lparr>rm_matcher := M, rm_pattern_identity := I\<rparr>)"
proof (cases "ri_missing pattern \<or> ri_length pattern \<le> 0 \<or> ri_value pattern = None \<or> ri_identity pattern = None")
  case True
  then show ?thesis
    by (intro exI [of _ False] exI [of _ U_ILLEGAL_ARGUMENT_ERROR] exI [of _ M0] exI [of _ I0]) (auto simp: rm_bind_def)
next
  case valid: False
  show ?thesis
  proof (cases "M0 = None \<or> I0 \<noteq> ri_identity pattern")
    case False
    with valid show ?thesis
      by (intro exI [of _ True] exI [of _ 0] exI [of _ False] exI [of _ M0] exI [of _ I0]) (auto simp: rm_bind_def)
  next
    case True
    obtain st compiled where comp: "ir_compile ir (the (ri_value pattern)) (ro_flags opts) = (st, compiled)" by fastforce
    define st1 where "st1 = (if ro_stack_limit opts > 0 then ir_stack_limit ir (ro_stack_limit opts) else st)"
    define st2 where "st2 = (if ro_time_limit opts > 0 then ir_time_limit ir (ro_time_limit opts) else st1)"
    have run: "rm_bind ir pattern rm =
      (if U_FAILURE st \<or> compiled = None then (False, if U_FAILURE st then st else U_MEMORY_ALLOCATION_ERROR, True, rm_close rm)
       else if ro_stack_limit opts > 0 \<and> U_FAILURE st1 then (False, st1, False, rm_close rm)
       else if ro_time_limit opts > 0 \<and> U_FAILURE st2 then (False, st2, False, rm_close rm)
       else (True, st2, False, rm\<lparr>rm_matcher := compiled, rm_pattern_identity := ri_identity pattern\<rparr>))"
      if "rm_matcher rm = M0" "rm_pattern_identity rm = I0" "rm_options rm = opts" for rm
      unfolding rm_bind_def if_not_P [OF valid] that if_P [OF True] by (simp add: that comp rm_close_def Let_def st1_def st2_def)
    consider (compile) "U_FAILURE st \<or> compiled = None"
      | (stack) "\<not> (U_FAILURE st \<or> compiled = None)" "ro_stack_limit opts > 0 \<and> U_FAILURE st1"
      | (time) "\<not> (U_FAILURE st \<or> compiled = None)" "\<not> (ro_stack_limit opts > 0 \<and> U_FAILURE st1)" "ro_time_limit opts > 0 \<and> U_FAILURE st2"
      | (bound) "\<not> (U_FAILURE st \<or> compiled = None)" "\<not> (ro_stack_limit opts > 0 \<and> U_FAILURE st1)" "\<not> (ro_time_limit opts > 0 \<and> U_FAILURE st2)"
      by blast
    then show ?thesis
    proof cases
      case compile
      then show ?thesis
        by (intro exI [of _ False] exI [of _ "if U_FAILURE st then st else U_MEMORY_ALLOCATION_ERROR"] exI [of _ True] exI [of _ None] exI [of _ None])
          (auto simp: run rm_close_def)
    next
      case stack
      then show ?thesis
        by (intro exI [of _ False] exI [of _ st1] exI [of _ False] exI [of _ None] exI [of _ None]) (auto simp: run rm_close_def)
    next
      case time
      then show ?thesis
        by (intro exI [of _ False] exI [of _ st2] exI [of _ False] exI [of _ None] exI [of _ None]) (auto simp: run rm_close_def)
    next
      case bound
      then show ?thesis
        by (intro exI [of _ True] exI [of _ st2] exI [of _ False] exI [of _ compiled] exI [of _ "ri_identity pattern"]) (auto simp: run)
    qed
  qed
qed

lemma bind_sim:
  "op_sim rec (\<lambda>rm. case rm_bind ir pattern rm of (ok, status, compile_error, rm) \<Rightarrow> (rm, Ans_bind (ok, status, compile_error)))"
proof (rule op_simI, goal_cases)
  case (1 a b)
  obtain ok st ce M I where run: "\<forall>rm. rm_matcher rm = rm_matcher a \<and> rm_pattern_identity rm = rm_pattern_identity a \<and>
      rm_options rm = rm_options a \<longrightarrow>
      rm_bind ir pattern rm = (ok, st, ce, rm\<lparr>rm_matcher := M, rm_pattern_identity := I\<rparr>)"
    using rm_bind_engine [of "rm_matcher a" "rm_pattern_identity a" "rm_options a" ir pattern] by blast
  have "rm_bind ir pattern a = (ok, st, ce, a\<lparr>rm_matcher := M, rm_pattern_identity := I\<rparr>)"
    "rm_bind ir pattern (cleared b) = (ok, st, ce, (cleared b)\<lparr>rm_matcher := M, rm_pattern_identity := I\<rparr>)"
    using 1 run by (simp_all add: cache_sim_def same_engine_def cleared_def)
  then show ?case using 1 by (simp add: cache_sim_def same_engine_def cleared_def cache_inv_def split: option.splits)
qed

lemma op_sim_map: "op_sim rec op \<Longrightarrow> op_sim rec (\<lambda>rm. map_prod id f (op rm))"
  by (simp add: op_sim_def)

lemma rx_apply_sim:
  assumes "\<forall>i. regex_record (rec i)" "from_utf8_ok (ir_from_utf8 ir)"
  shows "op_sim rec (rx_apply ir rec op)"
proof -
  have r: "regex_record (rec i)" for i using assms(1) by blast
  show ?thesis
    by (cases op)
      (simp_all add: rx_apply.simps [abs_def] op_sim_map contains_sim count_sim find_first_sim find_all_sim
        find_first_with_captures_sim find_all_with_captures_sim split_sim replace_sim bind_sim r assms(2) cong del: if_weak_cong)
qed

lemma rx_run_sim:
  assumes "\<forall>i. regex_record (rec i)" "from_utf8_ok (ir_from_utf8 ir)" "cache_sim rec a b"
  shows "rx_run id ir rec ops a = rx_run cleared ir rec ops b"
  using assms(3)
proof (induction ops arbitrary: a b)
  case (Cons op ops)
  then show ?case
    using rx_apply_sim [OF assms(1,2), of op] by (simp add: op_sim_def case_prod_beta Let_def)
qed simp

text \<open>C4. The cached subject of a regex matcher is transparent: starting from a new matcher, every sequence of
  bindings, searches, splits and replacements over a fixed set of records, valid, missing or
  rejected, in any order and with any repetitions, gives the answers it gives when the cache is
  cleared before each operation. ICU's engine and its UTF-8 conversion are parameters, and the
  conversion yields the code units of the text.\<close>

theorem regex_cache_transparent:
  assumes "\<forall>i. regex_record (rec i)" "from_utf8_ok (ir_from_utf8 ir)"
  shows "rx_run id ir rec ops (RegexMatcher options) = rx_run cleared ir rec ops (RegexMatcher options)"
  by (rule rx_run_sim [OF assms]) (simp add: cache_sim_def same_engine_def cache_inv_def RegexMatcher_def)

text \<open>An engine that finds each letter \<open>a\<close>, with the conversion of the model.\<close>

definition sample_engine :: icu_matcher where
  "sample_engine =
     \<lparr>im_results = (\<lambda>t. map (\<lambda>k. Rx_hit [(int k, int k + 1)]) (filter (\<lambda>k. t ! k = 0x61) [0..<length t])),
      im_group_count = 0, im_input = [], im_next = 0, im_last = None\<rparr>"

definition sample_regex :: icu_regex where
  "sample_regex =
     \<lparr>ir_compile = (\<lambda>p flags. (0, Some sample_engine)), ir_stack_limit = (\<lambda>n. 0), ir_time_limit = (\<lambda>n. 0),
      ir_from_utf8 = (\<lambda>s. (0, u16_text s)), ir_replace_all = (\<lambda>m r. (0, r)), ir_replace_one = (\<lambda>m r. (0, r))\<rparr>"

definition sample_records :: "nat \<Rightarrow> string_view" where
  "sample_records i = (if i = 0 then view_of 8 Enc_utf8 [0xc3, 0xa9, 0x61] else if i = 1 then missing_view else view_of 4 Enc_latin1 [0xe9])"

lemma sample_records_ok: "\<forall>i. regex_record (sample_records i)" "from_utf8_ok (ir_from_utf8 sample_regex)"
proof -
  have "regex_ready (view_of 8 Enc_utf8 [0xc3, 0xa9, 0x61])"
    by (simp add: regex_ready_def utf8_encoding_def marked_ascii_def INT_MAX_def)
  moreover have "is_na missing_view" by (simp add: missing_view_def)
  moreover have "regex_checks (view_of 4 Enc_latin1 [0xe9]) \<noteq> Inr ()" by (simp add: regex_checks_def view_of_def)
  ultimately show "\<forall>i. regex_record (sample_records i)" by (simp add: regex_record_def sample_records_def)
  show "from_utf8_ok (ir_from_utf8 sample_regex)" by (simp add: from_utf8_ok_def sample_regex_def U_FAILURE_def)
qed

theorem regex_cache_transparent_witness:
  "rx_run id sample_regex sample_records
      [Op_bind \<lparr>ri_identity = Some 2, ri_value = Some [0x61], ri_length = 1, ri_missing = False\<rparr>,
       Op_contains 0, Op_find_all 0, Op_find_all 2, Op_count 0, Op_find_first 1, Op_split 0 (- 1) False False]
      (RegexMatcher \<lparr>ro_flags = 0, ro_stack_limit = 0, ro_time_limit = 0\<rparr>) =
   rx_run cleared sample_regex sample_records
      [Op_bind \<lparr>ri_identity = Some 2, ri_value = Some [0x61], ri_length = 1, ri_missing = False\<rparr>,
       Op_contains 0, Op_find_all 0, Op_find_all 2, Op_count 0, Op_find_first 1, Op_split 0 (- 1) False False]
      (RegexMatcher \<lparr>ro_flags = 0, ro_stack_limit = 0, ro_time_limit = 0\<rparr>)"
  by (rule regex_cache_transparent [OF sample_records_ok])

subsection \<open>Byte offsets of a loaded subject\<close>

lemma size_cast_le: "size_cast (int k) \<le> k"
  by (simp add: size_cast_def nat_le_iff zmod_le_nonneg_dividend)

lemma byte_offset_loaded:
  assumes "regex_ready v" "rm_byte_offsets rm = cached_table v" "rm_subject_ascii rm = rx_is_ascii v"
    and "k \<le> length (u16_text (sv_bytes v))"
  shows "byte_offset rm (int k) = (0, int (unit_table (sv_bytes v) ! k))"
proof (cases "rx_is_ascii v")
  case True
  then have "\<forall>b\<in>set (sv_bytes v). b < 0x80" using assms(1) by (intro rx_is_ascii_bytes) (simp_all add: regex_ready_def)
  from ascii_units [OF this] True assms show ?thesis by (simp add: byte_offset_def)
next
  case False
  then have "rm_byte_offsets rm = unit_table (sv_bytes v)" using assms(2) by (simp add: cached_table_def)
  then show ?thesis
    using False assms(3,4) unit_table_at(3) [of 0 "sv_bytes v"] size_cast_le [of k]
    by (simp add: byte_offset_def)
qed

lemma u16_at_le_text: "u16_at s k \<le> length (u16_text s)"
proof -
  have "[0..<u8_count s] = [0..<min k (u8_count s)] @ [min k (u8_count s)..<u8_count s]"
    using upt_add_eq_append [of 0 "min k (u8_count s)" "u8_count s - min k (u8_count s)"] by simp
  then show ?thesis unfolding u16_at_def u16_text_def by (simp add: min_def split: if_splits)
qed

lemma byte_offset_boundary:
  assumes "regex_ready v" "rm_byte_offsets rm = cached_table v" "rm_subject_ascii rm = rx_is_ascii v" "k \<le> u8_count (sv_bytes v)"
  shows "byte_offset rm (int (u16_at (sv_bytes v) k)) = (0, int (u8_pos (sv_bytes v) k))"
  using byte_offset_loaded [OF assms(1-3) u16_at_le_text] unit_table_at(1) [OF assms(4)] by simp

text \<open>C5. Loading a subject with offsets converts it to the code units of its code points, U+FFFD for
  ill-formed bytes, without writing past the buffer, and the offset table, or its absence for
  ASCII, maps the UTF-16 boundary before every code point to its UTF-8 boundary and the middle
  of a surrogate pair to the start of its code point; whatever the reused buffers held.\<close>

theorem regex_offsets_exact:
  assumes "regex_ready v" "rm_subject_identity rm = None"
  defines "s \<equiv> sv_bytes v"
  shows "\<exists>rm'. rx_load_offsets v (Some i) rm = (rm', Inr ()) \<and> rm_subject rm' = u16_text s \<and>
    (\<forall>k\<le>u8_count s. byte_offset rm' (int (u16_at s k)) = (0, int (u8_pos s k))) \<and>
    (\<forall>k<u8_count s. length (cp_units s k) = 2 \<longrightarrow> byte_offset rm' (int (u16_at s k) + 1) = (0, int (u8_pos s k)))"
proof -
  define rm' where "rm' = fst (rx_load_offsets v (Some i) rm)"
  have rm': "rx_load_offsets v (Some i) rm = (rm', Inr ())" "rm_subject rm' = u16_text s"
    "rm_byte_offsets rm' = cached_table v" "rm_subject_ascii rm' = rx_is_ascii v"
    using assms(2) unfolding rm'_def s_def by (simp_all add: rx_load_offsets_def regex_ready_simps(1) [OF assms(1)])
  have "byte_offset rm' (int (u16_at s k) + 1) = (0, int (u8_pos s k))" if "k < u8_count s" "length (cp_units s k) = 2" for k
  proof -
    have "u16_at s k + 1 \<le> length (u16_text s)" using u16_fwd_step(1) [OF that(1)] by simp
    then show ?thesis
      using byte_offset_loaded [OF assms(1) rm'(3,4), of "u16_at s k + 1", folded s_def] unit_table_at(2) [of k s] that
      by (simp add: add.commute)
  qed
  then show ?thesis using rm' byte_offset_boundary [OF assms(1) rm'(3,4), folded s_def] by blast
qed

theorem regex_offsets_exact_witness:
  "\<exists>rm'. rx_load_offsets (view_of 4 Enc_utf8 [0x61, 0xf0, 0x9f, 0x98, 0x80, 0x62]) (Some 7)
      (RegexMatcher \<lparr>ro_flags = 0, ro_stack_limit = 0, ro_time_limit = 0\<rparr>) = (rm', Inr ()) \<and>
     rm_subject rm' = [0x61, 0xd83d, 0xde00, 0x62] \<and>
     byte_offset rm' 1 = (0, 1) \<and> byte_offset rm' 2 = (0, 1) \<and> byte_offset rm' 3 = (0, 5)"
proof -
  let ?s = "[0x61, 0xf0, 0x9f, 0x98, 0x80, 0x62] :: byte list"
  have ready: "regex_ready (view_of 4 Enc_utf8 ?s)"
    by (simp add: regex_ready_def utf8_encoding_def marked_ascii_def INT_MAX_def)
  have c: "u8_count ?s = 3" "u16_text ?s = [0x61, 0xd83d, 0xde00, 0x62]" "u16_at ?s 1 = 1" "u16_at ?s 2 = 3"
    "u8_pos ?s 1 = 1" "u8_pos ?s 2 = 5" "length (cp_units ?s 1) = 2"
    by code_simp+
  obtain rm' where r: "rx_load_offsets (view_of 4 Enc_utf8 ?s) (Some 7) (RegexMatcher \<lparr>ro_flags = 0, ro_stack_limit = 0, ro_time_limit = 0\<rparr>) = (rm', Inr ())"
    "rm_subject rm' = u16_text ?s"
    "\<forall>k\<le>u8_count ?s. byte_offset rm' (int (u16_at ?s k)) = (0, int (u8_pos ?s k))"
    "\<forall>k<u8_count ?s. length (cp_units ?s k) = 2 \<longrightarrow> byte_offset rm' (int (u16_at ?s k) + 1) = (0, int (u8_pos ?s k))"
    using regex_offsets_exact [OF ready, of "RegexMatcher \<lparr>ro_flags = 0, ro_stack_limit = 0, ro_time_limit = 0\<rparr>" 7]
    by (auto simp: RegexMatcher_def)
  show ?thesis using r(1,2) r(3) [rule_format, of 1] r(3) [rule_format, of 2] r(4) [rule_format, of 1] unfolding c by simp
qed

subsection \<open>What the searches return\<close>

text \<open>The engine finds, in the code units of \<open>s\<close>, matches from code point \<open>a\<close> to code point \<open>b\<close> for the pairs
  \<open>ps\<close>, in this order, and no error: the contract of a search that stays within its limits on
  code point boundaries.\<close>

definition hit_at :: "byte list \<Rightarrow> nat \<times> nat \<Rightarrow> rx_find \<Rightarrow> bool" where
  "hit_at s p r =
     (case r of
        Rx_hit (g # gs) \<Rightarrow> g = (int (u16_at s (fst p)), int (u16_at s (snd p))) \<and> fst p \<le> u8_count s \<and> snd p \<le> u8_count s
      | _ \<Rightarrow> False)"

definition rx_matches :: "icu_matcher \<Rightarrow> byte list \<Rightarrow> (nat \<times> nat) list \<Rightarrow> bool" where
  "rx_matches m s ps = list_all2 (hit_at s) ps (im_results m (u16_text s))"

definition byte_ranges :: "byte list \<Rightarrow> (nat \<times> nat) list \<Rightarrow> (nat \<times> nat) list" where
  "byte_ranges s = map (\<lambda>(a, b). (u8_pos s a, u8_pos s b))"

definition rx_loaded :: "string_view \<Rightarrow> regex_matcher \<Rightarrow> bool" where
  "rx_loaded v rm \<longleftrightarrow> regex_ready v \<and> rm_byte_offsets rm = cached_table v \<and> rm_subject_ascii rm = rx_is_ascii v"

text \<open>The engine stands behind match \<open>j\<close>.\<close>

definition rx_stands :: "byte list \<Rightarrow> (nat \<times> nat) list \<Rightarrow> nat \<Rightarrow> icu_matcher \<Rightarrow> bool" where
  "rx_stands s ps j m \<longleftrightarrow> rx_matches m s ps \<and> im_input m = u16_text s \<and> im_next m = j"

lemma rx_stands_reset: "rx_matches m s ps \<Longrightarrow> rx_stands s ps 0 (im_reset (u16_text s) m)"
  by (simp add: rx_stands_def rx_matches_def im_reset_def)

lemma im_find_hit:
  assumes "rx_stands s ps j m" "j < length ps"
  obtains m' gs where "im_find m = (True, 0, m')" "rx_stands s ps (Suc j) m'"
    "im_last m' = Some ((int (u16_at s (fst (ps ! j))), int (u16_at s (snd (ps ! j)))) # gs)"
    "fst (ps ! j) \<le> u8_count s" "snd (ps ! j) \<le> u8_count s"
proof -
  have "hit_at s (ps ! j) (im_results m (u16_text s) ! j)"
    using assms by (auto simp: rx_stands_def rx_matches_def list_all2_conv_all_nth)
  then obtain gs where hit: "im_results m (u16_text s) ! j = Rx_hit ((int (u16_at s (fst (ps ! j))), int (u16_at s (snd (ps ! j)))) # gs)"
    "fst (ps ! j) \<le> u8_count s" "snd (ps ! j) \<le> u8_count s"
    unfolding hit_at_def by (cases "im_results m (u16_text s) ! j") (auto split: list.splits)
  have "length (im_results m (u16_text s)) = length ps" using assms(1) by (auto simp: rx_stands_def rx_matches_def dest: list_all2_lengthD)
  then show ?thesis
    using assms hit by (intro that [of _ gs]) (auto simp: im_find_def rx_stands_def rx_matches_def)
qed

lemma im_find_end:
  "rx_stands s ps j m \<Longrightarrow> length ps \<le> j \<Longrightarrow> im_find m = (False, 0, m\<lparr>im_last := None\<rparr>)"
  by (auto simp: im_find_def rx_stands_def rx_matches_def dest: list_all2_lengthD)

lemma match_range_hit:
  assumes "rx_loaded v rm" "a \<le> u8_count (sv_bytes v)" "b \<le> u8_count (sv_bytes v)"
    and "im_last m = Some ((int (u16_at (sv_bytes v) a), int (u16_at (sv_bytes v) b)) # gs)"
  shows "match_range rm m = (0, (int (u8_pos (sv_bytes v) a), int (u8_pos (sv_bytes v) b)))"
  using assms byte_offset_boundary [of v rm a] byte_offset_boundary [of v rm b]
  by (simp add: match_range_def im_group_def rx_loaded_def U_FAILURE_def)

lemma no_failure [simp]: "\<not> U_FAILURE 0"
  by (simp add: U_FAILURE_def)

lemma drop_ranges:
  "j < length ps \<Longrightarrow> drop j (byte_ranges s ps) = (u8_pos s (fst (ps ! j)), u8_pos s (snd (ps ! j))) # drop (Suc j) (byte_ranges s ps)"
  by (simp add: byte_ranges_def Cons_nth_drop_Suc [symmetric] case_prod_beta)

lemma rx_all_loop_exact:
  assumes "rx_loaded v rm" "rx_stands (sv_bytes v) ps j m" "j \<le> length ps"
  shows "\<exists>m'. rx_all_loop rm m acc = (m', acc @ int_ranges (drop j (byte_ranges (sv_bytes v) ps)), 0)"
  using assms(2,3)
proof (induction "length ps - j" arbitrary: j m acc)
  case 0
  then show ?case by (subst rx_all_loop.simps) (simp add: im_find_end byte_ranges_def)
next
  case (Suc d)
  then have j: "j < length ps" by simp
  from im_find_hit [OF Suc.prems(1) j] obtain m' gs where hit: "im_find m = (True, 0, m')" "rx_stands (sv_bytes v) ps (Suc j) m'"
    and rng: "match_range rm m' = (0, (int (u8_pos (sv_bytes v) (fst (ps ! j))), int (u8_pos (sv_bytes v) (snd (ps ! j)))))"
    using match_range_hit [OF assms(1)] by metis
  show ?case
    using Suc.hyps(1) [of "Suc j" m' "acc @ [(int (u8_pos (sv_bytes v) (fst (ps ! j))), int (u8_pos (sv_bytes v) (snd (ps ! j))))]"]
      Suc.hyps(2) hit rng j
    by (subst rx_all_loop.simps) (simp add: drop_ranges)
qed

lemma rx_count_loop_exact:
  assumes "rx_stands s ps j m" "j \<le> length ps" "int (length ps) \<le> INT_MAX"
  shows "\<exists>m'. (let (found, status, m) = im_find m in rx_count_loop found status m (int j)) = (int (length ps), 0, m')"
  using assms(1,2)
proof (induction "length ps - j" arbitrary: j m)
  case 0
  then show ?case by (simp add: im_find_end rx_count_loop.simps)
next
  case (Suc d)
  then have j: "j < length ps" by simp
  from im_find_hit [OF Suc.prems(1) j] obtain m' where hit: "im_find m = (True, 0, m')" "rx_stands s ps (Suc j) m'" by metis
  have "int j \<noteq> INT_MAX" using j assms(3) by simp
  then show ?case
    using Suc.hyps(1) [of "Suc j" m'] Suc.hyps(2) hit j
    by (simp add: rx_count_loop.simps [of True 0 m'] add.commute)
qed

lemma rx_split_loop_exact:
  assumes "rx_loaded v rm" "rx_stands (sv_bytes v) ps j m" "j \<le> length ps"
  shows "\<exists>m'. rx_split_loop rm omit limit m st = (m', split_run omit limit (drop j (byte_ranges (sv_bytes v) ps)) st, 0)"
  using assms(2,3)
proof (induction "length ps - j" arbitrary: j m st)
  case 0
  then show ?case by (subst rx_split_loop.simps) (simp add: im_find_end byte_ranges_def)
next
  case (Suc d)
  then have j: "j < length ps" by simp
  from im_find_hit [OF Suc.prems(1) j] obtain m' gs where hit: "im_find m = (True, 0, m')" "rx_stands (sv_bytes v) ps (Suc j) m'"
    and rng: "match_range rm m' = (0, (int (u8_pos (sv_bytes v) (fst (ps ! j))), int (u8_pos (sv_bytes v) (snd (ps ! j)))))"
    using match_range_hit [OF assms(1)] by metis
  show ?case
    using Suc.hyps(1) [of "Suc j" m' "split_step omit (int (u8_pos (sv_bytes v) (fst (ps ! j)))) (int (u8_pos (sv_bytes v) (snd (ps ! j)))) st"]
      Suc.hyps(2) hit rng j
    by (subst rx_split_loop.simps) (simp add: drop_ranges)
qed

text \<open>The loop of the default split, which has no limit and keeps empty fields, runs over the same fields.\<close>

lemma split_default_loop_exact:
  assumes "rx_loaded v rm" "rx_stands (sv_bytes v) ps j m" "j \<le> length ps"
    and "count + int (length ps - j) < limit"
  shows "\<exists>m' fl fs. split_default_loop rm m flds (int start) = (m', fl, fs, 0) \<and>
    fl @ [(fs, int len)] = flds @ int_ranges (split_fields False limit start count (drop j (byte_ranges (sv_bytes v) ps)) len)"
  using assms(2-)
proof (induction "length ps - j" arbitrary: j m flds start count)
  case 0
  then show ?case by (subst split_default_loop.simps) (simp add: im_find_end byte_ranges_def)
next
  case (Suc d)
  then have j: "j < length ps" by simp
  from im_find_hit [OF Suc.prems(1) j] obtain m' gs where hit: "im_find m = (True, 0, m')" "rx_stands (sv_bytes v) ps (Suc j) m'"
    and rng: "match_range rm m' = (0, (int (u8_pos (sv_bytes v) (fst (ps ! j))), int (u8_pos (sv_bytes v) (snd (ps ! j)))))"
    using match_range_hit [OF assms(1)] by metis
  have "count < limit" "count + 1 + int (length ps - Suc j) < limit" using Suc.prems(3) j by linarith+
  then show ?case
    using Suc.hyps(1) [of "Suc j" m' "count + 1" "flds @ [(int start, int (u8_pos (sv_bytes v) (fst (ps ! j))))]" "u8_pos (sv_bytes v) (snd (ps ! j))"]
      Suc.hyps(2) hit rng j
    by (subst split_default_loop.simps) (simp add: drop_ranges)
qed

text \<open>C22. Where the engine finds matches between code point boundaries of a subject, the four searches of the
  matcher agree with that list: \<open>contains\<close> and \<open>count\<close> on the code units, \<open>find_first\<close> and \<open>find_all\<close>
  with the UTF-8 byte ranges of the same code points; all of them return without an error.\<close>

theorem regex_searches_exact:
  assumes "regex_ready v" "rm_matcher rm = Some m" "rm_subject_identity rm = None" "from_utf8_ok (ir_from_utf8 ir)"
    and "rx_matches m (sv_bytes v) ps" "int (length ps) \<le> INT_MAX"
  defines "rs \<equiv> int_ranges (byte_ranges (sv_bytes v) ps)"
  shows "snd (rx_contains ir v (Some i) rm) = Inr (ps \<noteq> [], 0) \<and>
    snd (rx_count ir v (Some i) rm) = Inr (int (length ps), 0) \<and>
    snd (rx_find_first v (Some i) rm) = Inr (if ps = [] then None else Some (hd rs), 0) \<and>
    snd (rx_find_all v (Some i) rm) = Inr (rs, 0)"
proof -
  let ?s = "sv_bytes v"
  have valid: "\<not> rx_invalid v (Some i) rm" using assms(1,2) by (simp add: rx_invalid_def regex_ready_def sv_ok_def)
  obtain rp where plain: "rx_load ir v (Some i) rm = (rp, Inr ())" "rm_subject rp = u16_text ?s" "rm_matcher rp = Some m"
    using assms(2,3) by (auto simp: rx_load_def regex_ready_simps(2) [OF assms(1,4)])
  obtain ro where offs: "rx_load_offsets v (Some i) rm = (ro, Inr ())" "rm_subject ro = u16_text ?s" "rm_matcher ro = Some m"
    "rx_loaded v ro"
    using assms(1-3) by (auto simp: rx_load_offsets_def regex_ready_simps(1) [OF assms(1)] rx_loaded_def)
  note start = rx_stands_reset [OF assms(5)]
  have "snd (rx_count ir v (Some i) rm) = Inr (int (length ps), 0)"
    using rx_count_loop_exact [OF start _ assms(6)] valid plain by (auto simp: rx_count_def case_prod_beta Let_def)
  moreover have "snd (rx_find_all v (Some i) rm) = Inr (rs, 0)"
    using rx_all_loop_exact [OF offs(4) start, of "[]"] valid offs by (auto simp: rx_find_all_def case_prod_beta Let_def rs_def)
  moreover have "snd (rx_contains ir v (Some i) rm) = Inr (ps \<noteq> [], 0) \<and>
    snd (rx_find_first v (Some i) rm) = Inr (if ps = [] then None else Some (hd rs), 0)"
  proof (cases ps)
    case Nil
    then show ?thesis using im_find_end [OF start] valid plain offs by (simp add: rx_contains_def rx_find_first_def)
  next
    case (Cons p ps')
    then have "0 < length ps" by simp
    from im_find_hit [OF start this] obtain m' gs where hit: "im_find (im_reset (u16_text ?s) m) = (True, 0, m')"
      and rng: "match_range ro m' = (0, (int (u8_pos ?s (fst (ps ! 0))), int (u8_pos ?s (snd (ps ! 0)))))"
      using match_range_hit [OF offs(4)] by metis
    show ?thesis
      using hit rng valid plain offs Cons by (simp add: rx_contains_def rx_find_first_def rs_def byte_ranges_def case_prod_beta)
  qed
  ultimately show ?thesis by blast
qed

definition sample_bound :: regex_matcher where
  "sample_bound = (RegexMatcher \<lparr>ro_flags = 0, ro_stack_limit = 0, ro_time_limit = 0\<rparr>)\<lparr>rm_matcher := Some sample_engine\<rparr>"

lemma sample_view:
  defines "s \<equiv> [0xc3, 0xa9, 0x61] :: byte list"
  shows "regex_ready (view_of 8 Enc_utf8 s)" "rm_matcher sample_bound = Some sample_engine" "rm_subject_identity sample_bound = None"
    "rx_matches sample_engine s [(1, 2)]" "byte_ranges s [(1, 2)] = [(2, 3)]"
proof -
  show "regex_ready (view_of 8 Enc_utf8 s)"
    by (simp add: regex_ready_def utf8_encoding_def marked_ascii_def INT_MAX_def s_def)
  show "rm_matcher sample_bound = Some sample_engine" "rm_subject_identity sample_bound = None"
    by (simp_all add: sample_bound_def RegexMatcher_def)
  have "u16_text s = [0xe9, 0x61]" "u16_at s 1 = 1" "u16_at s 2 = 2" "u8_count s = 2" "u8_pos s 1 = 2" "u8_pos s 2 = 3"
    unfolding s_def by code_simp+
  note eval = this
  have "im_results sample_engine [0xe9, 0x61] = [Rx_hit [(1, 2)]]" by code_simp
  then show "rx_matches sample_engine s [(1, 2)]" unfolding rx_matches_def eval by (simp add: hit_at_def eval [simplified])
  show "byte_ranges s [(1, 2)] = [(2, 3)]" unfolding byte_ranges_def by (simp add: eval [simplified])
qed

theorem regex_searches_exact_witness:
  "snd (rx_find_all (view_of 8 Enc_utf8 [0xc3, 0xa9, 0x61]) (Some 3) sample_bound) = Inr ([(2, 3)], 0) \<and>
   snd (rx_count sample_regex (view_of 8 Enc_utf8 [0xc3, 0xa9, 0x61]) (Some 3) sample_bound) = Inr (1, 0)"
  using regex_searches_exact [OF sample_view(1-3) sample_records_ok(2), of "[(1, 2)]" 3] sample_view(4,5)
  by (simp add: INT_MAX_def)

text \<open>C15. The regex split cuts the subject at the byte ranges of the matches as the reference does, for every
  field limit other than 0 below the largest one and both flags; the shortcut for the default arguments is the general loop with
  nothing to omit and no limit.\<close>

theorem regex_split_exact:
  assumes "regex_ready v" "rm_matcher rm = Some m" "rm_subject_identity rm = None"
    and "rx_matches m (sv_bytes v) ps" "int (length ps) + 1 < INT_MAX" "n < INT_MAX - 1" "n \<noteq> 0"
  shows "snd (rx_split v (Some i) n omit_empty tokens_only rm) =
    Inr (Split_ok, int_ranges (split_spec n omit_empty tokens_only (byte_ranges (sv_bytes v) ps) (length (sv_bytes v))), 0)"
proof -
  let ?s = "sv_bytes v"
  have valid: "\<not> rx_invalid v (Some i) rm" using assms(1,2) by (simp add: rx_invalid_def regex_ready_def sv_ok_def)
  obtain ro where offs: "rx_load_offsets v (Some i) rm = (ro, Inr ())" "rm_subject ro = u16_text ?s" "rm_matcher ro = Some m"
    "rx_loaded v ro"
    using assms(1-3) by (auto simp: rx_load_offsets_def regex_ready_simps(1) [OF assms(1)] rx_loaded_def)
  have len: "sv_len v = int (length ?s)" using assms(1) by (simp add: regex_ready_def sv_ok_def)
  note start = rx_stands_reset [OF assms(4)]
  have n: "\<not> INT_MAX - 1 \<le> n" using assms(6) by simp
  show ?thesis
  proof (cases "n < 0 \<and> \<not> omit_empty \<and> \<not> tokens_only")
    case True
    have limits: "split_limits n False = (INT_MAX, INT_MAX)" using True by (simp add: split_limits_def)
    obtain m' fl fs where loop: "split_default_loop ro (im_reset (u16_text ?s) m) [] 0 = (m', fl, fs, 0)"
      "fl @ [(fs, int (length ?s))] = int_ranges (split_fields False INT_MAX 0 1 (byte_ranges ?s ps) (length ?s))"
      using split_default_loop_exact [OF offs(4) start, of 1 INT_MAX "[]" 0 "length ?s"] assms(5) by auto
    show ?thesis
      using True valid n assms(7) offs loop len limits
      by (simp add: rx_split_def rx_split_default_def split_spec_def drop_empty_last_def)
  next
    case False
    obtain fl sl where limits: "split_limits n tokens_only = (fl, sl)" by fastforce
    obtain m' where loop: "rx_split_loop ro omit_empty sl (im_reset (u16_text ?s) m) ([(0, 0)], 1) =
        (m', split_run omit_empty sl (byte_ranges ?s ps) ([(0, 0)], 1), 0)"
      using rx_split_loop_exact [OF offs(4) start, of omit_empty sl "([(0, 0)], 1)"] by auto
    have "snd (rx_split v (Some i) n omit_empty tokens_only rm) =
        Inr (Split_ok, split_finish omit_empty tokens_only fl (int (length ?s)) (fst (split_run omit_empty sl (byte_ranges ?s ps) ([(0, 0)], 1))), 0)"
      using valid n assms(7) offs loop len limits unfolding rx_split_def if_not_P [OF False] by simp
    then show ?thesis using split_finish_spec [OF limits assms(6,7)] by simp
  qed
qed

theorem regex_split_exact_witness:
  "snd (rx_split (view_of 8 Enc_utf8 [0xc3, 0xa9, 0x61]) (Some 3) (- 1) False False sample_bound) = Inr (Split_ok, [(0, 2), (3, 3)], 0)"
proof -
  have "split_spec (- 1) False False [(2, 3)] (Suc (Suc (Suc 0))) = [(0, 2), (3, 3)]"
    by (simp add: split_spec_def drop_empty_last_def INT_MAX_def)
  then show ?thesis
    using regex_split_exact [OF sample_view(1-3), of "[(1, 2)]" "- 1" 3 False False] sample_view(4,5)
    by (simp add: INT_MAX_def)
qed

subsection \<open>Positions of the ranges\<close>

definition range_positions :: "byte list \<Rightarrow> bool \<Rightarrow> regex_range \<Rightarrow> regex_range" where
  "range_positions s return_length rng =
     (if fst rng < 0 \<or> snd rng < 0 then rng
      else
        let first = int (u8_index s (min (nat (fst rng)) (length s))); stop = int (u8_index s (min (nat (snd rng)) (length s)))
        in (one_based_position first, if return_length then stop - first else stop))"

lemma at_byte_index:
  assumes "sv_ok v" "marked_ascii v" "cursor_inv v c" "0 \<le> t"
  shows "\<exists>c'. at_byte c t = (c', int (u8_index (sv_bytes v) (min (nat t) (length (sv_bytes v))))) \<and> cursor_inv v c'"
proof -
  have "nat (min t (sv_len v)) = min (nat t) (length (sv_bytes v))"
    using assms(1,4) by (auto simp: sv_ok_def min_def)
  then show ?thesis using at_byte_step [OF assms(1-3), of t] by (metis prod.collapse)
qed

lemma positions_loop_exact:
  assumes "sv_ok v" "marked_ascii v" "cursor_inv v starts" "cursor_inv v ends"
  shows "positions_loop return_length starts ends rs = map (range_positions (sv_bytes v) return_length) rs"
  using assms(3,4)
proof (induction rs arbitrary: starts ends)
  case (Cons r rs)
  show ?case
  proof (cases "fst r < 0 \<or> snd r < 0")
    case True
    then show ?thesis using Cons by (simp add: range_positions_def)
  next
    case False
    then have ge: "0 \<le> fst r" "0 \<le> snd r" by simp_all
    obtain c d where "at_byte starts (fst r) = (c, int (u8_index (sv_bytes v) (min (nat (fst r)) (length (sv_bytes v)))))" "cursor_inv v c"
      "at_byte ends (snd r) = (d, int (u8_index (sv_bytes v) (min (nat (snd r)) (length (sv_bytes v)))))" "cursor_inv v d"
      using at_byte_index [OF assms(1,2) Cons.prems(1) ge(1)] at_byte_index [OF assms(1,2) Cons.prems(2) ge(2)] by blast
    then show ?thesis using False Cons.IH by (simp add: range_positions_def Let_def)
  qed
qed simp

text \<open>Converting byte ranges to R's positions is exact for every list of ranges, ordered or not, with
  unmatched captures left alone, and the two cursors of the list version answer as the single
  cursor of the version for one range does.\<close>

lemma regex_positions_exact:
  assumes "sv_ok v" "marked_ascii v"
  shows "regex_ranges_to_positions v rs return_length = map (range_positions (sv_bytes v) return_length) rs \<and>
    regex_range_to_positions v r return_length = range_positions (sv_bytes v) return_length r"
proof
  show "regex_ranges_to_positions v rs return_length = map (range_positions (sv_bytes v) return_length) rs"
    unfolding regex_ranges_to_positions_def by (rule positions_loop_exact [OF assms cursor_inv_init cursor_inv_init])
  show "regex_range_to_positions v r return_length = range_positions (sv_bytes v) return_length r"
  proof (cases "fst r < 0 \<or> snd r < 0")
    case False
    then have ge: "0 \<le> fst r" "0 \<le> snd r" by simp_all
    obtain c where c: "at_byte (Utf8PositionCursor v) (fst r) = (c, int (u8_index (sv_bytes v) (min (nat (fst r)) (length (sv_bytes v)))))" "cursor_inv v c"
      using at_byte_index [OF assms cursor_inv_init ge(1)] by blast
    obtain d where "at_byte c (snd r) = (d, int (u8_index (sv_bytes v) (min (nat (snd r)) (length (sv_bytes v)))))"
      using at_byte_index [OF assms c(2) ge(2)] by blast
    then show ?thesis using False c by (simp add: regex_range_to_positions_def range_positions_def Let_def)
  qed (simp add: regex_range_to_positions_def range_positions_def)
qed

end
