(* ===== verification/Regex_Names.thy ===== *)
theory Regex_Names
  imports Prelude
begin

text \<open>
  The names of capture groups (\<open>RegexMatcher::capture_names\<close> of \<^verbatim>\<open>src/shared/regex_search.cpp\<close>): a
  scanner over the code points of the pattern that skips escapes and sets and looks up every
  name it meets in the compiled pattern, which is a parameter. The lemmas show that a name is
  only given to the group that has it, and describe the scanner on a pattern cut into the pieces it
  reads: each group gets the last name that belongs to it. One of these pieces is an opening
  parenthesis together with the code point behind it, so a named group directly behind a
  parenthesis that starts a piece is overlooked.
\<close>

text \<open>The pattern as the code points \<open>utext_next32\<close> delivers, \<open>- 1\<close> at the end.\<close>

fun next32 :: "int list \<Rightarrow> int \<times> int list" where
  "next32 [] = (- 1, [])"
| "next32 (c # cs) = (c, cs)"

text \<open>The loop over a bracketed set: what is left behind its closing bracket.\<close>

function skip_set :: "int list \<Rightarrow> int list" where
  "skip_set chars =
     (let (current, chars) = next32 chars in
      if 0 \<le> current \<and> current \<noteq> 0x5d then skip_set (if current = 0x5c then snd (next32 chars) else chars) else chars)"
  by pat_completeness auto
termination
proof (relation "measure length", goal_cases)
  case (2 chars x current rest)
  then show ?case by (cases chars; cases rest) auto
qed simp

declare skip_set.simps [simp del]

definition name_char :: "int \<Rightarrow> bool" where
  "name_char c \<longleftrightarrow> 0x41 \<le> c \<and> c \<le> 0x5a \<or> 0x61 \<le> c \<and> c \<le> 0x7a \<or> 0x30 \<le> c \<and> c \<le> 0x39"

text \<open>The name behind \<open>(?<\<close>: its characters, the code point that ends it, and the rest.\<close>

fun read_name :: "int list \<Rightarrow> int list \<Rightarrow> int list \<times> int \<times> int list" where
  "read_name name [] = (name, - 1, [])"
| "read_name name (c # cs) = (if name_char c then read_name (name @ [c]) cs else (name, c, cs))"

lemma read_name_length: "read_name name chars = (n, c, rest) \<Longrightarrow> length rest \<le> length chars"
  by (induction name chars rule: read_name.induct) (auto split: if_splits)

lemma skip_set_length: "length (skip_set chars) \<le> length chars"
proof (induction chars rule: skip_set.induct)
  case (1 chars)
  show ?case
  proof (cases chars)
    case Nil
    then show ?thesis by (subst skip_set.simps) simp
  next
    case (Cons c cs)
    have "length (snd (next32 cs)) \<le> length cs" by (cases cs) auto
    then show ?thesis using 1 [of "(c, cs)" c cs] Cons by (subst skip_set.simps) auto
  qed
qed

lemma next32_length: "length (snd (next32 chars)) \<le> length chars"
  by (cases chars) auto

definition scan_rank :: "int \<Rightarrow> int list \<Rightarrow> nat" where
  "scan_rank current chars = (if 0 \<le> current then Suc (length chars) else 0)"

lemma next32_rank: "next32 t = (c, r) \<Longrightarrow> length t \<le> length chars \<Longrightarrow> 0 \<le> current \<Longrightarrow> scan_rank c r < scan_rank current chars"
  by (cases t) (auto simp: scan_rank_def)

text \<open>\<open>group_of\<close> is \<open>groupNumberFromName\<close>, one-based, \<open>None\<close> where it fails.\<close>

function names_loop :: "(int list \<Rightarrow> int option) \<Rightarrow> int \<Rightarrow> int list \<Rightarrow> int list list \<Rightarrow> int list list" where
  "names_loop group_of current chars names =
     (if 0 \<le> current then
        if current = 0x5c then
          let chars = snd (next32 chars); (current, chars) = next32 chars in names_loop group_of current chars names
        else if current = 0x5b then
          let (current, chars) = next32 (skip_set chars) in names_loop group_of current chars names
        else if current = 0x28 then
          let (current, chars) = next32 chars in
          if current \<noteq> 0x3f then let (current, chars) = next32 chars in names_loop group_of current chars names
          else
            let (current, chars) = next32 chars in
            if current \<noteq> 0x3c then let (current, chars) = next32 chars in names_loop group_of current chars names
            else
              let (name, current, chars) = read_name [] chars;
                  names = (if current = 0x3e then
                             case group_of name of
                               None \<Rightarrow> names
                             | Some number \<Rightarrow>
                                 let number = number - 1
                                 in if 0 \<le> number \<and> number < int (length names) then names[nat number := name] else names
                           else names);
                  (current, chars) = next32 chars
              in names_loop group_of current chars names
        else let (current, chars) = next32 chars in names_loop group_of current chars names
      else names)"
  by pat_completeness auto
termination
proof (relation "measure (\<lambda>(group_of, current, chars, names). scan_rank current chars)", goal_cases)
  case (2 group_of current chars names x xa c r)
  then show ?case using next32_rank [of "snd (next32 chars)" c r chars current] next32_length [of chars] by auto
next
  case (3 group_of current chars names x c r)
  then show ?case using next32_rank [of "skip_set chars" c r chars current] skip_set_length [of chars] by auto
next
  case (4 group_of current chars names x c r xa c' r')
  then show ?case using next32_rank [of r c' r' chars current] next32_length [of chars] by (auto simp: prod_eq_iff)
next
  case (5 group_of current chars names x c r xa c' r' xb c'' r'')
  then show ?case
    using next32_rank [of r' c'' r'' chars current] next32_length [of chars] next32_length [of r] by (auto simp: prod_eq_iff)
next
  case (6 group_of current chars names x c r xa c' r' xb name yb cn yc xg xh xi yd)
  then show ?case
    using next32_rank [of yc xi yd chars current] next32_length [of chars] next32_length [of r]
      read_name_length [of "[]" r' name cn yc] by (auto simp: prod_eq_iff)
next
  case (7 group_of current chars names x c r)
  then show ?case using next32_rank [of chars c r chars current] by auto
qed simp

declare names_loop.simps [simp del]

definition capture_names :: "(int list \<Rightarrow> int option) \<Rightarrow> nat \<Rightarrow> int list \<Rightarrow> int list list" where
  "capture_names group_of count pattern =
     (if count = 0 then [] else let (current, chars) = next32 pattern in names_loop group_of current chars (replicate count []))"

text \<open>Every name is that of its group.\<close>

definition names_sound :: "(int list \<Rightarrow> int option) \<Rightarrow> int list list \<Rightarrow> bool" where
  "names_sound group_of names \<longleftrightarrow> (\<forall>g<length names. names ! g \<noteq> [] \<longrightarrow> group_of (names ! g) = Some (int g + 1))"

lemma names_sound_set:
  "names_sound group_of names \<Longrightarrow> group_of name = Some number \<Longrightarrow>
   names_sound group_of (let number = number - 1 in if 0 \<le> number \<and> number < int (length names) then names[nat number := name] else names)"
  by (auto simp: names_sound_def Let_def nth_list_update)

lemma names_loop_sound:
  "names_sound group_of names \<Longrightarrow>
   length (names_loop group_of current chars names) = length names \<and> names_sound group_of (names_loop group_of current chars names)"
proof (induction group_of current chars names rule: names_loop.induct)
  case (1 group_of current chars names)
  note IH = "1.IH" and sound = "1.prems"
  consider (finished) "\<not> 0 \<le> current" | (escape) "0 \<le> current" "current = 0x5c" | (set) "0 \<le> current" "current = 0x5b"
    | (plain) "0 \<le> current" "current \<noteq> 0x5c" "current \<noteq> 0x5b" "current \<noteq> 0x28"
    | (group) "0 \<le> current" "current = 0x28" by linarith
  then show ?case
  proof cases
    case finished
    then show ?thesis using sound by (simp add: names_loop.simps [of group_of current])
  next
    case escape
    then show ?thesis using IH(1) sound
      by (subst (1 2) names_loop.simps) (auto simp: case_prod_beta Let_def prod_eq_iff)
  next
    case set
    then show ?thesis using IH(2) sound
      by (subst (1 2) names_loop.simps) (auto simp: case_prod_beta Let_def prod_eq_iff)
  next
    case plain
    then show ?thesis using IH(6) sound
      by (subst (1 2) names_loop.simps) (auto simp: case_prod_beta Let_def prod_eq_iff)
  next
    case group
    obtain c1 r1 where n1: "next32 chars = (c1, r1)" by fastforce
    obtain c2 r2 where n2: "next32 r1 = (c2, r2)" by fastforce
    show ?thesis
    proof (cases "c1 = 0x3f \<and> c2 = 0x3c")
      case False
      obtain c3 r3 where n3: "next32 r2 = (c3, r3)" by fastforce
      have "names_loop group_of current chars names =
          (if c1 \<noteq> 0x3f then names_loop group_of c2 r2 names else names_loop group_of c3 r3 names)"
        using group False n1 n2 n3 by (subst names_loop.simps) simp
      moreover have "c1 \<noteq> 0x3f \<Longrightarrow> length (names_loop group_of c2 r2 names) = length names \<and> names_sound group_of (names_loop group_of c2 r2 names)"
        using IH(3) group n1 n2 sound by simp
      moreover have "c1 = 0x3f \<Longrightarrow> length (names_loop group_of c3 r3 names) = length names \<and> names_sound group_of (names_loop group_of c3 r3 names)"
        using IH(4) group n1 n2 n3 sound False by simp
      ultimately show ?thesis by simp
    next
      case True
      obtain name e r where rd: "read_name [] r2 = (name, e, r)" by (cases "read_name [] r2") auto
      obtain c3 r3 where n3: "next32 r = (c3, r3)" by fastforce
      define names' where "names' = (if e = 0x3e then case group_of name of None \<Rightarrow> names
        | Some number \<Rightarrow> let number = number - 1 in if 0 \<le> number \<and> number < int (length names) then names[nat number := name] else names
        else names)"
      have run: "names_loop group_of current chars names = names_loop group_of c3 r3 names'"
        using group True n1 n2 n3 rd by (subst names_loop.simps) (simp add: names'_def)
      have "names_sound group_of names'" "length names' = length names"
        using sound names_sound_set [OF sound, of name] by (auto simp: names'_def Let_def split: option.split)
      then show ?thesis
        unfolding run using IH(5) [of "(c1, r1)" c1 r1 "(c2, r2)" c2 r2 "(name, e, r)" name "(e, r)" e r names' "(c3, r3)" c3 r3]
          group True n1 n2 n3 rd by (simp add: names'_def)
    qed
  qed
qed

text \<open>The result has one entry per group, and a name it holds is that of its group.\<close>

lemma capture_names_sound:
  "length (capture_names group_of count pattern) = count \<and> names_sound group_of (capture_names group_of count pattern)"
  using names_loop_sound [of group_of "replicate count []"]
  by (simp add: capture_names_def case_prod_beta names_sound_def)

subsection \<open>The pieces of a pattern\<close>

text \<open>What the scanner reads at once: a code point that opens nothing, an escape, a set, an opening parenthesis with the
  code point behind it, \<open>(?\<close> with the code point behind it, a named group, and \<open>(?<\<close> with a name that does not end in \<open>>\<close>,
  which is a look-behind.\<close>

datatype set_item = Set_char int | Set_escape int

datatype piece = Plain int | Escape int | Bracket "set_item list" | Open int | Special int | Named "int list" | Look "int list" int

fun item_chars :: "set_item \<Rightarrow> int list" where
  "item_chars (Set_char c) = [c]"
| "item_chars (Set_escape c) = [0x5c, c]"

fun piece_chars :: "piece \<Rightarrow> int list" where
  "piece_chars (Plain c) = [c]"
| "piece_chars (Escape c) = [0x5c, c]"
| "piece_chars (Bracket items) = [0x5b] @ concat (map item_chars items) @ [0x5d]"
| "piece_chars (Open c) = [0x28, c]"
| "piece_chars (Special c) = [0x28, 0x3f, c]"
| "piece_chars (Named name) = [0x28, 0x3f, 0x3c] @ name @ [0x3e]"
| "piece_chars (Look name c) = [0x28, 0x3f, 0x3c] @ name @ [c]"

fun item_ok :: "set_item \<Rightarrow> bool" where
  "item_ok (Set_char c) = (0 \<le> c \<and> c \<noteq> 0x5c \<and> c \<noteq> 0x5d)"
| "item_ok (Set_escape c) = (0 \<le> c)"

fun piece_ok :: "piece \<Rightarrow> bool" where
  "piece_ok (Plain c) = (0 \<le> c \<and> c \<noteq> 0x5c \<and> c \<noteq> 0x5b \<and> c \<noteq> 0x28)"
| "piece_ok (Escape c) = (0 \<le> c)"
| "piece_ok (Bracket items) = list_all item_ok items"
| "piece_ok (Open c) = (0 \<le> c \<and> c \<noteq> 0x3f)"
| "piece_ok (Special c) = (0 \<le> c \<and> c \<noteq> 0x3c)"
| "piece_ok (Named name) = list_all name_char name"
| "piece_ok (Look name c) = (list_all name_char name \<and> 0 \<le> c \<and> \<not> name_char c \<and> c \<noteq> 0x3e)"

abbreviation pattern_chars :: "piece list \<Rightarrow> int list" where
  "pattern_chars ps \<equiv> concat (map piece_chars ps)"

text \<open>The reference: the names of the pieces, and the last of them that belongs to a group.\<close>

fun piece_names :: "piece \<Rightarrow> int list list" where
  "piece_names (Named name) = [name]"
| "piece_names _ = []"

definition group_name :: "(int list \<Rightarrow> int option) \<Rightarrow> piece list \<Rightarrow> nat \<Rightarrow> int list" where
  "group_name group_of ps g =
     (case find (\<lambda>name. group_of name = Some (int g + 1)) (rev (concat (map piece_names ps))) of None \<Rightarrow> [] | Some name \<Rightarrow> name)"

subsection \<open>The scanner on the pieces\<close>

lemma skip_set_items: "list_all item_ok items \<Longrightarrow> skip_set (concat (map item_chars items) @ 0x5d # rest) = rest"
proof (induction items)
  case Nil
  then show ?case by (simp add: skip_set.simps [of "0x5d # rest"])
next
  case (Cons it items)
  then show ?case by (cases it) (simp_all add: skip_set.simps [of "_ # _"])
qed

lemma read_name_stop:
  "list_all name_char name \<Longrightarrow> \<not> name_char c \<Longrightarrow> read_name acc (name @ c # rest) = (acc @ name, c, rest)"
  by (induction name arbitrary: acc) simp_all

definition scan_from :: "(int list \<Rightarrow> int option) \<Rightarrow> int list \<Rightarrow> int list list \<Rightarrow> int list list" where
  "scan_from group_of chars names = (let (current, chars) = next32 chars in names_loop group_of current chars names)"

fun note_piece :: "(int list \<Rightarrow> int option) \<Rightarrow> int list list \<Rightarrow> piece \<Rightarrow> int list list" where
  "note_piece group_of names (Named name) =
     (case group_of name of
        None \<Rightarrow> names
      | Some number \<Rightarrow> if 1 \<le> number \<and> number \<le> int (length names) then names[nat (number - 1) := name] else names)"
| "note_piece group_of names _ = names"

lemma scan_piece:
  assumes "piece_ok x"
  shows "scan_from group_of (piece_chars x @ rest) names = scan_from group_of rest (note_piece group_of names x)"
proof -
  have "\<not> name_char 0x3e" by (simp add: name_char_def)
  then show ?thesis
    using assms skip_set_items [of _ rest] read_name_stop [of _ _ "[]" rest]
    by (cases x) (auto simp: scan_from_def names_loop.simps [of group_of "0x5c"] names_loop.simps [of group_of "0x5b"]
      names_loop.simps [of group_of "0x28"] names_loop.simps [of group_of _ rest] case_prod_beta Let_def split: option.split)
qed

lemma scan_pieces:
  "list_all piece_ok ps \<Longrightarrow> scan_from group_of (pattern_chars ps) names = foldl (note_piece group_of) names ps"
proof (induction ps arbitrary: names)
  case Nil
  then show ?case by (simp add: scan_from_def names_loop.simps [of group_of "- 1"])
qed (simp add: scan_piece)

lemma group_name_snoc:
  "group_name group_of (ps @ [x]) g =
     (case x of Named name \<Rightarrow> if group_of name = Some (int g + 1) then name else group_name group_of ps g | _ \<Rightarrow> group_name group_of ps g)"
  by (cases x) (simp_all add: group_name_def)

lemma note_pieces: "foldl (note_piece group_of) (replicate count []) ps = map (group_name group_of ps) [0..<count]"
proof (induction ps rule: rev_induct)
  case Nil
  then show ?case by (simp add: group_name_def map_replicate_const)
next
  case (snoc x ps)
  show ?case
  proof (rule nth_equalityI)
    show "length (foldl (note_piece group_of) (replicate count []) (ps @ [x])) = length (map (group_name group_of (ps @ [x])) [0..<count])"
      using snoc by (cases x) (auto split: option.split)
    fix g assume "g < length (foldl (note_piece group_of) (replicate count []) (ps @ [x]))"
    then have "g < count" using snoc by (cases x) (auto split: option.splits if_splits)
    then show "foldl (note_piece group_of) (replicate count []) (ps @ [x]) ! g = map (group_name group_of (ps @ [x])) [0..<count] ! g"
      using snoc by (cases x) (auto simp: group_name_snoc nth_list_update split: option.split)
  qed
qed

lemma capture_names_pieces:
  assumes "list_all piece_ok ps"
  shows "capture_names group_of count (pattern_chars ps) = map (group_name group_of ps) [0..<count]"
  using scan_pieces [OF assms, of group_of "replicate count []"] note_pieces [of group_of count ps]
  by (simp add: capture_names_def scan_from_def)

subsection \<open>Properties\<close>

text \<open>C39. For every pattern the names of the capture groups are one per group, and a name given to a group is one
  the compiled pattern has for it. For a pattern of whole pieces each group gets the last name among the named pieces that
  belongs to it, so none of them is missed. A parenthesis is one piece with the code point behind it: where it
  starts a piece and a named group follows at once, as in \<open>((?<n>a))\<close>, that name is never looked up.\<close>

theorem capture_names_exact:
  assumes "list_all piece_ok ps" "list_all piece_ok qs" "list_all name_char name"
  shows "length (capture_names group_of count pattern) = count \<and> names_sound group_of (capture_names group_of count pattern) \<and>
    capture_names group_of count (pattern_chars ps) = map (group_name group_of ps) [0..<count] \<and>
    capture_names group_of count (pattern_chars ps @ [0x28] @ piece_chars (Named name) @ pattern_chars qs) =
      map (group_name group_of (ps @ qs)) [0..<count]"
proof -
  have name: "list_all piece_ok (map Plain name)" using assms(3) by (auto simp: list_all_iff name_char_def)
  let ?hidden = "[Open 0x28, Plain 0x3f, Plain 0x3c] @ map Plain name @ [Plain 0x3e]"
  have plain: "concat (map (\<lambda>c. [c]) name) = name" by (induction name) simp_all
  have hidden: "piece_names \<circ> Plain = (\<lambda>_. [])" by (simp add: fun_eq_iff)
  have "group_name group_of (ps @ ?hidden @ qs) = group_name group_of (ps @ qs)"
    by (intro ext) (simp add: group_name_def hidden map_replicate_const)
  moreover have "pattern_chars (ps @ ?hidden @ qs) = pattern_chars ps @ [0x28] @ piece_chars (Named name) @ pattern_chars qs"
    by (simp add: comp_def plain)
  moreover have "list_all piece_ok (ps @ ?hidden @ qs)" using assms name by simp
  ultimately show ?thesis
    using capture_names_pieces [of "ps @ ?hidden @ qs" group_of count] capture_names_pieces [OF assms(1), of group_of count] capture_names_sound
    by simp
qed

text \<open>In \<open>(?<n>a)\<close> the group gets its name; in \<open>((?<n>a))\<close> the second group is \<open>n\<close> and stays without a name.\<close>

theorem capture_names_exact_witness:
  "capture_names (\<lambda>name. if name = [0x6e] then Some 1 else None) 1 [0x28, 0x3f, 0x3c, 0x6e, 0x3e, 0x61, 0x29] = [[0x6e]] \<and>
   capture_names (\<lambda>name. if name = [0x6e] then Some 2 else None) 2 [0x28, 0x28, 0x3f, 0x3c, 0x6e, 0x3e, 0x61, 0x29, 0x29] = [[], []]"
proof -
  have "list_all name_char [0x6e]" by (simp add: name_char_def)
  then show ?thesis
    using capture_names_exact [of "[Named [0x6e], Plain 0x61, Plain 0x29]" "[]" "[]" "\<lambda>name. if name = [0x6e] then Some 1 else None" 1 "[]"]
      capture_names_exact [of "[]" "[Plain 0x61, Plain 0x29, Plain 0x29]" "[0x6e]" "\<lambda>name. if name = [0x6e] then Some 2 else None" 2 "[]"]
    by (simp add: group_name_def upt_rec numeral_2_eq_2)
qed

end
