(* ===== verification/Collation_Search.thy ===== *)
theory Collation_Search
  imports Regex_Search
begin

text \<open>
  Collation search (\<^verbatim>\<open>src/shared/collation_search.h\<close> and \<^verbatim>\<open>.cpp\<close>): the stored UTF-16 records, the
  cursor with two buffers, the conversion of UTF-16 offsets to code point positions and back,
  the owner of ICU's string search, and the replacement of UTF-16 ranges. ICU's conversion and
  string search are parameters; a search is, for a pattern and a text, the list of the results
  of successive calls. A failed allocation is not modelled. The lemmas show that a buffer that was handed out is not overwritten by
  the next record, that positions and offsets are those of the code points, what searches and
  splits return, and that the replacement writes the splice_units text or reports why it cannot.
\<close>

type_synonym collation_range = "int \<times> int"

record collation_input =
  ci_identity :: "nat option"
  ci_data :: "uchar list option"
  ci_length :: int
  ci_missing :: bool

subsection \<open>Stored records\<close>

record collation_inputs =
  cis_values :: "uchar list list"
  cis_missing :: "bool list"

definition CollationInputs :: collation_inputs where
  "CollationInputs = \<lparr>cis_values = [], cis_missing = []\<rparr>"

definition cis_resize :: "nat \<Rightarrow> collation_inputs \<Rightarrow> collation_inputs" where
  "cis_resize n cis = \<lparr>cis_values = vector_resize [] n (cis_values cis), cis_missing = vector_resize False n (cis_missing cis)\<rparr>"

definition cis_index :: "nat \<Rightarrow> collation_inputs \<Rightarrow> unit result" where
  "cis_index index cis =
     (if index \<ge> length (cis_values cis) \<or> index \<ge> length (cis_missing cis) then
        Inl (Out_of_range ''collation input index out of bounds'')
      else Inr ())"

definition collation_checks :: "string_view \<Rightarrow> unit result" where
  "collation_checks source =
     (if sv_len source < 0 \<or> sv_ptr source = NullPtr \<and> sv_len source \<noteq> 0 then
        Inl (Invalid_argument ''invalid collation input string view'')
      else if sv_enc source \<noteq> Enc_ascii \<and> sv_enc source \<noteq> Enc_utf8 \<and> sv_enc source \<noteq> Enc_ascii_or_utf8 then
        Inl (Invalid_argument ''collation input must be normalized to UTF-8'')
      else Inr ())"

text \<open>\<open>from_utf8\<close> is \<open>UnicodeString::fromUTF8\<close>.\<close>

definition cis_set :: "(byte list \<Rightarrow> uchar list) \<Rightarrow> nat \<Rightarrow> string_view \<Rightarrow> collation_inputs \<Rightarrow> collation_inputs result" where
  "cis_set from_utf8 index source cis =
     bindE (cis_index index cis) (\<lambda>_.
       if is_na source then Inr (cis\<lparr>cis_missing := (cis_missing cis)[index := True]\<rparr>)
       else
         bindE (collation_checks source) (\<lambda>_.
           Inr \<lparr>cis_values = (cis_values cis)[index := from_utf8 (sv_bytes source)],
                cis_missing = (cis_missing cis)[index := False]\<rparr>))"

definition cis_set_missing :: "nat \<Rightarrow> collation_inputs \<Rightarrow> collation_inputs result" where
  "cis_set_missing index cis =
     bindE (cis_index index cis) (\<lambda>_. Inr (cis\<lparr>cis_missing := (cis_missing cis)[index := True]\<rparr>))"

definition cis_swap_value :: "nat \<Rightarrow> uchar list \<Rightarrow> collation_inputs \<Rightarrow> (collation_inputs \<times> uchar list) result" where
  "cis_swap_value index value cis =
     bindE (cis_index index cis) (\<lambda>_.
       Inr (\<lparr>cis_values = (cis_values cis)[index := value], cis_missing = (cis_missing cis)[index := False]\<rparr>, cis_values cis ! index))"

definition cis_get :: "(nat \<Rightarrow> nat) \<Rightarrow> nat \<Rightarrow> collation_inputs \<Rightarrow> collation_input result" where
  "cis_get addr index cis =
     bindE (cis_index index cis) (\<lambda>_.
       let value = cis_values cis ! index in
       Inr \<lparr>ci_identity = Some (addr index), ci_data = Some value, ci_length = int (length value), ci_missing = cis_missing cis ! index\<rparr>)"

subsection \<open>The cursor with two buffers\<close>

record collation_cursor =
  cc_values :: "uchar list list"
  cc_active :: nat
  cc_identity :: "nat option"
  cc_missing :: bool

definition CollationCursor :: collation_cursor where
  "CollationCursor = \<lparr>cc_values = [[], []], cc_active = 0, cc_identity = None, cc_missing = True\<rparr>"

definition cc_current :: "collation_cursor \<Rightarrow> collation_input" where
  "cc_current cc =
     (if cc_missing cc then \<lparr>ci_identity = cc_identity cc, ci_data = None, ci_length = - 1, ci_missing = True\<rparr>
      else
        let value = cc_values cc ! cc_active cc
        in \<lparr>ci_identity = cc_identity cc, ci_data = Some value, ci_length = int (length value), ci_missing = False\<rparr>)"

definition cc_get ::
  "(byte list \<Rightarrow> uchar list) \<Rightarrow> nat option \<Rightarrow> string_view \<Rightarrow> collation_cursor \<Rightarrow> collation_cursor \<times> collation_input result" where
  "cc_get from_utf8 identity source cc =
     (if identity = None then (cc, Inl (Invalid_argument ''collation record identity is null''))
      else if identity = cc_identity cc then (cc, Inr (cc_current cc))
      else if is_na source then
        let cc = cc\<lparr>cc_missing := True, cc_identity := identity\<rparr> in (cc, Inr (cc_current cc))
      else
        case collation_checks source of
          Inl e \<Rightarrow> (cc, Inl e)
        | Inr _ \<Rightarrow>
            let next_buffer = (if cc_active cc = 0 then 1 else 0);
                cc = cc\<lparr>cc_values := (cc_values cc)[next_buffer := from_utf8 (sv_bytes source)], cc_active := next_buffer,
                        cc_missing := False, cc_identity := identity\<rparr>
            in (cc, Inr (cc_current cc)))"

subsection \<open>Positions and offsets\<close>

record collation_position_cursor =
  cp_data :: "uchar list option"
  cp_length :: int
  cp_utf16 :: nat
  cp_position :: nat

definition CollationPositionCursor :: "collation_input \<Rightarrow> collation_position_cursor" where
  "CollationPositionCursor subject =
     \<lparr>cp_data = (if ci_missing subject then None else ci_data subject),
      cp_length = (if ci_missing subject \<or> ci_length subject < 0 then 0 else ci_length subject), cp_utf16 = 0, cp_position = 0\<rparr>"

function utf16_walk :: "uchar list \<Rightarrow> nat \<Rightarrow> nat \<Rightarrow> nat \<Rightarrow> nat \<Rightarrow> nat \<times> nat" where
  "utf16_walk data len target utf16 position =
     (if utf16 < target then utf16_walk data len target (U16_FWD_1 data utf16 len) (position + 1) else (utf16, position))"
  by pat_completeness auto
termination
  by (relation "measure (\<lambda>(data, len, target, utf16, position). target - utf16)") (auto simp: U16_FWD_1_def)

declare utf16_walk.simps [simp del]

definition at_utf16 :: "collation_position_cursor \<Rightarrow> int \<Rightarrow> collation_position_cursor \<times> int" where
  "at_utf16 cp target =
     (case cp_data cp of
        None \<Rightarrow> (cp, 0)
      | Some data \<Rightarrow>
          if cp_length cp \<le> 0 then (cp, 0)
          else
            let target = (if target < 0 then 0 else target);
                target = (if target > cp_length cp then cp_length cp else target);
                cp = (if target < int (cp_utf16 cp) then cp\<lparr>cp_utf16 := 0, cp_position := 0\<rparr> else cp);
                (utf16, position) = utf16_walk data (nat (cp_length cp)) (nat target) (cp_utf16 cp) (cp_position cp)
            in (cp\<lparr>cp_utf16 := utf16, cp_position := position\<rparr>, int position))"

definition to_r_range :: "collation_position_cursor \<Rightarrow> collation_range \<Rightarrow> bool \<Rightarrow> collation_position_cursor \<times> collation_range" where
  "to_r_range cp rng return_length =
     (let (cp, first) = at_utf16 cp (fst rng);
          (cp, stop) = at_utf16 cp (snd rng)
      in (cp, (one_based_position first, if return_length then stop - first else stop)))"

definition utf16_start_offset :: "collation_input \<Rightarrow> int \<Rightarrow> int" where
  "utf16_start_offset subject position =
     (if ci_missing subject \<or> ci_length subject \<le> 0 \<or> ci_data subject = None then 0
      else if position = 1 then 0
      else if position \<ge> 0 then int (U16_FWD_N (the (ci_data subject)) 0 (nat (ci_length subject)) (position - 1))
      else int (U16_BACK_N (the (ci_data subject)) (nat (ci_length subject)) (- position)))"

definition utf16_end_offset :: "collation_input \<Rightarrow> int \<Rightarrow> int" where
  "utf16_end_offset subject position =
     (if ci_missing subject \<or> ci_length subject \<le> 0 \<or> ci_data subject = None then 0
      else if position = - 1 then ci_length subject
      else if position \<ge> 0 then int (U16_FWD_N (the (ci_data subject)) 0 (nat (ci_length subject)) position)
      else int (U16_BACK_N (the (ci_data subject)) (nat (ci_length subject)) (- position - 1)))"

subsection \<open>ICU's string search\<close>

definition USEARCH_DONE :: int where "USEARCH_DONE = - 1"

text \<open>A result of a search: a match with its start and length, or a failure. The engine says for a collator, a
  pattern and a text what successive forward searches and a backward search from the end give, and
  whether a handle can be opened and rebound.\<close>

datatype us_find = Us_hit nat nat | Us_fail int

record usearch_engine =
  ue_open :: "nat \<Rightarrow> uchar list \<Rightarrow> uchar list \<Rightarrow> int \<times> bool"
  ue_set_pattern :: "uchar list \<Rightarrow> int"
  ue_set_text :: "uchar list \<Rightarrow> int"
  ue_forward :: "nat \<Rightarrow> uchar list \<Rightarrow> uchar list \<Rightarrow> us_find list"
  ue_backward :: "nat \<Rightarrow> uchar list \<Rightarrow> uchar list \<Rightarrow> us_find option"

record usearch_handle =
  us_collator :: nat
  us_pattern :: "uchar list"
  us_text :: "uchar list"
  us_next :: nat
  us_matched :: int

text \<open>The calls take the status and do nothing where it is already a failure.\<close>

definition usearch_next :: "usearch_engine \<Rightarrow> int \<Rightarrow> usearch_handle \<Rightarrow> int \<times> int \<times> usearch_handle" where
  "usearch_next ue status us =
     (if U_FAILURE status then (USEARCH_DONE, status, us)
      else
        let results = ue_forward ue (us_collator us) (us_pattern us) (us_text us) in
        if us_next us < length results then
          (case results ! us_next us of
             Us_hit start len \<Rightarrow> (int start, status, us\<lparr>us_next := us_next us + 1, us_matched := int len\<rparr>)
           | Us_fail e \<Rightarrow> (USEARCH_DONE, e, us\<lparr>us_next := us_next us + 1, us_matched := 0\<rparr>))
        else (USEARCH_DONE, status, us\<lparr>us_matched := 0\<rparr>))"

definition usearch_first :: "usearch_engine \<Rightarrow> int \<Rightarrow> usearch_handle \<Rightarrow> int \<times> int \<times> usearch_handle" where
  "usearch_first ue status us = usearch_next ue status (us\<lparr>us_next := 0\<rparr>)"

definition usearch_last :: "usearch_engine \<Rightarrow> int \<Rightarrow> usearch_handle \<Rightarrow> int \<times> int \<times> usearch_handle" where
  "usearch_last ue status us =
     (if U_FAILURE status then (USEARCH_DONE, status, us)
      else
        case ue_backward ue (us_collator us) (us_pattern us) (us_text us) of
          None \<Rightarrow> (USEARCH_DONE, status, us\<lparr>us_matched := 0\<rparr>)
        | Some (Us_hit start len) \<Rightarrow> (int start, status, us\<lparr>us_matched := int len\<rparr>)
        | Some (Us_fail e) \<Rightarrow> (USEARCH_DONE, e, us\<lparr>us_matched := 0\<rparr>))"

definition us_rest :: "usearch_engine \<Rightarrow> usearch_handle \<Rightarrow> nat" where
  "us_rest ue us = length (ue_forward ue (us_collator us) (us_pattern us) (us_text us)) - us_next us"

lemma usearch_next_rest:
  assumes "usearch_next ue status us = (start, status', us')"
  shows "us_rest ue us' \<le> us_rest ue us" "start \<noteq> USEARCH_DONE \<Longrightarrow> us_rest ue us' < us_rest ue us"
  using assms by (auto simp: usearch_next_def us_rest_def Let_def split: if_splits us_find.splits)

subsection \<open>The matcher\<close>

definition ci_units :: "collation_input \<Rightarrow> uchar list" where
  "ci_units ci = (case ci_data ci of None \<Rightarrow> [] | Some data \<Rightarrow> take (nat (ci_length ci)) data)"

record collation_matcher =
  cs_matcher :: "usearch_handle option"
  cs_collator :: "nat option"
  cs_pattern_identity :: "nat option"

definition CollationMatcher :: collation_matcher where
  "CollationMatcher = \<lparr>cs_matcher = None, cs_collator = None, cs_pattern_identity = None\<rparr>"

definition cs_close :: "collation_matcher \<Rightarrow> collation_matcher" where
  "cs_close cm = \<lparr>cs_matcher = None, cs_collator = None, cs_pattern_identity = None\<rparr>"

text \<open>\<open>prepare\<close>: whether it succeeded, the status and the matcher. A new handle stands at the start of its text, and
  so does one whose text was set.\<close>

definition cs_open :: "usearch_engine \<Rightarrow> nat \<Rightarrow> collation_input \<Rightarrow> collation_input \<Rightarrow> collation_matcher \<Rightarrow> bool \<times> int \<times> collation_matcher" where
  "cs_open ue collator subject pattern cm =
     (let cm = cs_close cm; (status, opened) = ue_open ue collator (ci_units pattern) (ci_units subject) in
      if U_FAILURE status \<or> \<not> opened then
        (False, if U_FAILURE status then status else U_MEMORY_ALLOCATION_ERROR, cs_close cm)
      else
        (True, status,
         \<lparr>cs_matcher = Some \<lparr>us_collator = collator, us_pattern = ci_units pattern, us_text = ci_units subject, us_next = 0, us_matched = 0\<rparr>,
          cs_collator = Some collator, cs_pattern_identity = ci_identity pattern\<rparr>))"

definition cs_rebind :: "usearch_engine \<Rightarrow> usearch_handle \<Rightarrow> collation_input \<Rightarrow> collation_input \<Rightarrow> collation_matcher \<Rightarrow> bool \<times> int \<times> collation_matcher" where
  "cs_rebind ue us subject pattern cm =
     (let changed = (cs_pattern_identity cm \<noteq> ci_identity pattern);
          status = (if changed then ue_set_pattern ue (ci_units pattern) else 0)
      in
      if U_FAILURE status then (False, status, cs_close cm)
      else
        let us = (if changed then us\<lparr>us_pattern := ci_units pattern\<rparr> else us);
            status = ue_set_text ue (ci_units subject)
        in
        if U_FAILURE status then (False, status, cs_close cm)
        else
          (True, status,
           cm\<lparr>cs_matcher := Some (us\<lparr>us_text := ci_units subject, us_next := 0, us_matched := 0\<rparr>),
              cs_pattern_identity := ci_identity pattern\<rparr>))"

definition cs_prepare ::
  "usearch_engine \<Rightarrow> nat option \<Rightarrow> collation_input \<Rightarrow> collation_input \<Rightarrow> collation_matcher \<Rightarrow> bool \<times> int \<times> collation_matcher" where
  "cs_prepare ue collator subject pattern cm =
     (if collator = None \<or> ci_missing subject \<or> ci_missing pattern \<or> ci_length subject < 0 \<or> ci_length pattern \<le> 0 \<or>
          ci_data subject = None \<and> ci_length subject \<noteq> 0 \<or> ci_data pattern = None \<or> ci_identity pattern = None then
        (False, U_ILLEGAL_ARGUMENT_ERROR, cm)
      else
        case cs_matcher cm of
          None \<Rightarrow> cs_open ue (the collator) subject pattern cm
        | Some us \<Rightarrow>
            if cs_collator cm \<noteq> collator then cs_open ue (the collator) subject pattern cm
            else cs_rebind ue us subject pattern cm)"

text \<open>The matcher after a search that ended with a status, which closes it where the status is a failure.\<close>

definition cs_done :: "collation_matcher \<Rightarrow> usearch_handle \<Rightarrow> int \<Rightarrow> collation_matcher" where
  "cs_done cm us status = (if U_FAILURE status then cs_close cm else cm\<lparr>cs_matcher := Some us\<rparr>)"

function cs_count_loop :: "usearch_engine \<Rightarrow> int \<Rightarrow> usearch_handle \<Rightarrow> int \<Rightarrow> int \<times> int \<times> usearch_handle" where
  "cs_count_loop ue status us result =
     (let (start, status, us) = usearch_next ue status us in
      if start \<noteq> USEARCH_DONE \<and> \<not> U_FAILURE status then cs_count_loop ue status us (result + 1) else (result, status, us))"
  by pat_completeness auto
termination
  by (relation "measure (\<lambda>(ue, status, us, result). us_rest ue us)") (auto dest!: sym [of _ "usearch_next _ _ _"] dest: usearch_next_rest)

declare cs_count_loop.simps [simp del]

definition cs_count ::
  "usearch_engine \<Rightarrow> nat option \<Rightarrow> collation_input \<Rightarrow> collation_input \<Rightarrow> collation_matcher \<Rightarrow> int \<times> int \<times> collation_matcher" where
  "cs_count ue collator subject pattern cm =
     (case cs_prepare ue collator subject pattern cm of
        (False, status, cm) \<Rightarrow> (0, status, cm)
      | (True, status, cm) \<Rightarrow>
          let (result, status, us) = cs_count_loop ue 0 (the (cs_matcher cm)) 0
          in (result, status, cs_done cm us status))"

definition cs_contains ::
  "usearch_engine \<Rightarrow> nat option \<Rightarrow> collation_input \<Rightarrow> collation_input \<Rightarrow> collation_matcher \<Rightarrow> bool \<times> int \<times> collation_matcher" where
  "cs_contains ue collator subject pattern cm =
     (case cs_prepare ue collator subject pattern cm of
        (False, status, cm) \<Rightarrow> (False, status, cm)
      | (True, status, cm) \<Rightarrow>
          let (match, status, us) = usearch_next ue status (the (cs_matcher cm))
          in (\<not> U_FAILURE status \<and> match \<noteq> USEARCH_DONE, status, cs_done cm us status))"

definition cs_find_first ::
  "usearch_engine \<Rightarrow> nat option \<Rightarrow> collation_input \<Rightarrow> collation_input \<Rightarrow> collation_matcher \<Rightarrow>
   collation_range option \<times> int \<times> collation_matcher" where
  "cs_find_first ue collator subject pattern cm =
     (case cs_prepare ue collator subject pattern cm of
        (False, status, cm) \<Rightarrow> (None, status, cm)
      | (True, status, cm) \<Rightarrow>
          let (start, status, us) = usearch_first ue status (the (cs_matcher cm)) in
          (if U_FAILURE status \<or> start = USEARCH_DONE then None else Some (start, start + us_matched us),
           status, cs_done cm us status))"

function cs_all_loop ::
  "usearch_engine \<Rightarrow> int \<Rightarrow> int \<Rightarrow> usearch_handle \<Rightarrow> collation_range list \<Rightarrow> collation_range list \<times> int \<times> usearch_handle" where
  "cs_all_loop ue start status us matches =
     (if start \<noteq> USEARCH_DONE \<and> \<not> U_FAILURE status then
        let matches = matches @ [(start, start + us_matched us)];
            (start, status, us) = usearch_next ue status us
        in cs_all_loop ue start status us matches
      else (matches, status, us))"
  by pat_completeness auto
termination
  by (relation "measure (\<lambda>(ue, start, status, us, matches). us_rest ue us + (if start \<noteq> USEARCH_DONE then 1 else 0))")
    (auto dest!: sym [of _ "usearch_next _ _ _"] dest: usearch_next_rest)

declare cs_all_loop.simps [simp del]

definition cs_find_all ::
  "usearch_engine \<Rightarrow> nat option \<Rightarrow> collation_input \<Rightarrow> collation_input \<Rightarrow> collation_matcher \<Rightarrow>
   collation_range list \<times> int \<times> collation_matcher" where
  "cs_find_all ue collator subject pattern cm =
     (case cs_prepare ue collator subject pattern cm of
        (False, status, cm) \<Rightarrow> ([], status, cm)
      | (True, status, cm) \<Rightarrow>
          let (start, status, us) = usearch_first ue status (the (cs_matcher cm));
              (matches, status, us) = cs_all_loop ue start status us []
          in (matches, status, cs_done cm us status))"

function cs_split_loop ::
  "usearch_engine \<Rightarrow> bool \<Rightarrow> int \<Rightarrow> int \<Rightarrow> usearch_handle \<Rightarrow> collation_range list \<times> int \<Rightarrow>
   (collation_range list \<times> int) \<times> int \<times> usearch_handle" where
  "cs_split_loop ue omit_empty search_limit status us st =
     (if snd st < search_limit \<and> \<not> U_FAILURE status then
        let (start, status, us) = usearch_next ue status us in
        if start = USEARCH_DONE \<or> U_FAILURE status then (st, status, us)
        else cs_split_loop ue omit_empty search_limit status us (split_step omit_empty start (start + us_matched us) st)
      else (st, status, us))"
  by pat_completeness auto
termination
  by (relation "measure (\<lambda>(ue, omit_empty, search_limit, status, us, st). us_rest ue us)")
    (auto dest!: sym [of _ "usearch_next _ _ _"] dest: usearch_next_rest)

declare cs_split_loop.simps [simp del]

definition cs_split ::
  "usearch_engine \<Rightarrow> nat option \<Rightarrow> collation_input \<Rightarrow> collation_input \<Rightarrow> int \<Rightarrow> bool \<Rightarrow> bool \<Rightarrow> collation_matcher \<Rightarrow>
   fixed_split_result \<times> collation_range list \<times> int \<times> collation_matcher" where
  "cs_split ue collator subject pattern n omit_empty tokens_only cm =
     (case cs_prepare ue collator subject pattern cm of
        (False, status, cm) \<Rightarrow> (Split_ok, [], status, cm)
      | (True, status, cm) \<Rightarrow>
          if n \<ge> INT_MAX - 1 then (Limit_too_large, [], status, cm)
          else if n = 0 then (Split_ok, [], status, cm)
          else
            let (field_limit, search_limit) = split_limits n tokens_only;
                ((flds, _), status, us) = cs_split_loop ue omit_empty search_limit status (the (cs_matcher cm)) ([(0, 0)], 1)
            in
            if U_FAILURE status then (Split_ok, flds, status, cs_close cm)
            else
              (Split_ok, split_finish omit_empty tokens_only field_limit (ci_length subject) flds, status, cs_done cm us status))"

definition cs_starts_with ::
  "usearch_engine \<Rightarrow> nat option \<Rightarrow> collation_input \<Rightarrow> collation_input \<Rightarrow> int \<Rightarrow> collation_matcher \<Rightarrow> bool \<times> int \<times> collation_matcher" where
  "cs_starts_with ue collator subject pattern start cm =
     (if ci_missing subject \<or> start < 0 \<or> start \<ge> ci_length subject \<or> ci_data subject = None then
        (False, if start < 0 \<or> start > ci_length subject then U_ILLEGAL_ARGUMENT_ERROR else 0, cm)
      else
        let suffix = \<lparr>ci_identity = ci_identity subject, ci_data = Some (drop (nat start) (the (ci_data subject))),
                      ci_length = ci_length subject - start, ci_missing = False\<rparr>
        in
        case cs_prepare ue collator suffix pattern cm of
          (False, status, cm) \<Rightarrow> (False, status, cm)
        | (True, status, cm) \<Rightarrow>
            let (match, status, us) = usearch_first ue status (the (cs_matcher cm))
            in (\<not> U_FAILURE status \<and> match = 0, status, cs_done cm us status))"

definition cs_ends_with ::
  "usearch_engine \<Rightarrow> nat option \<Rightarrow> collation_input \<Rightarrow> collation_input \<Rightarrow> int \<Rightarrow> collation_matcher \<Rightarrow> bool \<times> int \<times> collation_matcher" where
  "cs_ends_with ue collator subject pattern stop cm =
     (if ci_missing subject \<or> stop \<le> 0 \<or> stop > ci_length subject \<or> ci_data subject = None then
        (False, if stop < 0 \<or> stop > ci_length subject then U_ILLEGAL_ARGUMENT_ERROR else 0, cm)
      else
        let prefix = subject\<lparr>ci_length := stop, ci_missing := False\<rparr> in
        case cs_prepare ue collator prefix pattern cm of
          (False, status, cm) \<Rightarrow> (False, status, cm)
        | (True, status, cm) \<Rightarrow>
            let (match, status, us) = usearch_last ue status (the (cs_matcher cm))
            in (\<not> U_FAILURE status \<and> match \<noteq> USEARCH_DONE \<and> match + us_matched us = stop, status, cs_done cm us status))"

subsection \<open>Slices and replacement\<close>

text \<open>\<open>to_utf8\<close> is \<open>u_strToUTF8\<close>: the status and the bytes. The slice is its bytes and the ASCII mark; \<open>Inr\<close>
  carries the status.\<close>

definition collation_utf8_slice ::
  "(uchar list \<Rightarrow> nat \<Rightarrow> int \<times> byte list) \<Rightarrow> collation_input \<Rightarrow> collation_range \<Rightarrow> (byte list \<times> bool \<times> int) result" where
  "collation_utf8_slice to_utf8 subject rng =
     (if ci_missing subject \<or> ci_length subject < 0 \<or> ci_data subject = None \<and> ci_length subject \<noteq> 0 \<or> fst rng < 0 \<or>
          snd rng < fst rng \<or> snd rng > ci_length subject then
        Inr ([], True, U_ILLEGAL_ARGUMENT_ERROR)
      else
        let utf16_length = snd rng - fst rng in
        if utf16_length = 0 then Inr ([], True, 0)
        else if utf16_length > INT_MAX div 3 - 10 then Inl (Length_error ''UTF-8 output exceeds ICU's length limit'')
        else
          let (status, bytes) = to_utf8 (slice (the (ci_data subject)) (nat (fst rng)) (nat (snd rng))) (nat utf16_length * 3) in
          if U_FAILURE status then Inr ([], True, status) else Inr (bytes, int (length bytes) = utf16_length, status))"

fun collation_removed :: "int \<Rightarrow> collation_range list \<Rightarrow> nat \<Rightarrow> int \<Rightarrow> nat result" where
  "collation_removed len [] removed previous_end = Inr removed"
| "collation_removed len (r # rs) removed previous_end =
     (if fst r < previous_end \<or> fst r < 0 \<or> snd r < fst r \<or> snd r > len then
        Inl (Out_of_range ''collation replacement range is out of bounds'')
      else collation_removed len rs (removed + nat (snd r - fst r)) (snd r))"

fun collation_append :: "uchar list \<Rightarrow> uchar list \<Rightarrow> collation_range list \<Rightarrow> nat \<Rightarrow> uchar list \<Rightarrow> uchar list \<times> nat" where
  "collation_append data replacement [] source_offset answer = (answer, source_offset)"
| "collation_append data replacement (r # rs) source_offset answer =
     collation_append data replacement rs (nat (snd r)) (answer @ slice data source_offset (nat (fst r)) @ replacement)"

definition write_collation_replacement ::
  "collation_input \<Rightarrow> collation_input \<Rightarrow> collation_range list \<Rightarrow> uchar list result" where
  "write_collation_replacement subject replacement ranges =
     (if ci_missing subject \<or> ci_missing replacement \<or> ci_length subject < 0 \<or> ci_length replacement < 0 \<or>
          ci_data subject = None \<and> ci_length subject \<noteq> 0 \<or> ci_data replacement = None \<and> ci_length replacement \<noteq> 0 then
        Inl (Invalid_argument ''invalid collation replacement input'')
      else
        bindE (collation_removed (ci_length subject) ranges 0 0) (\<lambda>removed.
          let source_size = nat (ci_length subject) in
          if removed > source_size then Inl (Length_error ''collation replacement range overflow'')
          else
            let unmatched = source_size - removed;
                replacement_size = nat (ci_length replacement)
            in
            if replacement_size > 0 \<and> length ranges > (nat INT_MAX - unmatched) div replacement_size then
              Inl (Length_error ''collation replacement output exceeds ICU's length limit'')
            else
              let (answer, source_offset) = collation_append (ci_units subject) (ci_units replacement) ranges 0 []
              in Inr (answer @ slice (ci_units subject) source_offset source_size)))"

subsection \<open>Records that were handed out stay\<close>

definition record_input :: "(byte list \<Rightarrow> uchar list) \<Rightarrow> nat \<Rightarrow> string_view \<Rightarrow> collation_input" where
  "record_input f i v =
     (if is_na v then \<lparr>ci_identity = Some i, ci_data = None, ci_length = - 1, ci_missing = True\<rparr>
      else \<lparr>ci_identity = Some i, ci_data = Some (f (sv_bytes v)), ci_length = int (length (f (sv_bytes v))), ci_missing = False\<rparr>)"

definition cursor_ok :: "(byte list \<Rightarrow> uchar list) \<Rightarrow> (nat \<Rightarrow> string_view) \<Rightarrow> collation_cursor \<Rightarrow> bool" where
  "cursor_ok f rec cc \<longleftrightarrow> length (cc_values cc) = 2 \<and> cc_active cc < 2 \<and>
     (case cc_identity cc of
        None \<Rightarrow> True
      | Some i \<Rightarrow> (is_na (rec i) \<or> collation_checks (rec i) = Inr ()) \<and> cc_current cc = record_input f i (rec i))"

lemma cursor_ok_init: "cursor_ok f rec CollationCursor"
  by (simp add: cursor_ok_def CollationCursor_def)

text \<open>C13. The collation cursor answers every record with its own text, whatever it was asked before, keeps its
  invariant also where it throws, and never writes to the buffer it handed out last, which ICU
  still borrows.\<close>

theorem collation_cursor_keeps_borrowed:
  assumes "cursor_ok f rec cc"
  shows "case cc_get f (Some i) (rec i) cc of (cc', r) \<Rightarrow>
    r = (if is_na (rec i) then Inr (record_input f i (rec i)) else bindE (collation_checks (rec i)) (\<lambda>_. Inr (record_input f i (rec i)))) \<and>
    cursor_ok f rec cc' \<and> cc_values cc' ! cc_active cc = cc_values cc ! cc_active cc"
proof (cases "cc_identity cc = Some i")
  case True
  then show ?thesis using assms by (auto simp: cc_get_def cursor_ok_def)
next
  case False
  show ?thesis
  proof (cases "is_na (rec i)")
    case True
    then show ?thesis using False assms
      by (auto simp: cc_get_def cursor_ok_def record_input_def cc_current_def Let_def)
  next
    case valid: False
    show ?thesis
    proof (cases "collation_checks (rec i)")
      case (Inl e)
      then show ?thesis using False valid assms by (auto simp: cc_get_def)
    next
      case (Inr u)
      have "cc_active cc = 0 \<or> cc_active cc = 1" using assms by (auto simp: cursor_ok_def)
      then show ?thesis using Inr False valid assms
        by (auto simp: cc_get_def cursor_ok_def record_input_def cc_current_def Let_def)
    qed
  qed
qed

theorem collation_cursor_keeps_borrowed_witness:
  "snd (cc_get u16_text (Some 2) (sample_records 2) CollationCursor) = Inl (Invalid_argument ''collation input must be normalized to UTF-8'') \<and>
   snd (cc_get u16_text (Some 0) (sample_records 0) CollationCursor) = Inr (record_input u16_text 0 (sample_records 0))"
  using collation_cursor_keeps_borrowed [OF cursor_ok_init, where rec = sample_records and f = u16_text and i = 2]
    collation_cursor_keeps_borrowed [OF cursor_ok_init, where rec = sample_records and f = u16_text and i = 0]
  by (simp add: case_prod_beta collation_checks_def sample_records_def view_of_def)

subsection \<open>Positions and offsets are those of the code points\<close>

text \<open>The boundaries of code points in code units, surrogates without a partner counted alone: the offset of a
  boundary, the boundaries before an offset and their number.\<close>

abbreviation uc_pos :: "uchar list \<Rightarrow> nat \<Rightarrow> nat" where
  "uc_pos d \<equiv> cp_pos (\<lambda>i. U16_FWD_1 d i (length d)) (length d)"

abbreviation uc_index :: "uchar list \<Rightarrow> nat \<Rightarrow> nat" where
  "uc_index d \<equiv> cp_index (\<lambda>i. U16_FWD_1 d i (length d)) (length d)"

abbreviation uc_count :: "uchar list \<Rightarrow> nat" where
  "uc_count d \<equiv> cp_count (\<lambda>i. U16_FWD_1 d i (length d)) (length d)"

lemma utf16_walk_index:
  assumes "t \<le> length d" "k \<le> uc_index d t"
  shows "utf16_walk d (length d) t (uc_pos d k) k = (uc_pos d (uc_index d t), uc_index d t)"
  using assms(2)
proof (induction rule: inc_induct)
  case base
  have "\<not> uc_pos d (uc_index d t) < t" using u16f.cp_index_less_iff [OF assms(1)] by blast
  then show ?case by (subst utf16_walk.simps) simp
next
  case (step k)
  have less: "uc_pos d k < t" using u16f.cp_index_less_iff [OF assms(1)] step(2) by blast
  then have "U16_FWD_1 d (uc_pos d k) (length d) = uc_pos d (Suc k)" using assms(1) by simp
  then show ?case using less step(3) by (subst utf16_walk.simps) simp
qed

definition pos_inv :: "uchar list \<Rightarrow> collation_position_cursor \<Rightarrow> bool" where
  "pos_inv d cp \<longleftrightarrow> cp_data cp = Some d \<and> cp_length cp = int (length d) \<and>
     cp_position cp \<le> uc_count d \<and> cp_utf16 cp = uc_pos d (cp_position cp)"

lemma pos_inv_init: "\<not> ci_missing ci \<Longrightarrow> ci_data ci = Some d \<Longrightarrow> ci_length ci = int (length d) \<Longrightarrow> pos_inv d (CollationPositionCursor ci)"
  by (simp add: pos_inv_def CollationPositionCursor_def)

text \<open>The offset a target stands for: clamped to the text.\<close>

definition clamp_offset :: "uchar list \<Rightarrow> int \<Rightarrow> nat" where
  "clamp_offset d t = nat (min (max t 0) (int (length d)))"

lemma at_utf16_exact:
  assumes "pos_inv d cp"
  shows "\<exists>cp'. at_utf16 cp t = (cp', int (uc_index d (clamp_offset d t))) \<and> pos_inv d cp'"
proof (cases "d = []")
  case True
  then show ?thesis using assms by (simp add: at_utf16_def pos_inv_def clamp_offset_def cp_index_def)
next
  case False
  let ?t = "clamp_offset d t"
  have le: "?t \<le> length d" by (simp add: clamp_offset_def)
  have clamp: "(if (if t < 0 then 0 else t) > int (length d) then int (length d) else (if t < 0 then 0 else t)) = int ?t"
    by (simp add: clamp_offset_def)
  define k where "k = (if ?t < cp_utf16 cp then 0 else cp_position cp)"
  have "k \<le> uc_index d ?t"
  proof (cases "cp_position cp = 0 \<or> ?t < cp_utf16 cp")
    case ahead: False
    then have "uc_pos d (cp_position cp - 1) < uc_pos d (cp_position cp)"
      using assms u16f.cp_pos_less_pos [of "cp_position cp - 1" "cp_position cp" d "length d"] by (simp add: pos_inv_def)
    then have "uc_pos d (cp_position cp - 1) < ?t" using ahead assms by (simp add: pos_inv_def)
    then show ?thesis using u16f.cp_index_less_iff [OF le] ahead k_def by fastforce
  qed (auto simp: k_def)
  from utf16_walk_index [OF le this]
  have walk: "utf16_walk d (length d) ?t (uc_pos d k) k = (uc_pos d (uc_index d ?t), uc_index d ?t)" .
  have start: "cp_utf16 cp = uc_pos d (cp_position cp)" "cp_data cp = Some d" "cp_length cp = int (length d)"
    using assms by (simp_all add: pos_inv_def)
  have "at_utf16 cp t = (cp\<lparr>cp_utf16 := uc_pos d (uc_index d ?t), cp_position := uc_index d ?t\<rparr>, int (uc_index d ?t))"
    using walk False unfolding at_utf16_def start(2,3) Let_def clamp
    by (cases "?t < cp_utf16 cp") (simp_all add: k_def start)
  then show ?thesis using start u16f.cp_index_count [OF le] by (simp add: pos_inv_def)
qed

text \<open>C25. The position cursor converts every UTF-16 range of a text to the positions of its code points, for
  ranges in any order and offsets outside the text or inside a surrogate pair, and keeps its
  invariant.\<close>

theorem collation_positions_exact:
  assumes "pos_inv d cp"
  shows "case to_r_range cp rng return_length of (cp', r) \<Rightarrow> pos_inv d cp' \<and>
    (let first = int (uc_index d (clamp_offset d (fst rng))); stop = int (uc_index d (clamp_offset d (snd rng)))
     in r = (one_based_position first, if return_length then stop - first else stop))"
proof -
  obtain c where c: "at_utf16 cp (fst rng) = (c, int (uc_index d (clamp_offset d (fst rng))))" "pos_inv d c"
    using at_utf16_exact [OF assms] by blast
  obtain c' where "at_utf16 c (snd rng) = (c', int (uc_index d (clamp_offset d (snd rng))))" "pos_inv d c'"
    using at_utf16_exact [OF c(2)] by blast
  with c show ?thesis by (simp add: to_r_range_def)
qed

definition units_input :: "nat \<Rightarrow> uchar list \<Rightarrow> collation_input" where
  "units_input i d = \<lparr>ci_identity = Some i, ci_data = Some d, ci_length = int (length d), ci_missing = False\<rparr>"

lemma units_input_simps [simp]:
  "ci_identity (units_input i d) = Some i" "ci_data (units_input i d) = Some d"
  "ci_length (units_input i d) = int (length d)" "\<not> ci_missing (units_input i d)" "ci_units (units_input i d) = d"
  by (simp_all add: units_input_def ci_units_def)

lemma pos_inv_units [simp]: "pos_inv d (CollationPositionCursor (units_input i d))"
  by (simp add: pos_inv_init)

theorem collation_positions_exact_witness:
  "snd (to_r_range (CollationPositionCursor (units_input 1 [0xd83d, 0xde00, 0x61, 0x62])) (2, 9) False) = (2, 3)"
proof -
  let ?d = "[0xd83d, 0xde00, 0x61, 0x62] :: uchar list"
  have "uc_index ?d 2 = 1" "uc_index ?d 4 = 3" by code_simp+
  then show ?thesis
    using collation_positions_exact [OF pos_inv_units [of ?d 1], of "(2, 9)" False]
    by (simp add: case_prod_beta clamp_offset_def one_based_position_def INT_MAX_def)
qed

text \<open>The offsets of R's positions are the boundaries of those code points, counted from the end where the
  position is negative and clamped to the text; the position of such an offset is the position
  it came from.\<close>

lemma collation_offsets_exact:
  "utf16_start_offset (units_input i d) p =
     int (uc_pos d (if p \<ge> 0 then nat (p - 1) else uc_count d - nat (- p))) \<and>
   utf16_end_offset (units_input i d) p =
     int (uc_pos d (if p \<ge> 0 then nat p else uc_count d - nat (- p - 1))) \<and>
   snd (at_utf16 (CollationPositionCursor (units_input i d)) (utf16_end_offset (units_input i d) p)) =
     int (if p \<ge> 0 then min (nat p) (uc_count d) else uc_count d - nat (- p - 1))"
proof -
  have start: "utf16_start_offset (units_input i d) p = int (uc_pos d (if p \<ge> 0 then nat (p - 1) else uc_count d - nat (- p)))"
    using u16f.cp_pos_le [of d "length d" "if p \<ge> 0 then nat (p - 1) else uc_count d - nat (- p)"]
    by (auto simp: utf16_start_offset_def U16_FWD_N_def U16_BACK_N_def u16f.fwd_steps_start u16.back_steps_end [where s = d and n = "length d"])
  define k where "k = (if p \<ge> 0 then min (nat p) (uc_count d) else uc_count d - nat (- p - 1))"
  have k: "k \<le> uc_count d" by (simp add: k_def)
  have pos: "uc_pos d (if p \<ge> 0 then nat p else uc_count d - nat (- p - 1)) = uc_pos d k"
    using u16f.cp_pos_min [of d "length d" "nat p"] by (simp add: k_def)
  have stop: "utf16_end_offset (units_input i d) p = int (uc_pos d k)"
    using u16f.cp_pos_le [of d "length d" k] u16f.cp_pos_count [of d "length d"] unfolding pos [symmetric]
    by (auto simp: utf16_end_offset_def U16_FWD_N_def U16_BACK_N_def u16f.fwd_steps_start u16.back_steps_end [where s = d and n = "length d"])
  have "clamp_offset d (int (uc_pos d k)) = uc_pos d k"
    using u16f.cp_pos_le [of d "length d" k] by (simp add: clamp_offset_def)
  then have "snd (at_utf16 (CollationPositionCursor (units_input i d)) (int (uc_pos d k))) = int k"
    using at_utf16_exact [OF pos_inv_units [of d i], of "int (uc_pos d k)"] u16f.cp_index_pos [OF k] by fastforce
  then show ?thesis using start stop pos by (simp add: k_def)
qed

subsection \<open>The matcher answers as a new one\<close>

text \<open>The matches of a list of results up to the first failure, as ranges, and the status the search ends with.\<close>

fun us_hits :: "us_find list \<Rightarrow> (nat \<times> nat) list" where
  "us_hits (Us_hit start len # fs) = (start, start + len) # us_hits fs"
| "us_hits fs = []"

fun us_status :: "us_find list \<Rightarrow> int" where
  "us_status (Us_hit start len # fs) = us_status fs"
| "us_status (Us_fail e # fs) = e"
| "us_status [] = 0"

text \<open>What is used of ICU: with this collator, handles can be opened and rebound for patterns and texts that are not
  empty; ICU refuses empty ones.\<close>

definition engine_binds :: "usearch_engine \<Rightarrow> nat \<Rightarrow> bool" where
  "engine_binds ue c \<longleftrightarrow>
     (\<forall>p t. p \<noteq> [] \<longrightarrow> t \<noteq> [] \<longrightarrow> ue_open ue c p t = (0, True) \<and> ue_set_pattern ue p = 0 \<and> ue_set_text ue t = 0)"

text \<open>The pattern a handle keeps is that of the stored identity: records do not change.\<close>

definition matcher_ok :: "(nat \<Rightarrow> uchar list) \<Rightarrow> collation_matcher \<Rightarrow> bool" where
  "matcher_ok pat cm \<longleftrightarrow>
     (case cs_matcher cm of
        None \<Rightarrow> True
      | Some us \<Rightarrow> cs_collator cm = Some (us_collator us) \<and>
          (case cs_pattern_identity cm of None \<Rightarrow> False | Some p \<Rightarrow> us_pattern us = pat p))"

lemma matcher_ok_init [simp]: "matcher_ok pat CollationMatcher" "matcher_ok pat (cs_close cm)"
  by (simp_all add: matcher_ok_def CollationMatcher_def cs_close_def)

definition subject_ready :: "collation_input \<Rightarrow> bool" where
  "subject_ready ci \<longleftrightarrow> \<not> ci_missing ci \<and> ci_length ci \<ge> 0 \<and> (ci_data ci = None \<longrightarrow> ci_length ci = 0)"

definition search_ready :: "collation_input \<Rightarrow> bool" where
  "search_ready ci \<longleftrightarrow> subject_ready ci \<and> ci_units ci \<noteq> []"

definition pattern_ready :: "(nat \<Rightarrow> uchar list) \<Rightarrow> collation_input \<Rightarrow> bool" where
  "pattern_ready pat ci \<longleftrightarrow> \<not> ci_missing ci \<and> ci_length ci > 0 \<and> ci_data ci \<noteq> None \<and> ci_units ci \<noteq> [] \<and>
     (case ci_identity ci of None \<Rightarrow> False | Some p \<Rightarrow> ci_units ci = pat p)"

definition fresh_handle :: "nat \<Rightarrow> collation_input \<Rightarrow> collation_input \<Rightarrow> usearch_handle" where
  "fresh_handle c subject pattern =
     \<lparr>us_collator = c, us_pattern = ci_units pattern, us_text = ci_units subject, us_next = 0, us_matched = 0\<rparr>"

lemma cs_prepare_fresh:
  assumes "engine_binds ue c" "matcher_ok pat cm" "search_ready subject" "pattern_ready pat pattern"
  shows "cs_prepare ue (Some c) subject pattern cm =
    (True, 0, \<lparr>cs_matcher = Some (fresh_handle c subject pattern), cs_collator = Some c, cs_pattern_identity = ci_identity pattern\<rparr>)"
proof -
  obtain p where p: "ci_identity pattern = Some p" "ci_units pattern = pat p"
    using assms(4) by (auto simp: pattern_ready_def split: option.splits)
  have guard: "\<not> (Some c = None \<or> ci_missing subject \<or> ci_missing pattern \<or> ci_length subject < 0 \<or> ci_length pattern \<le> 0 \<or>
      ci_data subject = None \<and> ci_length subject \<noteq> 0 \<or> ci_data pattern = None \<or> ci_identity pattern = None)"
    using assms(3,4) p by (auto simp: search_ready_def subject_ready_def pattern_ready_def)
  have ok: "\<not> U_FAILURE 0" by (simp add: U_FAILURE_def)
  have binds: "ue_open ue c (ci_units pattern) (ci_units subject) = (0, True)" "ue_set_pattern ue (pat p) = 0"
    "ue_set_text ue (ci_units subject) = 0"
    using assms(1,3,4) p(2) by (auto simp: engine_binds_def search_ready_def pattern_ready_def)
  have new: "cs_open ue c subject pattern cm =
    (True, 0, \<lparr>cs_matcher = Some (fresh_handle c subject pattern), cs_collator = Some c, cs_pattern_identity = ci_identity pattern\<rparr>)"
    using binds ok by (simp add: cs_open_def fresh_handle_def)
  show ?thesis
  proof (cases "cs_matcher cm")
    case None
    then show ?thesis unfolding cs_prepare_def if_not_P [OF guard] by (simp add: new)
  next
    case (Some us)
    show ?thesis
    proof (cases "cs_collator cm = Some c")
      case True
      obtain q where "us_collator us = c" "cs_pattern_identity cm = Some q" "us_pattern us = pat q"
        using assms(2) Some True by (auto simp: matcher_ok_def split: option.splits)
      then show ?thesis
        using Some True binds ok p unfolding cs_prepare_def if_not_P [OF guard]
        by (cases cm; cases us; cases "q = p") (simp_all add: cs_rebind_def fresh_handle_def Let_def)
    next
      case False
      then show ?thesis using Some unfolding cs_prepare_def if_not_P [OF guard] by (simp add: new)
    qed
  qed
qed

text \<open>A handle that stands at result \<open>j\<close> of its list \<open>fs\<close>, of which \<open>drop j fs\<close> is left.\<close>

definition us_stands :: "usearch_engine \<Rightarrow> us_find list \<Rightarrow> nat \<Rightarrow> uchar list \<Rightarrow> nat \<Rightarrow> usearch_handle \<Rightarrow> bool" where
  "us_stands ue fs c p j us \<longleftrightarrow>
     ue_forward ue (us_collator us) (us_pattern us) (us_text us) = fs \<and> us_collator us = c \<and> us_pattern us = p \<and> us_next us = j"

lemma us_stands_fresh:
  "us_stands ue (ue_forward ue c (ci_units pattern) (ci_units subject)) c (ci_units pattern) 0 (fresh_handle c subject pattern)"
  by (simp add: us_stands_def fresh_handle_def)

lemma usearch_next_hit:
  assumes "us_stands ue fs c p j us" "drop j fs = Us_hit a l # rest"
  shows "\<exists>us'. usearch_next ue 0 us = (int a, 0, us') \<and> us_matched us' = int l \<and> us_stands ue fs c p (Suc j) us' \<and> drop (Suc j) fs = rest"
proof -
  have "j < length fs" using assms(2) by (metis drop_all list.distinct(1) not_less)
  moreover from this have "fs ! j = Us_hit a l" "drop (Suc j) fs = rest" using assms(2) by (metis Cons_nth_drop_Suc list.inject)+
  ultimately show ?thesis using assms(1) by (auto simp: usearch_next_def us_stands_def Let_def U_FAILURE_def)
qed

lemma usearch_next_stop:
  assumes "us_stands ue fs c p j us" "us_hits (drop j fs) = []"
  shows "\<exists>us'. usearch_next ue 0 us = (USEARCH_DONE, us_status (drop j fs), us') \<and> us_collator us' = c \<and> us_pattern us' = p"
proof (cases "drop j fs")
  case Nil
  then show ?thesis using assms(1) by (auto simp: usearch_next_def us_stands_def Let_def U_FAILURE_def)
next
  case (Cons f rest)
  then have "j < length fs" by (metis drop_all list.distinct(1) not_less)
  moreover from this have "fs ! j = f" using Cons by (metis Cons_nth_drop_Suc list.inject)
  ultimately show ?thesis using assms Cons by (cases f) (auto simp: usearch_next_def us_stands_def Let_def U_FAILURE_def)
qed

text \<open>The end of a search keeps the handle on its collator and pattern.\<close>

definition us_kept :: "nat \<Rightarrow> uchar list \<Rightarrow> usearch_handle \<Rightarrow> bool" where
  "us_kept c p us \<longleftrightarrow> us_collator us = c \<and> us_pattern us = p"

lemma usearch_next_kept: "us_kept c p us \<Longrightarrow> usearch_next ue status us = (start, status', us') \<Longrightarrow> us_kept c p us'"
  by (auto simp: usearch_next_def us_kept_def Let_def split: if_splits us_find.splits)

lemma usearch_last_kept: "us_kept c p us \<Longrightarrow> usearch_last ue status us = (start, status', us') \<Longrightarrow> us_kept c p us'"
  by (auto simp: usearch_last_def us_kept_def split: if_splits us_find.splits option.splits)

lemma usearch_first_fresh: "usearch_first ue status (fresh_handle c subject pattern) = usearch_next ue status (fresh_handle c subject pattern)"
  by (simp add: usearch_first_def fresh_handle_def)

lemma fresh_kept: "us_kept c (ci_units pattern) (fresh_handle c subject pattern)"
  by (simp add: us_kept_def fresh_handle_def)

lemma cs_done_ok:
  assumes "pattern_ready pat pattern" "us_kept c (ci_units pattern) us"
  shows "matcher_ok pat (cs_done \<lparr>cs_matcher = m, cs_collator = Some c, cs_pattern_identity = ci_identity pattern\<rparr> us status)"
  using assms by (auto simp: cs_done_def cs_close_def matcher_ok_def us_kept_def pattern_ready_def split: option.splits)

lemma us_hits_cases:
  obtains (stop) "us_hits fs = []" | (hit) a l rest where "fs = Us_hit a l # rest" "us_hits fs = (a, a + l) # us_hits rest" "us_status fs = us_status rest"
  by (cases fs rule: us_hits.cases) auto

lemma U_FAILURE_zero [simp]: "\<not> U_FAILURE 0"
  by (simp add: U_FAILURE_def)

lemma start_not_done [simp]: "int a \<noteq> USEARCH_DONE"
  by (simp add: USEARCH_DONE_def)

lemma cs_count_loop_exact:
  assumes "us_stands ue fs c p j us"
  shows "\<exists>us'. cs_count_loop ue 0 us r = (r + int (length (us_hits (drop j fs))), us_status (drop j fs), us') \<and> us_kept c p us'"
  using assms
proof (induction "length (us_hits (drop j fs))" arbitrary: j us r)
  case 0
  then obtain us' where "usearch_next ue 0 us = (USEARCH_DONE, us_status (drop j fs), us')" "us_kept c p us'"
    using usearch_next_stop by (fastforce simp: us_kept_def)
  then show ?case using 0 by (subst cs_count_loop.simps) simp
next
  case (Suc n)
  then obtain a l rest where hit: "drop j fs = Us_hit a l # rest" by (cases "drop j fs" rule: us_hits_cases) auto
  from usearch_next_hit [OF Suc.prems hit] obtain us1 where us1: "usearch_next ue 0 us = (int a, 0, us1)"
    "us_stands ue fs c p (Suc j) us1" "drop (Suc j) fs = rest" by blast
  from Suc.hyps(1) [OF _ us1(2), of "r + 1"] Suc.hyps(2) hit us1 show ?case
    by (subst cs_count_loop.simps) (auto simp: algebra_simps)
qed

lemma cs_all_loop_exact:
  assumes "us_stands ue fs c p j us" "usearch_next ue 0 us = (start, status, us1)"
  shows "\<exists>us'. cs_all_loop ue start status us1 ms = (ms @ int_ranges (us_hits (drop j fs)), us_status (drop j fs), us') \<and> us_kept c p us'"
  using assms
proof (induction "length (us_hits (drop j fs))" arbitrary: j us start status us1 ms)
  case 0
  then have "start = USEARCH_DONE" "status = us_status (drop j fs)" "us_kept c p us1"
    using usearch_next_stop [OF 0(2)] by (auto simp: us_kept_def)
  then show ?case using 0 by (subst cs_all_loop.simps) simp
next
  case (Suc n)
  then obtain a l rest where hit: "drop j fs = Us_hit a l # rest" by (cases "drop j fs" rule: us_hits_cases) auto
  from usearch_next_hit [OF Suc.prems(1) hit] Suc.prems(2) have us1: "start = int a" "status = 0" "us_matched us1 = int l"
    "us_stands ue fs c p (Suc j) us1" "drop (Suc j) fs = rest" by auto
  obtain start2 status2 us2 where two: "usearch_next ue 0 us1 = (start2, status2, us2)" by (cases "usearch_next ue 0 us1")
  from Suc.hyps(1) [OF _ us1(4) two, of "ms @ [(int a, int a + int l)]"] Suc.hyps(2) hit us1 two show ?case
    by (subst cs_all_loop.simps) auto
qed

lemma cs_split_loop_exact:
  assumes "us_stands ue fs c p j us" "us_status (drop j fs) = 0"
  shows "\<exists>us'. cs_split_loop ue omit limit 0 us st = (split_run omit limit (us_hits (drop j fs)) st, 0, us') \<and> us_kept c p us'"
  using assms
proof (induction "length (us_hits (drop j fs))" arbitrary: j us st)
  case 0
  then obtain us' where "usearch_next ue 0 us = (USEARCH_DONE, 0, us')" "us_kept c p us'"
    using usearch_next_stop [OF 0(2)] by (auto simp: us_kept_def)
  moreover have "us_kept c p us" using 0(2) by (simp add: us_stands_def us_kept_def)
  ultimately show ?case using 0(1) by (subst cs_split_loop.simps) auto
next
  case (Suc n)
  then obtain a l rest where hit: "drop j fs = Us_hit a l # rest" by (cases "drop j fs" rule: us_hits_cases) auto
  from usearch_next_hit [OF Suc.prems(1) hit] obtain us1 where us1: "usearch_next ue 0 us = (int a, 0, us1)" "us_matched us1 = int l"
    "us_stands ue fs c p (Suc j) us1" "drop (Suc j) fs = rest" by blast
  have "us_kept c p us" using Suc.prems(1) by (simp add: us_stands_def us_kept_def)
  with Suc.hyps(1) [OF _ us1(3), of "split_step omit (int a) (int (a + l)) st"] Suc.hyps(2) Suc.prems(2) hit us1 show ?case
    by (subst cs_split_loop.simps) auto
qed

text \<open>C12. The matcher, whatever it searched before, with its handle kept, rebound or opened anew, returns the matches of
  this pattern in this subject: their number, whether there is one, the first and all of them;
  where a search fails, what was found before and the failure. It stays usable for every later
  search.\<close>

theorem collation_searches_exact:
  fixes c :: nat
  assumes "engine_binds ue c" "matcher_ok pat cm" "search_ready subject" "pattern_ready pat pattern"
  defines "fs \<equiv> ue_forward ue c (ci_units pattern) (ci_units subject)"
  defines "first_status \<equiv> (if us_hits fs = [] then us_status fs else 0)"
  shows "(\<exists>cm'. cs_count ue (Some c) subject pattern cm = (int (length (us_hits fs)), us_status fs, cm') \<and> matcher_ok pat cm') \<and>
    (\<exists>cm'. cs_contains ue (Some c) subject pattern cm = (us_hits fs \<noteq> [], first_status, cm') \<and> matcher_ok pat cm') \<and>
    (\<exists>cm'. cs_find_first ue (Some c) subject pattern cm =
       (if us_hits fs = [] then None else Some (hd (int_ranges (us_hits fs))), first_status, cm') \<and> matcher_ok pat cm') \<and>
    (\<exists>cm'. cs_find_all ue (Some c) subject pattern cm = (int_ranges (us_hits fs), us_status fs, cm') \<and> matcher_ok pat cm')"
proof -
  let ?h = "fresh_handle c subject pattern"
  note prep = cs_prepare_fresh [OF assms(1-4)]
  note stands = us_stands_fresh [of ue c pattern subject, folded fs_def]
  obtain start status us1 where step: "usearch_next ue 0 ?h = (start, status, us1)" by (cases "usearch_next ue 0 ?h")
  have kept: "us_kept c (ci_units pattern) us1" by (rule usearch_next_kept [OF fresh_kept step])
  obtain us2 where two: "cs_count_loop ue 0 ?h 0 = (int (length (us_hits fs)), us_status fs, us2)" "us_kept c (ci_units pattern) us2"
    using cs_count_loop_exact [OF stands, of 0] by auto
  obtain us3 where three: "cs_all_loop ue start status us1 [] = (int_ranges (us_hits fs), us_status fs, us3)" "us_kept c (ci_units pattern) us3"
    using cs_all_loop_exact [OF stands step, of "[]"] by auto
  have one: "status = first_status" "start = USEARCH_DONE \<longleftrightarrow> us_hits fs = []" "U_FAILURE status \<Longrightarrow> us_hits fs = []"
    "us_hits fs \<noteq> [] \<Longrightarrow> (start, start + us_matched us1) = hd (int_ranges (us_hits fs))"
  proof -
    have "status = first_status \<and> (start = USEARCH_DONE \<longleftrightarrow> us_hits fs = []) \<and> (U_FAILURE status \<longrightarrow> us_hits fs = []) \<and>
      (us_hits fs \<noteq> [] \<longrightarrow> (start, start + us_matched us1) = hd (int_ranges (us_hits fs)))"
    proof (cases fs rule: us_hits_cases)
      case stop
      then show ?thesis using usearch_next_stop [OF stands] step by (simp add: first_status_def)
    next
      case (hit a l rest)
      then show ?thesis using usearch_next_hit [OF stands, of a l rest] step by (auto simp: first_status_def)
    qed
    then show "status = first_status" "start = USEARCH_DONE \<longleftrightarrow> us_hits fs = []" "U_FAILURE status \<Longrightarrow> us_hits fs = []"
      "us_hits fs \<noteq> [] \<Longrightarrow> (start, start + us_matched us1) = hd (int_ranges (us_hits fs))" by simp_all
  qed
  note ok = cs_done_ok [OF assms(4)]
  show ?thesis
    using prep step two three one ok [OF kept] ok [OF two(2)] ok [OF three(2)]
    by (auto simp: cs_count_def cs_contains_def cs_find_first_def cs_find_all_def usearch_first_fresh)
qed

text \<open>The collation split cuts the subject at the matches as the reference does, for every field limit and both
  flags, whatever the matcher searched before.\<close>

lemma collation_split_exact:
  fixes c :: nat
  assumes "engine_binds ue c" "matcher_ok pat cm" "search_ready subject" "pattern_ready pat pattern"
    and "us_status (ue_forward ue c (ci_units pattern) (ci_units subject)) = 0"
  defines "ms \<equiv> us_hits (ue_forward ue c (ci_units pattern) (ci_units subject))"
  shows "\<exists>cm'. cs_split ue (Some c) subject pattern n omit_empty tokens_only cm =
      (if n \<ge> INT_MAX - 1 then Limit_too_large else Split_ok,
       if n \<ge> INT_MAX - 1 \<or> n = 0 then [] else int_ranges (split_spec n omit_empty tokens_only ms (nat (ci_length subject))), 0, cm') \<and>
    matcher_ok pat cm'"
proof -
  let ?h = "fresh_handle c subject pattern"
  note prep = cs_prepare_fresh [OF assms(1-4)]
  obtain fl sl where limits: "split_limits n tokens_only = (fl, sl)" by fastforce
  obtain us' where loop: "cs_split_loop ue omit_empty sl 0 ?h ([(0, 0)], 1) = (split_run omit_empty sl ms ([(0, 0)], 1), 0, us')"
    "us_kept c (ci_units pattern) us'"
    using cs_split_loop_exact [OF us_stands_fresh, of ue c pattern subject omit_empty sl "([(0, 0)], 1)"] assms(5) by (auto simp: ms_def)
  have len: "ci_length subject = int (nat (ci_length subject))" using assms(3) by (simp add: search_ready_def subject_ready_def)
  note spec = split_finish_spec [OF limits, of omit_empty "nat (ci_length subject)" ms, folded len]
  have kept: "matcher_ok pat \<lparr>cs_matcher = Some ?h, cs_collator = Some c, cs_pattern_identity = ci_identity pattern\<rparr>"
    using cs_done_ok [OF assms(4) fresh_kept, of "Some ?h" c subject 0] by (simp add: cs_done_def)
  show ?thesis
    using prep limits loop spec kept cs_done_ok [OF assms(4) loop(2)]
    by (auto simp: cs_split_def case_prod_beta)
qed

text \<open>The anchored searches: the first match of the suffix starts it, or the last match of the prefix ends it.\<close>

lemma collation_anchors_exact:
  fixes c :: nat
  assumes "engine_binds ue c" "matcher_ok pat cm" "pattern_ready pat pattern" "\<not> ci_missing subject" "ci_data subject = Some d"
    and "ci_length subject = int (length d)" "0 \<le> k" "k \<le> int (length d)"
  defines "fs \<equiv> ue_forward ue c (ci_units pattern) (drop (nat k) d)"
  defines "b \<equiv> ue_backward ue c (ci_units pattern) (take (nat k) d)"
  shows "fst (cs_starts_with ue (Some c) subject pattern k cm) \<longleftrightarrow> k < int (length d) \<and> us_hits fs \<noteq> [] \<and> fst (hd (us_hits fs)) = 0"
    and "fst (cs_ends_with ue (Some c) subject pattern k cm) \<longleftrightarrow> 0 < k \<and> (\<exists>a l. b = Some (Us_hit a l) \<and> int (a + l) = k)"
proof -
  let ?s = "\<lparr>ci_identity = ci_identity subject, ci_data = Some (drop (nat k) d), ci_length = ci_length subject - k, ci_missing = False\<rparr>"
  let ?p = "subject\<lparr>ci_length := k, ci_missing := False\<rparr>"
  have units: "ci_units ?s = drop (nat k) d" "ci_units ?p = take (nat k) d"
    using assms(5-8) by (simp_all add: ci_units_def nat_diff_distrib)
  have ready: "k < int (length d) \<Longrightarrow> search_ready ?s" "0 < k \<Longrightarrow> search_ready ?p"
    using assms(5-8) units by (auto simp: search_ready_def subject_ready_def)
  show "fst (cs_ends_with ue (Some c) subject pattern k cm) \<longleftrightarrow> 0 < k \<and> (\<exists>a l. b = Some (Us_hit a l) \<and> int (a + l) = k)"
    using assms(4-8) cs_prepare_fresh [OF assms(1,2) ready(2) assms(3)] units(2)
    by (auto simp: cs_ends_with_def usearch_last_def fresh_handle_def b_def case_prod_beta split: option.splits us_find.splits)
  note stands = us_stands_fresh [of ue c pattern ?s, unfolded units(1), folded fs_def]
  obtain start status us1 where step: "usearch_next ue 0 (fresh_handle c ?s pattern) = (start, status, us1)"
    by (cases "usearch_next ue 0 (fresh_handle c ?s pattern)")
  have "(\<not> U_FAILURE status \<and> start = 0) \<longleftrightarrow> us_hits fs \<noteq> [] \<and> fst (hd (us_hits fs)) = 0"
    using usearch_next_stop [OF stands] usearch_next_hit [OF stands] step
    by (cases fs rule: us_hits_cases; fastforce simp: USEARCH_DONE_def)
  then show "fst (cs_starts_with ue (Some c) subject pattern k cm) \<longleftrightarrow> k < int (length d) \<and> us_hits fs \<noteq> [] \<and> fst (hd (us_hits fs)) = 0"
    using assms(4-8) cs_prepare_fresh [OF assms(1,2) ready(1) assms(3)] step
    by (auto simp: cs_starts_with_def usearch_first_fresh case_prod_beta)
qed

text \<open>An engine that compares code units and finds every occurrence that starts behind the last match.\<close>

fun unit_matches :: "uchar list \<Rightarrow> nat \<Rightarrow> nat \<Rightarrow> uchar list \<Rightarrow> us_find list" where
  "unit_matches p i skip [] = []"
| "unit_matches p i skip (x # xs) =
     (if skip = 0 \<and> take (length p) (x # xs) = p then Us_hit i (length p) # unit_matches p (i + 1) (length p - 1) xs
      else unit_matches p (i + 1) (skip - 1) xs)"

definition sample_search :: usearch_engine where
  "sample_search = \<lparr>ue_open = (\<lambda>c p t. (0, True)), ue_set_pattern = (\<lambda>p. 0), ue_set_text = (\<lambda>t. 0),
     ue_forward = (\<lambda>c p t. unit_matches p 0 0 t), ue_backward = (\<lambda>c p t. None)\<rparr>"

definition sample_patterns :: "nat \<Rightarrow> uchar list" where
  "sample_patterns i = (if i = 1 then [0x61, 0x62] else [0x2c])"

lemma sample_search_ok:
  "engine_binds sample_search c" "subject_ready (units_input i d)" "d \<noteq> [] \<Longrightarrow> search_ready (units_input i d)" "pattern_ready sample_patterns (units_input i (sample_patterns i))"
  by (simp_all add: engine_binds_def sample_search_def search_ready_def subject_ready_def pattern_ready_def sample_patterns_def)

lemma sample_search_eval:
  "ue_forward sample_search 4 [0x61, 0x62] [0x61, 0x62, 0x78, 0x61, 0x62] = [Us_hit 0 2, Us_hit 3 2]"
  by (simp_all add: sample_search_def)

theorem collation_searches_exact_witness:
  "\<exists>cm. cs_find_all sample_search (Some 4) (units_input 7 [0x61, 0x62, 0x78, 0x61, 0x62]) (units_input 1 (sample_patterns 1)) CollationMatcher =
     ([(0, 2), (3, 5)], 0, cm) \<and> matcher_ok sample_patterns cm"
  using collation_searches_exact [OF sample_search_ok(1) matcher_ok_init(1)
      sample_search_ok(3) [of "[0x61, 0x62, 0x78, 0x61, 0x62]" 7] sample_search_ok(4) [of 1], of 4]
  by (simp add: sample_patterns_def sample_search_eval)

subsection \<open>Replacement\<close>

text \<open>The ranges in order inside the text, the text with them replaced, and what they remove.\<close>

fun ranges_ok :: "int \<Rightarrow> int \<Rightarrow> collation_range list \<Rightarrow> bool" where
  "ranges_ok len prev [] = True"
| "ranges_ok len prev (r # rs) = (max prev 0 \<le> fst r \<and> fst r \<le> snd r \<and> snd r \<le> len \<and> ranges_ok len (snd r) rs)"

fun splice_units :: "uchar list \<Rightarrow> uchar list \<Rightarrow> nat \<Rightarrow> collation_range list \<Rightarrow> uchar list" where
  "splice_units d repl offset [] = drop offset d"
| "splice_units d repl offset (r # rs) = slice d offset (nat (fst r)) @ repl @ splice_units d repl (nat (snd r)) rs"

definition removed_units :: "collation_range list \<Rightarrow> nat" where
  "removed_units rs = sum_list (map (\<lambda>r. nat (snd r - fst r)) rs)"

lemma collation_removed_exact:
  "collation_removed len rs removed prev =
     (if ranges_ok len prev rs then Inr (removed + removed_units rs)
      else Inl (Out_of_range ''collation replacement range is out of bounds''))"
  by (induction len rs removed prev rule: collation_removed.induct) (auto simp: removed_units_def)

lemma collation_append_exact:
  "collation_append d repl rs offset answer = (a, stop) \<Longrightarrow> a @ slice d stop (length d) = answer @ splice_units d repl offset rs"
  by (induction d repl rs offset answer rule: collation_append.induct) (auto simp: slice_def)

lemma splice_units_length:
  assumes "ranges_ok (int (length d)) (int offset) rs" "offset \<le> length d"
  shows "length (splice_units d repl offset rs) + removed_units rs = length d - offset + length rs * length repl"
  using assms
proof (induction rs arbitrary: offset)
  case (Cons r rs)
  from Cons.prems have r: "int offset \<le> fst r" "fst r \<le> snd r" "snd r \<le> int (length d)" by auto
  then have "ranges_ok (int (length d)) (int (nat (snd r))) rs" "nat (snd r) \<le> length d" using Cons.prems by auto
  from Cons.IH [OF this] r show ?case by (auto simp: removed_units_def slice_def)
qed (simp add: removed_units_def)

text \<open>C26. Writing a replacement gives the subject with every range replaced, for ranges in order, empty ones included;
  it refuses ranges that overlap or leave the text, and a result longer than an ICU string may be,
  and the check against removing too much never fires.\<close>

theorem collation_replacement_exact:
  fixes ranges :: "collation_range list"
  assumes "subject_ready subject" "subject_ready replacement" "ci_length subject \<le> INT_MAX"
    and "length (ci_units subject) = nat (ci_length subject)" "length (ci_units replacement) = nat (ci_length replacement)"
  defines "t \<equiv> splice_units (ci_units subject) (ci_units replacement) 0 ranges"
  shows "write_collation_replacement subject replacement ranges =
    (if \<not> ranges_ok (ci_length subject) 0 ranges then Inl (Out_of_range ''collation replacement range is out of bounds'')
     else if int (length t) > INT_MAX then Inl (Length_error ''collation replacement output exceeds ICU's length limit'')
     else Inr t)"
proof (cases "ranges_ok (ci_length subject) 0 ranges")
  case True
  let ?n = "nat (ci_length subject)" and ?r = "nat (ci_length replacement)" and ?m = "nat INT_MAX"
  have len: "ci_length subject = int ?n" using assms(1) by (simp add: subject_ready_def)
  have total: "length t + removed_units ranges = ?n + length ranges * ?r"
    using splice_units_length [of "ci_units subject" 0 ranges "ci_units replacement"] True assms(4,5) len by (simp add: t_def)
  have removed: "removed_units ranges \<le> ?n"
    using splice_units_length [of "ci_units subject" 0 ranges "[]"] True assms(4) len by simp
  have size: "0 < ?r \<and> length ranges > (?m - (?n - removed_units ranges)) div ?r \<longleftrightarrow> int (length t) > INT_MAX"
  proof (cases "?r = 0")
    case True
    then have "int (length t) \<le> INT_MAX" using total removed assms(3) len by (simp add: le_nat_iff INT_MAX_def)
    then show ?thesis using True by simp
  next
    case False
    then have "length ranges > (?m - (?n - removed_units ranges)) div ?r \<longleftrightarrow> ?m - (?n - removed_units ranges) < length ranges * ?r"
      by (simp add: div_less_iff_less_mult)
    moreover have "?n \<le> ?m" "0 \<le> INT_MAX" using assms(3) by (simp_all add: INT_MAX_def)
    moreover have "?m - (?n - removed_units ranges) < length ranges * ?r \<longleftrightarrow> ?m < length t"
      using total removed \<open>?n \<le> ?m\<close> by linarith
    moreover have "?m < length t \<longleftrightarrow> int (length t) > INT_MAX" by (simp add: INT_MAX_def)
    ultimately show ?thesis using False by simp
  qed
  obtain a stop where app: "collation_append (ci_units subject) (ci_units replacement) ranges 0 [] = (a, stop)" by fastforce
  from collation_append_exact [OF app] have "a @ slice (ci_units subject) stop ?n = t" using assms(4) by (simp add: t_def)
  then show ?thesis
    using True assms(1,2) removed app size
    by (auto simp: write_collation_replacement_def subject_ready_def collation_removed_exact Let_def)
qed (use assms(1,2) in \<open>auto simp: write_collation_replacement_def subject_ready_def collation_removed_exact\<close>)

theorem collation_replacement_exact_witness:
  "write_collation_replacement (units_input 7 [0x61, 0x62, 0x63]) (units_input 8 [0x2d, 0x2d]) [(0, 1), (2, 2)] =
     Inr [0x2d, 0x2d, 0x62, 0x2d, 0x2d, 0x63]"
  using collation_replacement_exact [OF sample_search_ok(2) sample_search_ok(2), of 7 "[0x61, 0x62, 0x63]" 8 "[0x2d, 0x2d]" "[(0, 1), (2, 2)]"]
  by (simp add: INT_MAX_def slice_def units_input_def ci_units_def)

end
