(* ===== verification/Icu_Owners.thy ===== *)
theory Icu_Owners
  imports Collation_Search
begin

text \<open>
  The owners of two ICU objects: the NFC normalizer (\<^verbatim>\<open>src/shared/nfc_normalizer.cpp\<close>) with its
  reused output buffer, and the collator (\<^verbatim>\<open>src/shared/collator.cpp\<close>) with its attributes. ICU's
  calls are parameters. The lemmas show that comparing the lengths of the two encodings of a
  text tells whether it is ASCII, which the normalizer and the collation slices rely on for
  the mark of their result, and that a collator is opened with exactly the attributes asked
  for or not at all.
\<close>

subsection \<open>The NFC normalizer\<close>

text \<open>What is used of ICU: the NFC instance, which normalizes code units, \<open>UnicodeString::fromUTF8\<close> and
  \<open>u_strToUTF8\<close>, which is given the capacity and gives the status and the bytes.\<close>

record icu_nfc =
  in_instance :: "int \<times> (uchar list \<Rightarrow> int \<times> uchar list) option"
  in_from_utf8 :: "byte list \<Rightarrow> uchar list"
  in_to_utf8 :: "uchar list \<Rightarrow> nat \<Rightarrow> int \<times> byte list"

text \<open>The two strings of the class are scratch that every call overwrites; the buffer grows.\<close>

record nfc_normalizer =
  nf_normalizer :: "(uchar list \<Rightarrow> int \<times> uchar list) option"
  nf_utf8 :: "byte list"

definition nfc_empty :: cptr where "nfc_empty = Ptr 0 [0]"

definition NfcNormalizer :: nfc_normalizer where
  "NfcNormalizer = \<lparr>nf_normalizer = None, nf_utf8 = []\<rparr>"

definition nfc_reset :: "icu_nfc \<Rightarrow> nfc_normalizer \<Rightarrow> nfc_normalizer \<times> int" where
  "nfc_reset ic nf =
     (let (status, normalizer) = in_instance ic in
      (nf\<lparr>nf_normalizer := normalizer\<rparr>,
       if normalizer = None \<and> \<not> U_FAILURE status then U_MEMORY_ALLOCATION_ERROR else status))"

definition UCNV_GET_MAX_BYTES_FOR_STRING :: "nat \<Rightarrow> nat \<Rightarrow> nat" where
  "UCNV_GET_MAX_BYTES_FOR_STRING len max_char_size = (len + 10) * max_char_size"

text \<open>\<open>addr\<close> is the address of the buffer. A call of ICU leaves a failed status as it is.\<close>

definition normalize_bytes ::
  "nat \<Rightarrow> icu_nfc \<Rightarrow> byte list \<Rightarrow> int \<Rightarrow> nfc_normalizer \<Rightarrow> nfc_normalizer \<times> (string_view \<times> int) result" where
  "normalize_bytes addr ic data status nf =
     (let inp = in_from_utf8 ic data;
          (status, out) = (if U_FAILURE status then (status, []) else the (nf_normalizer nf) inp)
      in
      if U_FAILURE status then (nf, Inr (missing_view, status))
      else if int (length out) > INT_MAX div 3 - 10 then (nf, Inl (Length_error ''UTF-8 output exceeds ICU's length limit''))
      else if length out = 0 then (nf, Inr (StringView nfc_empty 0 Enc_ascii, status))
      else
        let capacity = UCNV_GET_MAX_BYTES_FOR_STRING (length out) 3;
            buf = grow (nf_utf8 nf) capacity;
            (status, written) = in_to_utf8 ic out capacity;
            buf = memcpy_at buf 0 written (length written);
            nf = nf\<lparr>nf_utf8 := buf\<rparr>
        in
        if U_FAILURE status then (nf, Inr (missing_view, status))
        else
          (nf, Inr (StringView (Ptr addr buf) (int (length written)) (if length written = length out then Enc_ascii else Enc_utf8), status)))"

definition normalize_impl ::
  "nat \<Rightarrow> icu_nfc \<Rightarrow> string_view \<Rightarrow> int \<Rightarrow> native_to_utf8 option \<Rightarrow> nfc_normalizer \<Rightarrow> nfc_normalizer \<times> (string_view \<times> int) result" where
  "normalize_impl addr ic source status converter nf =
     (if is_na source then (nf, Inr (missing_view, status))
      else if nf_normalizer nf = None then (nf, Inl (Logic_error ''NFC normalizer has not been initialized''))
      else if sv_len source < 0 \<or> sv_ptr source = NullPtr \<and> sv_len source \<noteq> 0 then
        (nf, Inl (Invalid_argument ''invalid NFC input string view''))
      else
        let not_utf8 = (nf, Inl (Invalid_argument ''NFC input was not prepared as UTF-8''));
            converted = (\<lambda>c. case c of
                Inl e \<Rightarrow> (nf, Inl e)
              | Inr b \<Rightarrow> normalize_bytes addr ic (take (nat (bv_len b)) (ptr_bytes (bv_ptr b))) status nf)
        in
        case sv_enc source of
          Enc_ascii \<Rightarrow> normalize_bytes addr ic (sv_bytes source) status nf
        | Enc_utf8 \<Rightarrow> normalize_bytes addr ic (sv_bytes source) status nf
        | Enc_ascii_or_utf8 \<Rightarrow> normalize_bytes addr ic (sv_bytes source) status nf
        | Enc_latin1 \<Rightarrow> (case converter of None \<Rightarrow> not_utf8 | Some conv \<Rightarrow> converted (conv_latin1 conv (sv_bytes source)))
        | Enc_native \<Rightarrow> (case converter of None \<Rightarrow> not_utf8 | Some conv \<Rightarrow> converted (conv_native conv (sv_bytes source)))
        | Enc_bytes \<Rightarrow> (nf, Inl (Runtime_error ''bytes encoding is not supported by this function''))
        | Enc_missing \<Rightarrow> (nf, Inl (Invalid_argument ''non-missing NFC input has NA encoding''))
        | Enc_unknown \<Rightarrow> (nf, Inl (Invalid_argument ''unknown NFC input encoding'')))"

definition nfc_normalize ::
  "nat \<Rightarrow> icu_nfc \<Rightarrow> native_to_utf8 \<Rightarrow> string_view \<Rightarrow> int \<Rightarrow> nfc_normalizer \<Rightarrow> nfc_normalizer \<times> (string_view \<times> int) result" where
  "nfc_normalize addr ic conv source status nf = normalize_impl addr ic source status (Some conv) nf"

definition nfc_normalize_utf8 ::
  "nat \<Rightarrow> icu_nfc \<Rightarrow> string_view \<Rightarrow> int \<Rightarrow> nfc_normalizer \<Rightarrow> nfc_normalizer \<times> (string_view \<times> int) result" where
  "nfc_normalize_utf8 addr ic source status nf = normalize_impl addr ic source status None nf"

subsection \<open>The collator\<close>

datatype ucol_attribute =
  UCOL_FRENCH_COLLATION | UCOL_ALTERNATE_HANDLING | UCOL_CASE_FIRST | UCOL_CASE_LEVEL | UCOL_NORMALIZATION_MODE |
  UCOL_STRENGTH | UCOL_NUMERIC_COLLATION

definition UCOL_DEFAULT :: int where "UCOL_DEFAULT = - 1"

definition UCOL_DEFAULT_STRENGTH :: int where "UCOL_DEFAULT_STRENGTH = 2"

record collator_options =
  co_custom :: bool
  co_locale :: "string option"
  co_french_collation :: int
  co_alternate_handling :: int
  co_case_first :: int
  co_case_level :: int
  co_normalization_mode :: int
  co_strength :: int
  co_numeric_collation :: int

text \<open>What is used of ICU's collators: opening, the valid locale, setting and reading attributes, cloning.\<close>

record 'c icu_collators =
  ic_open :: "string option \<Rightarrow> int \<times> 'c option"
  ic_valid_locale :: "'c \<Rightarrow> string option"
  ic_set :: "'c \<Rightarrow> ucol_attribute \<Rightarrow> int \<Rightarrow> int \<times> 'c"
  ic_get :: "'c \<Rightarrow> ucol_attribute \<Rightarrow> int"
  ic_clone :: "'c \<Rightarrow> int \<times> 'c option"

text \<open>An owner is the handle it holds; closing it leaves none.\<close>

type_synonym 'c collator = "'c option"

fun set_attributes :: "'c icu_collators \<Rightarrow> 'c \<Rightarrow> (ucol_attribute \<times> int) list \<Rightarrow> int + 'c" where
  "set_attributes ic c [] = Inr c"
| "set_attributes ic c ((attribute, value) # rest) =
     (if value = UCOL_DEFAULT then set_attributes ic c rest
      else let (status, c) = ic_set ic c attribute value in if U_FAILURE status then Inl status else set_attributes ic c rest)"

definition attribute_values :: "collator_options \<Rightarrow> (ucol_attribute \<times> int) list" where
  "attribute_values options =
     [(UCOL_FRENCH_COLLATION, co_french_collation options), (UCOL_ALTERNATE_HANDLING, co_alternate_handling options),
      (UCOL_CASE_FIRST, co_case_first options), (UCOL_CASE_LEVEL, co_case_level options),
      (UCOL_NORMALIZATION_MODE, co_normalization_mode options), (UCOL_NUMERIC_COLLATION, co_numeric_collation options)]"

text \<open>\<open>reset\<close>: the owner, the status and whether ICU fell back to the root locale.\<close>

definition collator_reset :: "'c icu_collators \<Rightarrow> collator_options \<Rightarrow> 'c collator \<Rightarrow> 'c collator \<times> int \<times> bool" where
  "collator_reset ic options value =
     (let (status, opened) = ic_open ic (co_locale options) in
      if U_FAILURE status \<or> opened = None then
        (None, if U_FAILURE status then status else U_MEMORY_ALLOCATION_ERROR, False)
      else
        let c = the opened;
            root_fallback = (co_custom options \<and> status = U_USING_DEFAULT_WARNING \<and> co_locale options \<noteq> None \<and>
              ic_valid_locale ic c = Some ''root'')
        in
        if \<not> co_custom options then (Some c, status, root_fallback)
        else
          let (status, c) = (if co_strength options \<noteq> UCOL_DEFAULT_STRENGTH then ic_set ic c UCOL_STRENGTH (co_strength options) else (0, c)) in
          if U_FAILURE status then (None, status, root_fallback)
          else
            case set_attributes ic c (attribute_values options) of
              Inl status \<Rightarrow> (None, status, root_fallback)
            | Inr c \<Rightarrow> (Some c, 0, root_fallback))"

definition clone_from :: "'c icu_collators \<Rightarrow> 'c \<Rightarrow> 'c collator \<Rightarrow> 'c collator \<times> int" where
  "clone_from ic source value =
     (let (status, cloned) = ic_clone ic source in
      if U_FAILURE status \<or> cloned = None then (None, if U_FAILURE status then status else U_MEMORY_ALLOCATION_ERROR)
      else (cloned, status))"

subsection \<open>ASCII by the lengths of two encodings\<close>

definition well_formed :: "byte list \<Rightarrow> bool" where
  "well_formed s = list_all (\<lambda>k. 0 \<le> u8_cp s k) [0..<u8_count s]"

lemma last_trail_moves: "0 \<le> snd (u8_last_trail s i c) \<Longrightarrow> fst (u8_last_trail s i c) = Suc i"
  by (auto simp: u8_last_trail_def Let_def U_SENTINEL_def split: if_splits)

lemma U8_NEXT_two_bytes:
  assumes "0 \<le> snd (U8_NEXT s i n)" "\<not> U8_IS_SINGLE (s ! i)"
  shows "i + 2 \<le> fst (U8_NEXT s i n)"
proof -
  consider (illegal) "\<not> U8_IS_LEAD (s ! i) \<or> i + 1 = n"
    | (two) "U8_IS_LEAD (s ! i)" "s ! i < 0xe0" "i + 1 \<noteq> n"
    | (three) "U8_IS_LEAD (s ! i)" "0xe0 \<le> s ! i" "s ! i < 0xf0" "i + 1 \<noteq> n"
    | (four) "U8_IS_LEAD (s ! i)" "0xf0 \<le> s ! i" "i + 1 \<noteq> n"
    by (metis not_less)
  then show ?thesis
  proof cases
    case illegal
    then show ?thesis using assms U8_NEXT_illegal [of s i n] by (simp add: U_SENTINEL_def)
  next
    case two
    then show ?thesis using assms(1) last_trail_moves [of s "i + 1"] by (simp add: U8_NEXT_2)
  next
    case three
    then show ?thesis using assms(1) last_trail_moves [of s "i + 2"] by (auto simp: U8_NEXT_3 U_SENTINEL_def split: if_splits)
  next
    case four
    then show ?thesis using assms(1) last_trail_moves [of s "i + 3"] by (auto simp: U8_NEXT_4 U_SENTINEL_def split: if_splits)
  qed
qed

lemma units_fewer:
  assumes "k < u8_count s" "0 \<le> u8_cp s k" "\<not> s ! u8_pos s k < 0x80"
  shows "length (cp_units s k) < u8_pos s (Suc k) - u8_pos s k"
proof -
  have step: "U8_NEXT s (u8_pos s k) (length s) = (u8_pos s (Suc k), u8_cp s k)"
    using u8_pos_step [OF assms(1)] by (simp add: u8_cp_def prod_eq_iff U8_NEXT_fst)
  have "u8_pos s k + 2 \<le> u8_pos s (Suc k)"
    using U8_NEXT_two_bytes [of s "u8_pos s k" "length s"] step assms(2,3) by (simp add: U8_IS_SINGLE_iff)
  then show ?thesis
    using U8_NEXT_scalar [OF step] by (cases s k rule: cp_units_cases) auto
qed

lemma single_step:
  assumes "k < u8_count s" "s ! u8_pos s k < 0x80"
  shows "u8_pos s (Suc k) = Suc (u8_pos s k)" "length (cp_units s k) = 1"
proof -
  have step: "U8_NEXT s (u8_pos s k) (length s) = (Suc (u8_pos s k), uint (s ! u8_pos s k))"
    using assms(2) by (simp add: U8_NEXT_single U8_IS_SINGLE_iff)
  then show "u8_pos s (Suc k) = Suc (u8_pos s k)" using u8_pos_step(2) [OF assms(1)] U8_NEXT_fst [of s "u8_pos s k" "length s"] by simp
  show "length (cp_units s k) = 1"
    using step assms(2) by (simp add: cp_units_def u8_cp_def u16_units_def word_less_def)
qed

lemma prefix_lengths:
  assumes "well_formed s" "k \<le> u8_count s"
  shows "u16_at s k = u8_pos s k \<longleftrightarrow> (\<forall>i<u8_pos s k. s ! i < 0x80)"
  using assms(2)
proof (induction k)
  case (Suc k)
  then have k: "k < u8_count s" by simp
  note at = u16_at_simps(3) [OF k] and le = u16_at_le [of k s]
  have pos: "u8_pos s k < u8_pos s (Suc k)" using U8_FWD_1_gt [of "u8_pos s k" s "length s"] u8_pos_step [OF k] by simp
  show ?case
  proof (cases "s ! u8_pos s k < 0x80")
    case True
    then show ?thesis using single_step [OF k True] at Suc by (auto simp: less_Suc_eq)
  next
    case False
    have "0 \<le> u8_cp s k" using assms(1) k by (simp add: well_formed_def list_all_iff)
    from units_fewer [OF k this False] show ?thesis using at le k False pos by auto
  qed
qed (simp add: u16_at_simps u8_pos_bounds)

lemma ascii_by_length:
  assumes "well_formed s"
  shows "length s = length (u16_text s) \<longleftrightarrow> (\<forall>b\<in>set s. b < 0x80)"
proof -
  have "u8_pos s (u8_count s) = length s" by (rule u8_pos_bounds(3))
  then show ?thesis using prefix_lengths [OF assms, of "u8_count s"] by (auto simp: u16_at_simps all_set_conv_all_nth)
qed

lemma u16_text_empty: "length (u16_text s) = 0 \<Longrightarrow> s = []"
  using u16_fwd_step(1) [of 0 s] u8_count_pos [of s] by (cases "s = []") (auto simp: u16_at_simps)

text \<open>What is used of \<open>u_strToUTF8\<close>: it gives the UTF-8 of a text that has no lone surrogate and fits.\<close>

definition gives_utf8 :: "(uchar list \<Rightarrow> nat \<Rightarrow> int \<times> byte list) \<Rightarrow> byte list \<Rightarrow> bool" where
  "gives_utf8 to t \<longleftrightarrow> well_formed t \<and> (\<forall>capacity. 3 * length (u16_text t) \<le> capacity \<longrightarrow> to (u16_text t) capacity = (0, t))"

text \<open>C27. The normalizer returns the UTF-8 of the normalized text, whatever its buffer held before, and marks it as
  ASCII exactly when all of its bytes are: a text is ASCII exactly when both encodings have the
  same length.\<close>

theorem nfc_normalize_exact:
  assumes "nf_normalizer nf = Some nfc" "sv_ok v" "utf8_encoding (sv_enc v)" "gives_utf8 (in_to_utf8 ic) t"
    and "nfc (in_from_utf8 ic (sv_bytes v)) = (0, u16_text t)" "int (length (u16_text t)) \<le> INT_MAX div 3 - 10"
  shows "case nfc_normalize_utf8 addr ic v 0 nf of (nf', r) \<Rightarrow> nf_normalizer nf' = Some nfc \<and>
    (\<exists>v'. r = Inr (v', 0) \<and> sv_bytes v' = t \<and> sv_enc v' = (if \<forall>b\<in>set t. b < 0x80 then Enc_ascii else Enc_utf8))"
proof -
  have impl: "nfc_normalize_utf8 addr ic v 0 nf = normalize_bytes addr ic (sv_bytes v) 0 nf"
    using assms(1-3) by (cases "sv_enc v") (auto simp: nfc_normalize_utf8_def normalize_impl_def sv_ok_def utf8_encoding_def)
  show ?thesis
  proof (cases "length (u16_text t) = 0")
    case True
    then show ?thesis
      using assms(1,5,6) u16_text_empty [OF True] unfolding impl normalize_bytes_def by (auto simp: sv_bytes_def)
  next
    case False
    let ?cap = "UCNV_GET_MAX_BYTES_FOR_STRING (length (u16_text t)) 3"
    have "3 * length (u16_text t) \<le> ?cap" by (simp add: UCNV_GET_MAX_BYTES_FOR_STRING_def)
    then have to: "in_to_utf8 ic (u16_text t) ?cap = (0, t)" using assms(4) by (simp add: gives_utf8_def)
    have "take (length t) (memcpy_at b 0 t (length t)) = t" for b by (simp add: memcpy_at_def)
    then show ?thesis
      using assms(1,5,6) False to ascii_by_length [of t] assms(4) unfolding impl normalize_bytes_def
      by (auto simp: sv_bytes_def Let_def gives_utf8_def)
  qed
qed

text \<open>An instance that composes an e with an acute accent, whose text is the bytes c3 a9.\<close>

definition sample_nfc :: icu_nfc where
  "sample_nfc = \<lparr>in_instance = (0, Some (\<lambda>u. (0, if u = [0x65, 0x301] then [0xe9] else u))), in_from_utf8 = u16_text,
     in_to_utf8 = (\<lambda>u capacity. (0, if u = [0xe9] then [0xc3, 0xa9] else map (\<lambda>c. word_of_int (uint c)) u))\<rparr>"

theorem nfc_normalize_exact_witness:
  "\<exists>v. snd (nfc_normalize_utf8 9 sample_nfc (view_of 8 Enc_utf8 [0x65, 0xcc, 0x81]) 0 (fst (nfc_reset sample_nfc NfcNormalizer))) = Inr (v, 0) \<and>
     sv_bytes v = [0xc3, 0xa9] \<and> sv_enc v = Enc_utf8"
proof -
  have eval: "u16_text [0x65, 0xcc, 0x81] = [0x65, 0x301]" "u16_text [0xc3, 0xa9] = [0xe9]" "well_formed [0xc3, 0xa9]" by code_simp+
  let ?nf = "fst (nfc_reset sample_nfc NfcNormalizer)"
  have inst: "nf_normalizer ?nf = Some (\<lambda>u. (0, if u = [0x65, 0x301] then [0xe9] else u))" by (simp add: nfc_reset_def sample_nfc_def)
  have gives: "gives_utf8 (in_to_utf8 sample_nfc) [0xc3, 0xa9]" by (simp add: gives_utf8_def sample_nfc_def eval)
  have v: "sv_ok (view_of 8 Enc_utf8 [0x65, 0xcc, 0x81])" "utf8_encoding (sv_enc (view_of 8 Enc_utf8 [0x65, 0xcc, 0x81]))"
    by (simp_all add: utf8_encoding_def INT_MAX_def)
  show ?thesis
    using nfc_normalize_exact [OF inst v gives, of 9] eval by (auto simp: case_prod_beta sample_nfc_def INT_MAX_def)
qed

text \<open>The slice of a collation record is marked the same way.\<close>

lemma collation_utf8_slice_exact:
  assumes "subject_ready subject" "ci_data subject = Some d" "0 \<le> fst rng" "fst rng \<le> snd rng" "snd rng \<le> ci_length subject"
    and "slice d (nat (fst rng)) (nat (snd rng)) = u16_text t" "gives_utf8 to_utf8 t"
    and "ci_length subject \<le> int (length d)" "snd rng - fst rng \<le> INT_MAX div 3 - 10"
  shows "\<exists>ascii. collation_utf8_slice to_utf8 subject rng = Inr (t, ascii, 0) \<and> (ascii \<longleftrightarrow> (\<forall>b\<in>set t. b < 0x80))"
proof -
  have len: "nat (snd rng - fst rng) = length (u16_text t)"
    using assms(3-6,8) by (simp flip: assms(6) add: nat_diff_distrib)
  show ?thesis
  proof (cases "snd rng - fst rng = 0")
    case True
    then show ?thesis using assms len u16_text_empty [of t] by (auto simp: collation_utf8_slice_def subject_ready_def)
  next
    case False
    have "to_utf8 (u16_text t) (nat (snd rng - fst rng) * 3) = (0, t)" using assms(7) len by (simp add: gives_utf8_def)
    moreover have "int (length t) = snd rng - fst rng \<longleftrightarrow> length t = length (u16_text t)" using len assms(4) by auto
    ultimately show ?thesis
      using assms False ascii_by_length [of t] by (auto simp: gives_utf8_def collation_utf8_slice_def subject_ready_def)
  qed
qed

subsection \<open>A collator has the attributes asked for\<close>

text \<open>A successful setting of a value other than \<open>UCOL_DEFAULT\<close> is what is read afterwards and changes no other
  attribute. Nothing is assumed of \<open>UCOL_DEFAULT\<close>, for which ICU takes the value of the locale.\<close>

definition sets_ok :: "'c icu_collators \<Rightarrow> bool" where
  "sets_ok ic \<longleftrightarrow> (\<forall>c a v. v \<noteq> UCOL_DEFAULT \<longrightarrow> \<not> U_FAILURE (fst (ic_set ic c a v)) \<longrightarrow>
     ic_get ic (snd (ic_set ic c a v)) = (ic_get ic c)(a := v))"

text \<open>What custom options ask for, by the field of each attribute; \<open>UCOL_DEFAULT\<close> asks for nothing.\<close>

fun asked_value :: "collator_options \<Rightarrow> ucol_attribute \<Rightarrow> int" where
  "asked_value options UCOL_FRENCH_COLLATION = co_french_collation options"
| "asked_value options UCOL_ALTERNATE_HANDLING = co_alternate_handling options"
| "asked_value options UCOL_CASE_FIRST = co_case_first options"
| "asked_value options UCOL_CASE_LEVEL = co_case_level options"
| "asked_value options UCOL_NORMALIZATION_MODE = co_normalization_mode options"
| "asked_value options UCOL_STRENGTH = co_strength options"
| "asked_value options UCOL_NUMERIC_COLLATION = co_numeric_collation options"

definition requested :: "collator_options \<Rightarrow> ucol_attribute \<Rightarrow> int option" where
  "requested options a =
     (if co_custom options \<and> asked_value options a \<noteq> UCOL_DEFAULT then Some (asked_value options a) else None)"

lemma set_attributes_exact:
  assumes "sets_ok ic" "set_attributes ic c avs = Inr c'" "distinct (map fst avs)"
  shows "ic_get ic c' a = (case map_of avs a of Some v \<Rightarrow> if v = UCOL_DEFAULT then ic_get ic c a else v | None \<Rightarrow> ic_get ic c a)"
  using assms(2,3)
proof (induction avs arbitrary: c)
  case (Cons av rest)
  obtain b v where av: "av = (b, v)" by fastforce
  have rest: "map_of rest b = None" "distinct (map fst rest)"
    using Cons.prems(2) av by (auto simp: map_of_eq_None_iff)
  show ?case
  proof (cases "v = UCOL_DEFAULT")
    case True
    then show ?thesis using Cons.IH [of c] Cons.prems(1) rest av by (auto split: option.splits)
  next
    case False
    obtain status d where set: "ic_set ic c b v = (status, d)" by fastforce
    then have "\<not> U_FAILURE status" "set_attributes ic d rest = Inr c'"
      using Cons.prems(1) False av by (auto split: if_splits)
    moreover from this have "ic_get ic d = (ic_get ic c)(b := v)" using assms(1) set False unfolding sets_ok_def by (metis fst_conv snd_conv)
    ultimately show ?thesis using Cons.IH [of d] rest av False by (auto split: option.splits)
  qed
qed simp

lemma set_attributes_fails: "set_attributes ic c avs = Inl status \<Longrightarrow> U_FAILURE status"
  by (induction ic c avs rule: set_attributes.induct) (auto split: if_splits prod.splits)

lemma attribute_values_distinct: "distinct (map fst (attribute_values options))"
  by (simp add: attribute_values_def)

lemma attribute_values_asked:
  "map_of (attribute_values options) a = (if a = UCOL_STRENGTH then None else Some (asked_value options a))"
  by (cases a) (simp_all add: attribute_values_def)

text \<open>C28. A collator that was reset successfully has every attribute that was asked for and those of the opened locale
  otherwise, with one exception: a strength equal to \<open>UCOL_DEFAULT_STRENGTH\<close> is not set, and the strength of the opened
  locale stays. Where that locale has the default strength, all attributes asked for are there. Where a step fails the owner
  holds no handle and the status is a failure.\<close>

theorem collator_reset_exact:
  assumes "sets_ok ic" "co_strength options \<noteq> UCOL_DEFAULT"
  shows "case collator_reset ic options value of (value', status, root_fallback) \<Rightarrow>
    (U_FAILURE status \<longleftrightarrow> value' = None) \<and>
    (\<forall>c. value' = Some c \<longrightarrow>
      (\<exists>st c0. ic_open ic (co_locale options) = (st, Some c0) \<and>
        (\<forall>a. a = UCOL_STRENGTH \<and> co_strength options = UCOL_DEFAULT_STRENGTH \<longrightarrow> ic_get ic c a = ic_get ic c0 a) \<and>
        (\<forall>a. \<not> (a = UCOL_STRENGTH \<and> co_strength options = UCOL_DEFAULT_STRENGTH) \<longrightarrow>
          ic_get ic c a = (case requested options a of Some v \<Rightarrow> v | None \<Rightarrow> ic_get ic c0 a)) \<and>
        (ic_get ic c0 UCOL_STRENGTH = UCOL_DEFAULT_STRENGTH \<longrightarrow> (\<forall>a v. requested options a = Some v \<longrightarrow> ic_get ic c a = v))))"
proof -
  have mem: "U_FAILURE U_MEMORY_ALLOCATION_ERROR" by (simp add: U_FAILURE_def U_MEMORY_ALLOCATION_ERROR_def)
  obtain st opened where op: "ic_open ic (co_locale options) = (st, opened)" by fastforce
  show ?thesis
  proof (cases "U_FAILURE st \<or> opened = None")
    case True
    then show ?thesis using op mem by (auto simp: collator_reset_def)
  next
    case False
    then obtain c0 where c0: "opened = Some c0" "\<not> U_FAILURE st" by auto
    show ?thesis
    proof (cases "co_custom options")
      case False
      then show ?thesis using op c0 by (simp add: collator_reset_def requested_def)
    next
      case True
      obtain st1 c1 where one: "(if co_strength options \<noteq> UCOL_DEFAULT_STRENGTH then ic_set ic c0 UCOL_STRENGTH (co_strength options) else (0, c0)) = (st1, c1)"
        by fastforce
      show ?thesis
      proof (cases "U_FAILURE st1")
        case failed: True
        then show ?thesis using op c0 True one by (simp add: collator_reset_def)
      next
        case ok: False
        have strength: "ic_get ic c1 = (if co_strength options \<noteq> UCOL_DEFAULT_STRENGTH then (ic_get ic c0)(UCOL_STRENGTH := co_strength options) else ic_get ic c0)"
          using one ok assms unfolding sets_ok_def by (auto split: if_splits) (metis fst_conv snd_conv fun_upd_def)+
        show ?thesis
        proof (cases "set_attributes ic c1 (attribute_values options)")
          case (Inl e)
          then show ?thesis using op c0 True one ok set_attributes_fails [OF Inl] by (simp add: collator_reset_def)
        next
          case (Inr c2)
          have "ic_get ic c2 a = (if a = UCOL_STRENGTH \<and> co_strength options = UCOL_DEFAULT_STRENGTH then ic_get ic c0 a
              else case requested options a of Some v \<Rightarrow> v | None \<Rightarrow> ic_get ic c0 a)" for a
            using set_attributes_exact [OF assms(1) Inr attribute_values_distinct, of a] True strength assms(2)
            by (cases "a = UCOL_STRENGTH") (simp_all add: requested_def attribute_values_asked)
          then show ?thesis using op c0 True one ok Inr assms(2) by (auto simp: collator_reset_def requested_def split: if_splits)
        qed
      qed
    qed
  qed
qed

text \<open>A collator that is its table of attributes, refuses to turn case levels on, and resets an attribute to the locale's
  value for \<open>UCOL_DEFAULT\<close>; the locale has the default strength.\<close>

definition sample_locale :: "ucol_attribute \<Rightarrow> int" where
  "sample_locale a = (if a = UCOL_STRENGTH then UCOL_DEFAULT_STRENGTH else 16)"

definition sample_collators :: "(ucol_attribute \<Rightarrow> int) icu_collators" where
  "sample_collators = \<lparr>ic_open = (\<lambda>l. (0, Some sample_locale)), ic_valid_locale = (\<lambda>c. None),
     ic_set = (\<lambda>c a v. if a = UCOL_CASE_LEVEL then (1, c) else (0, c(a := if v = UCOL_DEFAULT then sample_locale a else v))),
     ic_get = (\<lambda>c. c), ic_clone = (\<lambda>c. (0, Some c))\<rparr>"

definition sample_options :: collator_options where
  "sample_options = \<lparr>co_custom = True, co_locale = None, co_french_collation = - 1, co_alternate_handling = - 1, co_case_first = 24,
     co_case_level = - 1, co_normalization_mode = - 1, co_strength = 0, co_numeric_collation = 17\<rparr>"

theorem collator_reset_exact_witness:
  "\<exists>c. fst (collator_reset sample_collators sample_options None) = Some c \<and> c UCOL_CASE_FIRST = 24 \<and> c UCOL_STRENGTH = 0 \<and>
     c UCOL_FRENCH_COLLATION = 16"
proof -
  have law: "ic_get sample_collators = (\<lambda>c. c)" "\<And>l. ic_open sample_collators l = (0, Some sample_locale)"
    by (simp_all add: sample_collators_def)
  have ok: "sets_ok sample_collators" by (simp add: sets_ok_def sample_collators_def U_FAILURE_def)
  have strength: "co_strength sample_options \<noteq> UCOL_DEFAULT" by (simp add: sample_options_def UCOL_DEFAULT_def)
  obtain c where c: "fst (collator_reset sample_collators sample_options None) = Some c"
    by (simp add: collator_reset_def sample_collators_def sample_options_def attribute_values_def UCOL_DEFAULT_def
        UCOL_DEFAULT_STRENGTH_def U_FAILURE_def)
  have "co_strength sample_options \<noteq> UCOL_DEFAULT_STRENGTH" by (simp add: sample_options_def UCOL_DEFAULT_STRENGTH_def)
  with collator_reset_exact [OF ok strength, of None] c
  have "c a = (case requested sample_options a of Some v \<Rightarrow> v | None \<Rightarrow> sample_locale a)" for a
    by (simp add: case_prod_beta law cong: option.case_cong)
  then show ?thesis using c
    by (simp add: requested_def sample_options_def sample_locale_def UCOL_DEFAULT_def)
qed

end
