(* ===== verification/Encoding_Info.thy ===== *)
theory Encoding_Info
  imports Icu_Owners
begin

text \<open>
  What charr reports of an encoding (\<^verbatim>\<open>src/shared/encoding_info.cpp\<close>): the test whether a
  converter has the ASCII characters, the test whether a one-byte converter and Unicode
  correspond one to one, and the table of names and values. ICU's converters are a parameter:
  reading one code point of a byte array from an offset gives the status, the code point and
  the offset behind it. Diagnostics exist in debug builds only and are left out. The lemmas
  show what the two loops decide, that the test through the lead surrogate tells exactly the
  supplementary code points, and what the table holds.
\<close>

record ucnv =
  uv_min_char_size :: int
  uv_max_char_size :: int
  uv_name :: "int \<times> string option"
  uv_next :: "byte list \<Rightarrow> nat \<Rightarrow> int \<times> int \<times> nat"
  uv_from_uchars :: "nat \<Rightarrow> uchar list \<Rightarrow> int \<times> int \<times> byte list"

record ucnv_api =
  ua_open :: "string option \<Rightarrow> int \<times> ucnv option"
  ua_count_standards :: nat
  ua_standard :: "nat \<Rightarrow> int \<times> string option"
  ua_standard_name :: "string \<Rightarrow> string \<Rightarrow> int \<times> string option"

definition replacement_character :: int where "replacement_character = 0xfffd"

definition c_string_length :: "string \<Rightarrow> int result" where
  "c_string_length value =
     (if int (length value) > INT_MAX then Inl (Length_error ''ICU encoding name exceeds R's string limit'')
      else Inr (int (length value)))"

datatype encoding_info_value_kind = Ei_unset | Ei_character | Ei_logical | Ei_integer

record encoding_info_value =
  ev_kind :: encoding_info_value_kind
  ev_missing :: bool
  ev_data :: "string option"
  ev_length :: int
  ev_scalar :: int

definition unset_value :: encoding_info_value where
  "unset_value = \<lparr>ev_kind = Ei_unset, ev_missing = False, ev_data = None, ev_length = 0, ev_scalar = 0\<rparr>"

definition character_value :: "string option \<Rightarrow> encoding_info_value" where
  "character_value value = \<lparr>ev_kind = Ei_character, ev_missing = value = None, ev_data = value, ev_length = 0, ev_scalar = 0\<rparr>"

definition scalar_value :: "encoding_info_value_kind \<Rightarrow> int \<Rightarrow> bool \<Rightarrow> encoding_info_value" where
  "scalar_value kind value missing = \<lparr>ev_kind = kind, ev_missing = missing, ev_data = None, ev_length = 0, ev_scalar = value\<rparr>"

record encoding_info =
  ei_converter :: "ucnv option"
  ei_requested_name :: "string option"
  ei_standards :: "string option list"
  ei_names :: "string list"
  ei_has_names :: "bool list"
  ei_values :: "encoding_info_value list"
  ei_warn_get_name :: bool

definition EncodingInfo :: encoding_info where
  "EncodingInfo = \<lparr>ei_converter = None, ei_requested_name = None, ei_standards = [], ei_names = [], ei_has_names = [],
     ei_values = [], ei_warn_get_name = False\<rparr>"

definition ei_close :: "encoding_info \<Rightarrow> encoding_info" where
  "ei_close ei = ei\<lparr>ei_converter := None\<rparr>"

definition ei_reset :: "ucnv_api \<Rightarrow> string option \<Rightarrow> encoding_info \<Rightarrow> encoding_info \<times> int" where
  "ei_reset ua encoding ei =
     (let ei = (ei_close ei)\<lparr>ei_requested_name := encoding, ei_standards := [], ei_names := [], ei_has_names := [], ei_values := [],
                             ei_warn_get_name := False\<rparr>;
          (status, converter) = ua_open ua encoding
      in
      if U_FAILURE status \<or> converter = None then
        (ei_close ei, if U_FAILURE status then status else U_MEMORY_ALLOCATION_ERROR)
      else (ei\<lparr>ei_converter := converter\<rparr>, status))"

definition converter_name :: "encoding_info \<Rightarrow> string" where
  "converter_name ei =
     (let requested = (case ei_requested_name ei of None \<Rightarrow> ''<unknown>'' | Some n \<Rightarrow> n) in
      case ei_converter ei of
        None \<Rightarrow> requested
      | Some cv \<Rightarrow>
          (case uv_name cv of
             (status, None) \<Rightarrow> requested
           | (status, Some n) \<Rightarrow> if U_FAILURE status then requested else n))"

subsection \<open>The two tests\<close>

definition U8_LENGTH :: "int \<Rightarrow> int" where
  "U8_LENGTH c =
     (let c = c mod 2 ^ 32 in
      if c \<le> 0x7f then 1
      else if c \<le> 0x7ff then 2
      else if c \<le> 0xd7ff then 3
      else if c \<le> 0xdfff \<or> c > 0x10ffff then 0
      else if c \<le> 0xffff then 3
      else 4)"

definition U16_IS_SINGLE :: "uchar \<Rightarrow> bool" where
  "U16_IS_SINGLE c \<longleftrightarrow> \<not> c AND 0xf800 = 0xd800"

definition byte_run :: "nat \<Rightarrow> nat \<Rightarrow> byte list" where
  "byte_run a b = map of_nat [a..<Suc b]"

function ascii_subset_loop :: "ucnv \<Rightarrow> byte list \<Rightarrow> nat \<Rightarrow> bool" where
  "ascii_subset_loop cv ascii previous =
     (if previous < length ascii then
        let (status, code_point, current) = uv_next cv ascii previous in
        if U_FAILURE status then False
        else if Suc previous \<noteq> current \<or> U8_LENGTH code_point \<noteq> 1 \<or> code_point \<noteq> uint (ascii ! previous) then False
        else ascii_subset_loop cv ascii current
      else True)"
  by pat_completeness auto
termination
  by (relation "measure (\<lambda>(cv, ascii, previous). length ascii - previous)") auto

declare ascii_subset_loop.simps [simp del]

definition has_ascii_subset :: "ucnv \<Rightarrow> bool" where
  "has_ascii_subset cv = (if uv_min_char_size cv \<noteq> 1 then False else ascii_subset_loop cv (byte_run 1 127) 0)"

function one_to_one_loop :: "ucnv \<Rightarrow> nat \<Rightarrow> byte list \<Rightarrow> nat \<Rightarrow> bool" where
  "one_to_one_loop cv buffer_size bytes previous =
     (if previous < length bytes then
        let (status, code_point, current) = uv_next cv bytes previous in
        if U_FAILURE status then False
        else if Suc previous \<noteq> current then False
        else if \<not> U16_IS_SINGLE (U16_LEAD code_point) then False
        else if code_point \<noteq> replacement_character then
          let (status, converted, buffer) = uv_from_uchars cv buffer_size [word_of_int code_point] in
          if U_FAILURE status then False
          else if converted \<noteq> 1 \<or> take 1 buffer \<noteq> [bytes ! previous] then False
          else one_to_one_loop cv buffer_size bytes current
        else one_to_one_loop cv buffer_size bytes current
      else True)"
  by pat_completeness auto
termination
  by (relation "measure (\<lambda>(cv, buffer_size, bytes, previous). length bytes - previous)") auto

declare one_to_one_loop.simps [simp del]

definition is_one_to_one :: "ucnv \<Rightarrow> bool" where
  "is_one_to_one cv =
     (if uv_min_char_size cv \<noteq> 1 then False
      else one_to_one_loop cv (UCNV_GET_MAX_BYTES_FOR_STRING 1 1) (byte_run 32 255) 0)"

subsection \<open>The table\<close>

fun standards_loop :: "ucnv_api \<Rightarrow> nat list \<Rightarrow> encoding_info \<Rightarrow> encoding_info result" where
  "standards_loop ua [] ei = Inr ei"
| "standards_loop ua (i # is) ei =
     (let (status, standard) = ua_standard ua i;
          standard = (if U_FAILURE status then None else standard);
          ei = ei\<lparr>ei_standards := (ei_standards ei)[i := standard]\<rparr>
      in
      case standard of
        None \<Rightarrow> standards_loop ua is ei
      | Some standard \<Rightarrow>
          bindE (c_string_length standard) (\<lambda>standard_length.
            if standard_length > INT_MAX - 5 then Inl (Length_error ''ICU encoding standard name exceeds R's string limit'')
            else
              standards_loop ua is
                (ei\<lparr>ei_names := (ei_names ei)[i + 2 := ''Name.'' @ standard], ei_has_names := (ei_has_names ei)[i + 2 := True]\<rparr>)))"

text \<open>A value with the length of its string.\<close>

definition named_value :: "string \<Rightarrow> encoding_info_value result" where
  "named_value n = bindE (c_string_length n) (\<lambda>len. Inr ((character_value (Some n))\<lparr>ev_length := len\<rparr>))"

fun standard_values_loop ::
  "ucnv_api \<Rightarrow> string \<Rightarrow> string option list \<Rightarrow> nat list \<Rightarrow> encoding_info_value list \<Rightarrow> encoding_info_value list result" where
  "standard_values_loop ua canonical standards [] vs = Inr vs"
| "standard_values_loop ua canonical standards (i # is) vs =
     (case standards ! i of
        None \<Rightarrow> standard_values_loop ua canonical standards is vs
      | Some standard \<Rightarrow>
          (case ua_standard_name ua canonical standard of
             (status, None) \<Rightarrow> standard_values_loop ua canonical standards is (vs[i + 2 := character_value None])
           | (status, Some n) \<Rightarrow>
               if U_FAILURE status then standard_values_loop ua canonical standards is (vs[i + 2 := character_value None])
               else bindE (named_value n) (\<lambda>v. standard_values_loop ua canonical standards is (vs[i + 2 := v]))))"

definition friendly_name :: "ucnv_api \<Rightarrow> string \<Rightarrow> string" where
  "friendly_name ua canonical =
     (let name = (\<lambda>standard. case ua_standard_name ua canonical standard of (status, n) \<Rightarrow> if U_FAILURE status then None else n) in
      case name ''MIME'' of
        Some n \<Rightarrow> n
      | None \<Rightarrow> (case name ''JAVA'' of Some n \<Rightarrow> n | None \<Rightarrow> canonical))"

text \<open>The values behind the two names: the scalars at the end of the table.\<close>

definition scalar_values :: "ucnv \<Rightarrow> nat \<Rightarrow> encoding_info_value list \<Rightarrow> encoding_info_value list" where
  "scalar_values cv field_count vs =
     (let vs = vs[field_count - 5 := scalar_value Ei_logical (if has_ascii_subset cv then 1 else 0) False];
          minimum = uv_min_char_size cv;
          maximum = uv_max_char_size cv;
          eight_bit = (minimum = 1 \<and> maximum = 1);
          vs = vs[field_count - 3 := scalar_value Ei_logical (if eight_bit then 1 else 0) False];
          vs = vs[field_count - 2 := scalar_value Ei_integer minimum False];
          vs = vs[field_count - 1 := scalar_value Ei_integer maximum False]
      in vs[field_count - 4 := (if eight_bit then scalar_value Ei_logical (if is_one_to_one cv then 1 else 0) False
                                else scalar_value Ei_logical 0 True)])"

definition inspect_names :: "nat \<Rightarrow> ucnv_api \<Rightarrow> encoding_info \<Rightarrow> encoding_info result" where
  "inspect_names standard_count ua ei =
     (let field_count = standard_count + 7;
          ei = ei\<lparr>ei_standards := vector_resize None standard_count (ei_standards ei),
                  ei_names := (vector_resize [] field_count (ei_names ei))[0 := ''Name.friendly'', 1 := ''Name.ICU''],
                  ei_has_names := (replicate field_count False)[0 := True, 1 := True],
                  ei_values := replicate field_count unset_value\<rparr>
      in
      bindE (standards_loop ua [0..<standard_count] ei) (\<lambda>ei.
        Inr (ei\<lparr>ei_names := (ei_names ei)[field_count - 5 := ''ASCII.subset'', field_count - 4 := ''Unicode.1to1'',
                                           field_count - 3 := ''CharSize.8bit'', field_count - 2 := ''CharSize.min'',
                                           field_count - 1 := ''CharSize.max''],
                ei_has_names := fold (\<lambda>i hs. hs[i := True]) [field_count - 5..<field_count] (ei_has_names ei)\<rparr>)))"

text \<open>\<open>inspect\<close>; an object is not used after it throws, so the state is returned with success only.\<close>

definition ei_inspect :: "ucnv_api \<Rightarrow> encoding_info \<Rightarrow> encoding_info result" where
  "ei_inspect ua ei =
     (case ei_converter ei of
        None \<Rightarrow> Inl (Logic_error ''encoding inspector is not initialized'')
      | Some cv \<Rightarrow>
          let standard_count = int (ua_count_standards ua) - 1 in
          if standard_count \<le> 0 then Inl (Runtime_error ''character encoding could not be set, queried, or selected'')
          else if standard_count > INT_MAX - 7 then Inl (Length_error ''too many ICU encoding standards'')
          else
            let n = nat standard_count; field_count = n + 7 in
            bindE (inspect_names n ua ei) (\<lambda>ei.
              let (status, canonical) = uv_name cv in
              if U_FAILURE status \<or> canonical = None then
                Inr (ei\<lparr>ei_values := (ei_values ei)[1 := character_value None], ei_warn_get_name := True\<rparr>)
              else
                let canonical = the canonical in
                bindE (named_value canonical) (\<lambda>v.
                  bindE (named_value (friendly_name ua canonical)) (\<lambda>f.
                    bindE (standard_values_loop ua canonical (ei_standards ei) [0..<n]
                        (scalar_values cv field_count ((ei_values ei)[1 := v, 0 := f]))) (\<lambda>vs.
                      Inr (ei\<lparr>ei_values := vs\<rparr>))))))"

subsection \<open>What the tests decide\<close>

lemma all_from: "i < n \<Longrightarrow> (\<forall>j. i \<le> j \<and> j < n \<longrightarrow> P j) \<longleftrightarrow> P i \<and> (\<forall>j. Suc i \<le> j \<and> j < n \<longrightarrow> P j)"
  by (metis Suc_leD le_antisym not_less_eq_eq order_refl)

definition reads_ascii :: "ucnv \<Rightarrow> byte list \<Rightarrow> nat \<Rightarrow> bool" where
  "reads_ascii cv bs j =
     (case uv_next cv bs j of (status, c, k) \<Rightarrow> \<not> U_FAILURE status \<and> k = Suc j \<and> U8_LENGTH c = 1 \<and> c = uint (bs ! j))"

definition maps_back :: "ucnv \<Rightarrow> nat \<Rightarrow> byte list \<Rightarrow> nat \<Rightarrow> bool" where
  "maps_back cv cap bs j =
     (case uv_next cv bs j of (status, c, k) \<Rightarrow>
        \<not> U_FAILURE status \<and> k = Suc j \<and> U16_IS_SINGLE (U16_LEAD c) \<and>
        (c \<noteq> replacement_character \<longrightarrow>
          (case uv_from_uchars cv cap [word_of_int c] of (status, converted, buffer) \<Rightarrow>
             \<not> U_FAILURE status \<and> converted = 1 \<and> take 1 buffer = [bs ! j])))"

lemma ascii_subset_loop_exact: "ascii_subset_loop cv bs i \<longleftrightarrow> (\<forall>j. i \<le> j \<and> j < length bs \<longrightarrow> reads_ascii cv bs j)"
proof (induction "length bs - i" arbitrary: i)
  case 0
  then show ?case by (subst ascii_subset_loop.simps) auto
next
  case (Suc n)
  then have i: "i < length bs" by simp
  have "ascii_subset_loop cv bs i \<longleftrightarrow> reads_ascii cv bs i \<and> ascii_subset_loop cv bs (Suc i)"
    using i by (subst ascii_subset_loop.simps) (auto simp: reads_ascii_def)
  also have "ascii_subset_loop cv bs (Suc i) \<longleftrightarrow> (\<forall>j. Suc i \<le> j \<and> j < length bs \<longrightarrow> reads_ascii cv bs j)"
    using Suc by simp
  finally show ?case unfolding all_from [OF i] .
qed

lemma one_to_one_loop_exact: "one_to_one_loop cv cap bs i \<longleftrightarrow> (\<forall>j. i \<le> j \<and> j < length bs \<longrightarrow> maps_back cv cap bs j)"
proof (induction "length bs - i" arbitrary: i)
  case 0
  then show ?case by (subst one_to_one_loop.simps) auto
next
  case (Suc n)
  then have i: "i < length bs" by simp
  have "one_to_one_loop cv cap bs i \<longleftrightarrow> maps_back cv cap bs i \<and> one_to_one_loop cv cap bs (Suc i)"
    using i by (subst one_to_one_loop.simps) (auto simp: maps_back_def)
  also have "one_to_one_loop cv cap bs (Suc i) \<longleftrightarrow> (\<forall>j. Suc i \<le> j \<and> j < length bs \<longrightarrow> maps_back cv cap bs j)"
    using Suc by simp
  finally show ?case unfolding all_from [OF i] .
qed

lemma byte_run_simps: "length (byte_run a b) = Suc b - a" "j < Suc b - a \<Longrightarrow> byte_run a b ! j = of_nat (a + j)"
  by (simp_all add: byte_run_def del: upt_Suc)

lemma uint_byte: "b < 256 \<Longrightarrow> uint (of_nat b :: byte) = int b"
  by (simp add: uint_nat unat_of_nat)

text \<open>The lead surrogate formula gives a code unit below the surrogates for every code point of one unit.\<close>

lemma lead_single:
  assumes "0 \<le> c" "c \<le> 0x10ffff"
  shows "U16_IS_SINGLE (U16_LEAD c) \<longleftrightarrow> c \<le> 0xffff"
proof -
  have lead: "uint (U16_LEAD c) = c div 1024 + 0xd7c0"
    using assms by (simp only: U16_LEAD_def uint_word_of_int drop_bit_eq_div) auto
  let ?x = "c div 1024 + 0xd7c0"
  have "?x AND 0xf800 = push_bit 11 (drop_bit 11 ?x AND mask 5)"
  proof -
    have "?x AND 0xf800 = ?x AND push_bit 11 (mask 5)" by (simp add: mask_eq_exp_minus_1)
    also have "\<dots> = push_bit 11 (drop_bit 11 ?x AND mask 5)" by (auto simp: bit_eq_iff bit_simps)
    finally show ?thesis .
  qed
  also have "drop_bit 11 ?x AND mask 5 = ?x div 2048"
    using assms by (simp add: take_bit_eq_mask [symmetric] drop_bit_eq_div take_bit_int_eq_self)
  finally have "uint (U16_LEAD c AND 0xf800) = 2048 * (?x div 2048)"
    by (simp add: uint_and lead push_bit_eq_mult)
  moreover have "2048 * (?x div 2048) = 0xd800 \<longleftrightarrow> \<not> c \<le> 0xffff"
  proof (cases "c \<le> 0xffff")
    case True
    then have "0 \<le> c div 1024" "c div 1024 \<le> 63" using assms by (auto intro: zdiv_mono1 [of c "0xffff" 1024, simplified])
    then have "?x div 2048 = 26" by (intro int_div_pos_eq [of _ _ _ "c div 1024 + 1984"]) auto
    then show ?thesis using True by simp
  next
    case False
    then have "64 \<le> c div 1024" "c div 1024 \<le> 0x43f" using assms zdiv_mono1 [of "0x10000" c 1024] zdiv_mono1 [of c "0x10ffff" 1024] by simp_all
    then have "?x div 2048 = 27" by (intro int_div_pos_eq [of _ _ _ "c div 1024 - 64"]) auto
    then show ?thesis using False by simp
  qed
  ultimately show ?thesis by (simp add: U16_IS_SINGLE_def word_uint_eq_iff)
qed

text \<open>What is used of ICU: a converter reads Unicode code points.\<close>

definition code_points_ok :: "ucnv \<Rightarrow> bool" where
  "code_points_ok cv \<longleftrightarrow> (\<forall>bs i. case uv_next cv bs i of (status, c, k) \<Rightarrow> 0 \<le> c \<and> c \<le> 0x10ffff)"

text \<open>C29. A converter has the ASCII subset exactly when it reads every byte from 1 to 127, each alone, as the code
  point of that number; it is one to one exactly when it reads every byte from 32 to 255 alone as a
  code point of one UTF-16 unit that it writes as the same byte, the replacement character
  excepted.\<close>

theorem encoding_tests_exact:
  assumes "code_points_ok cv"
  shows "(has_ascii_subset cv \<longleftrightarrow> uv_min_char_size cv = 1 \<and>
      (\<forall>j<127. case uv_next cv (byte_run 1 127) j of (status, c, k) \<Rightarrow> \<not> U_FAILURE status \<and> k = Suc j \<and> c = int (Suc j))) \<and>
    (is_one_to_one cv \<longleftrightarrow> uv_min_char_size cv = 1 \<and>
      (\<forall>j<224. case uv_next cv (byte_run 32 255) j of (status, c, k) \<Rightarrow>
        \<not> U_FAILURE status \<and> k = Suc j \<and> c \<le> 0xffff \<and>
        (c \<noteq> 0xfffd \<longrightarrow> (case uv_from_uchars cv 11 [word_of_int c] of (status, converted, buffer) \<Rightarrow>
          \<not> U_FAILURE status \<and> converted = 1 \<and> take 1 buffer = [of_nat (32 + j)]))))"
proof
  have "reads_ascii cv (byte_run 1 127) j \<longleftrightarrow>
      (case uv_next cv (byte_run 1 127) j of (status, c, k) \<Rightarrow> \<not> U_FAILURE status \<and> k = Suc j \<and> c = int (Suc j))" if "j < 127" for j
    using that byte_run_simps(2) [of j 127 1] uint_byte [of "Suc j"] by (auto simp: reads_ascii_def U8_LENGTH_def Let_def)
  then show "has_ascii_subset cv \<longleftrightarrow> uv_min_char_size cv = 1 \<and>
      (\<forall>j<127. case uv_next cv (byte_run 1 127) j of (status, c, k) \<Rightarrow> \<not> U_FAILURE status \<and> k = Suc j \<and> c = int (Suc j))"
    by (simp add: has_ascii_subset_def ascii_subset_loop_exact byte_run_simps(1))
  have "maps_back cv 11 (byte_run 32 255) j \<longleftrightarrow>
      (case uv_next cv (byte_run 32 255) j of (status, c, k) \<Rightarrow>
        \<not> U_FAILURE status \<and> k = Suc j \<and> c \<le> 0xffff \<and>
        (c \<noteq> 0xfffd \<longrightarrow> (case uv_from_uchars cv 11 [word_of_int c] of (status, converted, buffer) \<Rightarrow>
          \<not> U_FAILURE status \<and> converted = 1 \<and> take 1 buffer = [of_nat (32 + j)])))" if "j < 224" for j
  proof -
    obtain status c k where nxt: "uv_next cv (byte_run 32 255) j = (status, c, k)" by (cases "uv_next cv (byte_run 32 255) j")
    have "0 \<le> c" "c \<le> 0x10ffff" using spec [OF spec [OF assms [unfolded code_points_ok_def]], of "byte_run 32 255" j] nxt by simp_all
    then show ?thesis using that byte_run_simps(2) [of j 255 32] nxt by (simp add: maps_back_def lead_single replacement_character_def)
  qed
  then show "is_one_to_one cv \<longleftrightarrow> uv_min_char_size cv = 1 \<and>
      (\<forall>j<224. case uv_next cv (byte_run 32 255) j of (status, c, k) \<Rightarrow>
        \<not> U_FAILURE status \<and> k = Suc j \<and> c \<le> 0xffff \<and>
        (c \<noteq> 0xfffd \<longrightarrow> (case uv_from_uchars cv 11 [word_of_int c] of (status, converted, buffer) \<Rightarrow>
          \<not> U_FAILURE status \<and> converted = 1 \<and> take 1 buffer = [of_nat (32 + j)])))"
    by (simp add: is_one_to_one_def one_to_one_loop_exact byte_run_simps(1) UCNV_GET_MAX_BYTES_FOR_STRING_def)
qed

text \<open>Latin-1: every byte is the code point of its number.\<close>

definition latin1_write :: "uchar list \<Rightarrow> byte list" where
  "latin1_write u = map (\<lambda>c. of_nat (unat c)) u"

lemma latin1_write_byte: "n < 256 \<Longrightarrow> latin1_write [word_of_int (int n)] = [of_nat n]"
proof -
  assume "n < 256"
  then have "unat (word_of_int (int n) :: uchar) = n" by (simp add: unat_of_nat)
  then show ?thesis by (simp only: latin1_write_def list.map)
qed

definition latin1_converter :: ucnv where
  "latin1_converter = \<lparr>uv_min_char_size = 1, uv_max_char_size = 1, uv_name = (0, Some ''ISO-8859-1''),
     uv_next = (\<lambda>bs i. (0, uint (bs ! i), Suc i)), uv_from_uchars = (\<lambda>cap u. (0, 1, latin1_write u))\<rparr>"

lemma latin1_simps:
  "uv_min_char_size latin1_converter = 1" "uv_next latin1_converter bs i = (0, uint (bs ! i), Suc i)"
  "uv_from_uchars latin1_converter cap u = (0, 1, latin1_write u)"
  by (simp_all add: latin1_converter_def)

theorem encoding_tests_exact_witness: "has_ascii_subset latin1_converter \<and> is_one_to_one latin1_converter"
proof -
  have rng: "code_points_ok latin1_converter"
  proof -
    have "uint (b :: byte) \<le> 0x10ffff" for b using uint_lt2p [of b] by simp
    then show ?thesis by (simp add: code_points_ok_def latin1_simps)
  qed
  note exact = encoding_tests_exact [OF rng, unfolded latin1_simps prod.case]
  have "uint (byte_run 1 127 ! j) = int (Suc j)" if "j < 127" for j
    using that byte_run_simps(2) [of j 127 1] uint_byte [of "Suc j"] by simp
  then have "has_ascii_subset latin1_converter" using exact by (simp add: U_FAILURE_def)
  moreover have "uint (byte_run 32 255 ! j) = int (32 + j)" "latin1_write [word_of_int (int (32 + j))] = [of_nat (32 + j)]" if "j < 224" for j
    using that byte_run_simps(2) [of j 255 32] uint_byte [of "32 + j"] latin1_write_byte [of "32 + j"] by simp_all
  then have "\<forall>j<224. \<not> U_FAILURE 0 \<and> Suc j = Suc j \<and> uint (byte_run 32 255 ! j) \<le> 0xffff \<and>
      (uint (byte_run 32 255 ! j) \<noteq> 0xfffd \<longrightarrow> \<not> U_FAILURE 0 \<and> (1::int) = 1 \<and>
        take 1 (latin1_write [word_of_int (uint (byte_run 32 255 ! j))]) = [of_nat (32 + j)])"
    by (simp add: U_FAILURE_def del: of_nat_add)
  then have "is_one_to_one latin1_converter" using exact by blast
  ultimately show ?thesis ..
qed

subsection \<open>What the table holds\<close>

lemma fold_option_update:
  assumes "k + n \<le> length xs"
  shows "fold (\<lambda>i xs. case f i of None \<Rightarrow> xs | Some v \<Rightarrow> xs[i + k := v]) [0..<n] xs =
    take k xs @ map (\<lambda>i. case f i of None \<Rightarrow> xs ! (i + k) | Some v \<Rightarrow> v) [0..<n] @ drop (k + n) xs"
  using assms
proof (induction n)
  case (Suc n)
  have "drop (k + n) xs = xs ! (n + k) # drop (Suc (k + n)) xs" using Suc.prems by (simp add: Cons_nth_drop_Suc add.commute)
  then show ?case using Suc by (auto simp: list_update_append min_def split: option.splits)
qed simp

definition standard_of :: "ucnv_api \<Rightarrow> nat \<Rightarrow> string option" where
  "standard_of ua i = (case ua_standard ua i of (status, standard) \<Rightarrow> if U_FAILURE status then None else standard)"

definition short_names :: "ucnv_api \<Rightarrow> ucnv \<Rightarrow> bool" where
  "short_names ua cv \<longleftrightarrow> (\<forall>i s. standard_of ua i = Some s \<longrightarrow> int (length s) \<le> INT_MAX - 5) \<and>
     (\<forall>c s n. snd (ua_standard_name ua c s) = Some n \<longrightarrow> int (length n) \<le> INT_MAX) \<and>
     (\<forall>n. snd (uv_name cv) = Some n \<longrightarrow> int (length n) \<le> INT_MAX)"

lemma standards_loop_folds:
  assumes "short_names ua cv"
  shows "standards_loop ua is ei = Inr (ei\<lparr>
    ei_standards := fold (\<lambda>i ss. ss[i := standard_of ua i]) is (ei_standards ei),
    ei_names := fold (\<lambda>i ns. case map_option (\<lambda>s. ''Name.'' @ s) (standard_of ua i) of None \<Rightarrow> ns | Some v \<Rightarrow> ns[i + 2 := v]) is (ei_names ei),
    ei_has_names := fold (\<lambda>i hs. case map_option (\<lambda>s. True) (standard_of ua i) of None \<Rightarrow> hs | Some v \<Rightarrow> hs[i + 2 := v]) is (ei_has_names ei)\<rparr>)"
proof (induction "is" arbitrary: ei)
  case (Cons i "is")
  have len: "int (length s) \<le> INT_MAX - 5" if "standard_of ua i = Some s" for s using assms that by (simp add: short_names_def)
  have std: "(case ua_standard ua i of (status, standard) \<Rightarrow> if U_FAILURE status then None else standard) = standard_of ua i"
    by (simp add: standard_of_def)
  show ?case
  proof (cases "standard_of ua i")
    case None
    then show ?thesis using std Cons.IH by (simp add: case_prod_beta)
  next
    case (Some s)
    then have "c_string_length s = Inr (int (length s))" "\<not> int (length s) > INT_MAX - 5" using len by (auto simp: c_string_length_def)
    then show ?thesis using Some std Cons.IH by (simp add: case_prod_beta)
  qed
qed simp

definition name_value :: "string \<Rightarrow> encoding_info_value" where
  "name_value n = \<lparr>ev_kind = Ei_character, ev_missing = False, ev_data = Some n, ev_length = int (length n), ev_scalar = 0\<rparr>"

lemma named_value_short: "int (length n) \<le> INT_MAX \<Longrightarrow> named_value n = Inr (name_value n)"
  by (simp add: named_value_def c_string_length_def character_value_def name_value_def)

text \<open>The value of a standard's field.\<close>

definition standard_value :: "ucnv_api \<Rightarrow> string \<Rightarrow> string option \<Rightarrow> encoding_info_value option" where
  "standard_value ua canonical standard =
     map_option (\<lambda>s. case ua_standard_name ua canonical s of (status, n) \<Rightarrow>
       (case n of None \<Rightarrow> character_value None | Some n \<Rightarrow> if U_FAILURE status then character_value None else name_value n)) standard"

lemma standard_values_folds:
  assumes "short_names ua cv"
  shows "standard_values_loop ua canonical ss is vs =
    Inr (fold (\<lambda>i vs. case standard_value ua canonical (ss ! i) of None \<Rightarrow> vs | Some v \<Rightarrow> vs[i + 2 := v]) is vs)"
proof (induction "is" arbitrary: vs)
  case (Cons i "is")
  show ?case
  proof (cases "ss ! i")
    case None
    then show ?thesis using Cons.IH by (simp add: standard_value_def)
  next
    case (Some std)
    obtain status n where name: "ua_standard_name ua canonical std = (status, n)" by fastforce
    have "named_value m = Inr (name_value m)" if "n = Some m" for m
      using assms name that by (intro named_value_short) (metis short_names_def snd_conv)
    then show ?thesis using Cons.IH Some name by (cases n) (simp_all add: standard_value_def)
  qed
qed simp

definition table_names :: "string option list \<Rightarrow> string list" where
  "table_names ss = [''Name.friendly'', ''Name.ICU''] @ map (\<lambda>s. case s of None \<Rightarrow> [] | Some s \<Rightarrow> ''Name.'' @ s) ss @
     [''ASCII.subset'', ''Unicode.1to1'', ''CharSize.8bit'', ''CharSize.min'', ''CharSize.max'']"

text \<open>The name shown for an encoding: the first that ICU knows of its MIME name, its Java name and its own name.\<close>

definition known_names :: "ucnv_api \<Rightarrow> string \<Rightarrow> string \<Rightarrow> string list" where
  "known_names ua canonical s =
     (let (status, n) = ua_standard_name ua canonical s in if U_FAILURE status then [] else case n of None \<Rightarrow> [] | Some m \<Rightarrow> [m])"

definition shown_name :: "ucnv_api \<Rightarrow> string \<Rightarrow> string" where
  "shown_name ua canonical = hd (concat (map (known_names ua canonical) [''MIME'', ''JAVA'']) @ [canonical])"

lemma friendly_name_shown: "friendly_name ua canonical = shown_name ua canonical"
  by (cases "ua_standard_name ua canonical ''MIME''"; cases "ua_standard_name ua canonical ''JAVA''")
    (auto simp: friendly_name_def shown_name_def known_names_def split: option.split)

definition table_values :: "ucnv_api \<Rightarrow> ucnv \<Rightarrow> string \<Rightarrow> string option list \<Rightarrow> encoding_info_value list" where
  "table_values ua cv canonical ss =
     (let eight_bit = (uv_min_char_size cv = 1 \<and> uv_max_char_size cv = 1) in
      [name_value (shown_name ua canonical), name_value canonical] @
      map (\<lambda>s. case standard_value ua canonical s of None \<Rightarrow> unset_value | Some v \<Rightarrow> v) ss @
      [scalar_value Ei_logical (if has_ascii_subset cv then 1 else 0) False,
       if eight_bit then scalar_value Ei_logical (if is_one_to_one cv then 1 else 0) False else scalar_value Ei_logical 0 True,
       scalar_value Ei_logical (if eight_bit then 1 else 0) False,
       scalar_value Ei_integer (uv_min_char_size cv) False, scalar_value Ei_integer (uv_max_char_size cv) False])"

definition fresh_info :: "ucnv \<Rightarrow> encoding_info \<Rightarrow> bool" where
  "fresh_info cv ei \<longleftrightarrow> ei_converter ei = Some cv \<and> ei_standards ei = [] \<and> ei_names ei = [] \<and> ei_warn_get_name ei = False"

lemma replicate_fields: "replicate (n + 7) x = x # x # replicate n x @ [x, x, x, x, x]"
proof -
  have "replicate (n + 7) x = replicate (2 + (n + 5)) x" by (simp add: add.commute)
  also have "\<dots> = replicate 2 x @ replicate n x @ replicate 5 x" by (simp only: replicate_add)
  finally show ?thesis by (simp add: numeral_eq_Suc)
qed

lemma upt_fields: "[n + 2..<n + 7] = [n + 2, n + 3, n + 4, n + 5, n + 6]"
  by (simp add: upt_conv_Cons)

lemma scalar_values_exact:
  "length mid = n \<Longrightarrow> scalar_values cv (n + 7) (a # b # mid @ [x, x, x, x, x]) = a # b # mid @ drop (n + 2) (table_values ua cv c (replicate n None))"
  by (auto simp: scalar_values_def table_values_def Let_def list_update_append numeral_eq_Suc)

lemma fold_fields:
  "fold (\<lambda>i xs. case f i of None \<Rightarrow> xs | Some v \<Rightarrow> xs[i + 2 := v]) [0..<n] (a # b # replicate n x @ r) =
     a # b # map (\<lambda>i. case f i of None \<Rightarrow> x | Some v \<Rightarrow> v) [0..<n] @ r"
proof -
  have "map (\<lambda>i. case f i of None \<Rightarrow> (a # b # replicate n x @ r) ! (i + 2) | Some v \<Rightarrow> v) [0..<n] =
      map (\<lambda>i. case f i of None \<Rightarrow> x | Some v \<Rightarrow> v) [0..<n]"
    by (auto simp: nth_append split: option.splits)
  then show ?thesis using fold_option_update [of 2 n "a # b # replicate n x @ r" f] by (simp add: numeral_eq_Suc)
qed

lemma set_fields:
  "length mid = n \<Longrightarrow> (a # b # mid @ [x, x, x, x, x])[n + 7 - 5 := p, n + 7 - 4 := q, n + 7 - 3 := r, n + 7 - 2 := s, n + 7 - 1 := t] =
     a # b # mid @ [p, q, r, s, t]"
  by (simp add: list_update_append numeral_eq_Suc)

lemma inspect_names_exact:
  fixes n :: nat
  assumes "fresh_info cv ei" "short_names ua cv"
  defines "ss \<equiv> map (standard_of ua) [0..<n]"
  shows "inspect_names n ua ei = Inr (ei\<lparr>ei_standards := ss, ei_names := table_names ss,
    ei_has_names := [True, True] @ map (\<lambda>s. s \<noteq> None) ss @ replicate 5 True, ei_values := replicate (n + 7) unset_value\<rparr>)"
proof -
  have stds: "fold (\<lambda>i ss. ss[i := standard_of ua i]) [0..<n] (replicate n None) = ss"
    using fold_option_update [of 0 n "replicate n None" "\<lambda>i. Some (standard_of ua i)"] by (simp add: ss_def)
  have names: "map (\<lambda>i. case map_option (\<lambda>s. ''Name.'' @ s) (standard_of ua i) of None \<Rightarrow> [] | Some v \<Rightarrow> v) [0..<n] =
      map (\<lambda>s. case s of None \<Rightarrow> [] | Some s \<Rightarrow> ''Name.'' @ s) ss"
    by (auto simp: ss_def split: option.splits)
  have has: "map (\<lambda>i. case map_option (\<lambda>s. True) (standard_of ua i) of None \<Rightarrow> False | Some v \<Rightarrow> v) [0..<n] = map (\<lambda>s. s \<noteq> None) ss"
    by (auto simp: ss_def split: option.splits)
  have len: "length ss = n" by (simp add: ss_def)
  let ?ei = "ei\<lparr>ei_standards := vector_resize None n (ei_standards ei),
      ei_names := (vector_resize [] (n + 7) (ei_names ei))[0 := ''Name.friendly'', 1 := ''Name.ICU''],
      ei_has_names := (replicate (n + 7) False)[0 := True, 1 := True], ei_values := replicate (n + 7) unset_value\<rparr>"
  have start: "ei_standards ?ei = replicate n None" "ei_names ?ei = ''Name.friendly'' # ''Name.ICU'' # replicate n [] @ [[], [], [], [], []]"
    "ei_has_names ?ei = True # True # replicate n False @ [False, False, False, False, False]"
    using assms(1) by (simp_all add: fresh_info_def vector_resize_def replicate_fields)
  have loop: "standards_loop ua [0..<n] ?ei = Inr (?ei\<lparr>ei_standards := ss,
      ei_names := ''Name.friendly'' # ''Name.ICU'' # map (\<lambda>s. case s of None \<Rightarrow> [] | Some s \<Rightarrow> ''Name.'' @ s) ss @ [[], [], [], [], []],
      ei_has_names := True # True # map (\<lambda>s. s \<noteq> None) ss @ [False, False, False, False, False]\<rparr>)"
    unfolding standards_loop_folds [OF assms(2)] start fold_fields stds names has ..
  have flags: "fold (\<lambda>i hs. hs[i := True]) [n + 7 - 5..<n + 7] (True # True # map (\<lambda>s. s \<noteq> None) ss @ [False, False, False, False, False]) =
      [True, True] @ map (\<lambda>s. s \<noteq> None) ss @ replicate 5 True"
    using set_fields [of "map (\<lambda>s. s \<noteq> None) ss" n True True False True True True True True] len upt_fields [of n]
    by (simp add: numeral_eq_Suc)
  show ?thesis
    unfolding inspect_names_def Let_def loop bindE_simps
    using flags set_fields [of "map (\<lambda>s. case s of None \<Rightarrow> [] | Some s \<Rightarrow> ''Name.'' @ s) ss" n] len
    by (simp add: table_names_def)
qed

text \<open>C30. Inspecting an encoding fills one table: its names, one field for each standard ICU knows, and five values;
  every field of a standard without a name stays unset, and the last five hold the two tests, the
  test for one byte and the sizes.\<close>

theorem inspect_table_exact:
  fixes ua :: ucnv_api
  assumes "fresh_info cv ei" "short_names ua cv" "2 \<le> ua_count_standards ua" "ua_count_standards ua < 2 ^ 16"
    and "uv_name cv = (st, Some canonical)" "\<not> U_FAILURE st"
  defines "ss \<equiv> map (standard_of ua) [0..<ua_count_standards ua - 1]"
  shows "ei_inspect ua ei = Inr (ei\<lparr>ei_standards := ss, ei_names := table_names ss,
    ei_has_names := [True, True] @ map (\<lambda>s. s \<noteq> None) ss @ replicate 5 True, ei_values := table_values ua cv canonical ss\<rparr>)"
proof -
  let ?n = "ua_count_standards ua - 1"
  have n: "nat (int (ua_count_standards ua) - 1) = ?n" "\<not> int (ua_count_standards ua) - 1 \<le> 0"
    "\<not> int (ua_count_standards ua) - 1 > INT_MAX - 7"
    using assms(3,4) by (auto simp: INT_MAX_def)
  have len: "length ss = ?n" by (simp add: ss_def)
  have short: "named_value canonical = Inr (name_value canonical)"
    using assms(2,5) by (intro named_value_short) (auto simp: short_names_def)
  have std: "int (length m) \<le> INT_MAX" if "ua_standard_name ua canonical s = (x, Some m)" for s x m
    using assms(2) that unfolding short_names_def by (metis snd_conv)
  have friendly: "named_value (friendly_name ua canonical) = Inr (name_value (friendly_name ua canonical))"
    using assms(2,5) std by (intro named_value_short) (auto simp: friendly_name_def short_names_def split: option.splits prod.splits if_splits)
  have vals: "fold (\<lambda>i vs. case standard_value ua canonical (ss ! i) of None \<Rightarrow> vs | Some v \<Rightarrow> vs[i + 2 := v]) [0..<?n]
      (scalar_values cv (?n + 7) ((replicate (?n + 7) unset_value)[1 := name_value canonical, 0 := name_value (friendly_name ua canonical)])) =
      table_values ua cv canonical ss"
  proof -
    have "map (\<lambda>i. case standard_value ua canonical (ss ! i) of None \<Rightarrow> unset_value | Some v \<Rightarrow> v) [0..<?n] =
        map (\<lambda>s. case standard_value ua canonical s of None \<Rightarrow> unset_value | Some v \<Rightarrow> v) ss"
      using len by (intro nth_equalityI) simp_all
    moreover have "scalar_values cv (?n + 7) ((replicate (?n + 7) unset_value)[1 := name_value canonical, 0 := name_value (friendly_name ua canonical)]) =
        name_value (friendly_name ua canonical) # name_value canonical # replicate ?n unset_value @ drop (?n + 2) (table_values ua cv canonical (replicate ?n None))"
      unfolding replicate_fields using scalar_values_exact [of "replicate ?n unset_value" ?n] by simp
    ultimately show ?thesis unfolding fold_fields by (simp add: fold_fields) (simp add: table_values_def friendly_name_shown Let_def)
  qed
  show ?thesis
    using assms(1,5,6) n short friendly vals inspect_names_exact [OF assms(1,2), of ?n] standard_values_folds [OF assms(2)]
    by (simp add: ei_inspect_def fresh_info_def Let_def ss_def)
qed

text \<open>Two standards, of which the second is a catch-all the count leaves out.\<close>

definition sample_api :: ucnv_api where
  "sample_api = \<lparr>ua_open = (\<lambda>n. (0, Some latin1_converter)), ua_count_standards = 2, ua_standard = (\<lambda>i. (0, Some ''IANA'')),
     ua_standard_name = (\<lambda>c s. (0, if s = ''IANA'' then Some ''l1'' else None))\<rparr>"

theorem inspect_table_exact_witness:
  "\<exists>ei. ei_inspect sample_api (fst (ei_reset sample_api (Some ''latin1'') EncodingInfo)) = Inr ei \<and>
     ei_names ei = [''Name.friendly'', ''Name.ICU'', ''Name.IANA'', ''ASCII.subset'', ''Unicode.1to1'', ''CharSize.8bit'', ''CharSize.min'', ''CharSize.max''] \<and>
     ei_values ei ! 2 = name_value ''l1''"
proof -
  let ?ei = "fst (ei_reset sample_api (Some ''latin1'') EncodingInfo)"
  have fresh: "fresh_info latin1_converter ?ei"
    by (simp add: ei_reset_def sample_api_def EncodingInfo_def ei_close_def fresh_info_def)
  have std: "standard_of sample_api i = Some ''IANA''" for i by (simp add: standard_of_def sample_api_def)
  have short: "short_names sample_api latin1_converter"
    unfolding short_names_def std by (simp add: sample_api_def latin1_converter_def INT_MAX_def)
  have cnt: "ua_count_standards sample_api = 2" by (simp add: sample_api_def)
  have name: "uv_name latin1_converter = (0, Some ''ISO-8859-1'')" by (simp add: latin1_converter_def)
  have "standard_value sample_api ''ISO-8859-1'' (Some ''IANA'') = Some (name_value ''l1'')"
    by (simp add: standard_value_def sample_api_def)
  then show ?thesis
    using inspect_table_exact [OF fresh short _ _ name] by (simp add: cnt std table_names_def table_values_def Let_def)
qed

end
