(* ===== verification/Spec2Isabelle.thy ===== *)
theory Spec2Isabelle
  imports Substring Fixed_Search Repeat Join Replacement Parallel Line_IO Collation Wrap Case_Map Class_Search
    Regex_Search Regex_Names Collation_Search Icu_Owners Encoding_Info
begin

text \<open>
  A verification of the string kernels of charr, a string package for R written in C++.

  \<^bold>\<open>The program.\<close> The package has two backends of R entry points (\<^verbatim>\<open>src/base_backend\<close>,
  \<^verbatim>\<open>src/altrep_backend\<close>) over one set of kernels in \<^verbatim>\<open>src/shared\<close>. An entry point reads R
  strings as length-delimited views with an encoding mark, normalizes them to UTF-8, runs
  a kernel over them, possibly on several threads, and builds R strings from the result.
  The kernels walk UTF-8 with the macros of the bundled ICU (\<^verbatim>\<open>src/icu78\<close>).

  \<^bold>\<open>The theories.\<close>
  \<^item> \<open>Prelude\<close>: bytes, pointers, exceptions as values, buffers, joined lists, and the
    interface \<open>two_pass\<close> of kernels that compute a size first and fill a buffer then.
  \<^item> \<open>Cp_Walk\<close>: the interface of a walk over code point boundaries: what counting, stepping
    and indexing rely on.
  \<^item> \<open>Utf8_Icu\<close>: the macros of \<^verbatim>\<open>unicode/utf8.h\<close> and the functions of \<^verbatim>\<open>utf_impl.cpp\<close> behind
    them. Stepping back undoes stepping forward, on ill-formed bytes too, and both read
    the same code points; this provides the walk interface.
  \<^item> \<open>Storage\<close>: the slice arena of \<^verbatim>\<open>slice_arena.h\<close>; regions stay inside their slices and
    apart from each other.
  \<^item> \<open>Utf8_View\<close>: views, the three normalization entry points of \<^verbatim>\<open>utf8.h\<close> and \<^verbatim>\<open>utf8.cpp\<close>
    against one contract on byte strings, the position cursor and code point indexing.
  \<^item> \<open>Substring\<close>: \<^verbatim>\<open>substring.cpp\<close>, the caching indexer against a stateless reference, the
    recycled visiting order, and the assembler of multiple replacements.
  \<^item> \<open>Kmp\<close> and \<open>Byte_Search\<close>: \<^verbatim>\<open>byte_search_matcher.h\<close>; the Knuth-Morris-Pratt table holds
    the longest borders, and every strategy finds the first (last) occurrence.
  \<^item> \<open>Fixed_Search\<close>: \<^verbatim>\<open>fixed_search.h\<close> and \<^verbatim>\<open>fixed_search.cpp\<close>; comparison, counting, search
    and splitting with the reusable matcher against the list of all matches.
  \<^item> \<open>Repeat\<close>: \<^verbatim>\<open>repeat.cpp\<close>, the size check and the doubling copy.
  \<^item> \<open>Join\<close>: \<^verbatim>\<open>join.cpp\<close>; planning and writing passes agree with the joined text.
  \<^item> \<open>Replacement\<close>: \<^verbatim>\<open>replacement.cpp\<close>; validation, size, writer and ASCII test against the
    spliced text, with every exception.
  \<^item> \<open>Line_IO\<close>: \<^verbatim>\<open>line_split.cpp\<close>, \<^verbatim>\<open>read_lines.cpp\<close> and \<^verbatim>\<open>write_lines.cpp\<close>; the scanner against a
    code point by code point reference, the repair of what it records, and the buffered
    writer as a refinement of appending to a file.
  \<^item> \<open>Index_Table\<close> and \<open>Collation\<close>: \<^verbatim>\<open>index_hash_table.h\<close> and \<^verbatim>\<open>collation_ordering.cpp\<close>;
    comparing abbreviated keys is collation, the built order is the sorted permutation, the
    ranks are minimum ranks, and the two-pass deduplication marks exactly the elements that
    have an equal one before them.
  \<^item> \<open>Boundary\<close>: \<^verbatim>\<open>boundary_iterator.cpp\<close>; walking forwards and backwards sees the same segments.
  \<^item> \<open>Case_Map\<close>: \<^verbatim>\<open>case_mapper.cpp\<close> and \<^verbatim>\<open>title_case.cpp\<close>; the ASCII loops agree with their
    references byte by byte, and the call of ICU with its retry returns the whole mapped text
    whatever the reused buffer held.
  \<^item> \<open>Utf16\<close>: the macros of ICU's \<^verbatim>\<open>utf16.h\<close>, interpreting the interface of the UTF-8 macros, and the
    code units of a UTF-8 string; the boundaries of both encodings are those of one sequence of
    code points.
  \<^item> \<open>Class_Search\<close>: \<^verbatim>\<open>character_class.cpp\<close> and \<^verbatim>\<open>character_class_search.cpp\<close>; the ranges found cover
    exactly the code points of the class, and removing them leaves the others.
  \<^item> \<open>Regex_Search\<close> and \<open>Regex_Names\<close>: \<^verbatim>\<open>regex_search.cpp\<close>; the offset table, the transparency of the
    cached subject, what searches and splits return, and the scanner for capture group names:
    each group gets the last name that belongs to it, but a parenthesis is read together with the
    code point behind it, so a named group that begins there is overlooked.
  \<^item> \<open>Collation_Search\<close>: \<^verbatim>\<open>collation_search.h\<close> and \<^verbatim>\<open>collation_search.cpp\<close>; the cursor never overwrites the
    buffer ICU borrows, positions and offsets are those of the code points, the matcher answers
    as a new one however it was used before, splits follow the reference of the other searches,
    and the replacement is the spliced text.
  \<^item> \<open>Icu_Owners\<close>: \<^verbatim>\<open>nfc_normalizer.cpp\<close> and \<^verbatim>\<open>collator.cpp\<close>; the ASCII mark by the lengths of the two
    encodings, and the attributes of an opened collator, which keeps the strength of its locale
    where the default one is asked for.
  \<^item> \<open>Encoding_Info\<close>: \<^verbatim>\<open>encoding_info.cpp\<close>; what the tests for the ASCII subset and for a one to one
    converter decide, and the table of names and values.
  \<^item> \<open>Wrap_Layout\<close> and \<open>Wrap\<close>: \<^verbatim>\<open>wrap.h\<close> and \<^verbatim>\<open>wrap.cpp\<close>; the greedy breaks give the fewest lines,
    the dynamic programme the least cost, and the whole plan yields ordered lines of the
    record that fit by the measured widths, the ASCII shortcut included, whose joined size and
    text agree.
  \<^item> \<open>Parallel\<close>: \<^verbatim>\<open>parallel.cpp\<close>; settings, plan and the region of workers as a step
    relation over all interleavings: every task runs once, the failure raised is the
    serial one (itself where a single worker runs, its message otherwise), and every region ends.
    The body is a parameter; \<open>worker_step\<close> runs it by the loop shape \<^verbatim>\<open>parallel.h\<close> documents.

  \<^bold>\<open>Conventions.\<close> A \<open>size_t\<close> is a natural number and an \<open>int\<close> or \<open>R_xlen_t\<close> an integer, with
  the limits \<open>INT_MAX\<close> and \<open>SIZE_MAX\<close> where the code tests against them and \<open>size_cast\<close> where
  it converts; the lemmas show that the unchecked sums and products stay in range. A
  throwing function returns \<open>cxx_error + 'a\<close>. A loop that need not end for every input is a
  \<open>partial_function\<close> into \<open>option\<close>, and the theorems state that it returns; no definition
  uses fuel. Buffers are byte lists, and a \<open>memcpy\<close> past the end would change the length,
  which the lemmas exclude.

  \<^bold>\<open>Parameters.\<close> The conversion of native and Latin-1 strings (R's \<open>Riconv\<close>), the upper-case
  mapping, the character properties, the break iterators, the NFC instance and the collator
  of ICU, \<open>std::pow\<close>, the file system and streams of the C library and the addresses of fresh
  heap slices are arguments of the definitions, and the body of a parallel region is one with
  the documented loop shape. What is used of the collator is \<open>collator_ok\<close>: its comparison is
  the byte order of sort keys without zero bytes. A double is an ordered type whose addition
  is monotone (\<open>cost_arith\<close>), and the boundaries of a text ascend within it (\<open>breaker_ok\<close>).
  ICU's case maps return the length of the whole result and fail exactly where it does not
  fit (\<open>icu_maps\<close>). A regular expression is the list of results of successive searches in a text
  (\<open>icu_matcher\<close>), on code point boundaries where ranges are stated (\<open>rx_matches\<close>), and a string search the list of
  its matches (\<open>usearch_engine\<close>), which can be bound to texts that are not empty (\<open>engine_binds\<close>).

  \<^bold>\<open>Not modelled.\<close> The entry points of the backends (R's \<open>SEXP\<close> interface), the
  kernels of the backends that drive ICU's transliteration, date and number formatting, the
  native encoding converter, the
  linter of the repository and ICU itself outside the macros named above. The AVX2 block of
  the ASCII test and the checks of debug builds are left out.
\<close>

end
